(* ===== verification/Prelude.thy ===== *)
theory Prelude
  imports Main "HOL-Library.Word"
begin

text \<open>
  Shared vocabulary of the development: the C types as HOL types, memory with
  indeterminate contents, the functions of the C library the sources call, the
  generic list lemmas, and the interfaces (locales) several components implement.

  \<^item> A \<open>byte\<close> is an 8-bit word, an \<open>unsigned int\<close> or \<open>apr_uint32_t\<close> a 32-bit word.
  \<^item> A NUL-terminated string is the list of the bytes before its NUL; a
    \<open>char *\<close> that may be NULL is a \<open>cstring option\<close>.
  \<^item> Memory the code has allocated but not written is \<open>None\<close>; a slot that has
    been written is \<open>Some v\<close>.
  \<^item> Pool allocation always succeeds (the pools' abort function ends the process
    otherwise), and \<open>int\<close> counters of elements are natural numbers.
  \<^item> Characters are compared in the C locale.
\<close>

unbundle bit_operations_syntax

section \<open>Types and collections\<close>

type_synonym byte = "8 word"
type_synonym u32 = "32 word"
type_synonym cstring = "byte list"
type_synonym 'a mem = "'a option list"

named_theorems slot_simps \<open>rewriting of reads and writes of allocated memory\<close>
named_theorems ctype_simps \<open>equations of the C library's character and string functions\<close>

abbreviation cstr :: "string \<Rightarrow> cstring" where
  "cstr \<equiv> map of_char"

section \<open>Lists\<close>

lemma find_append:
  "List.find P (xs @ ys) = (case List.find P xs of None \<Rightarrow> List.find P ys | Some x \<Rightarrow> Some x)"
  by (induction xs) auto

lemma find_cong_set: "(\<And>x. x \<in> set xs \<Longrightarrow> P x = Q x) \<Longrightarrow> List.find P xs = List.find Q xs"
  by (induction xs) auto

lemma upt_split: "a \<le> b \<Longrightarrow> b \<le> c \<Longrightarrow> [a..<c] = [a..<b] @ [b..<c]"
  using upt_add_eq_append [of a b "c - b"] by simp

lemma slice_upt: "b \<le> length xs \<Longrightarrow> take (b - a) (drop a xs) = map ((!) xs) [a..<b]"
  by (rule nth_equalityI) auto

lemma filter_slice:
  "b \<le> length xs \<Longrightarrow> map ((!) xs) (filter (\<lambda>j. P (xs ! j)) [a..<b]) = filter P (take (b - a) (drop a xs))"
  by (simp add: slice_upt filter_map comp_def)

lemma sorted_hd_last: "sorted xs \<Longrightarrow> x \<in> set xs \<Longrightarrow> hd xs \<le> x \<and> x \<le> last xs"
  by (induction xs) auto

text \<open>The index of the first element of a list with a property splits the list.\<close>

lemma find_upt_first:
  "List.find P [a..<b] = Some j \<Longrightarrow> a \<le> j \<and> j < b \<and> P j \<and> (\<forall>n. a \<le> n \<and> n < j \<longrightarrow> \<not> P n)"
proof (induction "b - a" arbitrary: a)
  case (Suc m)
  then have u: "[a..<b] = a # [Suc a..<b]" by (simp add: upt_rec)
  show ?case
  proof (cases "P a")
    case True
    then show ?thesis using Suc.prems Suc.hyps(2) by (auto simp: u)
  next
    case False
    then have "List.find P [Suc a..<b] = Some j" using Suc.prems by (simp add: u)
    then have "Suc a \<le> j \<and> j < b \<and> P j \<and> (\<forall>n. Suc a \<le> n \<and> n < j \<longrightarrow> \<not> P n)"
      using Suc.hyps(1) [of "Suc a"] Suc.hyps(2) by simp
    then show ?thesis using False by (metis Suc_leD Suc_leI le_neq_implies_less)
  qed
qed simp

lemma in_set_drop_conv_nth: "x \<in> set (drop n xs) \<longleftrightarrow> (\<exists>i. n \<le> i \<and> i < length xs \<and> x = xs ! i)"
proof
  assume "x \<in> set (drop n xs)"
  then obtain i where "i < length (drop n xs)" "x = drop n xs ! i" by (metis in_set_conv_nth)
  then show "\<exists>i. n \<le> i \<and> i < length xs \<and> x = xs ! i"
    by (intro exI [of _ "n + i"]) simp
next
  assume "\<exists>i. n \<le> i \<and> i < length xs \<and> x = xs ! i"
  then obtain i where "n \<le> i" "i < length xs" "x = drop n xs ! (i - n)" by auto
  then show "x \<in> set (drop n xs)" by (simp only: nth_mem length_drop diff_less_mono)
qed

lemma find_upt_None:
  "List.find (\<lambda>j. P (xs ! j)) [0..<length xs] = None \<longleftrightarrow> (\<forall>x \<in> set xs. \<not> P x)"
  by (auto simp: find_None_iff all_set_conv_all_nth)

lemma find_upt_Some:
  assumes "List.find (\<lambda>j. P (xs ! j)) [0..<length xs] = Some i"
  shows "i < length xs \<and> P (xs ! i) \<and> (\<forall>x \<in> set (take i xs). \<not> P x) \<and>
         xs = take i xs @ xs ! i # drop (Suc i) xs"
proof -
  from assms obtain j where j: "j < length xs" "P (xs ! j)" "i = j" "\<forall>m < j. \<not> P (xs ! m)"
    by (auto simp: find_Some_iff)
  then show ?thesis by (auto simp: in_set_conv_nth id_take_nth_drop)
qed

section \<open>Machine integers\<close>

text \<open>Signed integers of \<open>w\<close> bits wrap around in two's complement.\<close>

definition swrap :: "nat \<Rightarrow> int \<Rightarrow> int" where
  "swrap w x = (x + 2 ^ (w - 1)) mod 2 ^ w - 2 ^ (w - 1)"

lemma swrap_id: "0 < w \<Longrightarrow> - (2 ^ (w - 1)) \<le> x \<Longrightarrow> x < 2 ^ (w - 1) \<Longrightarrow> swrap w x = x"
proof -
  assume w: "0 < w" and x: "- (2 ^ (w - 1)) \<le> x" "x < 2 ^ (w - 1)"
  have "(2 :: int) ^ w = 2 ^ (w - 1) + 2 ^ (w - 1)" using w by (cases w) simp_all
  then show ?thesis using x by (simp add: swrap_def)
qed

text \<open>A \<open>size_t\<close> has 64 bits.\<close>

definition size_t :: "nat \<Rightarrow> nat" where
  "size_t x = x mod 2 ^ 64"

definition size_minus :: "nat \<Rightarrow> nat \<Rightarrow> nat" where
  "size_minus x y = size_t (x + 2 ^ 64 - y)"

text \<open>\<open>APR_ALIGN_DEFAULT(size)\<close> is \<open>(size + 7) & ~7\<close>.\<close>

definition APR_ALIGN_DEFAULT :: "nat \<Rightarrow> nat" where
  "APR_ALIGN_DEFAULT sz = size_t (sz + 7) div 8 * 8"

section \<open>Memory\<close>

definition palloc :: "nat \<Rightarrow> 'a mem" where
  "palloc n = replicate n None"

text \<open>A checked block write: \<open>None\<close> is a write outside the block.\<close>

definition mem_write :: "'a mem \<Rightarrow> nat \<Rightarrow> 'a list \<Rightarrow> 'a mem option" where
  "mem_write m i xs =
     (if i + length xs \<le> length m
      then Some (take i m @ map Some xs @ drop (i + length xs) m) else None)"

lemma length_palloc [simp, slot_simps]: "length (palloc n) = n"
  by (simp add: palloc_def)

lemma mem_write_Some [slot_simps]:
  "i + length xs \<le> length m \<Longrightarrow>
   mem_write m i xs = Some (take i m @ map Some xs @ drop (i + length xs) m)"
  by (simp add: mem_write_def)

lemma mem_write_length: "mem_write m i xs = Some m' \<Longrightarrow> length m' = length m"
  by (auto simp: mem_write_def split: if_splits)

text \<open>Writing at the end of the part already written extends it.\<close>

lemma mem_write_append [slot_simps]:
  assumes "i = length ys" and "length ys + length xs \<le> n"
  shows "mem_write (map Some ys @ palloc (n - length ys)) i xs =
         Some (map Some (ys @ xs) @ palloc (n - length (ys @ xs)))"
  using assms by (simp add: mem_write_def palloc_def)

text \<open>A block write is the sequence of the writes of its parts.\<close>

lemma mem_write_cat:
  "mem_write m p (xs @ ys) = Option.bind (mem_write m p xs) (\<lambda>m'. mem_write m' (p + length xs) ys)"
  by (auto simp: mem_write_def ac_simps)

section \<open>Characters and strings of the C library\<close>

definition tolower :: "byte \<Rightarrow> byte" where
  "tolower c = (if 0x41 \<le> c \<and> c \<le> 0x5a then c + 0x20 else c)"

definition toupper :: "byte \<Rightarrow> byte" where
  "toupper c = (if 0x61 \<le> c \<and> c \<le> 0x7a then c - 0x20 else c)"

definition isspace :: "byte \<Rightarrow> bool" where
  "isspace c \<longleftrightarrow> c = 0x20 \<or> (0x09 \<le> c \<and> c \<le> 0x0d)"

definition isdigit :: "byte \<Rightarrow> bool" where
  "isdigit c \<longleftrightarrow> 0x30 \<le> c \<and> c \<le> 0x39"

definition isupper :: "byte \<Rightarrow> bool" where
  "isupper c \<longleftrightarrow> 0x41 \<le> c \<and> c \<le> 0x5a"

definition islower :: "byte \<Rightarrow> bool" where
  "islower c \<longleftrightarrow> 0x61 \<le> c \<and> c \<le> 0x7a"

definition isalpha :: "byte \<Rightarrow> bool" where
  "isalpha c \<longleftrightarrow> isupper c \<or> islower c"

text \<open>Reading \<open>s[i]\<close>: the byte after the last one is the NUL.\<close>

definition cget :: "cstring \<Rightarrow> nat \<Rightarrow> byte" where
  "cget s i = (if i < length s then s ! i else 0)"

text \<open>
  \<open>strcasecmp\<close>: the standard fixes the sign of the result only, so the model
  returns the sign.
\<close>

fun strcasecmp :: "cstring \<Rightarrow> cstring \<Rightarrow> int" where
  "strcasecmp [] [] = 0"
| "strcasecmp [] (y # ys) = -1"
| "strcasecmp (x # xs) [] = 1"
| "strcasecmp (x # xs) (y # ys) =
     (if tolower x < tolower y then -1
      else if tolower y < tolower x then 1
      else strcasecmp xs ys)"

definition fold_case :: "cstring \<Rightarrow> cstring" where
  "fold_case = map tolower"

lemma strcasecmp_eq_0 [ctype_simps]:
  "strcasecmp xs ys = 0 \<longleftrightarrow> fold_case xs = fold_case ys"
  by (induction xs ys rule: strcasecmp.induct) (auto simp: fold_case_def)

lemma strcasecmp_refl [simp]: "strcasecmp xs xs = 0"
  by (simp add: ctype_simps)

lemma strcasecmp_sym_eq: "strcasecmp xs ys = 0 \<longleftrightarrow> strcasecmp ys xs = 0"
  by (auto simp: ctype_simps)

lemma strcasecmp_antisym: "strcasecmp xs ys > 0 \<longleftrightarrow> strcasecmp ys xs < 0"
  by (induction xs ys rule: strcasecmp.induct) auto

lemma strcasecmp_trans:
  "strcasecmp xs ys \<le> 0 \<Longrightarrow> strcasecmp ys zs \<le> 0 \<Longrightarrow> strcasecmp xs zs \<le> 0"
proof (induction xs ys arbitrary: zs rule: strcasecmp.induct)
  case 1
  then show ?case by simp
next
  case (2 y ys)
  then show ?case by (cases zs) auto
next
  case (3 x xs)
  then show ?case by simp
next
  case (4 x xs y ys)
  then show ?case by (cases zs) (auto split: if_splits)
qed

lemma strcasecmp_cong:
  "fold_case xs = fold_case xs' \<Longrightarrow> strcasecmp xs ys = strcasecmp xs' ys"
proof (induction xs arbitrary: xs' ys)
  case Nil
  then show ?case by (simp add: fold_case_def)
next
  case (Cons x xs)
  then obtain x' zs where "xs' = x' # zs" "tolower x = tolower x'" "fold_case xs = fold_case zs"
    by (cases xs') (auto simp: fold_case_def)
  then show ?case using Cons.IH by (cases ys) auto
qed

text \<open>
  A letter and its other case agree outside bit 5: the reason why masking with
  \<open>0xdf\<close>, or taking the low five bits, is insensitive to case.
\<close>

lemma upper_cases:
  fixes c :: byte
  assumes "0x41 \<le> c" and "c \<le> 0x5a"
  shows "c \<in> set (map of_nat [65..<91])"
proof -
  have "unat c \<in> set [65..<91]"
    using assms by (simp only: word_le_nat_alt set_upt atLeastLessThan_iff) simp
  then have "(of_nat (unat c) :: byte) \<in> of_nat ` set [65..<91]" by (rule imageI)
  then show ?thesis by (simp only: set_map of_nat_unat ucast_id)
qed

lemma tolower_bits:
  "tolower c AND 0xdf = c AND 0xdf \<and> tolower c AND 0x1f = c AND 0x1f \<and>
   (tolower c = 0 \<longleftrightarrow> c = 0)"
proof (cases "0x41 \<le> c \<and> c \<le> 0x5a")
  case True
  then have "c \<in> set (map of_nat [65..<91])" by (blast intro: upper_cases)
  then show ?thesis by (auto simp: tolower_def upt_rec)
qed (auto simp: tolower_def)

lemmas tolower_mask = tolower_bits [THEN conjunct1] tolower_bits [THEN conjunct2, THEN conjunct1]

lemma tolower_eq_0 [simp]: "tolower c = 0 \<longleftrightarrow> c = 0"
  by (simp add: tolower_bits)

end
