(* ===== verification/Interfaces.thy ===== *)
theory Interfaces
  imports Prelude "HOL-Library.Extended_Nat" "HOL-Library.Multiset"
begin

text \<open>
  The contracts that several components implement, each with the lemmas its
  clients need, proved once from the contract.

  \<^item> \<open>seq_store\<close>: a sequence that grows at its end (the element arrays).
  \<^item> \<open>bounded_store\<close> and, without a limit, \<open>keyed_store\<close>: a store addressed by keys up to an equivalence (the string
    tables compare keys without regard to case, the hash tables exactly).
  \<^item> \<open>bounded_fifo\<close>: a queue of bounded capacity.
  \<^item> \<open>allocator\<close>: blocks of a region handed out and given back (the relocatable memory).
  \<^item> \<open>node_source\<close>: nodes of memory taken from a stock or from the system, and returned in groups (the allocator of the pools).
  \<^item> \<open>piecewise\<close>: what can be computed piece by piece (Adler-32 and CRC-32).
\<close>

section \<open>Sequences that grow at the end\<close>

locale seq_store =
  fixes invar :: "'s \<Rightarrow> bool"
    and contents :: "'s \<Rightarrow> 'a list"
    and push1 :: "'s \<Rightarrow> 'a \<Rightarrow> 's"
    and cat :: "'s \<Rightarrow> 's \<Rightarrow> 's"
  assumes invar_push1: "invar s \<Longrightarrow> invar (push1 s x)"
    and contents_push1: "invar s \<Longrightarrow> contents (push1 s x) = contents s @ [x]"
    and invar_cat: "invar s \<Longrightarrow> invar t \<Longrightarrow> invar (cat s t)"
    and contents_cat: "invar s \<Longrightarrow> invar t \<Longrightarrow> contents (cat s t) = contents s @ contents t"
begin

lemma push_list:
  "invar s \<Longrightarrow> invar (foldl push1 s xs) \<and> contents (foldl push1 s xs) = contents s @ xs"
  by (induction xs arbitrary: s) (simp_all add: invar_push1 contents_push1)

lemma cat_assoc_contents:
  "invar s \<Longrightarrow> invar t \<Longrightarrow> invar u \<Longrightarrow>
   contents (cat (cat s t) u) = contents (cat s (cat t u))"
  by (simp add: contents_cat invar_cat)

end

section \<open>Stores addressed by keys\<close>

text \<open>A store that can hold a limited number of bindings.\<close>

locale bounded_store =
  fixes invar :: "'s \<Rightarrow> bool"
    and keq :: "'k \<Rightarrow> 'k \<Rightarrow> bool"
    and lookup :: "'s \<Rightarrow> 'k \<Rightarrow> 'v option"
    and store :: "'s \<Rightarrow> 'k \<Rightarrow> 'v \<Rightarrow> 's"
    and remove :: "'s \<Rightarrow> 'k \<Rightarrow> 's"
    and entries_used :: "'s \<Rightarrow> nat"
    and limit :: enat
  assumes keq_equiv: "equivp keq"
    and invar_store: "invar s \<Longrightarrow> entries_used s < limit \<Longrightarrow> invar (store s k v)"
    and invar_remove: "invar s \<Longrightarrow> invar (remove s k)"
    and lookup_store: "invar s \<Longrightarrow> entries_used s < limit \<Longrightarrow>
      lookup (store s k v) k' = (if keq k k' then Some v else lookup s k')"
    and lookup_remove: "invar s \<Longrightarrow>
      lookup (remove s k) k' = (if keq k k' then None else lookup s k')"
    and used_store: "invar s \<Longrightarrow> entries_used s < limit \<Longrightarrow> entries_used (store s k v) \<le> Suc (entries_used s)"
begin

lemma keq_refl [simp]: "keq k k"
  using keq_equiv by (rule equivp_reflp)

lemma keq_sym: "keq k l \<Longrightarrow> keq l k"
  using keq_equiv by (rule equivp_symp)

lemma keq_trans: "keq k l \<Longrightarrow> keq l m \<Longrightarrow> keq k m"
  using keq_equiv by (rule equivp_transp)

lemma remove_cancels_store:
  "invar s \<Longrightarrow> entries_used s < limit \<Longrightarrow> keq k l \<Longrightarrow> lookup (remove (store s k v) l) k' = lookup (remove s l) k'"
  by (auto simp: lookup_store lookup_remove invar_store intro: keq_sym keq_trans)

text \<open>Loading a list of bindings: the last binding of a key is the one found.\<close>

lemma store_list:
  "invar s \<Longrightarrow> enat (entries_used s + length kvs) \<le> limit \<Longrightarrow>
   invar (foldl (\<lambda>s (k, v). store s k v) s kvs) \<and>
   entries_used (foldl (\<lambda>s (k, v). store s k v) s kvs) \<le> entries_used s + length kvs \<and>
   lookup (foldl (\<lambda>s (k, v). store s k v) s kvs) k' =
     (case find (\<lambda>(k, v). keq k k') (rev kvs) of
        Some (k, v) \<Rightarrow> Some v | None \<Rightarrow> lookup s k')"
proof (induction kvs rule: rev_induct)
  case Nil
  then show ?case by simp
next
  case (snoc kv kvs)
  define s' where "s' = foldl (\<lambda>s (k, v). store s k v) s kvs"
  have l: "enat (entries_used s + length kvs) < limit"
    using snoc.prems(2) by (cases limit) auto
  then have IH: "invar s'" "entries_used s' \<le> entries_used s + length kvs"
    "lookup s' k' = (case find (\<lambda>(k, v). keq k k') (rev kvs) of Some (k, v) \<Rightarrow> Some v | None \<Rightarrow> lookup s k')"
    using snoc by (simp_all add: s'_def)
  have "entries_used s' < limit" using IH(2) l by (cases limit) auto
  with IH show ?case
    using used_store [of s' "fst kv" "snd kv"] by (cases kv) (auto simp: lookup_store invar_store s'_def [symmetric] le_Suc_eq)
qed

end

text \<open>A store without a limit.\<close>

locale keyed_store =
  fixes invar :: "'s \<Rightarrow> bool"
    and keq :: "'k \<Rightarrow> 'k \<Rightarrow> bool"
    and lookup :: "'s \<Rightarrow> 'k \<Rightarrow> 'v option"
    and store :: "'s \<Rightarrow> 'k \<Rightarrow> 'v \<Rightarrow> 's"
    and remove :: "'s \<Rightarrow> 'k \<Rightarrow> 's"
  assumes key_equiv: "equivp keq"
    and inv_store: "invar s \<Longrightarrow> invar (store s k v)"
    and inv_remove: "invar s \<Longrightarrow> invar (remove s k)"
    and look_store: "invar s \<Longrightarrow>
      lookup (store s k v) k' = (if keq k k' then Some v else lookup s k')"
    and look_remove: "invar s \<Longrightarrow>
      lookup (remove s k) k' = (if keq k k' then None else lookup s k')"

sublocale keyed_store \<subseteq> bounded_store invar keq lookup store remove "\<lambda>_. 0" "\<infinity>"
  by unfold_locales (simp_all add: key_equiv inv_store inv_remove look_store look_remove)

context keyed_store
begin

lemma last_store_wins:
  "invar s \<Longrightarrow> keq k l \<Longrightarrow>
   lookup (store (store s k v) l w) k' = lookup (store s l w) k'"
  by (auto simp: look_store inv_store intro: keq_sym keq_trans)

lemma stores_commute:
  "invar s \<Longrightarrow> \<not> keq k l \<Longrightarrow>
   lookup (store (store s k v) l w) k' = lookup (store (store s l w) k v) k'"
  by (auto simp: look_store inv_store intro: keq_sym keq_trans)

end

text \<open>A first-in first-out queue of bounded capacity.\<close>

locale bounded_fifo =
  fixes invar :: "'q \<Rightarrow> bool"
    and contents :: "'q \<Rightarrow> 'a list"
    and capacity :: "'q \<Rightarrow> nat"
    and put :: "'q \<Rightarrow> 'a \<Rightarrow> 'q"
    and get :: "'q \<Rightarrow> 'a option \<times> 'q"
  assumes within: "invar q \<Longrightarrow> length (contents q) \<le> capacity q"
    and invar_put: "invar q \<Longrightarrow> length (contents q) < capacity q \<Longrightarrow> invar (put q x)"
    and contents_put: "invar q \<Longrightarrow> length (contents q) < capacity q \<Longrightarrow> contents (put q x) = contents q @ [x]"
    and invar_get: "invar q \<Longrightarrow> contents q \<noteq> [] \<Longrightarrow> invar (snd (get q))"
    and get_first: "invar q \<Longrightarrow> contents q \<noteq> [] \<Longrightarrow> fst (get q) = Some (hd (contents q))"
    and contents_get: "invar q \<Longrightarrow> contents q \<noteq> [] \<Longrightarrow> contents (snd (get q)) = tl (contents q)"
begin

text \<open>What went in is what came out followed by what is there, and this stays so.\<close>

lemma put_history:
  "invar q \<Longrightarrow> length (contents q) < capacity q \<Longrightarrow> ins = outs @ contents q \<Longrightarrow> ins @ [x] = outs @ contents (put q x)"
  by (simp add: contents_put)

lemma get_history:
  "invar q \<Longrightarrow> contents q \<noteq> [] \<Longrightarrow> ins = outs @ contents q \<Longrightarrow>
   ins = (outs @ [the (fst (get q))]) @ contents (snd (get q))"
  by (simp add: get_first contents_get)

end

section \<open>Allocators\<close>

text \<open>A client asks for bytes or gives back one of the blocks it was given; it remembers the blocks and the sizes it asked for.\<close>

datatype request = Get nat | Give nat

fun alloc_run :: "('s \<Rightarrow> nat \<Rightarrow> ('s \<times> nat) option) \<Rightarrow> ('s \<Rightarrow> nat \<Rightarrow> 's option) \<Rightarrow> request list \<Rightarrow> 's \<Rightarrow> (nat \<times> nat) list \<Rightarrow>
    ('s \<times> (nat \<times> nat) list) option" where
  "alloc_run alloc release [] s ps = Some (s, ps)"
| "alloc_run alloc release (Get n # rs) s ps =
     Option.bind (alloc s n) (\<lambda>(s', p). alloc_run alloc release rs s' (if p = 0 then ps else (p, n) # ps))"
| "alloc_run alloc release (Give i # rs) s ps =
     (if i < length ps
      then Option.bind (release s (fst (ps ! i))) (\<lambda>s'. alloc_run alloc release rs s' (take i ps @ drop (Suc i) ps))
      else alloc_run alloc release rs s ps)"

definition owns :: "(nat \<times> nat) list \<Rightarrow> (nat \<times> nat) set \<Rightarrow> bool" where
  "owns ps L \<longleftrightarrow> distinct (map fst ps) \<and> fst ` L = fst ` set ps \<and> (\<forall>(p, n) \<in> set ps. \<exists>m \<ge> n. (p, m) \<in> L)"

lemma owns_mem: "owns ps L \<Longrightarrow> e \<in> set ps \<Longrightarrow> \<exists>m. (fst e, m) \<in> L \<and> snd e \<le> m"
  by (cases e) (auto simp: owns_def)

locale allocator =
  fixes holds :: "'s \<Rightarrow> (nat \<times> nat) set \<Rightarrow> bool"
    and extent :: "'s \<Rightarrow> nat"
    and limit :: nat
    and align :: nat
    and alloc :: "'s \<Rightarrow> nat \<Rightarrow> ('s \<times> nat) option"
    and release :: "'s \<Rightarrow> nat \<Rightarrow> 's option"
  assumes alloc_law: "holds s L \<Longrightarrow> n < limit \<Longrightarrow>
      \<exists>s' p. alloc s n = Some (s', p) \<and> extent s' = extent s \<and> (if p = 0 then holds s' L else \<exists>m \<ge> n. (p, m) \<notin> L \<and> holds s' (insert (p, m) L))"
    and release_law: "holds s L \<Longrightarrow> (p, m) \<in> L \<Longrightarrow> \<exists>s'. release s p = Some s' \<and> extent s' = extent s \<and> holds s' (L - {(p, m)})"
    and separate: "holds s L \<Longrightarrow> (p, m) \<in> L \<Longrightarrow> (q, k) \<in> L \<Longrightarrow> (p, m) \<noteq> (q, k) \<Longrightarrow> p \<noteq> q \<and> (p + m \<le> q \<or> q + k \<le> p)"
    and inside: "holds s L \<Longrightarrow> (p, m) \<in> L \<Longrightarrow> 0 < p \<and> p + m \<le> extent s \<and> p mod align = 0"
begin

lemma separate_fst: "holds s L \<Longrightarrow> (p, m) \<in> L \<Longrightarrow> (p, k) \<in> L \<Longrightarrow> m = k"
  using separate by blast

lemma owns_get:
  assumes "holds s (insert (p, m) L)" "(p, m) \<notin> L" "owns ps L" "n \<le> m"
  shows "owns ((p, n) # ps) (insert (p, m) L)"
proof -
  have "p \<notin> fst ` L"
  proof
    assume "p \<in> fst ` L"
    then obtain k where "(p, k) \<in> L" by auto
    then show False using separate_fst [OF assms(1), of p m k] assms(2) by simp
  qed
  then show ?thesis using assms(3,4) by (auto simp: owns_def)
qed

lemma owns_give:
  assumes "holds s L" "owns ps L" "i < length ps" "(fst (ps ! i), m) \<in> L"
  shows "owns (take i ps @ drop (Suc i) ps) (L - {(fst (ps ! i), m)})"
proof -
  let ?e = "ps ! i" let ?ps = "take i ps @ drop (Suc i) ps"
  have ps: "ps = take i ps @ ?e # drop (Suc i) ps" using assms(3) by (rule id_take_nth_drop)
  have d: "distinct (map fst ps)" "fst ` L = fst ` set ps" using assms(2) by (auto simp: owns_def)
  have "set ps = set (take i ps @ ?e # drop (Suc i) ps)" using arg_cong [OF ps, of set] .
  then have s: "set ps = insert ?e (set ?ps)" by simp
  have "distinct (map fst (take i ps @ ?e # drop (Suc i) ps))" using d(1) arg_cong [OF ps, of "\<lambda>x. distinct (map fst x)"] by blast
  then have n: "fst ?e \<notin> fst ` set ?ps" and d': "distinct (map fst ?ps)" by auto
  define a where "a = fst ?e"
  have a: "(a, m) \<in> L" using assms(4) by (simp add: a_def)
  have sep: "k = m" if "(a, k) \<in> L" for k using separate_fst [OF assms(1) that a] .
  have "fst ` (L - {(a, m)}) = fst ` L - {a}"
  proof (intro equalityI subsetI)
    fix q assume "q \<in> fst ` (L - {(a, m)})"
    then show "q \<in> fst ` L - {a}" using sep by auto
  next
    fix q assume "q \<in> fst ` L - {a}"
    then obtain k where "(q, k) \<in> L" "q \<noteq> a" by auto
    then show "q \<in> fst ` (L - {(a, m)})" by force
  qed
  then have "fst ` (L - {(fst ?e, m)}) = fst ` set ?ps" using d(2) s n by (auto simp: a_def)
  moreover have "\<exists>m' \<ge> k. (p, m') \<in> L - {(fst ?e, m)}" if "(p, k) \<in> set ?ps" for p k
  proof -
    have "(p, k) \<in> set ps" unfolding s using that by blast
    from owns_mem [OF assms(2) this] obtain m' where "(p, m') \<in> L" "k \<le> m'" by auto
    moreover have "p \<noteq> fst ?e" using n imageI [OF that, of fst] unfolding fst_conv by metis
    ultimately show ?thesis by auto
  qed
  ultimately show ?thesis using d' unfolding owns_def by blast
qed

lemma run_owns:
  assumes "holds s L" "owns ps L" "\<forall>n. Get n \<in> set rs \<longrightarrow> n < limit"
  shows "\<exists>s' ps' L'. alloc_run alloc release rs s ps = Some (s', ps') \<and> holds s' L' \<and> owns ps' L' \<and> extent s' = extent s"
  using assms
proof (induction rs arbitrary: s L ps)
  case Nil
  then show ?case by auto
next
  case (Cons r rs)
  show ?case
  proof (cases r)
    case (Get n)
    obtain s' p where a: "alloc s n = Some (s', p)" "extent s' = extent s"
      "if p = 0 then holds s' L else \<exists>m \<ge> n. (p, m) \<notin> L \<and> holds s' (insert (p, m) L)"
      using alloc_law [OF Cons.prems(1), of n] Cons.prems(3) Get by auto
    show ?thesis
    proof (cases "p = 0")
      case True
      then show ?thesis using Cons.IH [of s' L ps] Cons.prems a by (simp add: Get)
    next
      case False
      then obtain m where m: "n \<le> m" "(p, m) \<notin> L" "holds s' (insert (p, m) L)" using a(3) by auto
      then show ?thesis using Cons.IH [OF m(3) owns_get [OF m(3,2) Cons.prems(2) m(1)]] Cons.prems(3) a False by (simp add: Get)
    qed
  next
    case (Give i)
    show ?thesis
    proof (cases "i < length ps")
      case False
      then show ?thesis using Cons.IH [of s L ps] Cons.prems by (simp add: Give)
    next
      case True
      then have "ps ! i \<in> set ps" by simp
      then obtain m where m: "(fst (ps ! i), m) \<in> L" using owns_mem [OF Cons.prems(2)] by blast
      obtain s' where s': "release s (fst (ps ! i)) = Some s'" "extent s' = extent s" "holds s' (L - {(fst (ps ! i), m)})"
        using release_law [OF Cons.prems(1) m] by auto
      then show ?thesis
        using Cons.IH [OF s'(3) owns_give [OF Cons.prems(1,2) True m]] Cons.prems(3) True by (simp add: Give)
    qed
  qed
qed

text \<open>A run from an allocator that holds nothing succeeds, and the blocks a client has are inside, aligned and apart.\<close>

lemma run_safe:
  assumes "holds s {}" "\<forall>n. Get n \<in> set rs \<longrightarrow> n < limit"
  shows "\<exists>s' ps. alloc_run alloc release rs s [] = Some (s', ps) \<and> extent s' = extent s \<and> (\<exists>L. holds s' L \<and> owns ps L) \<and>
    (\<forall>(p, n) \<in> set ps. 0 < p \<and> p + n \<le> extent s \<and> p mod align = 0) \<and>
    (\<forall>i < length ps. \<forall>j < length ps. i \<noteq> j \<longrightarrow> fst (ps ! i) \<noteq> fst (ps ! j) \<and>
       (fst (ps ! i) + snd (ps ! i) \<le> fst (ps ! j) \<or> fst (ps ! j) + snd (ps ! j) \<le> fst (ps ! i)))"
proof -
  have "owns [] {}" by (simp add: owns_def)
  from run_owns [OF assms(1) this assms(2)] obtain s' ps L where r: "alloc_run alloc release rs s [] = Some (s', ps)" "holds s' L"
    "owns ps L" "extent s' = extent s"
    by auto
  have "0 < p \<and> p + n \<le> extent s \<and> p mod align = 0" if "(p, n) \<in> set ps" for p n
    using owns_mem [OF r(3) that] inside [OF r(2), of p] r(4) by fastforce
  moreover have "fst (ps ! i) \<noteq> fst (ps ! j) \<and>
       (fst (ps ! i) + snd (ps ! i) \<le> fst (ps ! j) \<or> fst (ps ! j) + snd (ps ! j) \<le> fst (ps ! i))"
    if "i < length ps" "j < length ps" "i \<noteq> j" for i j
  proof -
    have ne: "fst (ps ! i) \<noteq> fst (ps ! j)"
      using r(3) that nth_eq_iff_index_eq [of "map fst ps" i j] by (auto simp: owns_def)
    have "ps ! i \<in> set ps" "ps ! j \<in> set ps" using that by auto
    then obtain m k where "(fst (ps ! i), m) \<in> L" "snd (ps ! i) \<le> m" "(fst (ps ! j), k) \<in> L" "snd (ps ! j) \<le> k"
      using owns_mem [OF r(3)] by meson
    then show ?thesis using separate [OF r(2), of "fst (ps ! i)" m "fst (ps ! j)" k] ne by auto
  qed
  ultimately show ?thesis using r by (intro exI [of _ s'] exI [of _ ps]) blast
qed

end

section \<open>Nodes of memory\<close>

text \<open>A span is the first address of a block of memory and the one behind it; the spans of live blocks are apart.\<close>

type_synonym span = "nat \<times> nat"

definition apart :: "span multiset \<Rightarrow> bool" where
  "apart L \<longleftrightarrow> (\<forall>x \<in># L. fst x < snd x) \<and> (\<forall>x y. {#x, y#} \<subseteq># L \<longrightarrow> snd x \<le> fst y \<or> snd y \<le> fst x)"

text \<open>What \<open>malloc\<close> promises: the block is aligned and apart from those that have not been freed.\<close>

definition malloc_ok :: "(span multiset \<Rightarrow> nat \<Rightarrow> nat option) \<Rightarrow> bool" where
  "malloc_ok malloc \<longleftrightarrow> (\<forall>L n p. malloc L n = Some p \<longrightarrow> 0 < p \<and> p mod 8 = 0 \<and> (\<forall>x \<in># L. p + n \<le> fst x \<or> snd x \<le> p))"

lemma apart_empty [simp]: "apart {#}"
  by (simp add: apart_def)

lemma apart_mono: "apart L \<Longrightarrow> K \<subseteq># L \<Longrightarrow> apart K"
  unfolding apart_def by (meson mset_subset_eqD subset_mset.order_trans)

lemma apart_add:
  assumes "apart L" "fst x < snd x" "\<forall>y \<in># L. snd x \<le> fst y \<or> snd y \<le> fst x"
  shows "apart (add_mset x L)"
proof -
  have "snd u \<le> fst v \<or> snd v \<le> fst u" if "{#u, v#} \<subseteq># add_mset x L" for u v
  proof (cases "u = x")
    case True
    then have "v \<in># L" using that by simp
    then show ?thesis using assms(3) True by auto
  next
    case ux: False
    show ?thesis
    proof (cases "v = x")
      case True
      then have "u \<in># L" using that by (simp add: add_mset_commute)
      then show ?thesis using assms(3) True by auto
    next
      case False
      then have "{#u, v#} \<subseteq># L" using that ux by (auto simp: subseteq_mset_def split: if_splits)
      then show ?thesis using assms(1) by (simp add: apart_def)
    qed
  qed
  then show ?thesis using assms(1,2) by (auto simp: apart_def)
qed

lemma mset_nths: "mset (nths xs A) + mset (nths xs (- A)) = mset xs"
proof (induction xs rule: rev_induct)
  case (snoc x xs)
  then show ?case by (auto simp: nths_append)
qed simp

datatype node_request = Take nat | Hand_back "nat list"

text \<open>A run: the requests of a client that holds the nodes \<open>out\<close>; \<open>fresh\<close> are the spans \<open>malloc\<close> gave, \<open>gone\<close> those given back to
  the system. \<open>range_of\<close> is the span of a node.\<close>

fun node_run :: "('s \<Rightarrow> nat \<Rightarrow> nat option \<Rightarrow> 's \<times> 'n option) \<Rightarrow> ('s \<Rightarrow> 'n list \<Rightarrow> 's \<times> 'n list) \<Rightarrow> ('s \<Rightarrow> span multiset) \<Rightarrow>
    ('n \<Rightarrow> span) \<Rightarrow> (nat \<Rightarrow> nat) \<Rightarrow> (span multiset \<Rightarrow> nat \<Rightarrow> nat option) \<Rightarrow> node_request list \<Rightarrow> 's \<Rightarrow> 'n list \<Rightarrow>
    's \<times> 'n list \<times> span list \<times> span list" where
  "node_run acquire give spans range_of block malloc [] s out = (s, out, [], [])"
| "node_run acquire give spans range_of block malloc (Take n # rs) s out =
     (case acquire s n (malloc (spans s + mset (map range_of out)) (block n)) of
        (s', None) \<Rightarrow> node_run acquire give spans range_of block malloc rs s' out
      | (s', Some x) \<Rightarrow>
          (case node_run acquire give spans range_of block malloc rs s' (x # out) of
             (t, out', fresh, gone) \<Rightarrow> (t, out', (if spans s' = spans s then range_of x # fresh else fresh), gone)))"
| "node_run acquire give spans range_of block malloc (Hand_back js # rs) s out =
     (case give s (nths out (set js)) of (s', freed) \<Rightarrow>
        case node_run acquire give spans range_of block malloc rs s' (nths out (- set js)) of
          (t, out', fresh, gone) \<Rightarrow> (t, out', fresh, map range_of freed @ gone))"

locale node_source =
  fixes acquire :: "'s \<Rightarrow> nat \<Rightarrow> nat option \<Rightarrow> 's \<times> 'n option"
    and give :: "'s \<Rightarrow> 'n list \<Rightarrow> 's \<times> 'n list"
    and valid :: "'s \<Rightarrow> bool"
    and spans :: "'s \<Rightarrow> span multiset"
    and good :: "'n \<Rightarrow> bool"
    and range_of :: "'n \<Rightarrow> span"
    and block :: "nat \<Rightarrow> nat"
    and limit :: nat
  assumes take_some: "valid s \<Longrightarrow> n < limit \<Longrightarrow> acquire s n mem = (s', Some x) \<Longrightarrow> valid s' \<and> good x \<and>
      (spans s = add_mset (range_of x) (spans s') \<or>
       0 < block n \<and> spans s' = spans s \<and> (\<exists>p. mem = Some p \<and> range_of x = (p, p + block n)))"
    and take_none: "acquire s n mem = (s', None) \<Longrightarrow> s' = s"
    and give_law: "valid s \<Longrightarrow> \<forall>x \<in> set xs. good x \<Longrightarrow> give s xs = (s', gone) \<Longrightarrow>
      valid s' \<and> spans s' + mset (map range_of gone) = spans s + mset (map range_of xs)"
begin

definition live :: "'s \<Rightarrow> 'n list \<Rightarrow> span multiset" where
  "live s out = spans s + mset (map range_of out)"

text \<open>Nodes are neither lost nor made, and never overlap.\<close>

lemma run_conserves:
  assumes "valid s" "\<forall>x \<in> set out. good x" "apart (live s out)" "malloc_ok malloc" "\<forall>n. Take n \<in> set rs \<longrightarrow> n < limit"
    "node_run acquire give spans range_of block malloc rs s out = (s', out', fresh, gone)"
  shows "valid s' \<and> (\<forall>x \<in> set out'. good x) \<and> apart (live s' out') \<and>
    live s' out' + mset gone = live s out + mset fresh"
  using assms
proof (induction rs arbitrary: s out fresh gone)
  case Nil
  then show ?case by simp
next
  case (Cons r rs)
  show ?case
  proof (cases r)
    case (Take n)
    have n: "n < limit" using Cons.prems(5) Take by simp
    let ?m = "malloc (spans s + mset (map range_of out)) (block n)"
    obtain s1 o1 where t: "acquire s n ?m = (s1, o1)" by fastforce
    show ?thesis
    proof (cases o1)
      case None
      then have "s1 = s" using take_none t by simp
      then show ?thesis using Cons.IH [of s out fresh gone] Cons.prems t None Take by simp
    next
      case (Some x)
      obtain fresh' gone' where r: "node_run acquire give spans range_of block malloc rs s1 (x # out) = (s', out', fresh', gone')"
        "fresh = (if spans s1 = spans s then range_of x # fresh' else fresh')" "gone = gone'"
        using Cons.prems(6) t Some Take by (auto split: prod.splits)
      have l: "valid s1" "good x" "spans s = add_mset (range_of x) (spans s1) \<or>
         0 < block n \<and> spans s1 = spans s \<and> (\<exists>p. ?m = Some p \<and> range_of x = (p, p + block n))"
        using take_some [OF Cons.prems(1) n] t Some by blast+
      have "apart (live s1 (x # out)) \<and> live s1 (x # out) + mset fresh' = live s out + mset fresh"
        using l(3)
      proof
        assume "spans s = add_mset (range_of x) (spans s1)"
        then show ?thesis using Cons.prems(3) r(2) by (auto simp: live_def)
      next
        assume b: "0 < block n \<and> spans s1 = spans s \<and> (\<exists>p. ?m = Some p \<and> range_of x = (p, p + block n))"
        then obtain p where p: "malloc (live s out) (block n) = Some p" "range_of x = (p, p + block n)" by (auto simp: live_def)
        then have "\<forall>y \<in># live s out. p + block n \<le> fst y \<or> snd y \<le> p" using Cons.prems(4) unfolding malloc_ok_def by blast
        then have "apart (add_mset (range_of x) (live s out))" using p b by (intro apart_add [OF Cons.prems(3)]) auto
        then show ?thesis using b r(2) by (simp add: live_def)
      qed
      then show ?thesis
        using Cons.IH [OF l(1) _ _ Cons.prems(4) _ r(1)] Cons.prems(2,5) l(2) r(3) by simp
    qed
  next
    case (Hand_back js)
    let ?g = "nths out (set js)" let ?k = "nths out (- set js)"
    obtain s1 freed where g: "give s ?g = (s1, freed)" by fastforce
    obtain gone' where r: "node_run acquire give spans range_of block malloc rs s1 ?k = (s', out', fresh, gone')" "gone = map range_of freed @ gone'"
      using Cons.prems(6) g Hand_back by (auto split: prod.splits)
    have good: "\<forall>x \<in> set ?g. good x" "\<forall>x \<in> set ?k. good x" using Cons.prems(2) by (auto dest: in_set_nthsD)
    have l: "valid s1" "spans s1 + mset (map range_of freed) = spans s + mset (map range_of ?g)"
      using give_law [OF Cons.prems(1) good(1) g] by auto
    have "mset (map range_of out) = mset (map range_of ?g) + mset (map range_of ?k)"
      using arg_cong [OF mset_nths [of out "set js"], of "image_mset range_of"] by simp
    then have e: "live s out = live s1 ?k + mset (map range_of freed)" using l(2) by (simp add: live_def ac_simps)
    then have "apart (live s1 ?k)" using apart_mono [OF Cons.prems(3)] by simp
    then show ?thesis using Cons.IH [OF l(1) good(2) _ Cons.prems(4) _ r(1)] Cons.prems(5) e r(2) by (simp add: ac_simps)
  qed
qed

text \<open>What every request and every return keeps, a run keeps.\<close>

lemma run_keeps:
  assumes "valid s" "\<forall>x \<in> set out. good x" "\<forall>n. Take n \<in> set rs \<longrightarrow> n < limit" "P s"
    "\<And>s n mem s' res. valid s \<Longrightarrow> P s \<Longrightarrow> n < limit \<Longrightarrow> acquire s n mem = (s', res) \<Longrightarrow> P s'"
    "\<And>s xs s' gone. valid s \<Longrightarrow> P s \<Longrightarrow> \<forall>x \<in> set xs. good x \<Longrightarrow> give s xs = (s', gone) \<Longrightarrow> P s'"
    "node_run acquire give spans range_of block malloc rs s out = (s', out', fresh, gone)"
  shows "valid s' \<and> P s'"
  using assms(1-4,7)
proof (induction rs arbitrary: s out fresh gone)
  case Nil
  then show ?case by simp
next
  case (Cons r rs)
  show ?case
  proof (cases r)
    case (Take n)
    have n: "n < limit" using Cons.prems(3) Take by simp
    let ?m = "malloc (spans s + mset (map range_of out)) (block n)"
    obtain s1 res where t: "acquire s n ?m = (s1, res)" by fastforce
    have p: "P s1" by (rule assms(5) [OF Cons.prems(1,4) n t])
    show ?thesis
    proof (cases res)
      case None
      then have "s1 = s" using take_none t by simp
      then show ?thesis using Cons.IH [of s out fresh gone] Cons.prems t None Take by simp
    next
      case (Some x)
      then have "valid s1" "good x" using take_some [OF Cons.prems(1) n] t by blast+
      then show ?thesis using Cons.IH [of s1 "x # out"] Cons.prems t p Some Take by (auto split: prod.splits)
    qed
  next
    case (Hand_back js)
    obtain s1 freed where g: "give s (nths out (set js)) = (s1, freed)" by fastforce
    have good: "\<forall>x \<in> set (nths out (set js)). good x" "\<forall>x \<in> set (nths out (- set js)). good x"
      using Cons.prems(2) by (auto dest: in_set_nthsD)
    have "valid s1" using give_law [OF Cons.prems(1) good(1) g] by simp
    moreover have "P s1" by (rule assms(6) [OF Cons.prems(1,4) good(1) g])
    ultimately show ?thesis using Cons.IH [of s1 "nths out (- set js)"] Cons.prems(3,5) good(2) g Hand_back by (auto split: prod.splits)
  qed
qed

end

section \<open>Checksums\<close>

text \<open>A checksum can be computed piece by piece.\<close>

locale piecewise =
  fixes valid :: "'c \<Rightarrow> bool"
    and update :: "'c \<Rightarrow> byte list \<Rightarrow> 'c"
  assumes valid_update: "valid c \<Longrightarrow> valid (update c xs)"
    and update_append: "valid c \<Longrightarrow> update c (xs @ ys) = update (update c xs) ys"
    and update_nil: "valid c \<Longrightarrow> update c [] = c"
begin

lemma pieces: "valid c \<Longrightarrow> valid (foldl update c xss) \<and> foldl update c xss = update c (concat xss)"
  by (induction xss arbitrary: c) (simp_all add: valid_update update_append update_nil)

text \<open>The last of the pieces alone decides what is computed from an intermediate value on.\<close>

lemma resume: "valid c \<Longrightarrow> update c (concat (xss @ yss)) = foldl update (update c (concat xss)) yss"
  using pieces [of "update c (concat xss)" yss] by (simp add: valid_update update_append)

end

end
