(* ===== verification/AprArray.thy ===== *)
theory AprArray
  imports Interfaces
begin

text \<open>
  The element arrays of \<open>apr-1.3.8/tables/apr_tables.c\<close> (lines 54--282).

  An \<open>apr_array_header_t\<close> is the record below: \<open>elts\<close> is the data block, one slot
  per element (slot \<open>i\<close> stands for the bytes from \<open>i * elt_size\<close> up to
  \<open>(i + 1) * elt_size\<close>), \<open>nelts\<close> the number of elements in use, \<open>nalloc\<close> the number
  the header believes are allocated. A pointer into the block is a slot number.
  Zeroed memory is the element \<open>z\<close> whose bytes are all zero, an argument of the
  operations that clear. Two headers never share a block in this model: a header
  copy copies the block at once. \<open>nalloc\<close> is smaller than the block after
  \<open>copy_array_hdr_core\<close>, which forces the next push to reallocate.
\<close>

section \<open>State\<close>

record 'a apr_array_header =
  elts :: "'a mem"
  nelts :: nat
  nalloc :: nat

text \<open>The code computes sizes in \<open>int\<close>: \<open>nelts * elt_size\<close>, \<open>nalloc * 2\<close>, \<open>elt_size * new_size\<close>. The numbers here have no bound, and are
  those of the code while no size leaves the range of \<open>int\<close>; what the code does beyond is undefined in C, and not modelled.\<close>

definition sizes_fit :: "nat \<Rightarrow> 'a apr_array_header \<Rightarrow> bool" where
  "sizes_fit elt_size arr \<longleftrightarrow> nalloc arr * elt_size < 2 ^ 31"

section \<open>Operations\<close>

definition make_array_core :: "'a \<Rightarrow> int \<Rightarrow> bool \<Rightarrow> 'a apr_array_header" where
  "make_array_core z n clear =
     (let n' = nat (if n < 1 then 1 else n) in
      \<lparr>elts = (if clear then replicate n' (Some z) else palloc n'), nelts = 0, nalloc = n'\<rparr>)"

definition apr_is_empty_array :: "'a apr_array_header option \<Rightarrow> bool" where
  "apr_is_empty_array a = (case a of None \<Rightarrow> True | Some arr \<Rightarrow> nelts arr = 0)"

definition apr_array_make :: "'a \<Rightarrow> int \<Rightarrow> 'a apr_array_header" where
  "apr_array_make z n = make_array_core z n True"

definition apr_array_clear :: "'a apr_array_header \<Rightarrow> 'a apr_array_header" where
  "apr_array_clear arr = arr\<lparr>nelts := 0\<rparr>"

definition apr_array_pop :: "'a apr_array_header \<Rightarrow> 'a apr_array_header \<times> nat option" where
  "apr_array_pop arr =
     (if apr_is_empty_array (Some arr) then (arr, None)
      else (arr\<lparr>nelts := nelts arr - 1\<rparr>, Some (nelts arr - 1)))"

definition apr_array_push :: "'a \<Rightarrow> 'a apr_array_header \<Rightarrow> 'a apr_array_header \<times> nat" where
  "apr_array_push z arr =
     (let arr' =
        (if nelts arr = nalloc arr then
           let new_size = (if nalloc arr \<le> 0 then 1 else nalloc arr * 2) in
           arr\<lparr>elts := take (nalloc arr) (elts arr) @ replicate (new_size - nalloc arr) (Some z),
               nalloc := new_size\<rparr>
         else arr)
      in (arr'\<lparr>nelts := nelts arr' + 1\<rparr>, nelts arr'))"

definition apr_array_push_noclear :: "'a apr_array_header \<Rightarrow> 'a apr_array_header \<times> nat" where
  "apr_array_push_noclear arr =
     (let arr' =
        (if nelts arr = nalloc arr then
           let new_size = (if nalloc arr \<le> 0 then 1 else nalloc arr * 2) in
           arr\<lparr>elts := take (nalloc arr) (elts arr) @ palloc (new_size - nalloc arr),
               nalloc := new_size\<rparr>
         else arr)
      in (arr'\<lparr>nelts := nelts arr' + 1\<rparr>, nelts arr'))"

text \<open>
  The loop \<open>while (dst->nelts + src->nelts > new_size) new_size *= 2\<close>. It is entered
  with a positive \<open>new_size\<close> only; the second conjunct of the guard says so.
\<close>

function cat_new_size :: "nat \<Rightarrow> nat \<Rightarrow> nat" where
  "cat_new_size need new_size =
     (if need > new_size \<and> 0 < new_size then cat_new_size need (new_size * 2) else new_size)"
  by pat_completeness auto
termination
  by (relation "measure (\<lambda>(need, new_size). need - new_size)") auto

declare cat_new_size.simps [simp del]

definition apr_array_cat ::
  "'a \<Rightarrow> 'a apr_array_header \<Rightarrow> 'a apr_array_header \<Rightarrow> 'a apr_array_header" where
  "apr_array_cat z dst src =
     (let dst' =
        (if nelts dst + nelts src > nalloc dst then
           let new_size = cat_new_size (nelts dst + nelts src)
                            (if nalloc dst \<le> 0 then 1 else nalloc dst * 2) in
           dst\<lparr>elts := take (nalloc dst) (elts dst) @ replicate (new_size - nalloc dst) (Some z),
               nalloc := new_size\<rparr>
         else dst)
      in dst'\<lparr>elts := take (nelts dst') (elts dst') @ take (nelts src) (elts src) @
                     drop (nelts dst' + nelts src) (elts dst'),
             nelts := nelts dst' + nelts src\<rparr>)"

definition apr_array_copy :: "'a \<Rightarrow> 'a apr_array_header \<Rightarrow> 'a apr_array_header" where
  "apr_array_copy z arr =
     (let res = make_array_core z (int (nalloc arr)) False in
      res\<lparr>elts := take (nelts arr) (elts arr) @ replicate (nalloc res - nelts arr) (Some z),
          nelts := nelts arr\<rparr>)"

definition copy_array_hdr_core :: "'a apr_array_header \<Rightarrow> 'a apr_array_header" where
  "copy_array_hdr_core arr = \<lparr>elts = elts arr, nelts = nelts arr, nalloc = nelts arr\<rparr>"

definition apr_array_copy_hdr :: "'a apr_array_header \<Rightarrow> 'a apr_array_header" where
  "apr_array_copy_hdr arr = copy_array_hdr_core arr"

definition apr_array_append ::
  "'a \<Rightarrow> 'a apr_array_header \<Rightarrow> 'a apr_array_header \<Rightarrow> 'a apr_array_header" where
  "apr_array_append z first second = apr_array_cat z (apr_array_copy_hdr first) second"

text \<open>
  \<open>apr_array_pstrcat\<close>: pass one adds up the lengths, pass two writes the strings at
  the cursor \<open>cp\<close> into a block of that many bytes and one; a write outside the block
  makes the result \<open>None\<close>. The elements are the \<open>char *\<close> slots in use, which may be
  NULL.
\<close>

definition slen :: "cstring option \<Rightarrow> nat" where
  "slen s = (case s of None \<Rightarrow> 0 | Some b \<Rightarrow> length b)"

fun pstrcat_len :: "byte \<Rightarrow> cstring option list \<Rightarrow> nat" where
  "pstrcat_len sep [] = 0"
| "pstrcat_len sep [s] = slen s"
| "pstrcat_len sep (s # t # ss) =
     slen s + (if sep \<noteq> 0 then 1 else 0) + pstrcat_len sep (t # ss)"

definition pstrcat_put :: "byte mem \<times> nat \<Rightarrow> cstring \<Rightarrow> (byte mem \<times> nat) option" where
  "pstrcat_put st bs = (case st of (buf, cp) \<Rightarrow>
     (case mem_write buf cp bs of None \<Rightarrow> None | Some buf' \<Rightarrow> Some (buf', cp + length bs)))"

fun pstrcat_copy ::
  "byte \<Rightarrow> byte mem \<times> nat \<Rightarrow> cstring option list \<Rightarrow> (byte mem \<times> nat) option" where
  "pstrcat_copy sep st [] = Some st"
| "pstrcat_copy sep st [s] =
     (case s of None \<Rightarrow> Some st | Some b \<Rightarrow> pstrcat_put st b)"
| "pstrcat_copy sep st (s # t # ss) =
     Option.bind (case s of None \<Rightarrow> Some st | Some b \<Rightarrow> pstrcat_put st b)
       (\<lambda>st'. Option.bind (if sep \<noteq> 0 then pstrcat_put st' [sep] else Some st')
         (\<lambda>st''. pstrcat_copy sep st'' (t # ss)))"

definition apr_array_pstrcat ::
  "cstring option apr_array_header \<Rightarrow> byte \<Rightarrow> byte mem option" where
  "apr_array_pstrcat arr sep =
     (if nelts arr \<le> 0 then Some [Some 0]
      else let ss = map the (take (nelts arr) (elts arr));
               len = pstrcat_len sep ss
           in Option.bind (pstrcat_copy sep (palloc (len + 1), 0) ss)
                (\<lambda>st. map_option fst (pstrcat_put st [0])))"

section \<open>Well-formed headers and their contents\<close>

definition arr_wf :: "'a apr_array_header \<Rightarrow> bool" where
  "arr_wf a \<longleftrightarrow> nelts a \<le> nalloc a \<and> nalloc a \<le> length (elts a) \<and>
     (\<forall>i < nelts a. elts a ! i \<noteq> None)"

definition arr_list :: "'a apr_array_header \<Rightarrow> 'a list" where
  "arr_list a = map the (take (nelts a) (elts a))"

text \<open>Pushing an element: the new slot is requested and then assigned.\<close>

definition arr_push1 :: "'a apr_array_header \<Rightarrow> 'a \<Rightarrow> 'a apr_array_header" where
  "arr_push1 a x = (case apr_array_push_noclear a of (a', i) \<Rightarrow>
     a'\<lparr>elts := (elts a')[i := Some x]\<rparr>)"

lemma arr_wf_slots:
  "arr_wf a \<Longrightarrow> take (nelts a) (elts a) = map Some (arr_list a)"
  by (rule nth_equalityI) (auto simp: arr_wf_def arr_list_def)

lemma arr_wf_nth: "arr_wf a \<Longrightarrow> i < nelts a \<Longrightarrow> elts a ! i = Some (arr_list a ! i)"
  by (simp add: arr_wf_def arr_list_def)

lemma length_arr_list [simp]: "arr_wf a \<Longrightarrow> length (arr_list a) = nelts a"
  by (simp add: arr_wf_def arr_list_def)

lemma arr_list_eq_Nil: "arr_wf a \<Longrightarrow> arr_list a = [] \<longleftrightarrow> nelts a = 0"
  by (metis length_0_conv length_arr_list)

lemma arr_wfI:
  assumes "take n es = map Some xs" and "length xs = n" and "n \<le> m" and "m \<le> length es"
  shows "arr_wf \<lparr>elts = es, nelts = n, nalloc = m\<rparr> \<and>
         arr_list \<lparr>elts = es, nelts = n, nalloc = m\<rparr> = xs"
proof -
  have "es ! i = Some (xs ! i)" if "i < n" for i
    using assms that by (metis nth_map nth_take)
  then show ?thesis
    using assms by (simp add: arr_wf_def arr_list_def comp_def)
qed

lemma arr_elts_wf:
  assumes "arr_wf a" and "take (nelts a) es = map Some xs" and "length xs = nelts a"
    and "length es = length (elts a)"
  shows "arr_wf (a\<lparr>elts := es\<rparr>) \<and> arr_list (a\<lparr>elts := es\<rparr>) = xs"
proof (cases a)
  case (fields es0 n m)
  then show ?thesis using assms arr_wfI [of n es xs m] by (simp add: arr_wf_def)
qed

lemma make_array_core_wf: "arr_wf (make_array_core z n c) \<and> arr_list (make_array_core z n c) = []"
  by (simp add: arr_wf_def arr_list_def make_array_core_def Let_def)

lemma cat_new_size_ge: "0 < m \<Longrightarrow> need \<le> cat_new_size need m \<and> m \<le> cat_new_size need m"
proof (induction need m rule: cat_new_size.induct)
  case (1 need m)
  show ?case
  proof (cases "m < need")
    case True
    with 1 have "need \<le> cat_new_size need (m * 2) \<and> m * 2 \<le> cat_new_size need (m * 2)"
      by simp
    with True 1(2) show ?thesis by (simp add: cat_new_size.simps [of need m])
  qed (simp add: cat_new_size.simps [of need m])
qed

lemma cat_new_size_less: "0 < m \<Longrightarrow> m < need \<Longrightarrow> cat_new_size need m < 2 * need"
proof (induction need m rule: cat_new_size.induct)
  case (1 need m)
  show ?case
  proof (cases "m * 2 < need")
    case True
    with 1 show ?thesis by (simp add: cat_new_size.simps [of need m])
  next
    case False
    with 1(2,3) show ?thesis
      by (simp add: cat_new_size.simps [of need m] cat_new_size.simps [of need "m * 2"])
  qed
qed

section \<open>What the operations keep and return\<close>

lemma arr_push1_wf:
  assumes "arr_wf a"
  shows "arr_wf (arr_push1 a x)" and "arr_list (arr_push1 a x) = arr_list a @ [x]"
proof -
  have len: "length (arr_list a) = nelts a" using assms by simp
  note slots = arr_wf_slots [OF assms]
  have "arr_wf (arr_push1 a x) \<and> arr_list (arr_push1 a x) = arr_list a @ [x]"
  proof (cases "nelts a = nalloc a")
    case True
    define m where "m = (if nalloc a \<le> 0 then 1 else nalloc a * 2)"
    have eq: "arr_push1 a x = \<lparr>elts = (take (nalloc a) (elts a) @ palloc (m - nalloc a))
        [nelts a := Some x], nelts = nelts a + 1, nalloc = m, \<dots> = ()\<rparr>"
      using True by (cases a) (simp add: arr_push1_def apr_array_push_noclear_def m_def Let_def)
    have "take (nelts a + 1) ((take (nalloc a) (elts a) @ palloc (m - nalloc a))
        [nelts a := Some x]) = map Some (arr_list a @ [x])"
      using True slots len
      by (cases "m - nalloc a") (auto simp: palloc_def m_def list_update_append split: if_splits)
    then show ?thesis
      unfolding eq using assms True len
      by (intro arr_wfI) (auto simp: m_def arr_wf_def split: if_splits)
  next
    case False
    have eq: "arr_push1 a x = \<lparr>elts = (elts a)[nelts a := Some x],
        nelts = nelts a + 1, nalloc = nalloc a, \<dots> = ()\<rparr>"
      using False by (cases a) (simp add: arr_push1_def apr_array_push_noclear_def)
    have "take (nelts a + 1) ((elts a)[nelts a := Some x]) = map Some (arr_list a @ [x])"
      using False slots assms by (auto simp: take_Suc_conv_app_nth arr_wf_def)
    then show ?thesis
      unfolding eq using assms False len
      by (intro arr_wfI) (auto simp: arr_wf_def)
  qed
  then show "arr_wf (arr_push1 a x)" and "arr_list (arr_push1 a x) = arr_list a @ [x]"
    by simp_all
qed

lemma apr_array_cat_wf:
  assumes "arr_wf a" and "arr_wf b"
  shows "arr_wf (apr_array_cat z a b)" and "arr_list (apr_array_cat z a b) = arr_list a @ arr_list b"
proof -
  have len: "length (arr_list a) = nelts a" "length (arr_list b) = nelts b" using assms by simp_all
  note slots = arr_wf_slots [OF assms(1)] arr_wf_slots [OF assms(2)]
  define m where "m = (if nalloc a < nelts a + nelts b
    then cat_new_size (nelts a + nelts b) (if nalloc a \<le> 0 then 1 else nalloc a * 2) else nalloc a)"
  define es where "es = (if nalloc a < nelts a + nelts b
    then take (nalloc a) (elts a) @ replicate (m - nalloc a) (Some z) else elts a)"
  have eq: "apr_array_cat z a b = \<lparr>elts = take (nelts a) es @ take (nelts b) (elts b) @
      drop (nelts a + nelts b) es, nelts = nelts a + nelts b, nalloc = m, \<dots> = ()\<rparr>"
    by (cases a) (auto simp: apr_array_cat_def Let_def m_def es_def)
  have m: "nelts a + nelts b \<le> m" "nalloc a \<le> m"
    using cat_new_size_ge [of "if nalloc a \<le> 0 then 1 else nalloc a * 2" "nelts a + nelts b"]
    by (auto simp: m_def split: if_splits)
  have es: "take (nelts a) es = map Some (arr_list a)" "m \<le> length es"
    using assms m slots len by (auto simp: es_def arr_wf_def m_def)
  have "take (nelts a + nelts b) (take (nelts a) es @ take (nelts b) (elts b) @
      drop (nelts a + nelts b) es) = map Some (arr_list a @ arr_list b)"
    using es slots len by simp
  then have "arr_wf (apr_array_cat z a b) \<and>
      arr_list (apr_array_cat z a b) = arr_list a @ arr_list b"
    unfolding eq using m es slots len assms by (intro arr_wfI) (auto simp: arr_wf_def)
  then show "arr_wf (apr_array_cat z a b)"
    and "arr_list (apr_array_cat z a b) = arr_list a @ arr_list b"
    by simp_all
qed

interpretation arr: seq_store arr_wf arr_list arr_push1 "apr_array_cat z"
  by unfold_locales (simp_all add: arr_push1_wf apr_array_cat_wf)

lemma apr_array_pop_wf:
  assumes "arr_wf a" and "apr_array_pop a = (a', Some i)"
  shows "arr_wf a' \<and> i < nalloc a' \<and> elts a' ! i = Some (last (arr_list a)) \<and>
         arr_list a' = butlast (arr_list a) \<and> arr_list a \<noteq> []"
proof -
  have n: "nelts a \<noteq> 0" and a': "a' = a\<lparr>nelts := nelts a - 1\<rparr>" and i: "i = nelts a - 1"
    using assms(2) by (auto simp: apr_array_pop_def apr_is_empty_array_def split: if_splits)
  have slots: "take (nelts a) (elts a) = map Some (arr_list a)" and len: "length (arr_list a) = nelts a"
    using assms(1) by (simp_all add: arr_wf_slots)
  have "elts a ! i = map Some (arr_list a) ! i"
    using n i by (metis slots diff_less neq0_conv nth_take zero_less_one)
  then have "elts a ! i = Some (last (arr_list a))"
    using n i len by (simp add: last_conv_nth flip: length_greater_0_conv)
  moreover have "arr_list a' = butlast (arr_list a)"
    using n a' assms(1) by (simp add: arr_list_def arr_wf_def map_butlast [symmetric] butlast_take)
  moreover have "arr_list a \<noteq> []" using n len by auto
  ultimately show ?thesis
    using assms(1) n a' i by (auto simp: arr_wf_def)
qed

lemma apr_array_copy_wf:
  assumes "arr_wf a"
  shows "arr_wf (apr_array_copy z a) \<and> arr_list (apr_array_copy z a) = arr_list a"
proof -
  have eq: "apr_array_copy z a = \<lparr>elts = take (nelts a) (elts a) @
      replicate (max 1 (nalloc a) - nelts a) (Some z), nelts = nelts a, nalloc = max 1 (nalloc a)\<rparr>"
    by (auto simp: apr_array_copy_def make_array_core_def Let_def)
  show ?thesis
    unfolding eq using arr_wf_slots [OF assms] assms
    by (intro arr_wfI) (auto simp: arr_wf_def)
qed

lemma apr_array_copy_hdr_wf:
  assumes "arr_wf a"
  shows "arr_wf (apr_array_copy_hdr a) \<and> arr_list (apr_array_copy_hdr a) = arr_list a"
  unfolding apr_array_copy_hdr_def copy_array_hdr_core_def
  using arr_wf_slots [OF assms] assms by (intro arr_wfI) (auto simp: arr_wf_def)

section \<open>Joining the strings of an array\<close>

definition join_sep :: "byte \<Rightarrow> cstring option list \<Rightarrow> cstring" where
  "join_sep sep ss =
     (let bs = map (case_option [] id) ss in
      if sep = 0 then concat bs else butlast (concat (map (\<lambda>b. b @ [sep]) bs)))"

lemma join_sep_simps:
  "join_sep sep [] = []"
  "join_sep sep [s] = case_option [] id s"
  "join_sep sep (s # t # ss) =
     case_option [] id s @ (if sep = 0 then [] else [sep]) @ join_sep sep (t # ss)"
  by (auto simp: join_sep_def Let_def butlast_append)

lemma length_join_sep: "length (join_sep sep ss) = pstrcat_len sep ss"
  by (induction sep ss rule: pstrcat_len.induct)
    (auto simp: join_sep_simps slen_def split: option.splits)

lemma pstrcat_put_append:
  "length ys + length xs \<le> n \<Longrightarrow>
   pstrcat_put (map Some ys @ palloc (n - length ys), length ys) xs =
   Some (map Some (ys @ xs) @ palloc (n - length (ys @ xs)), length (ys @ xs))"
  by (simp add: pstrcat_put_def mem_write_append)

lemma pstrcat_copy_join:
  "length ys + pstrcat_len sep ss \<le> n \<Longrightarrow>
   pstrcat_copy sep (map Some ys @ palloc (n - length ys), length ys) ss =
   Some (map Some (ys @ join_sep sep ss) @ palloc (n - length (ys @ join_sep sep ss)),
         length (ys @ join_sep sep ss))"
proof (induction sep ss arbitrary: ys rule: pstrcat_len.induct)
  case (1 sep)
  then show ?case by (simp add: join_sep_simps)
next
  case (2 sep s)
  then show ?case
    using pstrcat_put_append [of ys "case_option [] id s" n]
    by (auto simp: join_sep_simps slen_def split: option.splits)
next
  case (3 sep s t ss)
  define xs where "xs = case_option [] id s"
  define zs where "zs = (if sep = 0 then [] else [sep])"
  have xs: "(case s of None \<Rightarrow> Some st | Some b \<Rightarrow> pstrcat_put st b) = pstrcat_put st xs"
    if "st = (map Some ys @ palloc (n - length ys), length ys)" for st
    using that pstrcat_put_append [of ys "[]" n] 3(2) by (auto simp: xs_def split: option.splits)
  have zs: "(if sep \<noteq> 0 then pstrcat_put st [sep] else Some st) = pstrcat_put st zs"
    if "st = (map Some (ys @ xs) @ palloc (n - length (ys @ xs)), length (ys @ xs))" for st
    using that pstrcat_put_append [of "ys @ xs" "[]" n] 3(2)
    by (auto simp: zs_def xs_def slen_def split: option.splits)
  have len: "length ys + length xs + length zs + pstrcat_len sep (t # ss) \<le> n"
    using 3(2) by (auto simp: xs_def zs_def slen_def split: option.splits)
  have IH: "pstrcat_copy sep (map Some (ys @ xs @ zs) @ palloc (n - length (ys @ xs @ zs)),
      length (ys @ xs @ zs)) (t # ss) =
    Some (map Some ((ys @ xs @ zs) @ join_sep sep (t # ss)) @
      palloc (n - length ((ys @ xs @ zs) @ join_sep sep (t # ss))),
      length ((ys @ xs @ zs) @ join_sep sep (t # ss)))"
    using len by (intro 3(1)) simp
  have p1: "pstrcat_put (map Some ys @ palloc (n - length ys), length ys) xs =
      Some (map Some (ys @ xs) @ palloc (n - length (ys @ xs)), length (ys @ xs))"
    and p2: "pstrcat_put (map Some (ys @ xs) @ palloc (n - length (ys @ xs)), length (ys @ xs)) zs =
      Some (map Some (ys @ xs @ zs) @ palloc (n - length (ys @ xs @ zs)), length (ys @ xs @ zs))"
    using len pstrcat_put_append [of ys xs n] pstrcat_put_append [of "ys @ xs" zs n] by simp_all
  show ?case
    by (simp only: pstrcat_copy.simps xs [OF refl] p1 bind.bind_lunit zs [OF refl] p2 IH)
      (simp add: join_sep_simps xs_def zs_def)
qed

section \<open>Properties\<close>

text \<open>\<open>apr_array_append\<close> of two well-formed arrays is a well-formed array that holds the
  elements of the first followed by those of the second, and its allocation is at most
  twice what it holds.\<close>

theorem array_append_correct:
  assumes "arr_wf a" and "arr_wf b"
  shows "arr_wf (apr_array_append z a b) \<and>
         arr_list (apr_array_append z a b) = arr_list a @ arr_list b \<and>
         nalloc (apr_array_append z a b) \<le> 2 * (nelts a + nelts b)"
proof -
  have h: "arr_wf (apr_array_copy_hdr a)" "arr_list (apr_array_copy_hdr a) = arr_list a"
    using apr_array_copy_hdr_wf [OF assms(1)] by simp_all
  have "nalloc (apr_array_append z a b) \<le> 2 * (nelts a + nelts b)"
    using cat_new_size_less [of "if nelts a = 0 then 1 else nelts a * 2" "nelts a + nelts b"]
      cat_new_size.simps [of "nelts a + nelts b" "if nelts a = 0 then 1 else nelts a * 2"]
    by (cases "(if nelts a = 0 then 1 else nelts a * 2) < nelts a + nelts b")
      (auto simp: apr_array_append_def apr_array_cat_def apr_array_copy_hdr_def
        copy_array_hdr_core_def Let_def)
  then show ?thesis
    using arr.invar_cat [OF h(1) assms(2)] arr.contents_cat [OF h(1) assms(2)] h(2)
    by (simp add: apr_array_append_def)
qed

theorem array_append_correct_witness:
  "arr_list (apr_array_append 0 (arr_push1 (apr_array_make 0 1) (7 :: nat))
     (arr_push1 (arr_push1 (apr_array_make 0 1) 8) 9)) = [7, 8, 9]"
proof -
  have wf: "arr_wf (apr_array_make (0 :: nat) 1)"
    by (simp add: apr_array_make_def make_array_core_wf)
  have ls: "arr_list (apr_array_make (0 :: nat) 1) = []"
    by (simp add: apr_array_make_def make_array_core_wf)
  have a: "arr_wf (arr_push1 (apr_array_make 0 1) (7 :: nat))"
    and b: "arr_wf (arr_push1 (arr_push1 (apr_array_make 0 1) (8 :: nat)) 9)"
    using wf by (simp_all add: arr_push1_wf)
  show ?thesis
    using array_append_correct [OF a b, of 0] wf ls by (simp add: arr_push1_wf)
qed

text \<open>An array is a stack. Popping after an element was pushed returns the slot that holds
  that element and gives back an array with the contents from before the push; popping an
  empty array returns NULL and changes nothing.\<close>

theorem array_push_pop:
  assumes "arr_wf a"
  shows "(\<exists>a' i. apr_array_pop (arr_push1 a x) = (a', Some i) \<and> arr_wf a' \<and>
            elts a' ! i = Some x \<and> arr_list a' = arr_list a) \<and>
         (arr_list a = [] \<longleftrightarrow> apr_array_pop a = (a, None))"
proof
  have "nelts (arr_push1 a x) \<noteq> 0"
    by (simp add: arr_push1_def apr_array_push_noclear_def Let_def)
  then obtain a' i where pop: "apr_array_pop (arr_push1 a x) = (a', Some i)"
    by (simp add: apr_array_pop_def apr_is_empty_array_def)
  have "arr_wf a' \<and> elts a' ! i = Some x \<and> arr_list a' = arr_list a"
    using apr_array_pop_wf [OF arr_push1_wf(1) [OF assms] pop] assms by (simp add: arr_push1_wf)
  with pop show "\<exists>a' i. apr_array_pop (arr_push1 a x) = (a', Some i) \<and> arr_wf a' \<and>
      elts a' ! i = Some x \<and> arr_list a' = arr_list a"
    by blast
  show "arr_list a = [] \<longleftrightarrow> apr_array_pop a = (a, None)"
    using assms by (simp add: arr_list_eq_Nil apr_array_pop_def apr_is_empty_array_def)
qed

theorem array_push_pop_witness:
  "\<exists>a' i. apr_array_pop (arr_push1 (apr_array_make 0 1) (5 :: nat)) = (a', Some i) \<and>
     elts a' ! i = Some 5 \<and> arr_list a' = []"
proof -
  have "arr_wf (apr_array_make (0 :: nat) 1)" "arr_list (apr_array_make (0 :: nat) 1) = []"
    by (simp_all add: apr_array_make_def make_array_core_wf)
  then show ?thesis
    using array_push_pop [of "apr_array_make (0 :: nat) 1" 5] by auto
qed

text \<open>\<open>apr_array_pstrcat\<close> never writes outside the block it sized in its first pass, fills
  the block completely, and leaves in it the non-NULL strings of the array in order, with
  the separator between consecutive elements when it is not NUL, and a final NUL.\<close>

theorem array_pstrcat_exact:
  "apr_array_pstrcat arr sep = Some (map Some (join_sep sep (arr_list arr) @ [0]))"
proof (cases "nelts arr")
  case 0
  then show ?thesis by (simp add: apr_array_pstrcat_def arr_list_def join_sep_simps)
next
  case (Suc n)
  let ?ss = "arr_list arr" and ?len = "pstrcat_len sep (arr_list arr)"
  have copy: "pstrcat_copy sep (palloc (?len + 1), 0) ?ss =
      Some (map Some (join_sep sep ?ss) @ palloc 1, ?len)"
    using pstrcat_copy_join [of "[]" sep ?ss "?len + 1"] by (simp add: length_join_sep)
  have "pstrcat_put (map Some (join_sep sep ?ss) @ palloc 1, ?len) [0] =
      Some (map Some (join_sep sep ?ss @ [0]) @ palloc 0, ?len + 1)"
    using pstrcat_put_append [of "join_sep sep ?ss" "[0]" "?len + 1"]
    by (simp add: length_join_sep)
  with copy Suc show ?thesis
    by (simp add: apr_array_pstrcat_def arr_list_def palloc_def)
qed

end
