(* ===== verification/AprStrings.thy ===== *)
theory AprStrings
  imports AprArray
begin

text \<open>
  String construction: \<open>apr_pstrdup\<close>, \<open>apr_pstrndup\<close>, \<open>apr_pstrmemdup\<close>, \<open>apr_pmemdup\<close>,
  \<open>apr_pstrcat\<close> and \<open>apr_pstrcatv\<close> of \<open>apr-1.3.8/strings/apr_strings.c\<close>,
  \<open>apr_cpystrn\<close>, \<open>apr_collapse_spaces\<close> and \<open>apr_filepath_name_get\<close> of \<open>apr_cpystrn.c\<close>,
  and \<open>apr_strtok\<close> of \<open>apr_strtok.c\<close>.

  A freshly allocated block is a \<open>byte mem\<close>; every block write is checked, so a model
  that returns \<open>Some\<close> has written inside its block only. \<open>blk_str\<close> reads the string of a
  block whose last byte is the NUL. A variable argument list is the list of its
  arguments; NULL (\<open>None\<close>), or the end of the list, ends it.
\<close>

section \<open>Copies\<close>

definition blk_str :: "byte mem \<Rightarrow> cstring" where
  "blk_str m = map the (butlast m)"

definition apr_pstrdup :: "cstring option \<Rightarrow> cstring option" where
  "apr_pstrdup s = (case s of None \<Rightarrow> None
     | Some b \<Rightarrow> (let len = length b + 1 in
         map_option blk_str (mem_write (palloc len) 0 (take len (b @ [0])))))"

text \<open>
  \<open>apr_pstrndup\<close>: the source block \<open>s\<close> holds at least \<open>n\<close> readable bytes or a NUL
  before them; \<open>memchr\<close> looks for the NUL among the first \<open>n\<close>.
\<close>

definition memchr :: "byte list \<Rightarrow> byte \<Rightarrow> nat \<Rightarrow> nat option" where
  "memchr s c n = List.find (\<lambda>i. s ! i = c) [0..<min n (length s)]"

definition apr_pstrndup :: "byte list option \<Rightarrow> nat \<Rightarrow> byte mem option option" where
  "apr_pstrndup s n = (case s of None \<Rightarrow> None
     | Some b \<Rightarrow>
         (let n' = (case memchr b 0 n of Some e \<Rightarrow> e | None \<Rightarrow> n)
          in Some (Option.bind (mem_write (palloc (n' + 1)) 0 (take n' b))
                    (\<lambda>res. mem_write res n' [0]))))"

definition apr_pstrmemdup :: "byte list option \<Rightarrow> nat \<Rightarrow> byte mem option option" where
  "apr_pstrmemdup s n = (case s of None \<Rightarrow> None
     | Some b \<Rightarrow> Some (Option.bind (mem_write (palloc (n + 1)) 0 (take n b))
                         (\<lambda>res. mem_write res n [0])))"

definition apr_pmemdup :: "byte list option \<Rightarrow> nat \<Rightarrow> byte mem option option" where
  "apr_pmemdup m n = (case m of None \<Rightarrow> None
     | Some b \<Rightarrow> Some (mem_write (palloc n) 0 (take n b)))"

section \<open>Concatenation\<close>

definition MAX_SAVED_LENGTHS :: nat where
  "MAX_SAVED_LENGTHS = 6"

text \<open>Pass one: the lengths of the first six arguments are remembered.\<close>

fun pstrcat_pass1 :: "cstring option list \<Rightarrow> nat list \<Rightarrow> nat \<Rightarrow> nat list \<times> nat" where
  "pstrcat_pass1 [] saved len = (saved, len)"
| "pstrcat_pass1 (None # as) saved len = (saved, len)"
| "pstrcat_pass1 (Some cp # as) saved len =
     (let cplen = length cp in
      pstrcat_pass1 as (if length saved < MAX_SAVED_LENGTHS then saved @ [cplen] else saved)
        (len + cplen))"

text \<open>Pass two: the remembered length is used while there is one.\<close>

fun pstrcat_pass2 ::
  "cstring option list \<Rightarrow> nat list \<Rightarrow> nat \<Rightarrow> byte mem \<times> nat \<Rightarrow> (byte mem \<times> nat) option" where
  "pstrcat_pass2 [] saved nargs st = Some st"
| "pstrcat_pass2 (None # as) saved nargs st = Some st"
| "pstrcat_pass2 (Some argp # as) saved nargs st =
     (let (len, nargs') = (if nargs < MAX_SAVED_LENGTHS then (saved ! nargs, nargs + 1)
                           else (length argp, nargs))
      in Option.bind (pstrcat_put st (take len argp))
           (\<lambda>st'. pstrcat_pass2 as saved nargs' st'))"

definition apr_pstrcat :: "cstring option list \<Rightarrow> byte mem option" where
  "apr_pstrcat args =
     (let (saved, len) = pstrcat_pass1 args [] 0
      in Option.bind (pstrcat_pass2 args saved 0 (palloc (len + 1), 0))
           (\<lambda>st. map_option fst (pstrcat_put st [0])))"

text \<open>\<open>apr_pstrcatv\<close>: an \<open>iovec\<close> is the list of the bytes it spans.\<close>

fun pstrcatv_len :: "byte list list \<Rightarrow> nat \<Rightarrow> nat" where
  "pstrcatv_len [] len = len"
| "pstrcatv_len (src # vec) len = pstrcatv_len vec (len + length src)"

fun pstrcatv_copy :: "byte list list \<Rightarrow> byte mem \<times> nat \<Rightarrow> (byte mem \<times> nat) option" where
  "pstrcatv_copy [] st = Some st"
| "pstrcatv_copy (src # vec) st =
     Option.bind (pstrcat_put st src) (\<lambda>st'. pstrcatv_copy vec st')"

definition apr_pstrcatv :: "byte list list \<Rightarrow> (byte mem \<times> nat) option" where
  "apr_pstrcatv vec =
     (let len = pstrcatv_len vec 0
      in Option.bind (pstrcatv_copy vec (palloc (len + 1), 0))
           (\<lambda>st. map_option (\<lambda>st'. (fst st', len)) (pstrcat_put st [0])))"

section \<open>Bounded copy\<close>

text \<open>
  \<open>apr_cpystrn\<close>: \<open>dst\<close> is the block at the destination, \<open>src\<close> the string with its NUL at
  index \<open>length src\<close>. The loop runs \<open>d\<close> up to \<open>end\<close>; the result is the written block and
  the position of the NUL, or \<open>None\<close> after a write outside the block.
\<close>

fun cpystrn_loop :: "nat \<Rightarrow> byte mem \<Rightarrow> nat \<Rightarrow> cstring \<Rightarrow> (byte mem \<times> nat) option" where
  "cpystrn_loop 0 dst d src = map_option (\<lambda>dst'. (dst', d)) (mem_write dst d [0])"
| "cpystrn_loop (Suc k) dst d src =
     Option.bind (mem_write dst d [cget src 0])
       (\<lambda>dst'. if cget src 0 = 0 then Some (dst', d)
               else cpystrn_loop k dst' (d + 1) (tl src))"

definition apr_cpystrn :: "byte mem \<Rightarrow> cstring \<Rightarrow> nat \<Rightarrow> (byte mem \<times> nat) option" where
  "apr_cpystrn dst src dst_size =
     (if dst_size = 0 then Some (dst, 0) else cpystrn_loop (dst_size - 1) dst 0 src)"

section \<open>Tokens, spaces, path names\<close>

text \<open>
  \<open>apr_collapse_spaces\<close> in place: reader \<open>src\<close> and writer \<open>dest\<close> are positions in one
  block that holds the string and its NUL.
\<close>

function collapse_loop :: "byte list \<Rightarrow> nat \<Rightarrow> nat \<Rightarrow> byte list \<times> nat" where
  "collapse_loop m dest src =
     (if src < length m \<and> m ! src \<noteq> 0 then
        if \<not> isspace (m ! src) then collapse_loop (m[dest := m ! src]) (dest + 1) (src + 1)
        else collapse_loop m dest (src + 1)
      else (m[dest := 0], dest))"
  by pat_completeness auto
termination
  by (relation "measure (\<lambda>(m, dest, src). length m - src)") auto

declare collapse_loop.simps [simp del]

definition apr_collapse_spaces :: "byte list \<Rightarrow> byte list \<times> nat" where
  "apr_collapse_spaces m = collapse_loop m 0 0"

definition strrchr :: "cstring \<Rightarrow> byte \<Rightarrow> nat option" where
  "strrchr s c = List.find (\<lambda>i. s ! i = c) (rev [0..<length s])"

definition apr_filepath_name_get :: "cstring \<Rightarrow> cstring" where
  "apr_filepath_name_get pathname =
     (case strrchr pathname 0x2f of Some s \<Rightarrow> drop (s + 1) pathname | None \<Rightarrow> pathname)"

text \<open>
  \<open>apr_strtok\<close>: the state is the unread rest of the string (\<open>*last\<close>); a call returns the
  token and the new rest. Overwriting the delimiter with a NUL ends the token there.
\<close>

definition in_sep :: "cstring \<Rightarrow> byte \<Rightarrow> bool" where
  "in_sep sep c \<longleftrightarrow> c \<in> set sep"

definition apr_strtok :: "cstring option \<Rightarrow> cstring \<Rightarrow> cstring \<Rightarrow> cstring option \<times> cstring" where
  "apr_strtok str sep lst =
     (let s = dropWhile (in_sep sep) (case str of None \<Rightarrow> lst | Some s \<Rightarrow> s)
      in if s = [] then (None, lst)
         else (let token = hd s # takeWhile (\<lambda>c. \<not> in_sep sep c) (tl s);
                   rest = dropWhile (\<lambda>c. \<not> in_sep sep c) (tl s)
               in (Some token, if rest \<noteq> [] then tl rest else rest)))"

lemma apr_strtok_shrinks:
  assumes "apr_strtok (Some s) sep lst = (Some tok, r)"
  shows "length r < length s"
proof -
  define s' where "s' = dropWhile (in_sep sep) s"
  have "s' \<noteq> []" "length r \<le> length (tl s')"
    using assms length_dropWhile_le [of "\<lambda>c. \<not> in_sep sep c" "tl s'"]
    by (auto simp: apr_strtok_def s'_def Let_def split: if_splits)
  then have "length r < length s'" by (cases s') auto
  also have "length s' \<le> length s" by (simp add: s'_def length_dropWhile_le)
  finally show ?thesis .
qed

text \<open>The caller's loop: the first call passes the string, later calls continue with the rest.\<close>

function strtok_all :: "cstring \<Rightarrow> cstring \<Rightarrow> cstring list" where
  "strtok_all sep s =
     (case apr_strtok (Some s) sep [] of (None, _) \<Rightarrow> []
      | (Some token, rest) \<Rightarrow> token # strtok_all sep rest)"
  by pat_completeness auto
termination
  by (relation "measure (\<lambda>(sep, s). length s)") (auto dest: apr_strtok_shrinks [OF sym])

declare strtok_all.simps [simp del]

section \<open>Copies and concatenation are exact\<close>

lemma apr_pstrdup_eq [simp]: "apr_pstrdup s = s"
  by (cases s) (simp_all add: apr_pstrdup_def Let_def mem_write_def blk_str_def comp_def butlast_append)

lemma pstrcat_pass1_eq:
  "pstrcat_pass1 as saved len =
     (let ss = map the (takeWhile (\<lambda>a. a \<noteq> None) as) in
      (saved @ take (MAX_SAVED_LENGTHS - length saved) (map length ss), len + length (concat ss)))"
  by (induction as saved len rule: pstrcat_pass1.induct)
    (auto simp: Let_def take_Cons' split: if_splits)

lemma pstrcat_pass2_eq:
  assumes "length ys + length (concat (map the (takeWhile (\<lambda>a. a \<noteq> None) as))) \<le> n"
    and "nargs \<le> MAX_SAVED_LENGTHS"
    and "\<And>i. i < length (takeWhile (\<lambda>a. a \<noteq> None) as) \<Longrightarrow> nargs + i < MAX_SAVED_LENGTHS \<Longrightarrow>
           saved ! (nargs + i) = length (the (as ! i))"
  shows "pstrcat_pass2 as saved nargs (map Some ys @ palloc (n - length ys), length ys) =
    (let zs = ys @ concat (map the (takeWhile (\<lambda>a. a \<noteq> None) as))
     in Some (map Some zs @ palloc (n - length zs), length zs))"
  using assms
proof (induction as arbitrary: nargs ys)
  case Nil
  then show ?case by simp
next
  case (Cons a as)
  show ?case
  proof (cases a)
    case None
    then show ?thesis by simp
  next
    case (Some b)
    define nargs' where "nargs' = (if nargs < MAX_SAVED_LENGTHS then nargs + 1 else nargs)"
    have len: "take (if nargs < MAX_SAVED_LENGTHS then saved ! nargs else length b) b = b"
      using Cons.prems(3) [of 0] Some by simp
    have put: "pstrcat_put (map Some ys @ palloc (n - length ys), length ys) b =
        Some (map Some (ys @ b) @ palloc (n - length (ys @ b)), length (ys @ b))"
      using Cons.prems(1) Some by (intro pstrcat_put_append) simp
    have IH: "pstrcat_pass2 as saved nargs'
        (map Some (ys @ b) @ palloc (n - length (ys @ b)), length (ys @ b)) =
      (let zs = (ys @ b) @ concat (map the (takeWhile (\<lambda>a. a \<noteq> None) as))
       in Some (map Some zs @ palloc (n - length zs), length zs))"
    proof (rule Cons.IH)
      show "length (ys @ b) + length (concat (map the (takeWhile (\<lambda>a. a \<noteq> None) as))) \<le> n"
        using Cons.prems(1) Some by simp
      show "nargs' \<le> MAX_SAVED_LENGTHS" using Cons.prems(2) by (simp add: nargs'_def)
      fix i
      assume "i < length (takeWhile (\<lambda>a. a \<noteq> None) as)" "nargs' + i < MAX_SAVED_LENGTHS"
      then show "saved ! (nargs' + i) = length (the (as ! i))"
        using Cons.prems(3) [of "Suc i"] Some by (auto simp: nargs'_def split: if_splits)
    qed
    show ?thesis
      using len put IH Some by (simp add: nargs'_def Let_def split: if_splits)
  qed
qed

lemma apr_pstrcat_eq:
  "apr_pstrcat args = Some (map Some (concat (map the (takeWhile (\<lambda>a. a \<noteq> None) args)) @ [0]))"
proof -
  let ?ss = "map the (takeWhile (\<lambda>a. a \<noteq> None) args)"
  let ?saved = "take MAX_SAVED_LENGTHS (map length ?ss)" and ?len = "length (concat ?ss)"
  have p1: "pstrcat_pass1 args [] 0 = (?saved, ?len)"
    by (simp add: pstrcat_pass1_eq Let_def)
  have p2: "pstrcat_pass2 args ?saved 0 (palloc (?len + 1), 0) =
      Some (map Some (concat ?ss) @ palloc 1, ?len)"
    using pstrcat_pass2_eq [of "[]" args "?len + 1" 0 ?saved]
    by (simp add: Let_def takeWhile_nth)
  have "pstrcat_put (map Some (concat ?ss) @ palloc 1, ?len) [0] =
      Some (map Some (concat ?ss @ [0]), ?len + 1)"
    using pstrcat_put_append [of "concat ?ss" "[0]" "?len + 1"] by (simp add: palloc_def)
  with p1 p2 show ?thesis
    by (simp only: apr_pstrcat_def Let_def case_prod_conv bind.bind_lunit) simp
qed

lemma takeWhile_args: "takeWhile (\<lambda>a. a \<noteq> None) (map Some ss @ None # as) = map Some ss"
  by (induction ss) auto

lemma pstrcatv_len_eq: "pstrcatv_len vec len = len + length (concat vec)"
  by (induction vec len rule: pstrcatv_len.induct) simp_all

lemma pstrcatv_copy_eq:
  "length ys + length (concat vec) \<le> n \<Longrightarrow>
   pstrcatv_copy vec (map Some ys @ palloc (n - length ys), length ys) =
   Some (map Some (ys @ concat vec) @ palloc (n - length (ys @ concat vec)),
         length (ys @ concat vec))"
proof (induction vec arbitrary: ys)
  case (Cons src vec)
  then have "pstrcat_put (map Some ys @ palloc (n - length ys), length ys) src =
      Some (map Some (ys @ src) @ palloc (n - length (ys @ src)), length (ys @ src))"
    by (intro pstrcat_put_append) simp
  with Cons.IH [of "ys @ src"] Cons.prems show ?case by simp
qed simp

lemma apr_pstrcatv_eq:
  "apr_pstrcatv vec = Some (map Some (concat vec @ [0]), length (concat vec))"
proof -
  have "pstrcatv_copy vec (palloc (length (concat vec) + 1), 0) =
      Some (map Some (concat vec) @ palloc 1, length (concat vec))"
    using pstrcatv_copy_eq [of "[]" vec "length (concat vec) + 1"] by simp
  moreover have "pstrcat_put (map Some (concat vec) @ palloc 1, length (concat vec)) [0] =
      Some (map Some (concat vec @ [0]), length (concat vec) + 1)"
    using pstrcat_put_append [of "concat vec" "[0]" "length (concat vec) + 1"]
    by (simp add: palloc_def)
  ultimately show ?thesis
    by (simp only: apr_pstrcatv_def Let_def pstrcatv_len_eq add_0 bind.bind_lunit) simp
qed

section \<open>The bounded copy\<close>

lemma cpystrn_loop_eq:
  assumes "0 \<notin> set src" and "length ys + k < length dst"
  shows "cpystrn_loop k (map Some ys @ drop (length ys) dst) (length ys) src =
     (let d = min (length src) k in
      Some (map Some (ys @ take d src @ [0]) @ drop (length ys + d + 1) dst, length ys + d))"
  using assms
proof (induction k arbitrary: ys src)
  case 0
  then show ?case by (simp add: mem_write_def)
next
  case (Suc k)
  show ?case
  proof (cases src)
    case Nil
    with Suc.prems show ?thesis by (auto simp: mem_write_def cget_def)
  next
    case (Cons c cs)
    have w: "mem_write (map Some ys @ drop (length ys) dst) (length ys) [c] =
        Some (map Some (ys @ [c]) @ drop (length (ys @ [c])) dst)"
      using Suc.prems by (simp add: mem_write_def)
    have "cpystrn_loop k (map Some (ys @ [c]) @ drop (length (ys @ [c])) dst)
        (length (ys @ [c])) cs =
      (let d = min (length cs) k in Some (map Some ((ys @ [c]) @ take d cs @ [0]) @
        drop (length (ys @ [c]) + d + 1) dst, length (ys @ [c]) + d))"
      using Suc.IH [of cs "ys @ [c]"] Suc.prems Cons by auto
    then show ?thesis
      using Suc.prems Cons w by (simp add: cget_def Let_def)
  qed
qed

section \<open>Tokens and spaces\<close>

fun split_sep :: "cstring \<Rightarrow> cstring \<Rightarrow> cstring list" where
  "split_sep sep [] = [[]]"
| "split_sep sep (c # cs) =
     (if in_sep sep c then [] # split_sep sep cs
      else (c # hd (split_sep sep cs)) # tl (split_sep sep cs))"

lemma split_sep_nonempty: "split_sep sep s \<noteq> []"
  by (cases s) auto

lemma split_sep_span:
  "split_sep sep s =
     takeWhile (\<lambda>c. \<not> in_sep sep c) s #
     (let r = dropWhile (\<lambda>c. \<not> in_sep sep c) s in if r = [] then [] else split_sep sep (tl r))"
  by (induction s) (simp_all add: Let_def)

lemma split_sep_skip:
  "filter (\<lambda>w. w \<noteq> []) (split_sep sep (dropWhile (in_sep sep) s)) =
   filter (\<lambda>w. w \<noteq> []) (split_sep sep s)"
  by (induction s) auto

lemma collapse_loop_eq:
  assumes "m = pre @ drop (length pre) (u @ s @ [0])" and "length pre \<le> length u" and "0 \<notin> set s"
  shows "\<exists>m'. collapse_loop m (length pre) (length u) =
           (m', length (pre @ filter (\<lambda>c. \<not> isspace c) s)) \<and>
         length m' = length m \<and>
         take (length (pre @ filter (\<lambda>c. \<not> isspace c) s) + 1) m' =
           pre @ filter (\<lambda>c. \<not> isspace c) s @ [0]"
  using assms
proof (induction s arbitrary: m pre u)
  case Nil
  then have "m ! length u = 0" by (auto simp: nth_append)
  then have eq: "collapse_loop m (length pre) (length u) = (m[length pre := 0], length pre)"
    by (simp add: collapse_loop.simps [of m])
  have "take (length pre + 1) (m[length pre := 0]) = pre @ [0]"
    using Nil.prems
    by (cases "drop (length pre) u") (simp_all add: list_update_append take_Suc_conv_app_nth)
  with eq show ?case by simp
next
  case (Cons c s)
  have len: "length u < length m" and mu: "m ! length u = c"
    using Cons.prems by (auto simp: nth_append)
  have c: "c \<noteq> 0" using Cons.prems by auto
  show ?case
  proof (cases "isspace c")
    case True
    have "m = pre @ drop (length pre) ((u @ [c]) @ s @ [0])" using Cons.prems by simp
    moreover have "collapse_loop m (length pre) (length u) =
        collapse_loop m (length pre) (length (u @ [c]))"
      using True len mu c by (simp add: collapse_loop.simps [of m "length pre" "length u"])
    ultimately show ?thesis
      using Cons.IH [of m pre "u @ [c]"] Cons.prems(2,3) True by simp
  next
    case False
    let ?w = "u @ (c # s) @ [0]"
    have "drop (length pre) ?w = ?w ! length pre # drop (Suc (length pre)) ?w"
      using Cons.prems(2) by (intro Cons_nth_drop_Suc [symmetric]) simp
    then have eq: "m[length pre := c] =
        (pre @ [c]) @ drop (length (pre @ [c])) ((u @ [c]) @ s @ [0])"
      using Cons.prems(1) by (simp add: list_update_append del: drop_append)
    define m2 where "m2 = m[length pre := c]"
    have "collapse_loop m (length pre) (length u) =
        collapse_loop m2 (length (pre @ [c])) (length (u @ [c]))"
      using False len mu c
      by (simp add: collapse_loop.simps [of m "length pre" "length u"] m2_def)
    moreover have "length m2 = length m" by (simp add: m2_def)
    ultimately show ?thesis
      using Cons.IH [OF eq [folded m2_def]] Cons.prems(2,3) False by simp
  qed
qed

lemma strtok_all_split: "strtok_all sep s = filter (\<lambda>w. w \<noteq> []) (split_sep sep s)"
proof (induction sep s rule: strtok_all.induct)
  case (1 sep s)
  define s' where "s' = dropWhile (in_sep sep) s"
  have skip: "filter (\<lambda>w. w \<noteq> []) (split_sep sep s) = filter (\<lambda>w. w \<noteq> []) (split_sep sep s')"
    by (simp add: s'_def split_sep_skip)
  show ?case
  proof (cases s')
    case Nil
    then show ?thesis
      using skip by (simp add: strtok_all.simps [of sep s] apr_strtok_def s'_def [symmetric])
  next
    case (Cons c cs)
    define r where "r = dropWhile (\<lambda>c. \<not> in_sep sep c) cs"
    have c: "\<not> in_sep sep c"
      using Cons by (metis dropWhile_eq_Cons_conv s'_def)
    have tok: "apr_strtok (Some s) sep [] =
        (Some (c # takeWhile (\<lambda>c. \<not> in_sep sep c) cs), if r \<noteq> [] then tl r else r)"
      using Cons by (simp add: apr_strtok_def s'_def [symmetric] r_def)
    have "strtok_all sep (if r \<noteq> [] then tl r else r) =
        filter (\<lambda>w. w \<noteq> []) (split_sep sep (if r \<noteq> [] then tl r else r))"
      using 1 [OF tok [symmetric]] by simp
    then show ?thesis
      using skip Cons c split_sep_span [of sep s']
      by (simp add: strtok_all.simps [of sep s] tok r_def [symmetric] Let_def split: if_splits)
  qed
qed

section \<open>Properties\<close>

text \<open>\<open>apr_pstrcat\<close> never writes outside the block it sized in its first pass, whatever the
  number of arguments (the lengths of the first six come from the cache, later ones are
  measured again), and the block is exactly filled with the arguments up to the first NULL
  and a NUL; \<open>apr_pstrcatv\<close> builds the same block from the same pieces and reports its
  length without the NUL.\<close>

theorem pstrcat_exact:
  "apr_pstrcat (map Some ss @ None # as) = Some (map Some (concat ss @ [0])) \<and>
   apr_pstrcatv ss = Some (map Some (concat ss @ [0]), length (concat ss))"
  by (simp only: apr_pstrcat_eq apr_pstrcatv_eq takeWhile_args) (simp add: comp_def)

text \<open>\<open>apr_cpystrn\<close> into a block of at least \<open>dst_size > 0\<close> bytes stays inside the first
  \<open>dst_size\<close> bytes, always ends the copy with a NUL, truncates the source to what fits, leaves
  the bytes after the NUL alone, and returns the position of the NUL (so the caller can
  detect truncation).\<close>

theorem cpystrn_bounded:
  assumes "0 \<notin> set src" and "0 < dst_size" and "dst_size \<le> length dst"
  shows "apr_cpystrn dst src dst_size =
    (let d = min (length src) (dst_size - 1)
     in Some (map Some (take d src @ [0]) @ drop (d + 1) dst, d))"
  using cpystrn_loop_eq [of src "[]" "dst_size - 1" dst] assms
  by (simp add: apr_cpystrn_def Let_def)

theorem cpystrn_bounded_witness:
  "apr_cpystrn [None, None, None, None] [0x61, 0x62, 0x63] 3 =
     Some ([Some 0x61, Some 0x62, Some 0, None], 2)"
  using cpystrn_bounded [of "[0x61, 0x62, 0x63]" 3 "[None, None, None, None]"]
  by simp

text \<open>Calling \<open>apr_strtok\<close> until it returns NULL terminates and yields the non-empty pieces
  of the string between separator characters, in order.\<close>

theorem strtok_tokens:
  "strtok_all sep s = filter (\<lambda>w. w \<noteq> []) (split_sep sep s)"
  by (rule strtok_all_split)

text \<open>\<open>apr_collapse_spaces\<close> applied in place (source and destination the same block) removes
  exactly the white space, keeps the other characters in order, ends the result with a NUL,
  and returns its position.\<close>

theorem collapse_spaces_in_place:
  assumes "0 \<notin> set s"
  shows "\<exists>m'. apr_collapse_spaces (s @ [0]) = (m', length (filter (\<lambda>c. \<not> isspace c) s)) \<and>
           length m' = length s + 1 \<and>
           take (length (filter (\<lambda>c. \<not> isspace c) s) + 1) m' =
             filter (\<lambda>c. \<not> isspace c) s @ [0]"
  using collapse_loop_eq [of "s @ [0]" "[]" "[]" s] assms
  by (simp add: apr_collapse_spaces_def)

theorem collapse_spaces_in_place_witness:
  "snd (apr_collapse_spaces ([0x61, 0x20, 0x62] @ [0])) = 2"
  using collapse_spaces_in_place [of "[0x61, 0x20, 0x62]"]
  by (auto simp: isspace_def)

end
