(* ===== verification/AprTable.thy ===== *)
theory AprTable
  imports AprStrings "HOL-Library.List_Lexorder" "HOL-Library.Multiset"
begin

text \<open>
  The string tables of \<open>apr-1.3.8/tables/apr_tables.c\<close> (lines 285--1235): an array of
  key/value entries with duplicates allowed, keys compared without regard to case, and
  an index that maps the low five bits of a key's first byte to the range of the array
  in which entries with such keys lie.

  \<open>table_wf\<close> says what the code keeps true of the index, the checksums and the array.
  The operations are compared with plain list operations on the entries
  (\<open>spec_get\<close>, \<open>spec_set\<close>, \<open>spec_unset\<close>, \<open>spec_merge\<close>) that know no index and no
  checksum. Index arrays are uninitialised at first (\<open>None\<close>). \<open>char\<close> is signed, as on
  the compilers the build files target, so a byte is sign-extended in the checksum.
\<close>

section \<open>State\<close>

record apr_table_entry =
  tkey :: "cstring option"
  tval :: "cstring option"
  key_checksum :: u32

record apr_table =
  ta :: "apr_table_entry apr_array_header"
  index_initialized :: u32
  index_first :: "nat mem"
  index_last :: "nat mem"

definition CASE_MASK :: u32 where
  "CASE_MASK = 0xdfdfdfdf"

definition TABLE_HASH_SIZE :: nat where
  "TABLE_HASH_SIZE = 32"

definition TABLE_HASH :: "cstring \<Rightarrow> nat" where
  "TABLE_HASH key = unat (0x1f AND cget key 0)"

definition TABLE_INDEX_IS_INITIALIZED :: "apr_table \<Rightarrow> nat \<Rightarrow> bool" where
  "TABLE_INDEX_IS_INITIALIZED t i \<longleftrightarrow> index_initialized t AND push_bit i 1 \<noteq> 0"

definition TABLE_SET_INDEX_INITIALIZED :: "apr_table \<Rightarrow> nat \<Rightarrow> apr_table" where
  "TABLE_SET_INDEX_INITIALIZED t i =
     t\<lparr>index_initialized := index_initialized t OR push_bit i 1\<rparr>"

text \<open>One step of the checksum macro: shift, then add the next byte unless the string ended.\<close>

definition checksum_step :: "cstring \<Rightarrow> nat \<Rightarrow> u32 \<times> u32 \<Rightarrow> u32 \<times> u32" where
  "checksum_step key i st = (case st of (c, checksum) \<Rightarrow>
     (let checksum' = push_bit 8 checksum in
      if c \<noteq> 0 then (let c' = scast (cget key i) in (c', checksum' OR c')) else (c, checksum')))"

definition COMPUTE_KEY_CHECKSUM :: "cstring \<Rightarrow> u32" where
  "COMPUTE_KEY_CHECKSUM key =
     (let c = scast (cget key 0)
      in snd (checksum_step key 3 (checksum_step key 2 (checksum_step key 1 (c, c))))
         AND CASE_MASK)"

section \<open>Operations\<close>

definition apr_table_elts :: "apr_table \<Rightarrow> apr_table_entry apr_array_header" where
  "apr_table_elts t = ta t"

definition apr_is_empty_table :: "apr_table option \<Rightarrow> bool" where
  "apr_is_empty_table t = (case t of None \<Rightarrow> True | Some t' \<Rightarrow> nelts (ta t') = 0)"

definition zero_entry :: apr_table_entry where
  "zero_entry = \<lparr>tkey = None, tval = None, key_checksum = 0\<rparr>"

definition apr_table_make :: "int \<Rightarrow> apr_table" where
  "apr_table_make n =
     \<lparr>ta = make_array_core zero_entry n False, index_initialized = 0,
      index_first = palloc TABLE_HASH_SIZE, index_last = palloc TABLE_HASH_SIZE\<rparr>"

definition apr_table_copy :: "apr_table \<Rightarrow> apr_table" where
  "apr_table_copy t =
     (let arr = make_array_core zero_entry (int (nalloc (ta t))) False
      in \<lparr>ta = arr\<lparr>elts := take (nelts (ta t)) (elts (ta t)) @ drop (nelts (ta t)) (elts arr),
                   nelts := nelts (ta t)\<rparr>,
          index_initialized = index_initialized t,
          index_first = index_first t, index_last = index_last t\<rparr>)"

text \<open>The body of the loop of \<open>table_reindex\<close>, and the loop.\<close>

definition reindex_step :: "nat \<Rightarrow> apr_table \<Rightarrow> apr_table" where
  "reindex_step i t =
     (let hash = TABLE_HASH (the (tkey (the (elts (ta t) ! i))));
          t' = t\<lparr>index_last := (index_last t)[hash := Some i]\<rparr>
      in if \<not> TABLE_INDEX_IS_INITIALIZED t' hash
         then TABLE_SET_INDEX_INITIALIZED
                (t'\<lparr>index_first := (index_first t')[hash := Some i]\<rparr>) hash
         else t')"

definition table_reindex :: "apr_table \<Rightarrow> apr_table" where
  "table_reindex t = fold reindex_step [0..<nelts (ta t)] (t\<lparr>index_initialized := 0\<rparr>)"

definition apr_table_clear :: "apr_table \<Rightarrow> apr_table" where
  "apr_table_clear t = t\<lparr>ta := (ta t)\<lparr>nelts := 0\<rparr>, index_initialized := 0\<rparr>"

text \<open>The test every search makes: equal checksums, and then equal keys up to case.\<close>

definition key_match :: "cstring \<Rightarrow> u32 \<Rightarrow> apr_table_entry \<Rightarrow> bool" where
  "key_match key checksum e \<longleftrightarrow>
     checksum = key_checksum e \<and> strcasecmp (the (tkey e)) key = 0"

text \<open>The search loop: the first slot from \<open>i\<close> up to \<open>last\<close> whose entry matches.\<close>

function table_scan :: "apr_table_entry mem \<Rightarrow> cstring \<Rightarrow> u32 \<Rightarrow> nat \<Rightarrow> nat \<Rightarrow> nat option" where
  "table_scan es key checksum i l =
     (if i \<le> l then
        if key_match key checksum (the (es ! i)) then Some i
        else table_scan es key checksum (i + 1) l
      else None)"
  by pat_completeness auto
termination
  by (relation "measure (\<lambda>(es, key, checksum, i, l). l + 1 - i)") auto

declare table_scan.simps [simp del]

definition apr_table_get :: "apr_table \<Rightarrow> cstring option \<Rightarrow> cstring option" where
  "apr_table_get t k = (case k of None \<Rightarrow> None
     | Some key \<Rightarrow>
         (let hash = TABLE_HASH key in
          if \<not> TABLE_INDEX_IS_INITIALIZED t hash then None
          else (case table_scan (elts (ta t)) key (COMPUTE_KEY_CHECKSUM key)
                       (the (index_first t ! hash)) (the (index_last t ! hash)) of
                  None \<Rightarrow> None | Some i \<Rightarrow> tval (the (elts (ta t) ! i)))))"

text \<open>The code at the label \<open>add_new_elt\<close>.\<close>

definition table_add_new_elt ::
  "apr_table \<Rightarrow> nat \<Rightarrow> cstring option \<Rightarrow> cstring option \<Rightarrow> u32 \<Rightarrow> apr_table" where
  "table_add_new_elt t hash k v checksum =
     (let t' = t\<lparr>index_last := (index_last t)[hash := Some (nelts (ta t))]\<rparr>;
          (arr, i) = apr_array_push_noclear (ta t')
      in t'\<lparr>ta := arr\<lparr>elts := (elts arr)[i :=
              Some \<lparr>tkey = k, tval = v, key_checksum = checksum\<rparr>]\<rparr>\<rparr>)"

text \<open>
  The first inner loop of \<open>apr_table_set\<close>: from \<open>i\<close> up to \<open>l\<close>, drop further entries with the
  key and move the others down. The state is the block, \<open>nelts\<close>, \<open>dst_elt\<close> (NULL is
  \<open>None\<close>) and \<open>must_reindex\<close>.
\<close>

function set_dups ::
  "cstring \<Rightarrow> u32 \<Rightarrow> apr_table_entry mem \<Rightarrow> nat \<Rightarrow> nat option \<Rightarrow> bool \<Rightarrow> nat \<Rightarrow> nat \<Rightarrow>
   apr_table_entry mem \<times> nat \<times> nat option \<times> bool \<times> nat" where
  "set_dups key checksum es n dst must i l =
     (if i \<le> l then
        if key_match key checksum (the (es ! i)) then
          set_dups key checksum es (n - 1) (case dst of None \<Rightarrow> Some i | Some d \<Rightarrow> Some d) must (i + 1) l
        else (case dst of
                Some d \<Rightarrow> set_dups key checksum (es[d := es ! i]) n (Some (d + 1)) True (i + 1) l
              | None \<Rightarrow> set_dups key checksum es n None must (i + 1) l)
      else (es, n, dst, must, i))"
  by pat_completeness auto
termination
  by (relation "measure (\<lambda>(key, checksum, es, n, dst, must, i, l). l + 1 - i)") auto

declare set_dups.simps [simp del]

text \<open>The loop that shifts the rest of the table down: \<open>*dst_elt++ = *next_elt\<close>.\<close>

function table_shift :: "apr_table_entry mem \<Rightarrow> nat \<Rightarrow> nat \<Rightarrow> nat \<Rightarrow> apr_table_entry mem" where
  "table_shift es d i e =
     (if i < e then table_shift (es[d := es ! i]) (d + 1) (i + 1) e else es)"
  by pat_completeness auto
termination
  by (relation "measure (\<lambda>(es, d, i, e). e - i)") auto

declare table_shift.simps [simp del]

text \<open>\<open>apr_table_set\<close> and \<open>apr_table_setn\<close> differ in whether they copy the strings they store.\<close>

definition table_set_with ::
  "(cstring option \<Rightarrow> cstring option) \<Rightarrow> apr_table \<Rightarrow> cstring \<Rightarrow> cstring option \<Rightarrow> apr_table" where
  "table_set_with dup t key v =
     (let checksum = COMPUTE_KEY_CHECKSUM key; hash = TABLE_HASH key in
      if \<not> TABLE_INDEX_IS_INITIALIZED t hash then
        table_add_new_elt
          (TABLE_SET_INDEX_INITIALIZED
             (t\<lparr>index_first := (index_first t)[hash := Some (nelts (ta t))]\<rparr>) hash)
          hash (dup (Some key)) (dup v) checksum
      else
        let es = elts (ta t); end_elt = the (index_last t ! hash); table_end = nelts (ta t) in
        case table_scan es key checksum (the (index_first t ! hash)) end_elt of
          Some i \<Rightarrow>
            (let es1 = es[i := Some ((the (es ! i))\<lparr>tval := dup v\<rparr>)];
                 (es2, n, dst, must_reindex, next_elt) =
                   set_dups key checksum es1 (nelts (ta t)) None False (i + 1) end_elt;
                 (es3, must_reindex') =
                   (case dst of Some d \<Rightarrow> (table_shift es2 d next_elt table_end, True)
                    | None \<Rightarrow> (es2, must_reindex));
                 t' = t\<lparr>ta := (ta t)\<lparr>elts := es3, nelts := n\<rparr>\<rparr>
             in if must_reindex' then table_reindex t' else t')
        | None \<Rightarrow> table_add_new_elt t hash (dup (Some key)) (dup v) checksum)"

definition apr_table_set :: "apr_table \<Rightarrow> cstring \<Rightarrow> cstring option \<Rightarrow> apr_table" where
  "apr_table_set = table_set_with apr_pstrdup"

definition apr_table_setn :: "apr_table \<Rightarrow> cstring \<Rightarrow> cstring option \<Rightarrow> apr_table" where
  "apr_table_setn = table_set_with (\<lambda>s. s)"

text \<open>\<open>apr_table_unset\<close>: the inner loop always has a destination.\<close>

function unset_dups ::
  "cstring \<Rightarrow> u32 \<Rightarrow> apr_table_entry mem \<Rightarrow> nat \<Rightarrow> nat \<Rightarrow> nat \<Rightarrow> nat \<Rightarrow>
   apr_table_entry mem \<times> nat \<times> nat \<times> nat" where
  "unset_dups key checksum es n d i l =
     (if i \<le> l then
        if key_match key checksum (the (es ! i)) then unset_dups key checksum es (n - 1) d (i + 1) l
        else unset_dups key checksum (es[d := es ! i]) n (d + 1) (i + 1) l
      else (es, n, d, i))"
  by pat_completeness auto
termination
  by (relation "measure (\<lambda>(key, checksum, es, n, d, i, l). l + 1 - i)") auto

declare unset_dups.simps [simp del]

definition apr_table_unset :: "apr_table \<Rightarrow> cstring \<Rightarrow> apr_table" where
  "apr_table_unset t key =
     (let hash = TABLE_HASH key in
      if \<not> TABLE_INDEX_IS_INITIALIZED t hash then t
      else
        let checksum = COMPUTE_KEY_CHECKSUM key; es = elts (ta t);
            end_elt = the (index_last t ! hash) in
        case table_scan es key checksum (the (index_first t ! hash)) end_elt of
          None \<Rightarrow> t
        | Some i \<Rightarrow>
            (let table_end = nelts (ta t);
                 (es2, n, d, next_elt) =
                   unset_dups key checksum es (nelts (ta t) - 1) i (i + 1) end_elt;
                 es3 = table_shift es2 d next_elt table_end
             in table_reindex (t\<lparr>ta := (ta t)\<lparr>elts := es3, nelts := n\<rparr>\<rparr>)))"

definition table_merge_with ::
  "(cstring option \<Rightarrow> cstring option) \<Rightarrow> apr_table \<Rightarrow> cstring \<Rightarrow> cstring option \<Rightarrow> apr_table" where
  "table_merge_with dup t key v =
     (let checksum = COMPUTE_KEY_CHECKSUM key; hash = TABLE_HASH key in
      if \<not> TABLE_INDEX_IS_INITIALIZED t hash then
        table_add_new_elt
          (TABLE_SET_INDEX_INITIALIZED
             (t\<lparr>index_first := (index_first t)[hash := Some (nelts (ta t))]\<rparr>) hash)
          hash (dup (Some key)) (dup v) checksum
      else
        let es = elts (ta t) in
        case table_scan es key checksum (the (index_first t ! hash)) (the (index_last t ! hash)) of
          Some i \<Rightarrow>
            (let e = the (es ! i);
                 new_val = map_option blk_str (apr_pstrcat [tval e, Some (cstr '', ''), v, None])
             in t\<lparr>ta := (ta t)\<lparr>elts := es[i := Some (e\<lparr>tval := new_val\<rparr>)]\<rparr>\<rparr>)
        | None \<Rightarrow> table_add_new_elt t hash (dup (Some key)) (dup v) checksum)"

definition apr_table_merge :: "apr_table \<Rightarrow> cstring \<Rightarrow> cstring option \<Rightarrow> apr_table" where
  "apr_table_merge = table_merge_with apr_pstrdup"

definition apr_table_mergen :: "apr_table \<Rightarrow> cstring \<Rightarrow> cstring option \<Rightarrow> apr_table" where
  "apr_table_mergen = table_merge_with (\<lambda>s. s)"

definition table_add_with ::
  "(cstring option \<Rightarrow> cstring option) \<Rightarrow> apr_table \<Rightarrow> cstring \<Rightarrow> cstring option \<Rightarrow> apr_table" where
  "table_add_with dup t key v =
     (let hash = TABLE_HASH key;
          t1 = t\<lparr>index_last := (index_last t)[hash := Some (nelts (ta t))]\<rparr>;
          t2 = (if \<not> TABLE_INDEX_IS_INITIALIZED t1 hash
                then TABLE_SET_INDEX_INITIALIZED
                       (t1\<lparr>index_first := (index_first t1)[hash := Some (nelts (ta t1))]\<rparr>) hash
                else t1);
          checksum = COMPUTE_KEY_CHECKSUM key;
          (arr, i) = apr_array_push_noclear (ta t2)
      in t2\<lparr>ta := arr\<lparr>elts := (elts arr)[i :=
              Some \<lparr>tkey = dup (Some key), tval = dup v, key_checksum = checksum\<rparr>]\<rparr>\<rparr>)"

definition apr_table_add :: "apr_table \<Rightarrow> cstring \<Rightarrow> cstring option \<Rightarrow> apr_table" where
  "apr_table_add = table_add_with apr_pstrdup"

definition apr_table_addn :: "apr_table \<Rightarrow> cstring \<Rightarrow> cstring option \<Rightarrow> apr_table" where
  "apr_table_addn = table_add_with (\<lambda>s. s)"

definition apr_table_clone :: "apr_table \<Rightarrow> apr_table" where
  "apr_table_clone t =
     (let array = apr_table_elts t
      in fold (\<lambda>i new. apr_table_add new (the (tkey (the (elts array ! i))))
                         (tval (the (elts array ! i))))
           [0..<nelts array] (apr_table_make (int (nelts array))))"

definition apr_table_overlay :: "apr_table \<Rightarrow> apr_table \<Rightarrow> apr_table" where
  "apr_table_overlay overlay base =
     (let arr = apr_array_cat zero_entry (copy_array_hdr_core (ta overlay)) (ta base)
      in table_reindex \<lparr>ta = arr, index_initialized = 0,
           index_first = palloc TABLE_HASH_SIZE, index_last = palloc TABLE_HASH_SIZE\<rparr>)"

text \<open>
  \<open>apr_table_vdo\<close>: the callback \<open>cb\<close> (\<open>comp\<close> in the source) takes and returns the caller's record \<open>rec\<close>; its
  second result is whether it returned non-zero. The loop over the entries in the index
  range stops at the first zero.
\<close>

fun vdo_entries ::
  "('r \<Rightarrow> cstring \<Rightarrow> cstring option \<Rightarrow> 'r \<times> bool) \<Rightarrow> (apr_table_entry \<Rightarrow> bool) \<Rightarrow>
   'r \<Rightarrow> apr_table_entry list \<Rightarrow> 'r \<times> bool" where
  "vdo_entries cb sel rec [] = (rec, True)"
| "vdo_entries cb sel rec (e # es) =
     (if tkey e \<noteq> None \<and> sel e then
        (case cb rec (the (tkey e)) (tval e) of
           (rec', rv) \<Rightarrow> if rv then vdo_entries cb sel rec' es else (rec', False))
      else vdo_entries cb sel rec es)"

definition vdo_key ::
  "('r \<Rightarrow> cstring \<Rightarrow> cstring option \<Rightarrow> 'r \<times> bool) \<Rightarrow> apr_table \<Rightarrow> 'r \<Rightarrow> cstring \<Rightarrow> 'r \<times> bool" where
  "vdo_key cb t rec argp =
     (let hash = TABLE_HASH argp in
      if TABLE_INDEX_IS_INITIALIZED t hash then
        vdo_entries cb (key_match argp (COMPUTE_KEY_CHECKSUM argp)) rec
          (map (\<lambda>i. the (elts (ta t) ! i))
             [the (index_first t ! hash)..<the (index_last t ! hash) + 1])
      else (rec, True))"

fun vdo_keys ::
  "('r \<Rightarrow> cstring \<Rightarrow> cstring option \<Rightarrow> 'r \<times> bool) \<Rightarrow> apr_table \<Rightarrow> 'r \<Rightarrow> bool \<Rightarrow> cstring list \<Rightarrow>
   'r \<times> bool" where
  "vdo_keys cb t rec vdorv [] = (rec, vdorv)"
| "vdo_keys cb t rec vdorv (argp # vp) =
     (case vdo_key cb t rec argp of (rec', rv) \<Rightarrow>
        vdo_keys cb t rec' (if rv then vdorv else False) vp)"

definition apr_table_vdo ::
  "('r \<Rightarrow> cstring \<Rightarrow> cstring option \<Rightarrow> 'r \<times> bool) \<Rightarrow> 'r \<Rightarrow> apr_table \<Rightarrow> cstring list \<Rightarrow> 'r \<times> bool" where
  "apr_table_vdo cb rec t vp =
     (if vp \<noteq> [] then vdo_keys cb t rec True vp
      else vdo_entries cb (\<lambda>e. True) rec
             (map (\<lambda>i. the (elts (ta t) ! i)) [0..<nelts (ta t)]))"

definition apr_table_do ::
  "('r \<Rightarrow> cstring \<Rightarrow> cstring option \<Rightarrow> 'r \<times> bool) \<Rightarrow> 'r \<Rightarrow> apr_table \<Rightarrow> cstring list \<Rightarrow> 'r \<times> bool" where
  "apr_table_do cb rec t args = apr_table_vdo cb rec t args"

section \<open>Sorting and compressing\<close>

text \<open>
  \<open>table_mergesort\<close> sorts pointers to entries; here slot numbers, with \<open>k i\<close> the key of
  slot \<open>i\<close>. The array and its temporary twin are the argument and the result of a pass.
\<close>

fun sort_pairs :: "(nat \<Rightarrow> cstring) \<Rightarrow> nat list \<Rightarrow> nat list" where
  "sort_pairs k (x # y # vs) =
     (if strcasecmp (k x) (k y) > 0 then y # x # sort_pairs k vs else x # y # sort_pairs k vs)"
| "sort_pairs k vs = vs"

fun merge_blocks :: "(nat \<Rightarrow> cstring) \<Rightarrow> nat list \<Rightarrow> nat list \<Rightarrow> nat list" where
  "merge_blocks k [] ys = ys"
| "merge_blocks k (x # xs) [] = x # xs"
| "merge_blocks k (x # xs) (y # ys) =
     (if strcasecmp (k x) (k y) > 0 then y # merge_blocks k (x # xs) ys
      else x # merge_blocks k xs (y # ys))"

text \<open>
  One pass over the array: merge pairs of neighbouring blocks while a second block
  begins before the end, then copy what is left over.
\<close>

function merge_pass :: "(nat \<Rightarrow> cstring) \<Rightarrow> nat \<Rightarrow> nat list \<Rightarrow> nat list" where
  "merge_pass k blocksize vs =
     (if blocksize < length vs \<and> 0 < blocksize then
        merge_blocks k (take blocksize vs) (take blocksize (drop blocksize vs)) @
        merge_pass k blocksize (drop (blocksize + blocksize) vs)
      else vs)"
  by pat_completeness auto
termination
  by (relation "measure (\<lambda>(k, blocksize, vs). length vs)") auto

declare merge_pass.simps [simp del]

lemma length_merge_blocks [simp]: "length (merge_blocks k xs ys) = length xs + length ys"
  by (induction k xs ys rule: merge_blocks.induct) auto

lemma length_merge_pass [simp]: "length (merge_pass k b vs) = length vs"
proof (induction k b vs rule: merge_pass.induct)
  case (1 k b vs)
  then show ?case by (subst merge_pass.simps) auto
qed

function merge_passes :: "(nat \<Rightarrow> cstring) \<Rightarrow> nat \<Rightarrow> nat list \<Rightarrow> nat list" where
  "merge_passes k blocksize vs =
     (if blocksize < length vs \<and> 0 < blocksize
      then merge_passes k (blocksize + blocksize) (merge_pass k blocksize vs) else vs)"
  by pat_completeness auto
termination
  by (relation "measure (\<lambda>(k, blocksize, vs). length vs - blocksize)") auto

declare merge_passes.simps [simp del]

definition table_mergesort :: "(nat \<Rightarrow> cstring) \<Rightarrow> nat list \<Rightarrow> nat list" where
  "table_mergesort k vs = merge_passes k 2 (sort_pairs k vs)"

text \<open>
  The new value of a group of duplicates under \<open>APR_OVERLAP_TABLES_MERGE\<close>: a block is sized
  with two bytes more than each string, then each string is copied with its NUL and the
  NUL overwritten by a comma and a space, except for the last. \<open>None\<close> is a crash: a NULL
  value or a write outside the block.
\<close>

fun merge_vals_copy :: "cstring list \<Rightarrow> byte mem \<Rightarrow> nat \<Rightarrow> (byte mem \<times> nat) option" where
  "merge_vals_copy [] blk val_dst = Some (blk, val_dst)"
| "merge_vals_copy (v # vs) blk val_dst =
     Option.bind (mem_write blk val_dst (v @ [0]))
       (\<lambda>blk1. (let val_dst' = val_dst + length v in
          if vs = [] then map_option (\<lambda>blk2. (blk2, val_dst')) (mem_write blk1 val_dst' [0])
          else Option.bind (mem_write blk1 val_dst' [0x2c, 0x20])
                 (\<lambda>blk2. merge_vals_copy vs blk2 (val_dst' + 2))))"

definition merge_vals :: "cstring option list \<Rightarrow> cstring option" where
  "merge_vals vs =
     (if None \<in> set vs then None
      else let ss = map the vs; len = sum_list (map (\<lambda>s. length s + 2) ss)
           in map_option (\<lambda>(blk, e). map the (take e blk)) (merge_vals_copy ss (palloc len) 0))"

definition APR_OVERLAP_TABLES_SET :: nat where
  "APR_OVERLAP_TABLES_SET = 0"

definition APR_OVERLAP_TABLES_MERGE :: nat where
  "APR_OVERLAP_TABLES_MERGE = 1"

definition entry_eq :: "apr_table_entry \<Rightarrow> apr_table_entry \<Rightarrow> bool" where
  "entry_eq e f \<longleftrightarrow> key_checksum e = key_checksum f \<and> strcasecmp (the (tkey e)) (the (tkey f)) = 0"

text \<open>
  The loop over the sorted pointers. \<open>lst\<close> is \<open>*last\<close>, the list what \<open>sort_next\<close> has still to
  visit. A run of entries equal to \<open>*last\<close> is folded into it and its keys set to NULL.
\<close>

function compress_dups ::
  "nat \<Rightarrow> apr_table_entry mem \<Rightarrow> nat \<Rightarrow> nat list \<Rightarrow> bool \<Rightarrow> (apr_table_entry mem \<times> bool) option" where
  "compress_dups flags es lst rest dups_found =
     (case rest of
        [] \<Rightarrow> Some (es, dups_found)
      | s # rest' \<Rightarrow>
          if entry_eq (the (es ! s)) (the (es ! lst)) then
            let grp = s # takeWhile (\<lambda>i. entry_eq (the (es ! i)) (the (es ! lst))) rest';
                rest'' = dropWhile (\<lambda>i. entry_eq (the (es ! i)) (the (es ! lst))) rest';
                e = the (es ! lst);
                new_val =
                  (if flags = APR_OVERLAP_TABLES_MERGE
                   then map_option Some (merge_vals (map (\<lambda>i. tval (the (es ! i))) (lst # grp)))
                   else Some (tval (the (es ! last grp))))
            in Option.bind new_val
                 (\<lambda>v. compress_dups flags
                    (fold (\<lambda>i es. es[i := Some ((the (es ! i))\<lparr>tkey := None\<rparr>)]) grp
                       (es[lst := Some (e\<lparr>tval := v\<rparr>)])) lst rest'' True)
          else compress_dups flags es s rest' dups_found)"
  by pat_completeness auto
termination
  by (relation "measure (\<lambda>(flags, es, lst, rest, dups_found). length rest)")
    (auto simp: less_Suc_eq_le length_dropWhile_le)

declare compress_dups.simps [simp del]

text \<open>The loop that closes the holes: entries with a key move left.\<close>

function compress_shift :: "apr_table_entry mem \<Rightarrow> nat \<Rightarrow> nat \<Rightarrow> nat \<Rightarrow> apr_table_entry mem \<times> nat" where
  "compress_shift es src dst last_elt =
     (if src < last_elt then
        if tkey (the (es ! src)) \<noteq> None
        then compress_shift (es[dst := es ! src]) (src + 1) (dst + 1) last_elt
        else compress_shift es (src + 1) dst last_elt
      else (es, dst))"
  by pat_completeness auto
termination
  by (relation "measure (\<lambda>(es, src, dst, last_elt). last_elt - src)") auto

declare compress_shift.simps [simp del]

definition apr_table_compress :: "apr_table \<Rightarrow> nat \<Rightarrow> apr_table option" where
  "apr_table_compress t flags =
     (if nelts (ta t) \<le> 1 then Some t
      else
        let es = elts (ta t);
            sort_array = table_mergesort (\<lambda>i. the (tkey (the (es ! i)))) [0..<nelts (ta t)]
        in map_option
             (\<lambda>(es', dups_found).
                table_reindex
                  (if dups_found
                   then (let (es'', dst) = compress_shift es' 0 0 (nelts (ta t))
                         in t\<lparr>ta := (ta t)\<lparr>elts := es'',
                              nelts := nelts (ta t) - (nelts (ta t) - dst)\<rparr>\<rparr>)
                   else t\<lparr>ta := (ta t)\<lparr>elts := es'\<rparr>\<rparr>))
             (compress_dups flags es (hd sort_array) (tl sort_array) False))"

text \<open>\<open>apr_table_cat\<close>: the loop over the index is done for all 32 entries at once.\<close>

definition cat_index :: "nat \<Rightarrow> apr_table \<Rightarrow> apr_table \<Rightarrow> nat \<Rightarrow> apr_table" where
  "cat_index n s t idx =
     (if TABLE_INDEX_IS_INITIALIZED s idx then
        let t' = t\<lparr>index_last := (index_last t)[idx := Some (the (index_last s ! idx) + n)]\<rparr>
        in if \<not> TABLE_INDEX_IS_INITIALIZED t' idx
           then t'\<lparr>index_first := (index_first t')[idx := Some (the (index_first s ! idx) + n)]\<rparr>
           else t'
      else t)"

definition apr_table_cat :: "apr_table \<Rightarrow> apr_table \<Rightarrow> apr_table" where
  "apr_table_cat t s =
     (let n = nelts (ta t); t' = t\<lparr>ta := apr_array_cat zero_entry (ta t) (ta s)\<rparr> in
      if n = 0 then
        t'\<lparr>index_first := index_first s, index_last := index_last s,
           index_initialized := index_initialized s\<rparr>
      else
        let t'' = fold (\<lambda>idx t. cat_index n s t idx) [0..<TABLE_HASH_SIZE] t'
        in t''\<lparr>index_initialized := index_initialized t'' OR index_initialized s\<rparr>)"

definition apr_table_overlap :: "apr_table \<Rightarrow> apr_table \<Rightarrow> nat \<Rightarrow> apr_table option" where
  "apr_table_overlap a b flags =
     (if nelts (ta a) + nelts (ta b) = 0 then Some a
      else apr_table_compress (apr_table_cat a b) flags)"

end
