(* ===== verification/AprTableCorrect.thy ===== *)
theory AprTableCorrect
  imports AprTable
begin

text \<open>
  Correctness of the string tables: the case-insensitive checksum and hash are sound
  filters, the index always brackets the entries it speaks for (\<open>table_wf\<close>, kept by every
  operation), and every operation does to the list of entries what the index-free and
  checksum-free reference operation does.
\<close>

section \<open>Checksum and hash do not separate keys that are equal up to case\<close>

lemma cget_fold: "fold_case k = fold_case k' \<Longrightarrow> tolower (cget k i) = tolower (cget k' i)"
proof -
  assume f: "fold_case k = fold_case k'"
  then have l: "length k = length k'" by (metis fold_case_def length_map)
  show ?thesis
  proof (cases "i < length k")
    case True
    then have "map tolower k ! i = map tolower k' ! i" using f by (simp add: fold_case_def)
    then show ?thesis using True l by (simp add: cget_def)
  qed (use l in \<open>simp add: cget_def\<close>)
qed

lemma TABLE_HASH_less: "TABLE_HASH k < 32"
proof -
  have "0x1f AND cget k 0 \<le> 0x1f" by (rule word_and_le2)
  then show ?thesis by (simp add: TABLE_HASH_def word_le_nat_alt)
qed

lemma TABLE_HASH_fold: "fold_case k = fold_case k' \<Longrightarrow> TABLE_HASH k = TABLE_HASH k'"
  using cget_fold [of k k' 0] tolower_mask(2) [of "cget k 0"] tolower_mask(2) [of "cget k' 0"]
  by (simp add: TABLE_HASH_def and.commute)

definition masked_eq :: "u32 \<Rightarrow> u32 \<Rightarrow> bool" where
  "masked_eq x y \<longleftrightarrow> (\<forall>n. n mod 8 \<noteq> 5 \<longrightarrow> bit x n = bit y n)"

lemma bit_case_byte: "bit (0xdf :: byte) n \<longleftrightarrow> n < 8 \<and> n \<noteq> 5"
proof (cases "n < 8")
  case True
  then have "n \<in> set [0..<8]" by simp
  then show ?thesis by (simp add: upt_rec) (auto)
qed (auto dest: bit_imp_le_length)

lemma bit_CASE_MASK: "bit CASE_MASK n \<longleftrightarrow> n < 32 \<and> n mod 8 \<noteq> 5"
proof (cases "n < 32")
  case True
  then have "n \<in> set [0..<32]" by simp
  then show ?thesis unfolding CASE_MASK_def by (simp add: upt_rec) (auto)
qed (auto dest: bit_imp_le_length)

lemma masked_eq_and: "masked_eq x y \<Longrightarrow> x AND CASE_MASK = y AND CASE_MASK"
  by (rule bit_word_eqI) (auto simp: bit_and_iff bit_CASE_MASK masked_eq_def)

lemma masked_eq_step:
  assumes "masked_eq x y" shows "masked_eq (push_bit 8 x) (push_bit 8 y)"
  unfolding masked_eq_def
proof (intro allI impI)
  fix n :: nat
  assume n: "n mod 8 \<noteq> 5"
  show "bit (push_bit 8 x) n = bit (push_bit 8 y) n"
  proof (cases "8 \<le> n")
    case True
    then obtain m where "n = m + 8" by (metis le_add_diff_inverse2)
    with n assms show ?thesis by (simp add: bit_push_bit_iff masked_eq_def)
  qed (simp add: bit_push_bit_iff)
qed

lemma masked_eq_scast:
  assumes "tolower b = tolower c" shows "masked_eq (scast b) (scast c)"
proof -
  have bc: "bit b n = bit c n" if "n \<noteq> 5" for n
  proof (cases "n < 8")
    case True
    have "b AND 0xdf = c AND 0xdf" using tolower_mask(1) [of b] tolower_mask(1) [of c] assms by simp
    then have "bit (b AND 0xdf) n = bit (c AND 0xdf) n" by simp
    then show ?thesis using True that by (simp only: bit_and_iff bit_case_byte) simp
  qed (auto dest: bit_imp_le_length)
  show ?thesis unfolding masked_eq_def
    by (auto simp: bit_signed_iff bc min_def)
qed

lemma masked_eq_or: "masked_eq x y \<Longrightarrow> masked_eq x' y' \<Longrightarrow> masked_eq (x OR x') (y OR y')"
  by (simp add: masked_eq_def bit_or_iff)

lemma scast_eq_0: "tolower b = tolower c \<Longrightarrow> (scast b :: u32) = 0 \<longleftrightarrow> (scast c :: u32) = 0"
proof -
  assume "tolower b = tolower c"
  moreover have "(scast x :: u32) = 0 \<longleftrightarrow> x = 0" for x :: byte
  proof
    assume z: "(scast x :: u32) = 0"
    show "x = 0"
    proof (rule bit_word_eqI)
      fix n assume "n < LENGTH(8)"
      moreover have "bit (scast x :: u32) n = bit (0 :: u32) n" using z by simp
      ultimately show "bit x n = bit 0 n" by (simp add: bit_word_scast_iff)
    qed
  qed simp
  ultimately show ?thesis by (metis tolower_eq_0)
qed

lemma checksum_step_fold:
  assumes f: "fold_case k = fold_case k'"
    and "masked_eq (snd st) (snd st')" and "fst st = 0 \<longleftrightarrow> fst st' = 0"
  shows "masked_eq (snd (checksum_step k i st)) (snd (checksum_step k' i st')) \<and>
         (fst (checksum_step k i st) = 0 \<longleftrightarrow> fst (checksum_step k' i st') = 0)"
proof -
  note t = cget_fold [OF f, of i]
  show ?thesis
    using assms(2,3) masked_eq_scast [OF t] scast_eq_0 [OF t]
    by (cases st; cases st') (simp add: checksum_step_def Let_def masked_eq_step masked_eq_or)
qed

lemma checksum_fold:
  assumes "fold_case k = fold_case k'"
  shows "COMPUTE_KEY_CHECKSUM k = COMPUTE_KEY_CHECKSUM k'"
proof -
  have t: "tolower (cget k 0) = tolower (cget k' 0)" using assms by (rule cget_fold)
  show ?thesis
    unfolding COMPUTE_KEY_CHECKSUM_def Let_def
    by (intro masked_eq_and checksum_step_fold [OF assms, THEN conjunct1]
        checksum_step_fold [OF assms, THEN conjunct2])
      (simp_all add: masked_eq_scast [OF t] scast_eq_0 [OF t])
qed

section \<open>Reference operations on the entries\<close>

definition same_key :: "cstring \<Rightarrow> apr_table_entry \<Rightarrow> bool" where
  "same_key k e \<longleftrightarrow> strcasecmp (the (tkey e)) k = 0"

definition new_entry :: "cstring \<Rightarrow> cstring option \<Rightarrow> apr_table_entry" where
  "new_entry k v = \<lparr>tkey = Some k, tval = v, key_checksum = COMPUTE_KEY_CHECKSUM k\<rparr>"

definition spec_get :: "cstring \<Rightarrow> apr_table_entry list \<Rightarrow> cstring option" where
  "spec_get k es = (case List.find (same_key k) es of None \<Rightarrow> None | Some e \<Rightarrow> tval e)"

definition spec_unset :: "cstring \<Rightarrow> apr_table_entry list \<Rightarrow> apr_table_entry list" where
  "spec_unset k es = filter (\<lambda>e. \<not> same_key k e) es"

fun spec_set :: "cstring \<Rightarrow> cstring option \<Rightarrow> apr_table_entry list \<Rightarrow> apr_table_entry list" where
  "spec_set k v [] = [new_entry k v]"
| "spec_set k v (e # es) =
     (if same_key k e then e\<lparr>tval := v\<rparr> # spec_unset k es else e # spec_set k v es)"

definition merged_val :: "cstring option \<Rightarrow> cstring option \<Rightarrow> cstring option" where
  "merged_val old v = (case old of None \<Rightarrow> Some []
     | Some s \<Rightarrow> Some (s @ cstr '', '' @ (case v of None \<Rightarrow> [] | Some w \<Rightarrow> w)))"

fun spec_merge :: "cstring \<Rightarrow> cstring option \<Rightarrow> apr_table_entry list \<Rightarrow> apr_table_entry list" where
  "spec_merge k v [] = [new_entry k v]"
| "spec_merge k v (e # es) =
     (if same_key k e then e\<lparr>tval := merged_val (tval e) v\<rparr> # es else e # spec_merge k v es)"

section \<open>The table invariant\<close>

abbreviation entries :: "apr_table \<Rightarrow> apr_table_entry list" where
  "entries t \<equiv> arr_list (ta t)"

definition ehash :: "apr_table_entry \<Rightarrow> nat" where
  "ehash e = TABLE_HASH (the (tkey e))"

definition idx :: "apr_table_entry list \<Rightarrow> nat \<Rightarrow> nat list" where
  "idx es h = filter (\<lambda>i. ehash (es ! i) = h) [0..<length es]"

definition index_ok :: "apr_table_entry list \<Rightarrow> u32 \<Rightarrow> nat mem \<Rightarrow> nat mem \<Rightarrow> bool" where
  "index_ok es w fs ls \<longleftrightarrow> length fs = TABLE_HASH_SIZE \<and> length ls = TABLE_HASH_SIZE \<and>
     (\<forall>h < TABLE_HASH_SIZE. (bit w h \<longleftrightarrow> idx es h \<noteq> []) \<and>
        (idx es h \<noteq> [] \<longrightarrow> fs ! h = Some (hd (idx es h)) \<and> ls ! h = Some (last (idx es h))))"

definition entry_ok :: "apr_table_entry \<Rightarrow> bool" where
  "entry_ok e \<longleftrightarrow> tkey e \<noteq> None \<and> key_checksum e = COMPUTE_KEY_CHECKSUM (the (tkey e))"

definition table_wf :: "apr_table \<Rightarrow> bool" where
  "table_wf t \<longleftrightarrow> arr_wf (ta t) \<and> list_all entry_ok (entries t) \<and>
     index_ok (entries t) (index_initialized t) (index_first t) (index_last t)"

lemma is_initialized_bit: "TABLE_INDEX_IS_INITIALIZED t i \<longleftrightarrow> bit (index_initialized t) i"
  by (simp add: TABLE_INDEX_IS_INITIALIZED_def bit_iff_and_push_bit_not_eq_0)

lemma set_initialized [simp]:
  "ta (TABLE_SET_INDEX_INITIALIZED t i) = ta t"
  "index_first (TABLE_SET_INDEX_INITIALIZED t i) = index_first t"
  "index_last (TABLE_SET_INDEX_INITIALIZED t i) = index_last t"
  "index_initialized (TABLE_SET_INDEX_INITIALIZED t i) = index_initialized t OR 2 ^ i"
  by (simp_all add: TABLE_SET_INDEX_INITIALIZED_def)

lemma bit_or_one: "i < 32 \<Longrightarrow> bit (w OR 2 ^ h :: u32) i \<longleftrightarrow> bit w i \<or> i = h"
  by (auto simp: bit_or_iff bit_exp_iff)

lemma or_one_absorb: "bit w h \<Longrightarrow> (w :: u32) OR 2 ^ h = w"
  by (rule bit_word_eqI) (auto simp: bit_or_iff bit_exp_iff)

lemma idx_snoc: "idx (es @ [e]) h = idx es h @ (if ehash e = h then [length es] else [])"
proof -
  have "filter (\<lambda>i. ehash ((es @ [e]) ! i) = h) [0..<length es] = idx es h"
    unfolding idx_def by (rule filter_cong) (auto simp: nth_append)
  then show ?thesis by (simp add: idx_def)
qed

lemma idx_keys: "map tkey es = map tkey fs \<Longrightarrow> idx es = idx fs"
proof
  fix h assume m: "map tkey es = map tkey fs"
  then have l: "length es = length fs" by (metis length_map)
  have "ehash (es ! i) = ehash (fs ! i)" if "i < length es" for i
    using m l that by (metis ehash_def nth_map)
  then show "idx es h = idx fs h"
    unfolding idx_def l [symmetric] by (auto intro!: filter_cong)
qed

lemma index_ok_snoc:
  assumes "index_ok es w fs ls" and "h = ehash e"
  shows "index_ok (es @ [e]) (w OR 2 ^ h)
    (if bit w h then fs else fs[h := Some (length es)]) (ls[h := Some (length es)])"
proof -
  have h: "h < TABLE_HASH_SIZE" using assms(2) by (simp add: ehash_def TABLE_HASH_SIZE_def TABLE_HASH_less)
  show ?thesis
    using assms(1) h unfolding index_ok_def idx_snoc
    by (auto simp: bit_or_one TABLE_HASH_SIZE_def nth_list_update assms(2) [symmetric])
qed

lemma index_ok_empty:
  "length fs = TABLE_HASH_SIZE \<Longrightarrow> length ls = TABLE_HASH_SIZE \<Longrightarrow> index_ok [] 0 fs ls"
  by (simp add: index_ok_def idx_def)

section \<open>Reindexing\<close>

lemma reindex_step_ok:
  assumes "elts (ta t) ! i = Some e" and "index_ok es (index_initialized t) (index_first t) (index_last t)"
    and "length es = i"
  shows "ta (reindex_step i t) = ta t \<and>
    index_ok (es @ [e]) (index_initialized (reindex_step i t)) (index_first (reindex_step i t))
      (index_last (reindex_step i t))"
proof -
  note s = index_ok_snoc [OF assms(2), of "ehash e" e]
  show ?thesis
    using s assms(1,3)
    by (cases "bit (index_initialized t) (ehash e)")
      (simp_all add: reindex_step_def Let_def is_initialized_bit ehash_def [symmetric] or_one_absorb)
qed

lemma table_reindex_ok:
  assumes "arr_wf (ta t)" and "length (index_first t) = TABLE_HASH_SIZE"
    and "length (index_last t) = TABLE_HASH_SIZE"
  shows "ta (table_reindex t) = ta t"
    and "index_ok (entries t) (index_initialized (table_reindex t))
      (index_first (table_reindex t)) (index_last (table_reindex t))"
proof -
  define t0 where "t0 = t\<lparr>index_initialized := 0\<rparr>"
  have inv: "ta (fold reindex_step [0..<i] t0) = ta t \<and>
      index_ok (take i (entries t)) (index_initialized (fold reindex_step [0..<i] t0))
        (index_first (fold reindex_step [0..<i] t0)) (index_last (fold reindex_step [0..<i] t0))"
    if "i \<le> nelts (ta t)" for i
    using that
  proof (induction i)
    case 0
    then show ?case using assms by (simp add: t0_def index_ok_empty)
  next
    case (Suc i)
    have "elts (ta t) ! i = Some (entries t ! i)"
      using Suc.prems assms(1) by (simp add: arr_wf_nth)
    then show ?case
      using Suc reindex_step_ok [of "fold reindex_step [0..<i] t0" i "entries t ! i" "take i (entries t)"]
        assms(1)
      by (simp add: take_Suc_conv_app_nth)
  qed
  show "ta (table_reindex t) = ta t"
    and "index_ok (entries t) (index_initialized (table_reindex t))
      (index_first (table_reindex t)) (index_last (table_reindex t))"
    using inv [of "nelts (ta t)"] assms(1) by (simp_all add: table_reindex_def t0_def)
qed

lemma table_reindex_wf:
  assumes "arr_wf (ta t)" and "list_all entry_ok (entries t)"
    and "length (index_first t) = TABLE_HASH_SIZE" and "length (index_last t) = TABLE_HASH_SIZE"
  shows "table_wf (table_reindex t)" and "entries (table_reindex t) = entries t"
  using assms table_reindex_ok [OF assms(1,3,4)] by (simp_all add: table_wf_def)

section \<open>Searching\<close>

lemma table_scan_find:
  "table_scan es key checksum i l =
   List.find (\<lambda>j. key_match key checksum (the (es ! j))) [i..<Suc l]"
proof (induction es key checksum i l rule: table_scan.induct)
  case (1 es key checksum i l)
  then show ?case
    by (subst table_scan.simps) (simp add: upt_rec [of i "Suc l"] del: upt_Suc)
qed

lemma key_match_same_key:
  "entry_ok e \<Longrightarrow> key_match k (COMPUTE_KEY_CHECKSUM k) e \<longleftrightarrow> same_key k e"
  using checksum_fold [of "the (tkey e)" k]
  by (auto simp: key_match_def same_key_def entry_ok_def strcasecmp_eq_0)

lemma same_key_hash: "same_key k e \<Longrightarrow> ehash e = TABLE_HASH k"
  unfolding same_key_def ehash_def strcasecmp_eq_0 by (rule TABLE_HASH_fold)

lemma idx_bounds:
  assumes "i \<in> set (idx es h)"
  shows "hd (idx es h) \<le> i \<and> i \<le> last (idx es h) \<and> last (idx es h) < length es"
proof -
  have "sorted (idx es h)" by (simp add: idx_def sorted_wrt_filter)
  from sorted_hd_last [OF this assms]
  have "hd (idx es h) \<le> i" "i \<le> last (idx es h)" by simp_all
  moreover have "last (idx es h) \<in> set (idx es h)" using assms by (intro last_in_set) auto
  then have "last (idx es h) < length es" by (simp add: idx_def)
  ultimately show ?thesis by simp
qed

text \<open>The search the code makes, with the index and the checksums, finds the first entry with
  the key.\<close>

definition table_search :: "apr_table \<Rightarrow> cstring \<Rightarrow> nat option" where
  "table_search t k =
     (if \<not> TABLE_INDEX_IS_INITIALIZED t (TABLE_HASH k) then None
      else table_scan (elts (ta t)) k (COMPUTE_KEY_CHECKSUM k)
             (the (index_first t ! TABLE_HASH k)) (the (index_last t ! TABLE_HASH k)))"

lemma table_wf_index:
  assumes "table_wf t" and "h < TABLE_HASH_SIZE"
  shows "TABLE_INDEX_IS_INITIALIZED t h \<longleftrightarrow> idx (entries t) h \<noteq> []"
    and "idx (entries t) h \<noteq> [] \<Longrightarrow> index_first t ! h = Some (hd (idx (entries t) h))"
    and "idx (entries t) h \<noteq> [] \<Longrightarrow> index_last t ! h = Some (last (idx (entries t) h))"
  using assms by (simp_all add: table_wf_def index_ok_def is_initialized_bit)

lemma table_search_eq:
  assumes wf: "table_wf t"
  shows "table_search t k = List.find (\<lambda>j. same_key k (entries t ! j)) [0..<length (entries t)]"
proof -
  let ?es = "entries t" and ?h = "TABLE_HASH k"
  let ?P = "\<lambda>j. same_key k (?es ! j)"
  have h: "?h < TABLE_HASH_SIZE" by (simp add: TABLE_HASH_less TABLE_HASH_SIZE_def)
  note ix = table_wf_index [OF wf h]
  have in_idx: "j \<in> set (idx ?es ?h)" if "j < length ?es" "?P j" for j
    using that same_key_hash by (auto simp: idx_def)
  show ?thesis
  proof (cases "idx ?es ?h = []")
    case True
    then have "\<forall>e \<in> set ?es. \<not> same_key k e"
      using in_idx by (auto simp: in_set_conv_nth)
    then have "List.find ?P [0..<length ?es] = None" by (simp only: find_upt_None)
    with True ix(1) show ?thesis by (simp add: table_search_def)
  next
    case False
    let ?f = "hd (idx ?es ?h)" and ?l = "last (idx ?es ?h)"
    have fl: "?f \<le> ?l" "?l < length ?es"
      using idx_bounds [OF last_in_set [OF False]] by simp_all
    have out: "\<not> ?P j" if "j < length ?es" "j < ?f \<or> ?l < j" for j
      using in_idx [of j] idx_bounds [of j] that by fastforce
    have split: "[0..<length ?es] = [0..<?f] @ [?f..<Suc ?l] @ [Suc ?l..<length ?es]"
      using fl upt_split [of 0 ?f "length ?es"] upt_split [of ?f "Suc ?l" "length ?es"] by simp
    have n1: "List.find ?P [0..<?f] = None" and n2: "List.find ?P [Suc ?l..<length ?es] = None"
      using out fl by (auto simp: find_None_iff)
    have "List.find (\<lambda>j. key_match k (COMPUTE_KEY_CHECKSUM k) (the (elts (ta t) ! j))) [?f..<Suc ?l]
        = List.find ?P [?f..<Suc ?l]"
    proof (rule find_cong_set)
      fix j assume "j \<in> set [?f..<Suc ?l]"
      then have "j < length ?es" using fl by auto
      moreover have "arr_wf (ta t)" "list_all entry_ok ?es" using wf by (simp_all add: table_wf_def)
      ultimately show "key_match k (COMPUTE_KEY_CHECKSUM k) (the (elts (ta t) ! j)) = ?P j"
        by (simp add: arr_wf_nth key_match_same_key list_all_length)
    qed
    with False ix show ?thesis
      by (simp add: table_search_def table_scan_find split find_append n1 n2 del: upt_Suc
          split: option.splits)
  qed
qed

lemma table_search_None:
  "table_wf t \<Longrightarrow> table_search t k = None \<longleftrightarrow> (\<forall>e \<in> set (entries t). \<not> same_key k e)"
  by (simp add: table_search_eq find_upt_None)

lemma table_search_Some:
  "table_wf t \<Longrightarrow> table_search t k = Some i \<Longrightarrow>
   i < length (entries t) \<and> same_key k (entries t ! i) \<and>
   (\<forall>e \<in> set (take i (entries t)). \<not> same_key k e) \<and>
   entries t = take i (entries t) @ entries t ! i # drop (Suc i) (entries t)"
  unfolding table_search_eq by (rule find_upt_Some)

lemma find_first:
  "\<forall>e \<in> set pre. \<not> P e \<Longrightarrow> P e \<Longrightarrow> List.find P (pre @ e # post) = Some e"
  by (induction pre) auto

lemma apr_table_get_eq:
  assumes "table_wf t"
  shows "apr_table_get t (Some k) = spec_get k (entries t)"
proof -
  have get: "apr_table_get t (Some k) = (case table_search t k of None \<Rightarrow> None
      | Some i \<Rightarrow> tval (the (elts (ta t) ! i)))"
    by (simp add: apr_table_get_def table_search_def Let_def)
  show ?thesis
  proof (cases "table_search t k")
    case None
    then have "List.find (same_key k) (entries t) = None"
      using table_search_None [OF assms] by (simp add: find_None_iff)
    with None show ?thesis by (simp add: get spec_get_def)
  next
    case (Some i)
    note s = table_search_Some [OF assms Some]
    then have "List.find (same_key k) (entries t) = Some (entries t ! i)"
      by (metis find_first)
    with Some s assms show ?thesis by (simp add: get spec_get_def arr_wf_nth table_wf_def)
  qed
qed

section \<open>Adding an entry\<close>

lemma table_add_new_elt_eq:
  "table_add_new_elt t h (Some k) v (COMPUTE_KEY_CHECKSUM k) =
   t\<lparr>ta := arr_push1 (ta t) (new_entry k v),
     index_last := (index_last t)[h := Some (nelts (ta t))]\<rparr>"
  by (simp add: table_add_new_elt_def arr_push1_def new_entry_def Let_def split: prod.split)

lemma entry_ok_new [simp]: "entry_ok (new_entry k v)"
  by (simp add: entry_ok_def new_entry_def)

text \<open>What the code does when it appends: the index is extended first.\<close>

definition index_for_push :: "apr_table \<Rightarrow> nat \<Rightarrow> apr_table" where
  "index_for_push t h =
     (if TABLE_INDEX_IS_INITIALIZED t h then t
      else TABLE_SET_INDEX_INITIALIZED
             (t\<lparr>index_first := (index_first t)[h := Some (nelts (ta t))]\<rparr>) h)"

lemma append_entry:
  assumes "table_wf t"
    and t'_def: "t' = table_add_new_elt (index_for_push t (TABLE_HASH k)) (TABLE_HASH k) (Some k) v
      (COMPUTE_KEY_CHECKSUM k)"
  shows "table_wf t' \<and> entries t' = entries t @ [new_entry k v]"
proof -
  have wf: "arr_wf (ta t)" and ok: "list_all entry_ok (entries t)"
    and ix: "index_ok (entries t) (index_initialized t) (index_first t) (index_last t)"
    using assms by (simp_all add: table_wf_def)
  have h: "ehash (new_entry k v) = TABLE_HASH k" by (simp add: ehash_def new_entry_def)
  have "entries t' = entries t @ [new_entry k v]" "arr_wf (ta t')"
    using wf by (simp_all add: t'_def table_add_new_elt_eq index_for_push_def arr_push1_wf)
  moreover have "index_ok (entries t @ [new_entry k v]) (index_initialized t') (index_first t') (index_last t')"
    using index_ok_snoc [OF ix, of "TABLE_HASH k" "new_entry k v"] h wf
    by (simp add: t'_def table_add_new_elt_eq index_for_push_def is_initialized_bit or_one_absorb
        split: if_splits)
  ultimately show ?thesis using ok by (simp add: table_wf_def)
qed

lemma apr_table_add_wf:
  assumes "table_wf t"
  shows "table_wf (apr_table_add t k v)" and "entries (apr_table_add t k v) = entries t @ [new_entry k v]"
    and "apr_table_addn t k v = apr_table_add t k v"
proof -
  have "apr_table_add t k v = table_add_new_elt (index_for_push t (TABLE_HASH k)) (TABLE_HASH k)
      (Some k) v (COMPUTE_KEY_CHECKSUM k)"
    by (simp add: apr_table_add_def table_add_with_def table_add_new_elt_def index_for_push_def
        TABLE_INDEX_IS_INITIALIZED_def TABLE_SET_INDEX_INITIALIZED_def Let_def split: prod.split)
  from append_entry [OF assms this]
  show "table_wf (apr_table_add t k v)" "entries (apr_table_add t k v) = entries t @ [new_entry k v]"
    by simp_all
  show "apr_table_addn t k v = apr_table_add t k v"
    by (simp add: apr_table_addn_def apr_table_add_def table_add_with_def Let_def)
qed

section \<open>Removing entries in place\<close>

lemma unset_dups_eq:
  assumes "d \<le> i" and "i \<le> Suc l" and "l < length es"
  shows "\<exists>es'. unset_dups key c es n d i l =
      (es', n - length (filter (\<lambda>j. key_match key c (the (es ! j))) [i..<Suc l]),
       d + length (filter (\<lambda>j. \<not> key_match key c (the (es ! j))) [i..<Suc l]), Suc l) \<and>
    length es' = length es \<and> drop (Suc l) es' = drop (Suc l) es \<and>
    take (d + length (filter (\<lambda>j. \<not> key_match key c (the (es ! j))) [i..<Suc l])) es' =
      take d es @ map ((!) es) (filter (\<lambda>j. \<not> key_match key c (the (es ! j))) [i..<Suc l])"
  using assms
proof (induction key c es n d i l rule: unset_dups.induct)
  case (1 key c es n d i l)
  show ?case
  proof (cases "i \<le> l")
    case False
    with 1(4) have "i = Suc l" by simp
    then show ?thesis by (subst unset_dups.simps) auto
  next
    case True
    have upt: "[i..<Suc l] = i # [Suc i..<Suc l]" using True by (simp add: upt_rec del: upt_Suc)
    show ?thesis
    proof (cases "key_match key c (the (es ! i))")
      case m: True
      have "unset_dups key c es n d i l = unset_dups key c es (n - 1) d (i + 1) l"
        using True m by (subst unset_dups.simps) simp
      then show ?thesis
        using 1(1) [OF True m] 1(3,5) True m by (auto simp: upt simp del: upt_Suc)
    next
      case m: False
      define es1 where "es1 = es[d := es ! i]"
      have eq: "unset_dups key c es n d i l = unset_dups key c es1 n (d + 1) (i + 1) l"
        using True m by (subst unset_dups.simps) (simp add: es1_def)
      have same: "es1 ! j = es ! j" if "i < j" for j
        using that 1(3) by (simp add: es1_def)
      have f: "filter (\<lambda>j. Q (key_match key c (the (es1 ! j)))) [Suc i..<Suc l] =
          filter (\<lambda>j. Q (key_match key c (the (es ! j)))) [Suc i..<Suc l]" for Q
        by (rule filter_cong) (auto simp: same)
      have m1: "map ((!) es1) (filter P [Suc i..<Suc l]) = map ((!) es) (filter P [Suc i..<Suc l])" for P
        by (auto simp: same)
      have "take (d + 1) es1 = take d es @ [es ! i]"
        using 1(3,5) True by (simp add: es1_def take_Suc_conv_app_nth)
      moreover have "drop (Suc l) es1 = drop (Suc l) es" "length es1 = length es"
        using 1(3,5) True by (simp_all add: es1_def)
      ultimately show ?thesis
        using 1(2) [OF True m] 1(3,5) True m f [of "\<lambda>b. b"] f [of Not] m1
        unfolding eq es1_def [symmetric]
        by (auto simp: upt simp del: upt_Suc)
    qed
  qed
qed

lemma table_shift_eq:
  assumes "d \<le> i" and "i \<le> e" and "e \<le> length es"
  shows "length (table_shift es d i e) = length es \<and>
    take (d + (e - i)) (table_shift es d i e) = take d es @ take (e - i) (drop i es)"
  using assms
proof (induction es d i e rule: table_shift.induct)
  case (1 es d i e)
  show ?case
  proof (cases "i < e")
    case True
    have "take (Suc d) (es[d := es ! i]) = take d es @ [es ! i]"
      using 1 True by (simp add: take_Suc_conv_app_nth)
    moreover have "take (e - i) (drop i es) = es ! i # take (e - Suc i) (drop (Suc i) es)"
      using 1 True by (simp add: Cons_nth_drop_Suc [symmetric] take_Cons')
    moreover have "drop (Suc i) (es[d := es ! i]) = drop (Suc i) es" using 1 by simp
    ultimately show ?thesis
      using 1 True by (subst (1 2) table_shift.simps) (simp add: Suc_diff_Suc [symmetric])
  qed (subst (1 2) table_shift.simps, simp)
qed

text \<open>
  Both removal loops followed by the shift keep exactly the entries that do not match.
  \<open>i\<close> is where the compaction starts, \<open>l\<close> the last slot that can hold a match.
\<close>

lemma compaction:
  assumes wf: "arr_wf \<lparr>elts = es, nelts = N, nalloc = m\<rparr>" and "i \<le> Suc l" and "l < N"
    and "d \<le> i" and "unset_dups key c es n d i l = (es2, n', d', j)"
    and "xs = arr_list \<lparr>elts = es, nelts = N, nalloc = m\<rparr>"
    and none: "\<forall>e \<in> set (drop (Suc l) xs). \<not> key_match key c e"
    and n: "n = d + (N - i)"
  shows "n' = length (take d xs @ filter (\<lambda>e. \<not> key_match key c e) (drop i xs)) \<and>
    length (table_shift es2 d' j N) = length es \<and>
    take n' (table_shift es2 d' j N) =
      map Some (take d xs @ filter (\<lambda>e. \<not> key_match key c e) (drop i xs))"
proof -
  let ?K = "filter (\<lambda>j. \<not> key_match key c (the (es ! j))) [i..<Suc l]"
  let ?M = "filter (\<lambda>j. key_match key c (the (es ! j))) [i..<Suc l]"
  let ?F = "filter (\<lambda>e. \<not> key_match key c e)"
  have len: "length xs = N" and N: "N \<le> length es" using wf assms(6) by (simp_all add: arr_wf_def)
  have slots: "es ! j = Some (xs ! j)" if "j < N" for j
    using arr_wf_nth [OF wf] that assms(6) by simp
  obtain es' where u: "unset_dups key c es n d i l = (es', n - length ?M, d + length ?K, Suc l)"
    and es': "length es' = length es" "drop (Suc l) es' = drop (Suc l) es"
      "take (d + length ?K) es' = take d es @ map ((!) es) ?K"
    using unset_dups_eq [OF assms(4,2), of es key c n] assms(3) N by (auto simp del: upt_Suc)
  have K: "map ((!) es) ?K = map Some (?F (take (Suc l - i) (drop i xs)))"
  proof -
    have "?K = filter (\<lambda>j. \<not> key_match key c (xs ! j)) [i..<Suc l]"
      using assms(3) by (intro filter_cong) (auto simp: slots)
    moreover have "map ((!) es) (filter Q [i..<Suc l]) = map Some (map ((!) xs) (filter Q [i..<Suc l]))" for Q
      using assms(3) by (auto simp: slots simp del: upt_Suc)
    moreover have "map ((!) xs) (filter (\<lambda>j. \<not> key_match key c (xs ! j)) [i..<Suc l]) =
        ?F (take (Suc l - i) (drop i xs))"
      using assms(3) len by (intro filter_slice) simp
    ultimately show ?thesis by (simp only:)
  qed
  have F: "?F (drop i xs) = ?F (take (Suc l - i) (drop i xs)) @ drop (Suc l) xs"
  proof -
    have "drop i xs = take (Suc l - i) (drop i xs) @ drop (Suc l) xs"
      using assms(2) by (metis append_take_drop_id drop_drop le_add_diff_inverse2)
    then have "?F (drop i xs) = ?F (take (Suc l - i) (drop i xs)) @ ?F (drop (Suc l) xs)"
      by (metis filter_append)
    then show ?thesis using none by (simp add: filter_id_conv)
  qed
  have lenK: "length ?K = length (?F (take (Suc l - i) (drop i xs)))"
    using arg_cong [OF K, of length] by simp
  have KM: "length ?K + length ?M = Suc l - i"
    using sum_length_filter_compl [of "\<lambda>j. key_match key c (the (es ! j))" "[i..<Suc l]"]
    by (simp del: upt_Suc)
  have eqs: "es2 = es'" "n' = n - length ?M" "d' = d + length ?K" "j = Suc l"
    using u assms(5) by auto
  have n': "n' = d + length ?K + (N - Suc l)"
    using n KM assms(2,3) eqs(2) by simp
  have sh: "length (table_shift es' (d + length ?K) (Suc l) N) = length es' \<and>
      take (d + length ?K + (N - Suc l)) (table_shift es' (d + length ?K) (Suc l) N) =
      take (d + length ?K) es' @ take (N - Suc l) (drop (Suc l) es')"
    using assms(2,3,4) N es'(1) KM by (intro table_shift_eq) auto
  have td: "take d es = map Some (take d xs)"
    using slots len N assms(2,3,4) by (intro nth_equalityI) auto
  have tl: "take (N - Suc l) (drop (Suc l) es) = map Some (drop (Suc l) xs)"
    using slots len N assms(3) by (intro nth_equalityI) auto
  have ln: "length (take d xs) = d" "length (drop (Suc l) xs) = N - Suc l"
    using len assms(2,3,4) by simp_all
  have "n' = length (take d xs @ ?F (drop i xs))"
    by (simp only: n' F length_append lenK ln add.assoc)
  moreover have "take n' (table_shift es' (d + length ?K) (Suc l) N) = map Some (take d xs @ ?F (drop i xs))"
    by (simp only: n' sh es'(2,3) K F td tl map_append append_assoc)
  ultimately show ?thesis
    using sh unfolding eqs(1,3,4) es'(1) by blast
qed

lemma set_dups_Some:
  "\<exists>must'. set_dups key c es n (Some d) must i l =
     (case unset_dups key c es n d i l of (es', n', d', j) \<Rightarrow> (es', n', Some d', must', j))"
proof (induction key c es n d i l arbitrary: must rule: unset_dups.induct)
  case (1 key c es n d i l)
  then show ?case
    by (subst set_dups.simps, subst unset_dups.simps) simp
qed

lemma set_dups_None:
  "i \<le> Suc l \<Longrightarrow> set_dups key c es n None must i l =
     (case List.find (\<lambda>j. key_match key c (the (es ! j))) [i..<Suc l] of
        None \<Rightarrow> (es, n, None, must, Suc l)
      | Some j \<Rightarrow> set_dups key c es (n - 1) (Some j) must (Suc j) l)"
proof (induction "Suc l - i" arbitrary: i)
  case 0
  then show ?case by (subst set_dups.simps) simp
next
  case (Suc m)
  then have "i \<le> l" "[i..<Suc l] = i # [Suc i..<Suc l]" by (simp_all add: upt_rec del: upt_Suc)
  with Suc show ?case by (subst set_dups.simps) (simp del: upt_Suc)
qed

section \<open>Unset, set and merge\<close>

lemma index_last_bound:
  assumes "table_wf t" and "table_search t k = Some i"
  defines "l \<equiv> the (index_last t ! TABLE_HASH k)"
  shows "TABLE_INDEX_IS_INITIALIZED t (TABLE_HASH k) \<and> i \<le> l \<and> l < nelts (ta t) \<and>
         (\<forall>e \<in> set (drop (Suc l) (entries t)). \<not> same_key k e)"
proof -
  let ?es = "entries t" and ?h = "TABLE_HASH k"
  have h: "?h < TABLE_HASH_SIZE" by (simp add: TABLE_HASH_less TABLE_HASH_SIZE_def)
  note ix = table_wf_index [OF assms(1) h]
  have in_idx: "j \<in> set (idx ?es ?h)" if "j < length ?es" "same_key k (?es ! j)" for j
    using that same_key_hash by (auto simp: idx_def)
  have i: "i \<in> set (idx ?es ?h)" using table_search_Some [OF assms(1,2)] in_idx by blast
  then have ne: "idx ?es ?h \<noteq> []" by auto
  have l: "l = last (idx ?es ?h)" using ix(3) [OF ne] by (simp add: l_def)
  have after: "\<not> same_key k e" if "e \<in> set (drop (Suc l) ?es)" for e
  proof
    assume "same_key k e"
    moreover obtain j where "j < length (drop (Suc l) ?es)" "e = drop (Suc l) ?es ! j"
      using \<open>e \<in> set (drop (Suc l) ?es)\<close> by (metis in_set_conv_nth)
    then have "Suc l + j < length ?es" "e = ?es ! (Suc l + j)" by simp_all
    ultimately show False using in_idx [of "Suc l + j"] idx_bounds [of "Suc l + j" ?es ?h] l by simp
  qed
  show ?thesis
    using idx_bounds [OF i] ix(1) ne l after assms(1) by (auto simp: table_wf_def)
qed

lemma spec_set_split:
  "\<forall>e \<in> set pre. \<not> same_key k e \<Longrightarrow> same_key k e \<Longrightarrow>
   spec_set k v (pre @ e # post) = pre @ e\<lparr>tval := v\<rparr> # spec_unset k post"
  by (induction pre) auto

lemma spec_set_absent: "\<forall>e \<in> set es. \<not> same_key k e \<Longrightarrow> spec_set k v es = es @ [new_entry k v]"
  by (induction es) auto

lemma spec_merge_split:
  "\<forall>e \<in> set pre. \<not> same_key k e \<Longrightarrow> same_key k e \<Longrightarrow>
   spec_merge k v (pre @ e # post) = pre @ e\<lparr>tval := merged_val (tval e) v\<rparr> # post"
  by (induction pre) auto

lemma spec_merge_absent: "\<forall>e \<in> set es. \<not> same_key k e \<Longrightarrow> spec_merge k v es = es @ [new_entry k v]"
  by (induction es) auto

lemma spec_unset_ok: "list_all entry_ok es \<Longrightarrow> list_all entry_ok (spec_unset k es)"
  by (induction es) (auto simp: spec_unset_def)

lemma filter_match_unset:
  "list_all entry_ok es \<Longrightarrow>
   filter (\<lambda>e. \<not> key_match k (COMPUTE_KEY_CHECKSUM k) e) es = spec_unset k es"
  unfolding spec_unset_def by (rule filter_cong) (auto simp: key_match_same_key list_all_iff)

lemma table_wf_lengths:
  "table_wf t \<Longrightarrow> length (index_first t) = TABLE_HASH_SIZE \<and> length (index_last t) = TABLE_HASH_SIZE"
  by (simp add: table_wf_def index_ok_def)

text \<open>Rebuilding the index after the array was rewritten.\<close>

lemma reindexed:
  assumes "table_wf t" and "take n es = map Some xs" and "length xs = n" and "n \<le> nalloc (ta t)"
    and "length es = length (elts (ta t))" and "list_all entry_ok xs"
    and t': "t' = table_reindex (t\<lparr>ta := (ta t)\<lparr>elts := es, nelts := n\<rparr>\<rparr>)"
  shows "table_wf t' \<and> entries t' = xs"
proof -
  have a: "arr_wf ((ta t)\<lparr>elts := es, nelts := n\<rparr>) \<and> arr_list ((ta t)\<lparr>elts := es, nelts := n\<rparr>) = xs"
    using arr_wfI [OF assms(2,3,4)] assms(1,5) by (cases "ta t") (auto simp: table_wf_def arr_wf_def)
  show ?thesis
    using table_reindex_wf [of "t\<lparr>ta := (ta t)\<lparr>elts := es, nelts := n\<rparr>\<rparr>"] a assms(6)
      table_wf_lengths [OF assms(1)]
    by (simp add: t')
qed

lemma spec_unset_split:
  "\<forall>e \<in> set pre. \<not> same_key k e \<Longrightarrow> same_key k e \<Longrightarrow>
   spec_unset k (pre @ e # post) = pre @ spec_unset k post"
  by (simp add: spec_unset_def filter_id_conv)

lemma compaction_table:
  assumes "table_wf t" and "xs = entries t" and es: "elts (ta t) = es" "nelts (ta t) = N"
    and es1: "length es1 = length es" "take N es1 = map Some xs1" "length xs1 = N"
    and "list_all entry_ok xs1" and "j \<le> l" and "l < N"
    and "unset_dups k (COMPUTE_KEY_CHECKSUM k) es1 (N - 1) j (Suc j) l = (es2, n', d', i')"
    and none: "\<forall>e \<in> set (drop (Suc l) xs1). \<not> same_key k e"
    and t': "t' = table_reindex (t\<lparr>ta := (ta t)\<lparr>elts := table_shift es2 d' i' N, nelts := n'\<rparr>\<rparr>)"
  shows "table_wf t' \<and> entries t' = take j xs1 @ spec_unset k (drop (Suc j) xs1)"
proof -
  let ?c = "COMPUTE_KEY_CHECKSUM k" and ?ys = "take j xs1 @ spec_unset k (drop (Suc j) xs1)"
  have wf: "arr_wf (ta t)" using assms(1) by (simp add: table_wf_def)
  have N: "N \<le> nalloc (ta t)" "nalloc (ta t) \<le> length es" using wf es by (auto simp: arr_wf_def)
  have a: "arr_wf \<lparr>elts = es1, nelts = N, nalloc = N\<rparr>" "arr_list \<lparr>elts = es1, nelts = N, nalloc = N\<rparr> = xs1"
    using arr_wfI [OF es1(2,3) le_refl] N es1(1) by simp_all
  have ok: "list_all entry_ok (drop i xs1)" for i
    using assms(8) by (auto simp: list_all_iff dest: in_set_dropD)
  have none': "\<forall>e \<in> set (drop (Suc l) xs1). \<not> key_match k ?c e"
    using none ok by (auto simp: list_all_iff key_match_same_key)
  have c: "n' = length ?ys" "length (table_shift es2 d' i' N) = length es1"
      "take n' (table_shift es2 d' i' N) = map Some ?ys"
    using compaction [OF a(1) _ assms(10) _ assms(11) a(2) [symmetric] none'] assms(9,10)
      filter_match_unset [OF ok, of k "Suc j"]
    by auto
  have len: "length ?ys \<le> N"
    using es1(3) assms(9,10) length_filter_le [of "\<lambda>e. \<not> same_key k e" "drop (Suc j) xs1"]
    by (simp add: spec_unset_def)
  have "list_all entry_ok ?ys"
    using spec_unset_ok [OF ok] assms(8) by (auto simp: list_all_iff dest: in_set_takeD)
  then show ?thesis
    using reindexed [OF assms(1) c(3) c(1) [symmetric] _ _ _ t'] c(1,2) len N es es1(1) by simp
qed

lemma apr_table_unset_wf:
  assumes "table_wf t"
  shows "table_wf (apr_table_unset t k) \<and> entries (apr_table_unset t k) = spec_unset k (entries t)"
proof (cases "table_search t k")
  case None
  then have "apr_table_unset t k = t"
    by (auto simp: apr_table_unset_def table_search_def Let_def split: if_splits)
  moreover have "spec_unset k (entries t) = entries t"
    using table_search_None [OF assms] None by (simp add: spec_unset_def filter_id_conv)
  ultimately show ?thesis using assms by simp
next
  case (Some i)
  let ?c = "COMPUTE_KEY_CHECKSUM k" and ?N = "nelts (ta t)" and ?l = "the (index_last t ! TABLE_HASH k)"
  note s = table_search_Some [OF assms Some] and b = index_last_bound [OF assms Some]
  have ok: "list_all entry_ok (entries t)" and wf: "arr_wf (ta t)" using assms by (simp_all add: table_wf_def)
  obtain es2 n' d' i' where u: "unset_dups k ?c (elts (ta t)) (?N - 1) i (Suc i) ?l = (es2, n', d', i')"
    using prod_cases4 by blast
  have eq: "apr_table_unset t k =
      table_reindex (t\<lparr>ta := (ta t)\<lparr>elts := table_shift es2 d' i' ?N, nelts := n'\<rparr>\<rparr>)"
    using Some b u by (simp add: apr_table_unset_def table_search_def Let_def)
  have "table_wf (apr_table_unset t k) \<and>
      entries (apr_table_unset t k) = take i (entries t) @ spec_unset k (drop (Suc i) (entries t))"
    by (rule compaction_table [OF assms refl refl refl refl _ _ ok _ _ u _ eq])
      (use b wf in \<open>simp_all add: arr_wf_slots\<close>)
  moreover have "spec_unset k (entries t) = take i (entries t) @ spec_unset k (drop (Suc i) (entries t))"
    using s by (metis spec_unset_split)
  ultimately show ?thesis by simp
qed

text \<open>Overwriting the value of one entry leaves the index valid.\<close>

lemma overwrite_value:
  assumes "table_wf t" and "i < length (entries t)"
    and t': "t' = t\<lparr>ta := (ta t)\<lparr>elts := (elts (ta t))[i := Some ((entries t ! i)\<lparr>tval := v\<rparr>)]\<rparr>\<rparr>"
  shows "table_wf t' \<and> entries t' = (entries t)[i := (entries t ! i)\<lparr>tval := v\<rparr>]"
proof -
  let ?xs = "(entries t)[i := (entries t ! i)\<lparr>tval := v\<rparr>]"
  have wf: "arr_wf (ta t)" and ok: "list_all entry_ok (entries t)" using assms by (simp_all add: table_wf_def)
  have "take (nelts (ta t)) ((elts (ta t))[i := Some ((entries t ! i)\<lparr>tval := v\<rparr>)]) = map Some ?xs"
    using arr_wf_slots [OF wf] by (simp add: take_update_swap map_update)
  from arr_elts_wf [OF wf this] have a: "arr_wf (ta t') \<and> entries t' = ?xs"
    using wf by (simp add: t')
  have "map tkey ?xs = map tkey (entries t)"
    using assms(2) by (simp add: map_update list_update_same_conv)
  then have "idx ?xs = idx (entries t)" by (rule idx_keys)
  then have "index_ok ?xs (index_initialized t') (index_first t') (index_last t')"
    using assms(1) by (simp add: table_wf_def index_ok_def t')
  moreover have "list_all entry_ok ?xs"
    using ok assms(2) by (auto simp: list_all_length nth_list_update entry_ok_def)
  ultimately show ?thesis using a by (simp add: table_wf_def)
qed

lemma unset_rest_none:
  "(\<And>j. i \<le> j \<Longrightarrow> j < length xs \<Longrightarrow> \<not> same_key k (xs ! j)) \<Longrightarrow> spec_unset k (drop i xs) = drop i xs"
  by (auto simp: spec_unset_def filter_id_conv in_set_drop_conv_nth)

lemma unset_rest_first:
  assumes "i \<le> j" "j < length xs" "same_key k (xs ! j)"
    and "\<And>n. i \<le> n \<Longrightarrow> n < j \<Longrightarrow> \<not> same_key k (xs ! n)"
  shows "spec_unset k (drop i xs) = take (j - i) (drop i xs) @ spec_unset k (drop (Suc j) xs)"
proof -
  have "drop i xs = take (j - i) (drop i xs) @ xs ! j # drop (Suc j) xs"
    using id_take_nth_drop [of "j - i" "drop i xs"] assms by simp
  moreover have "\<forall>e \<in> set (take (j - i) (drop i xs)). \<not> same_key k e"
    using assms by (auto simp: in_set_conv_nth)
  ultimately show ?thesis using assms(3) by (metis spec_unset_split)
qed

lemma table_set_with_wf:
  assumes "table_wf t" and dup: "\<And>s. dup s = s"
  shows "table_wf (table_set_with dup t k v) \<and> entries (table_set_with dup t k v) = spec_set k v (entries t)"
proof (cases "table_search t k")
  case None
  let ?h = "TABLE_HASH k"
  have eq: "table_set_with dup t k v =
      table_add_new_elt (index_for_push t ?h) ?h (Some k) v (COMPUTE_KEY_CHECKSUM k)"
    using None dup
    by (auto simp: table_set_with_def table_search_def index_for_push_def Let_def split: if_splits)
  have "spec_set k v (entries t) = entries t @ [new_entry k v]"
    using table_search_None [OF assms(1)] None by (simp add: spec_set_absent)
  then show ?thesis using append_entry [OF assms(1) eq] by simp
next
  case (Some i)
  let ?c = "COMPUTE_KEY_CHECKSUM k" and ?N = "nelts (ta t)" and ?l = "the (index_last t ! TABLE_HASH k)"
  let ?e = "(entries t ! i)\<lparr>tval := v\<rparr>"
  note s = table_search_Some [OF assms(1) Some] and b = index_last_bound [OF assms(1) Some]
  have wf: "arr_wf (ta t)" using assms by (simp_all add: table_wf_def)
  have ei: "elts (ta t) ! i = Some (entries t ! i)" using s wf by (simp add: arr_wf_nth)
  define es1 where "es1 = (elts (ta t))[i := Some ?e]"
  define xs1 where "xs1 = (entries t)[i := ?e]"
  define t1 where "t1 = t\<lparr>ta := (ta t)\<lparr>elts := es1\<rparr>\<rparr>"
  have t1: "table_wf t1 \<and> entries t1 = xs1"
    using overwrite_value [OF assms(1), of i t1 v] s by (simp add: t1_def es1_def xs1_def)
  have spec: "spec_set k v (entries t) = take i xs1 @ ?e # spec_unset k (drop (Suc i) xs1)"
    using s by (metis drop_update_cancel less_Suc_eq spec_set_split take_update_cancel le_refl xs1_def)
  have xs1i: "xs1 = take i xs1 @ ?e # drop (Suc i) xs1"
    using s by (simp add: xs1_def upd_conv_take_nth_drop)
  have slots1: "es1 ! j = Some (xs1 ! j)" if "j < ?N" for j
    using t1 that arr_wf_nth [of "ta t1"] by (simp add: table_wf_def t1_def)
  have ok1: "list_all entry_ok xs1" using t1 unfolding table_wf_def by metis
  have len1: "length xs1 = ?N" using wf by (simp add: xs1_def)
  have none1: "\<forall>e \<in> set (drop (Suc ?l) xs1). \<not> same_key k e"
    using b by (simp add: xs1_def)
  have km: "key_match k ?c (the (es1 ! j)) = same_key k (xs1 ! j)" if "j < ?N" for j
    using that ok1 len1 by (simp add: slots1 key_match_same_key list_all_length)
  show ?thesis
  proof (cases "List.find (\<lambda>j. key_match k ?c (the (es1 ! j))) [Suc i..<Suc ?l]")
    case none: None
    then have "table_set_with dup t k v = t1"
      using Some b ei set_dups_None [of "Suc i" ?l k ?c es1 ?N False]
      by (simp add: table_set_with_def table_search_def Let_def dup es1_def t1_def del: upt_Suc)
    moreover have "spec_unset k (drop (Suc i) xs1) = drop (Suc i) xs1"
    proof -
      have "\<not> same_key k (xs1 ! j)" if "Suc i \<le> j" "j < ?N" for j
      proof (cases "j \<le> ?l")
        case True
        then have "j \<in> set [Suc i..<Suc ?l]" using that by auto
        then have "\<not> key_match k ?c (the (es1 ! j))" using none by (metis find_None_iff)
        then show ?thesis using km that by simp
      next
        case False
        then have "xs1 ! j \<in> set (drop (Suc ?l) xs1)"
          using that len1 by (auto simp: in_set_drop_conv_nth intro!: exI [of _ j])
        then show ?thesis using none1 by blast
      qed
      then show ?thesis using len1 by (intro unset_rest_none) simp
    qed
    ultimately show ?thesis using t1 spec xs1i by simp
  next
    case j: (Some j)
    note f = find_upt_first [OF j]
    have jb: "Suc i \<le> j" "j \<le> ?l" "j < ?N" using f b by auto
    have jk: "same_key k (xs1 ! j)" using km jb f by simp
    have before: "\<not> same_key k (xs1 ! n)" if "Suc i \<le> n" "n < j" for n
      using f km [of n] that jb by simp
    obtain es2 n' d' i' where u: "unset_dups k ?c es1 (?N - 1) j (Suc j) ?l = (es2, n', d', i')"
      using prod_cases4 by blast
    obtain must' where sd: "set_dups k ?c es1 ?N None False (Suc i) ?l = (es2, n', Some d', must', i')"
      using set_dups_None [of "Suc i" ?l k ?c es1 ?N False] j b jb
        set_dups_Some [of k ?c es1 "?N - 1" j False "Suc j" ?l] u
      by (auto simp del: upt_Suc)
    have eq: "table_set_with dup t k v =
        table_reindex (t\<lparr>ta := (ta t)\<lparr>elts := table_shift es2 d' i' ?N, nelts := n'\<rparr>\<rparr>)"
      using Some b ei sd
      by (simp add: table_set_with_def table_search_def Let_def dup es1_def del: upt_Suc)
    have "table_wf (table_set_with dup t k v) \<and>
        entries (table_set_with dup t k v) = take j xs1 @ spec_unset k (drop (Suc j) xs1)"
      by (rule compaction_table [OF assms(1) refl refl refl _ _ len1 ok1 jb(2) _ u none1 eq])
        (use b t1 arr_wf_slots [of "ta t1"] in \<open>simp_all add: es1_def t1_def table_wf_def\<close>)
    moreover have "take j xs1 @ spec_unset k (drop (Suc j) xs1) =
        take i xs1 @ ?e # spec_unset k (drop (Suc i) xs1)"
    proof -
      have "spec_unset k (drop (Suc i) xs1) =
          take (j - Suc i) (drop (Suc i) xs1) @ spec_unset k (drop (Suc j) xs1)"
        using unset_rest_first [of "Suc i" j xs1 k] jb len1 jk before by simp
      moreover have "take j xs1 = take i xs1 @ ?e # take (j - Suc i) (drop (Suc i) xs1)"
        using jb len1 s by (subst xs1i) (simp add: take_Cons' min_def xs1_def)
      ultimately show ?thesis by simp
    qed
    ultimately show ?thesis using spec by simp
  qed
qed
lemma apr_table_set_wf:
  "table_wf t \<Longrightarrow> table_wf (apr_table_set t k v) \<and> entries (apr_table_set t k v) = spec_set k v (entries t)"
  unfolding apr_table_set_def by (rule table_set_with_wf) (simp_all add: apr_pstrdup_eq)

lemma apr_table_setn_wf:
  "table_wf t \<Longrightarrow> table_wf (apr_table_setn t k v) \<and> entries (apr_table_setn t k v) = spec_set k v (entries t)"
  unfolding apr_table_setn_def by (rule table_set_with_wf) simp_all

lemma merge_pstrcat:
  "map_option blk_str (apr_pstrcat [old, Some (cstr '', ''), v, None]) = merged_val old v"
  by (simp add: apr_pstrcat_eq merged_val_def blk_str_def split: option.split)

lemma table_merge_with_wf:
  assumes "table_wf t" and dup: "\<And>s. dup s = s"
  shows "table_wf (table_merge_with dup t k v) \<and>
    entries (table_merge_with dup t k v) = spec_merge k v (entries t)"
proof (cases "table_search t k")
  case None
  let ?h = "TABLE_HASH k"
  have eq: "table_merge_with dup t k v =
      table_add_new_elt (index_for_push t ?h) ?h (Some k) v (COMPUTE_KEY_CHECKSUM k)"
    using None dup
    by (auto simp: table_merge_with_def table_search_def index_for_push_def Let_def split: if_splits)
  have "spec_merge k v (entries t) = entries t @ [new_entry k v]"
    using table_search_None [OF assms(1)] None by (simp add: spec_merge_absent)
  then show ?thesis using append_entry [OF assms(1) eq] by simp
next
  case (Some i)
  let ?e = "entries t ! i"
  note s = table_search_Some [OF assms(1) Some] and b = index_last_bound [OF assms(1) Some]
  have ei: "elts (ta t) ! i = Some ?e" using s assms(1) by (simp add: arr_wf_nth table_wf_def)
  have "table_merge_with dup t k v =
      t\<lparr>ta := (ta t)\<lparr>elts := (elts (ta t))[i := Some (?e\<lparr>tval := merged_val (tval ?e) v\<rparr>)]\<rparr>\<rparr>"
    using Some b ei by (simp add: table_merge_with_def table_search_def Let_def merge_pstrcat [simplified])
  note overwrite_value [OF assms(1) _ this]
  moreover have "spec_merge k v (entries t) = (entries t)[i := ?e\<lparr>tval := merged_val (tval ?e) v\<rparr>]"
    using s spec_merge_split [of "take i (entries t)" k ?e v "drop (Suc i) (entries t)"]
    by (simp add: upd_conv_take_nth_drop)
  ultimately show ?thesis using s by simp
qed

lemma apr_table_merge_wf:
  "table_wf t \<Longrightarrow> table_wf (apr_table_merge t k v) \<and> entries (apr_table_merge t k v) = spec_merge k v (entries t)"
  unfolding apr_table_merge_def by (rule table_merge_with_wf) (simp_all add: apr_pstrdup_eq)

lemma apr_table_mergen_wf:
  "table_wf t \<Longrightarrow> table_wf (apr_table_mergen t k v) \<and> entries (apr_table_mergen t k v) = spec_merge k v (entries t)"
  unfolding apr_table_mergen_def by (rule table_merge_with_wf) simp_all

section \<open>Making, copying and laying one table over another\<close>

lemma apr_table_make_wf: "table_wf (apr_table_make n) \<and> entries (apr_table_make n) = []"
  using make_array_core_wf [of zero_entry n False]
  by (simp add: table_wf_def apr_table_make_def index_ok_empty palloc_def)

lemma apr_table_clear_wf: "table_wf t \<Longrightarrow> table_wf (apr_table_clear t) \<and> entries (apr_table_clear t) = []"
  using table_wf_lengths [of t]
  by (simp add: table_wf_def apr_table_clear_def arr_wf_def arr_list_def index_ok_empty)

lemma apr_table_copy_wf:
  assumes "table_wf t" shows "table_wf (apr_table_copy t) \<and> entries (apr_table_copy t) = entries t"
proof -
  have wf: "arr_wf (ta t)" using assms by (simp add: table_wf_def)
  let ?arr = "make_array_core zero_entry (int (nalloc (ta t))) False"
  have "arr_wf (ta (apr_table_copy t)) \<and> entries (apr_table_copy t) = entries t"
    using wf arr_wfI [of "nelts (ta t)" _ "entries t" "max 1 (nalloc (ta t))"] arr_wf_slots [OF wf]
    by (auto simp: apr_table_copy_def make_array_core_def Let_def arr_wf_def palloc_def)
  then show ?thesis using assms by (simp add: table_wf_def apr_table_copy_def Let_def)
qed

lemma add_entries:
  assumes "table_wf t" and "list_all entry_ok es"
  defines "t' \<equiv> fold (\<lambda>e t. apr_table_add t (the (tkey e)) (tval e)) es t"
  shows "table_wf t' \<and> entries t' = entries t @ es"
  unfolding t'_def using assms(1,2)
proof (induction es arbitrary: t)
  case (Cons e es)
  have "new_entry (the (tkey e)) (tval e) = e"
    using Cons.prems by (cases e) (auto simp: new_entry_def entry_ok_def)
  then show ?case
    using Cons apr_table_add_wf [OF Cons.prems(1), of "the (tkey e)" "tval e"] by simp
qed simp

lemma apr_table_clone_wf:
  assumes "table_wf t" shows "table_wf (apr_table_clone t) \<and> entries (apr_table_clone t) = entries t"
proof -
  have wf: "arr_wf (ta t)" and ok: "list_all entry_ok (entries t)" using assms by (simp_all add: table_wf_def)
  let ?f = "\<lambda>e t. apr_table_add t (the (tkey e)) (tval e)"
  have "apr_table_clone t = fold ?f (map (\<lambda>i. the (elts (ta t) ! i)) [0..<nelts (ta t)])
      (apr_table_make (int (nelts (ta t))))"
    by (simp add: apr_table_clone_def apr_table_elts_def fold_map comp_def Let_def)
  also have "map (\<lambda>i. the (elts (ta t) ! i)) [0..<nelts (ta t)] = entries t"
    using wf by (intro nth_equalityI) (simp_all add: arr_wf_nth)
  finally show ?thesis using add_entries [OF _ ok, of "apr_table_make (int (nelts (ta t)))"] apr_table_make_wf
    by simp
qed

lemma apr_table_overlay_wf:
  assumes "table_wf overlay" and "table_wf base"
  shows "table_wf (apr_table_overlay overlay base) \<and>
    entries (apr_table_overlay overlay base) = entries overlay @ entries base"
proof -
  have wf: "arr_wf (ta overlay)" "arr_wf (ta base)"
    and ok: "list_all entry_ok (entries overlay)" "list_all entry_ok (entries base)"
    using assms by (simp_all add: table_wf_def)
  have "arr_wf (apr_array_cat zero_entry (copy_array_hdr_core (ta overlay)) (ta base)) \<and>
    arr_list (apr_array_cat zero_entry (copy_array_hdr_core (ta overlay)) (ta base)) = entries overlay @ entries base"
    using wf apr_array_copy_hdr_wf [OF wf(1)] by (simp add: apr_array_copy_hdr_def arr.invar_cat arr.contents_cat)
  then show ?thesis
    using table_reindex_wf [of "\<lparr>ta = apr_array_cat zero_entry (copy_array_hdr_core (ta overlay)) (ta base),
       index_initialized = 0, index_first = palloc TABLE_HASH_SIZE, index_last = palloc TABLE_HASH_SIZE\<rparr>"] ok
    by (simp add: apr_table_overlay_def palloc_def)
qed

section \<open>The contract of a keyed store\<close>

abbreviation key_eq :: "cstring \<Rightarrow> cstring \<Rightarrow> bool" where
  "key_eq k k' \<equiv> strcasecmp k k' = 0"

lemma key_eq_equiv: "equivp key_eq"
  by (rule equivpI) (auto simp: reflp_def symp_def transp_def strcasecmp_eq_0)

lemma same_key_cong: "key_eq k k' \<Longrightarrow> same_key k = same_key k'"
  by (auto simp: same_key_def strcasecmp_eq_0 fun_eq_iff)

lemma same_key_val [simp]: "same_key k (e\<lparr>tval := v\<rparr>) = same_key k e"
  by (simp add: same_key_def)

lemma same_key_new [simp]: "same_key k' (new_entry k v) \<longleftrightarrow> key_eq k k'"
  by (simp add: same_key_def new_entry_def)

lemma same_key_other: "same_key k e \<Longrightarrow> same_key k' e \<longleftrightarrow> key_eq k k'"
  by (auto simp: same_key_def strcasecmp_eq_0)

lemma spec_get_Cons: "spec_get k (e # es) = (if same_key k e then tval e else spec_get k es)"
  by (simp add: spec_get_def)

lemma spec_get_unset:
  "spec_get k' (spec_unset k es) = (if key_eq k k' then None else spec_get k' es)"
proof (induction es)
  case (Cons e es)
  then show ?case
    by (auto simp: spec_unset_def spec_get_Cons same_key_def strcasecmp_eq_0)
qed (simp add: spec_get_def spec_unset_def)

lemma spec_get_set:
  "spec_get k' (spec_set k v es) = (if key_eq k k' then v else spec_get k' es)"
proof (induction es)
  case (Cons e es)
  then show ?case
    using spec_get_unset [of k' k es]
    by (auto simp: spec_get_Cons same_key_def strcasecmp_eq_0)
qed (simp add: spec_get_def, simp add: new_entry_def)

lemma table_get_set:
  "table_wf t \<Longrightarrow> apr_table_get (apr_table_set t k v) (Some k') =
     (if key_eq k k' then v else apr_table_get t (Some k'))"
  by (simp add: apr_table_get_eq apr_table_set_wf spec_get_set)

lemma table_get_unset:
  "table_wf t \<Longrightarrow> apr_table_get (apr_table_unset t k) (Some k') =
     (if key_eq k k' then None else apr_table_get t (Some k'))"
  by (simp add: apr_table_get_eq apr_table_unset_wf spec_get_unset)

interpretation tbl: keyed_store table_wf key_eq "\<lambda>t k. apr_table_get t (Some k)"
  "\<lambda>t k v. apr_table_set t k (Some v)" apr_table_unset
  by unfold_locales
    (simp_all add: key_eq_equiv apr_table_set_wf apr_table_unset_wf table_get_set table_get_unset)

section \<open>Sequences of operations\<close>

datatype table_op =
    Op_set cstring "cstring option" | Op_setn cstring "cstring option"
  | Op_add cstring "cstring option" | Op_addn cstring "cstring option"
  | Op_merge cstring "cstring option" | Op_mergen cstring "cstring option"
  | Op_unset cstring | Op_clear

fun table_step :: "apr_table \<Rightarrow> table_op \<Rightarrow> apr_table" where
  "table_step t (Op_set k v) = apr_table_set t k v"
| "table_step t (Op_setn k v) = apr_table_setn t k v"
| "table_step t (Op_add k v) = apr_table_add t k v"
| "table_step t (Op_addn k v) = apr_table_addn t k v"
| "table_step t (Op_merge k v) = apr_table_merge t k v"
| "table_step t (Op_mergen k v) = apr_table_mergen t k v"
| "table_step t (Op_unset k) = apr_table_unset t k"
| "table_step t Op_clear = apr_table_clear t"

fun list_step :: "apr_table_entry list \<Rightarrow> table_op \<Rightarrow> apr_table_entry list" where
  "list_step es (Op_set k v) = spec_set k v es"
| "list_step es (Op_setn k v) = spec_set k v es"
| "list_step es (Op_add k v) = es @ [new_entry k v]"
| "list_step es (Op_addn k v) = es @ [new_entry k v]"
| "list_step es (Op_merge k v) = spec_merge k v es"
| "list_step es (Op_mergen k v) = spec_merge k v es"
| "list_step es (Op_unset k) = spec_unset k es"
| "list_step es Op_clear = []"

lemma table_step_refines:
  "table_wf t \<Longrightarrow> table_wf (table_step t op) \<and> entries (table_step t op) = list_step (entries t) op"
  by (cases op) (simp_all add: apr_table_set_wf apr_table_setn_wf apr_table_add_wf apr_table_merge_wf
      apr_table_mergen_wf apr_table_unset_wf apr_table_clear_wf)

lemma table_run_refines:
  "table_wf t \<Longrightarrow> table_wf (foldl table_step t ops) \<and>
     entries (foldl table_step t ops) = foldl list_step (entries t) ops"
proof (induction ops arbitrary: t)
  case (Cons op ops)
  then show ?case using table_step_refines [OF Cons.prems, of op] by simp
qed simp

section \<open>The size of the array\<close>

text \<open>An operation may double the array, but only when all of it is in use.\<close>

definition grows :: "apr_table \<Rightarrow> apr_table \<Rightarrow> bool" where
  "grows t t' \<longleftrightarrow> nalloc (ta t') \<le> max (nalloc (ta t)) (max 1 (2 * nelts (ta t)))"

lemma push_grows: "apr_array_push_noclear arr = (arr', i) \<Longrightarrow> nalloc arr' \<le> max (nalloc arr) (max 1 (2 * nelts arr))"
  by (auto simp: apr_array_push_noclear_def Let_def split: if_splits)

lemma initialized_ta [simp]: "ta (TABLE_SET_INDEX_INITIALIZED t i) = ta t"
  by (simp add: TABLE_SET_INDEX_INITIALIZED_def)

lemma reindex_ta [simp]: "ta (table_reindex t) = ta t"
proof -
  have "ta (fold reindex_step is u) = ta u" for "is" u
    by (induction "is" arbitrary: u) (simp_all add: reindex_step_def Let_def)
  then show ?thesis by (simp add: table_reindex_def)
qed

lemma add_new_grows: "grows t (table_add_new_elt u hash k v c)" if "ta u = ta t"
  using that push_grows [of "ta t"] by (auto simp: grows_def table_add_new_elt_def Let_def split: prod.splits)

lemma set_grows: "grows t (table_set_with dup t k v)"
  by (auto simp: table_set_with_def Let_def add_new_grows grows_def [of t "table_reindex _"] grows_def [of t "t\<lparr>ta := _\<rparr>"]
      split: option.splits prod.splits)

lemma merge_grows: "grows t (table_merge_with dup t k v)"
  by (auto simp: table_merge_with_def Let_def add_new_grows grows_def [of t "t\<lparr>ta := _\<rparr>"] split: option.splits)

lemma add_grows: "grows t (table_add_with dup t k v)"
  using push_grows [of "ta t"] by (auto simp: grows_def table_add_with_def Let_def split: prod.splits)

lemma unset_grows: "grows t (apr_table_unset t k)"
  by (auto simp: grows_def apr_table_unset_def Let_def split: option.splits prod.splits)

lemma step_grows: "grows t (table_step t op)"
  by (cases op) (simp_all add: apr_table_set_def apr_table_setn_def apr_table_add_def apr_table_addn_def apr_table_merge_def
      apr_table_mergen_def set_grows add_grows merge_grows unset_grows, simp add: grows_def apr_table_clear_def)

lemma length_list_step: "length (list_step es op) \<le> length es + 1"
proof -
  have "length (spec_set k v es) \<le> length es + 1" "length (spec_merge k v es) \<le> length es + 1" for k v
    by (induction es) (auto simp: spec_unset_def intro: le_trans [OF length_filter_le])
  then show ?thesis by (cases op) (auto simp: spec_unset_def intro: le_trans [OF length_filter_le])
qed

lemma run_size: "table_wf t \<Longrightarrow> nalloc (ta (foldl table_step t ops)) \<le> max (nalloc (ta t)) (max 1 (2 * (nelts (ta t) + length ops)))"
proof (induction ops arbitrary: t)
  case (Cons op ops)
  have wf: "table_wf (table_step t op)" and e: "entries (table_step t op) = list_step (entries t) op"
    using table_step_refines [OF Cons.prems] by simp_all
  have "nelts (ta (table_step t op)) = length (list_step (entries t) op)"
    using arg_cong [OF e, of length] wf by (simp add: table_wf_def length_arr_list)
  then have "nelts (ta (table_step t op)) \<le> nelts (ta t) + 1"
    using length_list_step [of "entries t" op] Cons.prems by (simp add: table_wf_def length_arr_list)
  then show ?case using Cons.IH [OF wf] step_grows [of t op] by (simp add: grows_def)
qed simp

section \<open>Properties\<close>

text \<open>C1: refinement. As long as the sizes in the code stay within \<open>int\<close>, which holds if neither the size asked for nor twice the number of
  operations, times the 24 bytes of an entry, reach \<open>2 ^ 31\<close>: whatever sequence of \<open>apr_table_set\<close>, \<open>setn\<close>, \<open>add\<close>, \<open>addn\<close>,
  \<open>merge\<close>, \<open>mergen\<close>, \<open>unset\<close> and \<open>clear\<close> is run on a new table, no size overflows, the table stays well formed (every bracket of
  the index is exact, every checksum right, the array within its block), its entries are those of the plain list operations that know
  neither index nor checksum, and \<open>apr_table_get\<close> returns the value of the first entry whose key is the given one up to case.\<close>

theorem table_refines_list:
  assumes "24 * n < 2 ^ 31" "48 * length ops < 2 ^ 31"
  shows "sizes_fit 24 (ta (foldl table_step (apr_table_make n) ops)) \<and>
   table_wf (foldl table_step (apr_table_make n) ops) \<and>
   entries (foldl table_step (apr_table_make n) ops) = foldl list_step [] ops \<and>
   apr_table_get (foldl table_step (apr_table_make n) ops) (Some k) = spec_get k (foldl list_step [] ops)"
proof -
  have "nalloc (ta (apr_table_make n)) = nat (max 1 n)" "nelts (ta (apr_table_make n)) = 0"
    by (simp_all add: apr_table_make_def make_array_core_def Let_def)
  then have "nalloc (ta (foldl table_step (apr_table_make n) ops)) \<le> max (nat (max 1 n)) (max 1 (2 * length ops))"
    using run_size [of "apr_table_make n" ops] apr_table_make_wf [of n] by simp
  moreover have "nat (max 1 n) * 24 < 2 ^ 31"
  proof (cases "n \<le> 1")
    case False
    then obtain m where "n = int m" "1 < m" by (cases n) auto
    then show ?thesis using assms(1) by (simp add: max_def)
  qed simp
  ultimately have "sizes_fit 24 (ta (foldl table_step (apr_table_make n) ops))"
    using assms(2) by (simp add: sizes_fit_def)
  then show ?thesis using table_run_refines [of "apr_table_make n" ops] apr_table_make_wf [of n]
    by (simp add: apr_table_get_eq)
qed

theorem table_refines_list_witness:
  "apr_table_get (foldl table_step (apr_table_make 5) [Op_set (cstr ''Host'') (Some (cstr ''a'')), Op_merge (cstr ''host'') (Some (cstr ''b''))])
     (Some (cstr ''HOST'')) = Some (cstr ''a, b'')"
proof -
  have "spec_get (cstr ''HOST'') (foldl list_step [] [Op_set (cstr ''Host'') (Some (cstr ''a'')), Op_merge (cstr ''host'') (Some (cstr ''b''))]) =
      Some (cstr ''a, b'')" by code_simp
  then show ?thesis
    using table_refines_list [of 5 "[Op_set (cstr ''Host'') (Some (cstr ''a'')), Op_merge (cstr ''host'') (Some (cstr ''b''))]" "cstr ''HOST''"]
    by (simp del: foldl.simps)
qed

text \<open>Lookup after a load. After setting a list of bindings in a new table, \<open>apr_table_get\<close> returns for
  each key the value of the last binding whose key is equal up to case, and NULL if there is none.\<close>

theorem table_load_lookup:
  "apr_table_get (foldl (\<lambda>t (k, v). apr_table_set t k (Some v)) (apr_table_make n) kvs) (Some k') =
     (case find (\<lambda>(k, v). strcasecmp k k' = 0) (rev kvs) of Some (k, v) \<Rightarrow> Some v | None \<Rightarrow> None)"
proof -
  have "apr_table_get (apr_table_make n) (Some k') = None"
    using apr_table_make_wf [of n] by (simp add: apr_table_get_eq spec_get_def)
  then show ?thesis
    using tbl.store_list [of "apr_table_make n" kvs k'] apr_table_make_wf [of n]
    by (simp split: option.splits)
qed

text \<open>\<open>apr_table_set\<close> and \<open>apr_table_unset\<close> obey the laws of a keyed store up to case: a set is seen
  by a get of the same key and by no other, an unset removes every entry of the key and nothing
  else, and unsetting after setting is the same as only unsetting.\<close>

theorem table_store_laws:
  assumes "table_wf t"
  shows "apr_table_get (apr_table_set t k v) (Some k') =
      (if strcasecmp k k' = 0 then v else apr_table_get t (Some k')) \<and>
    apr_table_get (apr_table_unset t k) (Some k') =
      (if strcasecmp k k' = 0 then None else apr_table_get t (Some k')) \<and>
    (\<forall>e \<in> set (entries (apr_table_unset t k)). strcasecmp (the (tkey e)) k \<noteq> 0) \<and>
    entries (apr_table_unset (apr_table_set t k v) k) = entries (apr_table_unset t k)"
proof -
  have "spec_unset k (spec_set k v es) = spec_unset k es" for es
    by (induction es) (auto simp: spec_unset_def)
  then show ?thesis
    using apr_table_unset_wf [OF assms, of k] apr_table_set_wf [OF assms, of k v]
      apr_table_unset_wf [of "apr_table_set t k v" k]
    by (simp add: table_get_set [OF assms] table_get_unset [OF assms])
      (auto simp: spec_unset_def same_key_def)
qed

theorem table_store_laws_witness:
  "apr_table_get (apr_table_set (apr_table_set (apr_table_make 1) (cstr ''Host'') (Some (cstr ''a'')))
      (cstr ''hOST'') (Some (cstr ''b''))) (Some (cstr ''HOST'')) = Some (cstr ''b'')"
proof -
  have "table_wf (apr_table_set (apr_table_make 1) (cstr ''Host'') (Some (cstr ''a'')))"
    using apr_table_make_wf apr_table_set_wf by blast
  from table_store_laws [OF this, of "cstr ''hOST''" "Some (cstr ''b'')" "cstr ''HOST''"]
  show ?thesis by (simp add: tolower_def)
qed

text \<open>\<open>apr_table_copy\<close>, \<open>apr_table_clone\<close> and \<open>apr_table_overlay\<close> give well-formed tables with the
  entries of the table copied, and of the overlay followed by the base. So a lookup in the overlay
  prefers the overlay's entry.\<close>

theorem table_copies:
  assumes "table_wf t" and "table_wf s"
  shows "table_wf (apr_table_copy t) \<and> entries (apr_table_copy t) = entries t \<and>
    table_wf (apr_table_clone t) \<and> entries (apr_table_clone t) = entries t \<and>
    table_wf (apr_table_overlay t s) \<and> entries (apr_table_overlay t s) = entries t @ entries s \<and>
    apr_table_get (apr_table_overlay t s) (Some k) =
      (if \<exists>e \<in> set (entries t). strcasecmp (the (tkey e)) k = 0
       then apr_table_get t (Some k) else apr_table_get s (Some k))"
proof -
  have "spec_get k (xs @ ys) = (if \<exists>e \<in> set xs. same_key k e then spec_get k xs else spec_get k ys)" for xs ys
    by (induction xs) (simp_all add: spec_get_Cons)
  then show ?thesis
    using apr_table_copy_wf [OF assms(1)] apr_table_clone_wf [OF assms(1)] apr_table_overlay_wf [OF assms]
    by (simp add: apr_table_get_eq assms same_key_def)
qed

theorem table_copies_witness:
  "apr_table_get (apr_table_overlay (apr_table_set (apr_table_make 1) (cstr ''a'') (Some (cstr ''1'')))
      (apr_table_set (apr_table_make 1) (cstr ''A'') (Some (cstr ''2'')))) (Some (cstr ''a'')) = Some (cstr ''1'')"
proof -
  have m: "table_wf (apr_table_make 1)" "entries (apr_table_make 1) = []" using apr_table_make_wf by blast+
  note s = apr_table_set_wf [OF m(1)]
  show ?thesis
    using table_copies [OF s [THEN conjunct1] s [THEN conjunct1], of "cstr ''a''" "Some (cstr ''1'')"
        "cstr ''A''" "Some (cstr ''2'')" "cstr ''a''"] s m(2) table_get_set [OF m(1)]
    by (simp add: new_entry_def)
qed

text \<open>Checksum and hash are sound filters: keys that are equal up to case have the same checksum and
  the same index slot, and an index slot is always below 32, so neither ever hides an entry.\<close>

theorem checksum_case_blind:
  "(strcasecmp k k' = 0 \<longrightarrow> COMPUTE_KEY_CHECKSUM k = COMPUTE_KEY_CHECKSUM k' \<and> TABLE_HASH k = TABLE_HASH k') \<and>
   TABLE_HASH k < TABLE_HASH_SIZE"
  by (auto simp: strcasecmp_eq_0 TABLE_HASH_SIZE_def intro: checksum_fold TABLE_HASH_fold TABLE_HASH_less)

theorem checksum_case_blind_witness:
  "COMPUTE_KEY_CHECKSUM (cstr ''Content-Type'') = COMPUTE_KEY_CHECKSUM (cstr ''cONTENT-tYPE'')"
  using checksum_case_blind [of "cstr ''Content-Type''" "cstr ''cONTENT-tYPE''"]
  by (simp add: tolower_def)

end
