(* ===== verification/AprTableOverlap.thy ===== *)
theory AprTableOverlap
  imports AprTableCorrect
begin

text \<open>
  Correctness of the operations that work on whole tables: the merge sort behind
  \<open>apr_table_compress\<close> is a stable sort by the case-folded keys, compressing leaves one entry per
  key at the place of its first entry with the combined value, and \<open>apr_table_overlap\<close> does what
  its documentation promises when the first table has no duplicates.
\<close>

section \<open>The merge sort\<close>

abbreviation ck :: "(nat \<Rightarrow> cstring) \<Rightarrow> nat \<Rightarrow> cstring" where
  "ck k i \<equiv> fold_case (k i)"

lemma strcasecmp_pos: "strcasecmp xs ys > 0 \<longleftrightarrow> fold_case ys < fold_case xs"
  by (induction xs ys rule: strcasecmp.induct) (auto simp: fold_case_def)

lemma set_merge_blocks [simp]: "mset (merge_blocks k xs ys) = mset xs + mset ys"
  by (induction k xs ys rule: merge_blocks.induct) auto

lemma merge_blocks_set: "set (merge_blocks k xs ys) = set xs \<union> set ys"
  by (metis set_merge_blocks set_mset_mset set_mset_union)

lemma sorted_merge_blocks:
  "sorted (map (ck k) xs) \<Longrightarrow> sorted (map (ck k) ys) \<Longrightarrow> sorted (map (ck k) (merge_blocks k xs ys))"
proof (induction k xs ys rule: merge_blocks.induct)
  case (3 k x xs y ys)
  then show ?case
    by (auto simp: strcasecmp_pos merge_blocks_set not_less intro: order.trans dest: less_imp_le)
qed auto

lemma filter_merge_blocks:
  "sorted (map (ck k) xs) \<Longrightarrow>
   filter (\<lambda>i. c = ck k i) (merge_blocks k xs ys) = filter (\<lambda>i. c = ck k i) xs @ filter (\<lambda>i. c = ck k i) ys"
proof (induction k xs ys rule: merge_blocks.induct)
  case (3 k x xs y ys)
  show ?case
  proof (cases "strcasecmp (k x) (k y) > 0")
    case True
    then have "filter (\<lambda>i. ck k y = ck k i) (x # xs) = []"
      using 3(3) by (auto simp: strcasecmp_pos filter_empty_conv)
    with True 3 show ?thesis by auto
  qed (use 3 in auto)
qed auto

inductive runs :: "(nat \<Rightarrow> cstring) \<Rightarrow> nat \<Rightarrow> nat list \<Rightarrow> bool" for k b where
  runs_last: "length vs \<le> b \<Longrightarrow> sorted (map (ck k) vs) \<Longrightarrow> runs k b vs"
| runs_block: "length xs = b \<Longrightarrow> sorted (map (ck k) xs) \<Longrightarrow> runs k b vs \<Longrightarrow> runs k b (xs @ vs)"

lemma runs_split:
  assumes "runs k b vs" and "b \<le> length vs"
  shows "sorted (map (ck k) (take b vs)) \<and> runs k b (drop b vs)"
  using assms by (cases rule: runs.cases) (auto intro: runs_last)

lemma runs_single: "runs k b vs \<Longrightarrow> length vs \<le> b \<Longrightarrow> sorted (map (ck k) vs)"
  by (cases rule: runs.cases) auto

lemma merge_pass_runs:
  "0 < b \<Longrightarrow> runs k b vs \<Longrightarrow> runs k (b + b) (merge_pass k b vs) \<and> mset (merge_pass k b vs) = mset vs \<and>
   filter (\<lambda>i. c = ck k i) (merge_pass k b vs) = filter (\<lambda>i. c = ck k i) vs"
proof (induction k b vs rule: merge_pass.induct)
  case (1 k b vs)
  show ?case
  proof (cases "b < length vs")
    case False
    then show ?thesis using 1(2,3) runs_single [of k b vs]
      by (subst (1 2 3) merge_pass.simps) (auto intro: runs_last)
  next
    case True
    let ?x = "take b vs" and ?y = "take b (drop b vs)" and ?r = "drop (b + b) vs"
    have eq: "merge_pass k b vs = merge_blocks k ?x ?y @ merge_pass k b ?r"
      using True 1(2) by (subst merge_pass.simps) simp
    have vs: "vs = ?x @ ?y @ ?r"
      by (metis append_take_drop_id drop_drop)
    have x: "sorted (map (ck k) ?x)" and d: "runs k b (drop b vs)"
      using runs_split [OF 1(3)] True by simp_all
    have y: "sorted (map (ck k) ?y)" and r: "runs k b ?r"
      using runs_split [OF d] runs_single [OF d]
      by (cases "b \<le> length (drop b vs)"; auto intro: runs_last)+
    note IH = 1(1) [OF _ 1(2) r]
    have m: "sorted (map (ck k) (merge_blocks k ?x ?y))" using x y by (rule sorted_merge_blocks)
    have "runs k (b + b) (merge_pass k b vs)"
    proof (cases "length (drop b vs) \<le> b")
      case short: True
      then have "merge_pass k b ?r = []" by (subst merge_pass.simps) simp
      then show ?thesis using m by (auto simp: eq intro: runs_last)
    next
      case False
      then show ?thesis using m IH True 1(2) by (auto simp: eq intro!: runs_block)
    qed
    moreover have "mset (merge_pass k b vs) = mset vs"
      using IH True 1(2) arg_cong [OF vs, of mset] by (simp add: eq)
    moreover have "filter (\<lambda>i. c = ck k i) (merge_pass k b vs) = filter (\<lambda>i. c = ck k i) vs"
      using IH True 1(2) arg_cong [OF vs, of "filter (\<lambda>i. c = ck k i)"]
      by (simp add: eq filter_merge_blocks [OF x])
    ultimately show ?thesis by simp
  qed
qed

lemma merge_passes_runs:
  "0 < b \<Longrightarrow> runs k b vs \<Longrightarrow> sorted (map (ck k) (merge_passes k b vs)) \<and>
   mset (merge_passes k b vs) = mset vs \<and>
   filter (\<lambda>i. c = ck k i) (merge_passes k b vs) = filter (\<lambda>i. c = ck k i) vs"
proof (induction k b vs rule: merge_passes.induct)
  case (1 k b vs)
  show ?case
    using 1 merge_pass_runs [OF 1(2,3), of c] runs_single [OF 1(3)]
    by (subst (1 2 3) merge_passes.simps) auto
qed

lemma sort_pairs_runs:
  "runs k 2 (sort_pairs k vs) \<and> mset (sort_pairs k vs) = mset vs \<and>
   filter (\<lambda>i. c = ck k i) (sort_pairs k vs) = filter (\<lambda>i. c = ck k i) vs"
proof (induction k vs rule: sort_pairs.induct)
  case (1 k x y vs)
  have "runs k 2 ([y, x] @ sort_pairs k vs)" if "ck k y < ck k x"
    using 1 that by (intro runs_block) auto
  moreover have "runs k 2 ([x, y] @ sort_pairs k vs)" if "\<not> ck k y < ck k x"
    using 1 that by (intro runs_block) auto
  ultimately show ?case using 1 by (auto simp: strcasecmp_pos)
qed (auto intro: runs_last)

lemma table_mergesort_eq: "table_mergesort k vs = sort_key (ck k) vs"
proof (rule properties_for_sort_key [symmetric])
  note p = sort_pairs_runs [of k vs] and m = merge_passes_runs [of 2 k "sort_pairs k vs"]
  show "mset (table_mergesort k vs) = mset vs" "sorted (map (ck k) (table_mergesort k vs))"
    using p m by (simp_all add: table_mergesort_def)
  show "filter (\<lambda>i. ck k j = ck k i) (table_mergesort k vs) = filter (\<lambda>i. ck k j = ck k i) vs" for j
    using p m [where c = "ck k j"] sort_pairs_runs [of k vs "ck k j"] by (simp add: table_mergesort_def)
qed

section \<open>Joining the values of duplicates\<close>

fun join_comma :: "cstring list \<Rightarrow> cstring" where
  "join_comma [] = []"
| "join_comma [s] = s"
| "join_comma (s # t # ss) = s @ cstr '', '' @ join_comma (t # ss)"

lemma join_comma_Cons: "ss \<noteq> [] \<Longrightarrow> join_comma (s # ss) = s @ cstr '', '' @ join_comma ss"
  by (cases ss) simp_all

lemma mem_write_prefix:
  assumes "take i m = map Some ys" and "length ys = i" and "i + length xs \<le> length m"
  obtains m' where "mem_write m i xs = Some m'" and "length m' = length m"
    and "take (i + length xs) m' = map Some (ys @ xs)"
  using assms by (simp add: mem_write_Some)

lemma take_shorter: "take n m = map Some (xs @ zs) \<Longrightarrow> length xs \<le> n \<Longrightarrow> take (length xs) m = map Some xs"
proof -
  assume t: "take n m = map Some (xs @ zs)" and "length xs \<le> n"
  have "take (length xs) (take n m) = map Some xs" by (simp only: t) simp
  then show ?thesis using \<open>length xs \<le> n\<close> by (simp add: min_def)
qed

lemma merge_vals_copy_join:
  "ss \<noteq> [] \<Longrightarrow> take i blk = map Some ys \<Longrightarrow> length ys = i \<Longrightarrow>
   i + sum_list (map (\<lambda>s. length s + 2) ss) \<le> length blk \<Longrightarrow>
   \<exists>blk'. merge_vals_copy ss blk i = Some (blk', i + length (join_comma ss)) \<and>
     take (i + length (join_comma ss)) blk' = map Some (ys @ join_comma ss)"
proof (induction ss arbitrary: blk i ys)
  case (Cons s ss)
  obtain blk1 where b1: "mem_write blk i (s @ [0]) = Some blk1" "length blk1 = length blk"
    "take (i + length (s @ [0])) blk1 = map Some (ys @ s @ [0])"
    using mem_write_prefix [OF Cons.prems(2,3), of "s @ [0]"] Cons.prems(4) by auto
  then have t1: "take (i + length s) blk1 = map Some (ys @ s)"
    using take_shorter [of _ blk1 "ys @ s" "[0]"] Cons.prems(3) by simp
  show ?case
  proof (cases "ss = []")
    case True
    obtain blk2 where "mem_write blk1 (i + length s) [0] = Some blk2"
      "take (i + length s + length [0 :: byte]) blk2 = map Some ((ys @ s) @ [0])"
      using mem_write_prefix [OF t1, of "[0]"] Cons.prems(3,4) b1(2) by auto
    then have "mem_write blk1 (i + length s) [0] = Some blk2 \<and> take (i + length s) blk2 = map Some (ys @ s)"
      using take_shorter [of _ blk2 "ys @ s" "[0]"] Cons.prems(3) by simp
    then show ?thesis using True b1 by simp
  next
    case False
    obtain blk2 where b2: "mem_write blk1 (i + length s) [0x2c, 0x20] = Some blk2" "length blk2 = length blk1"
      "take (i + length s + length [0x2c, 0x20 :: byte]) blk2 = map Some ((ys @ s) @ [0x2c, 0x20])"
      using mem_write_prefix [OF t1, of "[0x2c, 0x20]"] Cons.prems(3,4) b1(2) by auto
    have "merge_vals_copy (s # ss) blk i = merge_vals_copy ss blk2 (i + length s + 2)"
      using b1(1) b2(1) False by (simp add: Let_def)
    moreover have "\<exists>blk'. merge_vals_copy ss blk2 (i + length s + 2) =
        Some (blk', i + length s + 2 + length (join_comma ss)) \<and>
        take (i + length s + 2 + length (join_comma ss)) blk' =
          map Some (((ys @ s) @ [0x2c, 0x20]) @ join_comma ss)"
      using Cons.prems(3,4) b1(2) b2(2,3) False by (intro Cons.IH) auto
    ultimately show ?thesis using False by (simp add: join_comma_Cons add.assoc)
  qed
qed simp

lemma merge_vals_eq:
  assumes "vs \<noteq> []"
  shows "merge_vals vs = (if None \<in> set vs then None else Some (join_comma (map the vs)))"
proof (cases "None \<in> set vs")
  case False
  obtain blk where b: "merge_vals_copy (map the vs) (palloc (sum_list (map (\<lambda>s. length s + 2) (map the vs)))) 0 =
      Some (blk, length (join_comma (map the vs)))"
    "take (length (join_comma (map the vs))) blk = map Some (join_comma (map the vs))"
    using merge_vals_copy_join [of "map the vs" 0 "palloc (sum_list (map (\<lambda>s. length s + 2) (map the vs)))" "[]"] assms
    by auto
  show ?thesis unfolding merge_vals_def Let_def b(1) using False by (simp add: b(2) comp_def)
qed (simp add: merge_vals_def)

section \<open>Compressing\<close>

text \<open>The value a group of entries with the same key is left with.\<close>

definition class_val :: "nat \<Rightarrow> cstring option list \<Rightarrow> cstring option option" where
  "class_val flags vs =
     (case vs of [v] \<Rightarrow> Some v
      | _ \<Rightarrow> if flags = APR_OVERLAP_TABLES_MERGE
             then (if None \<in> set vs then None else Some (Some (join_comma (map the vs))))
             else Some (last vs))"

definition key_group :: "apr_table_entry \<Rightarrow> apr_table_entry list \<Rightarrow> apr_table_entry list" where
  "key_group e es = filter (same_key (the (tkey e))) es"

definition first_of_key :: "apr_table_entry list \<Rightarrow> nat \<Rightarrow> bool" where
  "first_of_key es i \<longleftrightarrow> (\<forall>j < i. \<not> same_key (the (tkey (es ! i))) (es ! j))"

definition group_val :: "nat \<Rightarrow> apr_table_entry list \<Rightarrow> apr_table_entry \<Rightarrow> cstring option option" where
  "group_val flags es e = class_val flags (map tval (key_group e es))"

definition spec_compress :: "nat \<Rightarrow> apr_table_entry list \<Rightarrow> apr_table_entry list option" where
  "spec_compress flags es =
     (if \<exists>e \<in> set es. group_val flags es e = None then None
      else Some (map (\<lambda>i. (es ! i)\<lparr>tval := the (group_val flags es (es ! i))\<rparr>)
                   (filter (first_of_key es) [0..<length es])))"

lemma sorted_takeWhile_eq:
  "sorted (map C (a # xs)) \<Longrightarrow> takeWhile (\<lambda>x. C x = C a) xs = filter (\<lambda>x. C x = C a) xs \<and>
     dropWhile (\<lambda>x. C x = C a) xs = filter (\<lambda>x. C x \<noteq> C a) xs"
proof (induction xs)
  case (Cons x xs)
  show ?case
  proof (cases "C x = C a")
    case False
    then have "\<forall>y \<in> set xs. C y \<noteq> C a" using Cons.prems by auto
    then show ?thesis using False by (simp add: filter_empty_conv filter_id_conv)
  qed (use Cons in auto)
qed simp

definition hide_keys :: "nat list \<Rightarrow> apr_table_entry mem \<Rightarrow> apr_table_entry mem" where
  "hide_keys grp es = fold (\<lambda>i es. es[i := Some ((the (es ! i))\<lparr>tkey := None\<rparr>)]) grp es"

lemma hide_keys_nth:
  "distinct grp \<Longrightarrow> length (hide_keys grp es) = length es \<and>
   (\<forall>j < length es. hide_keys grp es ! j =
      (if j \<in> set grp then Some ((the (es ! j))\<lparr>tkey := None\<rparr>) else es ! j))"
proof (induction grp arbitrary: es)
  case (Cons g grp)
  define es1 where "es1 = es[g := Some ((the (es ! g))\<lparr>tkey := None\<rparr>)]"
  have "hide_keys (g # grp) es = hide_keys grp es1" by (simp add: hide_keys_def es1_def)
  moreover have "es1 ! j = (if j = g then Some ((the (es ! j))\<lparr>tkey := None\<rparr>) else es ! j)"
    if "j < length es" for j
    using that by (simp add: es1_def)
  moreover have "length es1 = length es" by (simp add: es1_def)
  ultimately show ?case using Cons.IH [of es1] Cons.prems by auto
qed (simp add: hide_keys_def)

lemma compress_dups_step:
  fixes es lst rest
  defines "same \<equiv> \<lambda>i. entry_eq (the (es ! i)) (the (es ! lst))"
  defines "grp \<equiv> takeWhile same rest" and "r \<equiv> dropWhile same rest"
  assumes "distinct (lst # rest)" and "\<forall>i \<in> set (lst # rest). i < length es"
  shows "compress_dups flags es lst rest d =
    (if grp = [] then (case r of [] \<Rightarrow> Some (es, d) | s # r' \<Rightarrow> compress_dups flags es s r' d)
     else Option.bind (class_val flags (map (\<lambda>i. tval (the (es ! i))) (lst # grp)))
       (\<lambda>v. let es1 = hide_keys grp (es[lst := Some ((the (es ! lst))\<lparr>tval := v\<rparr>)]) in
          (case r of [] \<Rightarrow> Some (es1, True) | s # r' \<Rightarrow> compress_dups flags es1 s r' True)))"
proof (cases grp)
  case Nil
  then show ?thesis
    by (subst compress_dups.simps) (cases rest; auto simp: grp_def r_def same_def split: if_splits)
next
  case (Cons s grp')
  then obtain rest' where rest: "rest = s # rest'" and s: "same s"
    and grp': "grp' = takeWhile same rest'" and r: "r = dropWhile same rest'"
    by (cases rest) (auto simp: grp_def r_def split: if_splits)
  let ?es1 = "\<lambda>v. hide_keys grp (es[lst := Some ((the (es ! lst))\<lparr>tval := v\<rparr>)])"
  have dg: "distinct grp" "lst \<notin> set grp" "set grp \<subseteq> set rest"
    using assms(4) by (auto simp: grp_def distinct_takeWhile dest: set_takeWhileD)
  have nxt: "compress_dups flags (?es1 v) lst r True =
      (case r of [] \<Rightarrow> Some (?es1 v, True) | s # r' \<Rightarrow> compress_dups flags (?es1 v) s r' True)" for v
  proof (cases r)
    case (Cons u r')
    then have "rest = grp @ u # r'"
      using takeWhile_dropWhile_id [of same rest] by (simp add: grp_def r_def)
    then have u: "u \<in> set rest" "u \<notin> set grp" "lst \<noteq> u" using assms(4) by auto
    have u3: "\<not> same u" using Cons hd_dropWhile [of same rest] by (simp add: r_def)
    have "?es1 v ! u = es ! u" "the (?es1 v ! lst) = (the (es ! lst))\<lparr>tval := v\<rparr>"
      using hide_keys_nth [OF dg(1), of "es[lst := Some ((the (es ! lst))\<lparr>tval := v\<rparr>)]"] dg u assms(4,5)
      by auto
    then have "\<not> entry_eq (the (?es1 v ! u)) (the (?es1 v ! lst))"
      using u3 by (simp add: same_def entry_eq_def)
    then show ?thesis using Cons by (subst compress_dups.simps) simp
  qed (subst compress_dups.simps, simp)
  have val: "(if flags = APR_OVERLAP_TABLES_MERGE
       then map_option Some (merge_vals (map (\<lambda>i. tval (the (es ! i))) (lst # grp)))
       else Some (tval (the (es ! last grp)))) = class_val flags (map (\<lambda>i. tval (the (es ! i))) (lst # grp))"
    by (simp add: class_val_def merge_vals_eq Cons last_map)
  have "compress_dups flags es lst rest d =
      Option.bind (if flags = APR_OVERLAP_TABLES_MERGE
       then map_option Some (merge_vals (map (\<lambda>i. tval (the (es ! i))) (lst # grp)))
       else Some (tval (the (es ! last grp)))) (\<lambda>v. compress_dups flags (?es1 v) lst r True)"
    using s unfolding Cons grp' r rest
    by (subst compress_dups.simps) (simp add: same_def Let_def hide_keys_def)
  moreover have "grp \<noteq> []" using Cons by simp
  ultimately show ?thesis unfolding val nxt by (simp only: Let_def if_False)
qed

text \<open>The slots of one run of the sorted array, with the entries \<open>E\<close> they hold at first.\<close>

definition slots_fresh :: "(nat \<Rightarrow> apr_table_entry) \<Rightarrow> apr_table_entry mem \<Rightarrow> nat list \<Rightarrow> bool" where
  "slots_fresh E es L \<longleftrightarrow> distinct L \<and> sorted (map (ck (\<lambda>i. the (tkey (E i)))) L) \<and>
     (\<forall>i \<in> set L. i < length es \<and> es ! i = Some (E i) \<and> entry_ok (E i))"

definition cls :: "(nat \<Rightarrow> apr_table_entry) \<Rightarrow> nat list \<Rightarrow> nat \<Rightarrow> nat list" where
  "cls E L i = filter (\<lambda>j. ck (\<lambda>i. the (tkey (E i))) j = ck (\<lambda>i. the (tkey (E i))) i) L"

definition compressed :: "nat \<Rightarrow> (nat \<Rightarrow> apr_table_entry) \<Rightarrow> nat list \<Rightarrow> nat \<Rightarrow> apr_table_entry" where
  "compressed flags E L i =
     (if hd (cls E L i) = i then (E i)\<lparr>tval := the (class_val flags (map (tval \<circ> E) (cls E L i)))\<rparr>
      else (E i)\<lparr>tkey := None\<rparr>)"

lemma entry_eq_class:
  "entry_ok e \<Longrightarrow> entry_ok f \<Longrightarrow> entry_eq e f \<longleftrightarrow> fold_case (the (tkey e)) = fold_case (the (tkey f))"
  using checksum_fold [of "the (tkey e)" "the (tkey f)"]
  by (auto simp: entry_eq_def entry_ok_def strcasecmp_eq_0)

lemma class_val_single [simp]: "class_val flags [v] = Some v"
  by (simp add: class_val_def)

text \<open>Splitting off the first group of a sorted array of slots.\<close>

lemma slots_split:
  assumes f: "slots_fresh E es (lst # rest)"
  defines "same \<equiv> \<lambda>i. entry_eq (the (es ! i)) (the (es ! lst))"
  defines "grp \<equiv> takeWhile same rest" and "r \<equiv> dropWhile same rest"
  shows "rest = grp @ r" and "i \<in> set (lst # grp) \<Longrightarrow> cls E (lst # rest) i = lst # grp"
    and "i \<in> set r \<Longrightarrow> cls E (lst # rest) i = cls E r i"
    and "slots_fresh E es r"
proof -
  let ?C = "ck (\<lambda>i. the (tkey (E i)))"
  have s: "same i \<longleftrightarrow> ?C i = ?C lst" if "i \<in> set rest" for i
    using f that by (simp add: same_def slots_fresh_def entry_eq_class)
  have t: "takeWhile (\<lambda>i. ?C i = ?C lst) rest = filter (\<lambda>i. ?C i = ?C lst) rest"
    "dropWhile (\<lambda>i. ?C i = ?C lst) rest = filter (\<lambda>i. ?C i \<noteq> ?C lst) rest"
    using sorted_takeWhile_eq [of ?C lst rest] f by (simp_all add: slots_fresh_def)
  have g: "grp = filter (\<lambda>i. ?C i = ?C lst) rest" "r = filter (\<lambda>i. ?C i \<noteq> ?C lst) rest"
    using t s by (simp_all add: grp_def r_def cong: takeWhile_cong dropWhile_cong)
  show r: "rest = grp @ r" by (simp add: grp_def r_def)
  show "cls E (lst # rest) i = lst # grp" if "i \<in> set (lst # grp)"
    using that by (auto simp: cls_def g)
  show "cls E (lst # rest) i = cls E r i" if "i \<in> set r"
    using that by (auto simp: cls_def g intro!: filter_cong)
  show "slots_fresh E es r"
    using f unfolding slots_fresh_def r by (auto simp: sorted_append)
qed

lemma first_group:
  fixes E es lst rest flags
  defines "same \<equiv> \<lambda>i. entry_eq (the (es ! i)) (the (es ! lst))"
  defines "grp \<equiv> takeWhile same rest" and "r \<equiv> dropWhile same rest"
  defines "v \<equiv> class_val flags (map (tval \<circ> E) (lst # grp))"
  assumes f: "slots_fresh E es (lst # rest)"
  obtains es1 d1 where
    "compress_dups flags es lst rest d = (if v = None then None else
       (case r of [] \<Rightarrow> Some (es1, d1) | s # r' \<Rightarrow> compress_dups flags es1 s r' d1))"
    and "length es1 = length es"
    and "\<And>j. j < length es \<Longrightarrow> v \<noteq> None \<Longrightarrow> es1 ! j =
       (if j \<in> set (lst # grp) then Some (compressed flags E (lst # rest) j) else es ! j)"
    and "d \<longrightarrow> d1" and "\<not> d1 \<longrightarrow> grp = []"
proof
  define es1 where "es1 = (if grp = [] then es
     else hide_keys grp (es[lst := Some ((the (es ! lst))\<lparr>tval := the v\<rparr>)]))"
  define d1 where "d1 = (if grp = [] then d else True)"
  note sp = slots_split [OF f, folded same_def grp_def r_def]
  have dist: "distinct (lst # rest)" and rng: "\<forall>i \<in> set (lst # rest). i < length es"
    and eg: "\<And>g. g \<in> set (lst # rest) \<Longrightarrow> es ! g = Some (E g)"
    using f by (auto simp: slots_fresh_def)
  have tv: "map (\<lambda>i. tval (the (es ! i))) (lst # grp) = map (tval \<circ> E) (lst # grp)"
    using f sp(1) by (auto simp: slots_fresh_def)
  note st = compress_dups_step [OF dist rng, of flags d, folded same_def, folded grp_def r_def, unfolded tv, folded v_def]
  show "compress_dups flags es lst rest d = (if v = None then None else
     (case r of [] \<Rightarrow> Some (es1, d1) | s # r' \<Rightarrow> compress_dups flags es1 s r' d1))"
  proof (cases "grp = []")
    case True
    then have e: "v \<noteq> None" "es1 = es" "d1 = d" by (simp_all add: v_def es1_def d1_def)
    show ?thesis unfolding e(2,3) using st True e(1) by auto
  next
    case False
    then have e: "d1 = True" "es1 = hide_keys grp (es[lst := Some ((the (es ! lst))\<lparr>tval := the v\<rparr>)])"
      by (simp_all add: es1_def d1_def)
    show ?thesis unfolding e using st False by (cases v; simp only: Let_def if_False bind.simps option.sel) simp_all
  qed
  have "distinct grp" and l: "lst \<notin> set grp" and sub: "set grp \<subseteq> set rest"
    using dist by (auto simp: grp_def distinct_takeWhile dest: set_takeWhileD)
  note h = hide_keys_nth [OF this(1), of "es[lst := Some ((E lst)\<lparr>tval := the v\<rparr>)]"]
  show "length es1 = length es" using h eg by (simp add: es1_def)
  show "es1 ! j = (if j \<in> set (lst # grp) then Some (compressed flags E (lst # rest) j) else es ! j)"
    if "j < length es" "v \<noteq> None" for j
  proof -
    have "compressed flags E (lst # rest) j = (if j = lst then (E j)\<lparr>tval := the v\<rparr> else (E j)\<lparr>tkey := None\<rparr>)"
      if "j \<in> set (lst # grp)" using sp(2) [OF that] by (cases "j = lst") (auto simp: compressed_def v_def)
    then show ?thesis
      using h that l sub rng eg by (auto simp: es1_def nth_list_update v_def)
  qed
qed simp_all

lemma compress_dups_eq:
  "slots_fresh E es (lst # rest) \<Longrightarrow>
   (if \<exists>i \<in> set (lst # rest). class_val flags (map (tval \<circ> E) (cls E (lst # rest) i)) = None
    then compress_dups flags es lst rest d = None
    else \<exists>es' d'. compress_dups flags es lst rest d = Some (es', d') \<and> length es' = length es \<and>
      (\<forall>j < length es. es' ! j = (if j \<in> set (lst # rest) then Some (compressed flags E (lst # rest) j) else es ! j)) \<and>
      (d \<longrightarrow> d') \<and> (\<not> d' \<longrightarrow> (\<forall>i \<in> set (lst # rest). hd (cls E (lst # rest) i) = i)))"
proof (induction "length rest" arbitrary: es lst rest d rule: less_induct)
  case less
  let ?L = "lst # rest" and ?V = "\<lambda>L i. class_val flags (map (tval \<circ> E) (cls E L i))"
  define same where "same = (\<lambda>i. entry_eq (the (es ! i)) (the (es ! lst)))"
  define grp where "grp = takeWhile same rest"
  define r where "r = dropWhile same rest"
  define v where "v = class_val flags (map (tval \<circ> E) (lst # grp))"
  note sp = slots_split [OF less.prems, folded same_def grp_def r_def]
  obtain es1 d1 where eq: "compress_dups flags es lst rest d = (if v = None then None else
       (case r of [] \<Rightarrow> Some (es1, d1) | s # r' \<Rightarrow> compress_dups flags es1 s r' d1))"
    and es1: "length es1 = length es" "\<And>j. j < length es \<Longrightarrow> v \<noteq> None \<Longrightarrow> es1 ! j =
       (if j \<in> set (lst # grp) then Some (compressed flags E ?L j) else es ! j)"
    and d1: "d \<longrightarrow> d1" "\<not> d1 \<longrightarrow> grp = []"
    using first_group [OF less.prems, of flags d, folded same_def, folded grp_def r_def, folded v_def] by blast
  have Lset: "set ?L = insert lst (set grp) \<union> set r" using sp(1) by simp
  have V: "?V ?L i = (if i \<in> set r then ?V r i else v)" if "i \<in> set ?L" for i
  proof (cases "i \<in> set r")
    case False
    then have "i \<in> set (lst # grp)" using that Lset by auto
    then show ?thesis using False sp(2) by (simp add: v_def)
  qed (simp add: sp(3))
  have hdL: "hd (cls E ?L i) = i" if "\<not> d1" "i \<in> set (lst # grp)" for i
    using sp(2) [OF that(2)] that d1(2) by auto
  show ?case
  proof (cases "v = None \<or> r = []")
    case True
    show ?thesis
    proof (cases "v = None")
      case v: True
      then have "?V ?L lst = None" using sp(2) [of lst] by (simp add: v_def)
      then show ?thesis using v eq by auto
    next
      case v: False
      then have r: "r = []" using True by auto
      have "\<not> (\<exists>i \<in> set ?L. ?V ?L i = None)" using V v r by simp
      moreover have "compress_dups flags es lst rest d = Some (es1, d1)" using eq v r by simp
      moreover have "set ?L = set (lst # grp)" using Lset r by simp
      ultimately show ?thesis using es1 v hdL d1(1) by (simp only: if_False) blast
    qed
  next
    case False
    then obtain s r' where Cons: "r = s # r'" and v: "v \<noteq> None" by (meson neq_Nil_conv)
    have e: "compress_dups flags es lst rest d = compress_dups flags es1 s r' d1" using eq v Cons by simp
    have nin: "i \<notin> set (lst # grp)" if "i \<in> set r" for i
      using that less.prems sp(1) by (auto simp: slots_fresh_def)
    have fr: "slots_fresh E es1 (s # r')"
      using sp(4) es1 v nin unfolding slots_fresh_def Cons [symmetric] by auto
    have len: "length r' < length rest" using sp(1) Cons by simp
    have Vr: "(\<exists>i \<in> set ?L. ?V ?L i = None) \<longleftrightarrow> (\<exists>i \<in> set r. ?V r i = None)"
      using V v Lset by (metis Un_iff)
    have cr: "compressed flags E ?L j = compressed flags E r j" "hd (cls E r j) = hd (cls E ?L j)"
      if "j \<in> set r" for j using sp(3) [OF that] by (simp_all add: compressed_def)
    note IH = less.hyps [OF len fr, of d1, folded Cons]
    show ?thesis
    proof (cases "\<exists>i \<in> set r. ?V r i = None")
      case True
      then show ?thesis using IH Vr e by simp
    next
      case False
      then obtain es' d' where r: "compress_dups flags es1 s r' d1 = Some (es', d')" "length es' = length es1"
        "\<forall>j < length es1. es' ! j = (if j \<in> set r then Some (compressed flags E r j) else es1 ! j)"
        "d1 \<longrightarrow> d'" "\<not> d' \<longrightarrow> (\<forall>i \<in> set r. hd (cls E r i) = i)"
        using IH [unfolded if_not_P [OF False]] by blast
      have "es' ! j = (if j \<in> set ?L then Some (compressed flags E ?L j) else es ! j)" if "j < length es" for j
        using r(3) es1 v cr [of j] nin [of j] Lset that by auto
      moreover have "hd (cls E ?L i) = i" if "\<not> d'" "i \<in> set ?L" for i
      proof (cases "i \<in> set r")
        case False
        then have "i \<in> set (lst # grp)" using that Lset by auto
        then show ?thesis using hdL r(4) that(1) by blast
      qed (use r(5) cr(2) [of i] that(1) in simp)
      ultimately show ?thesis using False Vr e r(1,2,4) es1(1) d1(1) by auto
    qed
  qed
qed

lemma compress_shift_eq:
  assumes "dst \<le> src" and "src \<le> N" and "N \<le> length es"
  shows "\<exists>es'. compress_shift es src dst N =
      (es', dst + length (filter (\<lambda>e. tkey (the e) \<noteq> None) (take (N - src) (drop src es)))) \<and>
    length es' = length es \<and>
    take (dst + length (filter (\<lambda>e. tkey (the e) \<noteq> None) (take (N - src) (drop src es)))) es' =
      take dst es @ filter (\<lambda>e. tkey (the e) \<noteq> None) (take (N - src) (drop src es))"
  using assms
proof (induction es src dst N rule: compress_shift.induct)
  case (1 es src dst N)
  show ?case
  proof (cases "src < N")
    case True
    have sl: "take (N - src) (drop src es) = es ! src # take (N - Suc src) (drop (Suc src) es)"
      using 1 True by (simp add: Cons_nth_drop_Suc [symmetric] take_Cons')
    show ?thesis
    proof (cases "tkey (the (es ! src)) \<noteq> None")
      case k: True
      have "take (Suc dst) (es[dst := es ! src]) = take dst es @ [es ! src]"
        using 1 True by (simp add: take_Suc_conv_app_nth)
      moreover have "drop (Suc src) (es[dst := es ! src]) = drop (Suc src) es" using 1 by simp
      ultimately show ?thesis
        using 1 True k by (subst compress_shift.simps) (simp add: sl)
    next
      case k: False
      then show ?thesis using 1 True by (subst compress_shift.simps) (simp add: sl)
    qed
  qed (subst compress_shift.simps, simp)
qed

lemma filter_first_hd:
  assumes "i < n"
  shows "hd (filter (\<lambda>j. P j) [0..<n]) = i \<and> P i \<longleftrightarrow> P i \<and> (\<forall>j < i. \<not> P j)"
proof
  assume h: "hd (filter P [0..<n]) = i \<and> P i"
  then have "\<not> P j" if "j < i" for j
  proof -
    have "sorted (filter P [0..<n])" by (simp add: sorted_wrt_filter)
    moreover have "j \<in> set (filter P [0..<n]) \<or> \<not> P j" using that assms by simp
    ultimately show ?thesis using h that sorted_hd_last [of "filter P [0..<n]" j] by auto
  qed
  with h show "P i \<and> (\<forall>j < i. \<not> P j)" by blast
next
  assume p: "P i \<and> (\<forall>j < i. \<not> P j)"
  have "[0..<n] = [0..<i] @ i # [Suc i..<n]"
    using assms upt_split [of 0 i n] by (simp add: upt_rec [of i n])
  then have "filter P [0..<n] = i # filter P [Suc i..<n]" using p by (simp add: filter_empty_conv)
  with p show "hd (filter P [0..<n]) = i \<and> P i" by simp
qed

text \<open>The groups of slots are the groups of entries.\<close>

lemma sorted_slots:
  fixes xs :: "apr_table_entry list"
  assumes ok: "list_all entry_ok xs"
  defines "S \<equiv> table_mergesort (\<lambda>i. the (tkey (xs ! i))) [0..<length xs]"
  shows "i < length xs \<Longrightarrow> map (tval \<circ> (!) xs) (cls ((!) xs) S i) = map tval (key_group (xs ! i) xs)"
    and "i < length xs \<Longrightarrow> hd (cls ((!) xs) S i) = i \<longleftrightarrow> first_of_key xs i"
    and "set S = {0..<length xs}" and "distinct S"
    and "sorted (map (ck (\<lambda>i. the (tkey (xs ! i)))) S)"
proof -
  let ?C = "ck (\<lambda>i. the (tkey (xs ! i)))"
  have S: "S = sort_key ?C [0..<length xs]" by (simp add: S_def table_mergesort_eq)
  have c: "cls ((!) xs) S i = filter (\<lambda>j. ?C j = ?C i) [0..<length xs]" for i
    by (simp add: cls_def S sort_key_stable)
  show "map (tval \<circ> (!) xs) (cls ((!) xs) S i) = map tval (key_group (xs ! i) xs)"
  proof -
    have "map ((!) xs) (filter (\<lambda>j. ?C j = ?C i) [0..<length xs]) =
        filter (\<lambda>e. fold_case (the (tkey e)) = ?C i) (map ((!) xs) [0..<length xs])"
      by (simp add: filter_map comp_def)
    then show ?thesis
      by (simp add: c key_group_def same_key_def [abs_def] strcasecmp_eq_0 map_nth flip: map_map)
  qed
  show "hd (cls ((!) xs) S i) = i \<longleftrightarrow> first_of_key xs i" if "i < length xs"
    using filter_first_hd [OF that, of "\<lambda>j. ?C j = ?C i"]
    by (auto simp: c first_of_key_def same_key_def strcasecmp_eq_0)
  show "set S = {0..<length xs}" "distinct S" "sorted (map ?C S)"
    by (simp_all add: S)
qed


lemma insort_key_cong: "f x = g x \<Longrightarrow> \<forall>y \<in> set ys. f y = g y \<Longrightarrow> insort_key f x ys = insort_key g x ys"
  by (induction ys) auto

lemma sort_key_cong: "\<forall>x \<in> set xs. f x = g x \<Longrightarrow> sort_key f xs = sort_key g xs"
proof (induction xs)
  case (Cons x xs)
  then show ?case using insort_key_cong [of f x g "sort_key g xs"] by simp
qed simp

lemma compressed_entries:
  fixes xs :: "apr_table_entry list"
  assumes ok: "list_all entry_ok xs"
    and none: "\<not> (\<exists>e \<in> set xs. group_val flags xs e = None)"
  defines "S \<equiv> table_mergesort (\<lambda>i. the (tkey (xs ! i))) [0..<length xs]"
  shows "spec_compress flags xs =
    Some (filter (\<lambda>e. tkey e \<noteq> None) (map (compressed flags ((!) xs) S) [0..<length xs]))"
proof -
  note s = sorted_slots [OF ok, folded S_def]
  have c: "compressed flags ((!) xs) S i =
      (if first_of_key xs i then (xs ! i)\<lparr>tval := the (group_val flags xs (xs ! i))\<rparr> else (xs ! i)\<lparr>tkey := None\<rparr>)"
    if "i < length xs" for i
    using s(1,2) [OF that] by (simp add: compressed_def group_val_def)
  have key: "tkey (xs ! i) \<noteq> None" if "i < length xs" for i
    using ok that by (auto simp: list_all_length entry_ok_def)
  have "filter (\<lambda>e. tkey e \<noteq> None) (map (compressed flags ((!) xs) S) [0..<length xs]) =
      map (compressed flags ((!) xs) S) (filter (first_of_key xs) [0..<length xs])"
    unfolding filter_map comp_def
    by (rule arg_cong [where f = "map _"], rule filter_cong) (use c key in auto)
  also have "\<dots> = map (\<lambda>i. (xs ! i)\<lparr>tval := the (group_val flags xs (xs ! i))\<rparr>) (filter (first_of_key xs) [0..<length xs])"
    by (auto simp: c)
  finally show ?thesis unfolding spec_compress_def using none by (simp only: if_False)
qed

lemma spec_compress_ok:
  assumes "list_all entry_ok xs" and "spec_compress flags xs = Some ys"
  shows "list_all entry_ok ys \<and> length ys \<le> length xs"
proof -
  have ys: "ys = map (\<lambda>i. (xs ! i)\<lparr>tval := the (group_val flags xs (xs ! i))\<rparr>)
      (filter (first_of_key xs) [0..<length xs])"
    using assms(2) by (simp add: spec_compress_def split: if_splits)
  show ?thesis
    using assms(1) length_filter_le [of "first_of_key xs" "[0..<length xs]"]
    by (auto simp: ys list_all_iff entry_ok_def)
qed

lemma spec_compress_short: "length xs \<le> 1 \<Longrightarrow> list_all entry_ok xs \<Longrightarrow> spec_compress flags xs = Some xs"
  by (cases xs)
    (auto simp: spec_compress_def group_val_def key_group_def first_of_key_def same_key_def)

text \<open>What the loop over the sorted slots leaves in the block of a well-formed table.\<close>

lemma compress_dups_table:
  assumes wf: "arr_wf (ta t)" and ok: "list_all entry_ok (entries t)" and "0 < nelts (ta t)"
  defines "S \<equiv> table_mergesort (\<lambda>i. the (tkey (the (elts (ta t) ! i)))) [0..<nelts (ta t)]"
  shows "if \<exists>e \<in> set (entries t). group_val flags (entries t) e = None
    then compress_dups flags (elts (ta t)) (hd S) (tl S) False = None
    else \<exists>es' d'. compress_dups flags (elts (ta t)) (hd S) (tl S) False = Some (es', d') \<and>
      length es' = length (elts (ta t)) \<and>
      take (nelts (ta t)) es' = map Some (map (compressed flags ((!) (entries t)) S) [0..<nelts (ta t)]) \<and>
      (\<not> d' \<longrightarrow> (\<forall>i < nelts (ta t). hd (cls ((!) (entries t)) S i) = i)) \<and>
      spec_compress flags (entries t) =
        Some (filter (\<lambda>e. tkey e \<noteq> None) (map (compressed flags ((!) (entries t)) S) [0..<nelts (ta t)]))"
proof -
  let ?xs = "entries t" and ?N = "nelts (ta t)" and ?es = "elts (ta t)"
  have len: "length ?xs = ?N" and slots: "\<And>i. i < ?N \<Longrightarrow> ?es ! i = Some (?xs ! i)"
    using wf by (simp_all add: arr_wf_nth)
  have N: "?N \<le> length ?es" using wf by (auto simp: arr_wf_def)
  have S_eq: "S = table_mergesort (\<lambda>i. the (tkey (?xs ! i))) [0..<length ?xs]"
    using slots unfolding S_def table_mergesort_eq len by (intro sort_key_cong) auto
  note s = sorted_slots [OF ok, folded S_eq]
  have "S \<noteq> []" using s(3) assms(3) len by auto
  then have S: "hd S # tl S = S" by simp
  have "slots_fresh ((!) ?xs) ?es (hd S # tl S)"
    using s N ok len slots unfolding S by (auto simp: slots_fresh_def list_all_length)
  note c = compress_dups_eq [OF this, of flags False, unfolded S]
  have "(\<exists>i \<in> set S. class_val flags (map (tval \<circ> (!) ?xs) (cls ((!) ?xs) S i)) = None) \<longleftrightarrow>
      (\<exists>i < length ?xs. group_val flags ?xs (?xs ! i) = None)"
    using s(1,3) by (auto simp: group_val_def)
  also have "\<dots> \<longleftrightarrow> (\<exists>e \<in> set ?xs. group_val flags ?xs e = None)"
    by (metis in_set_conv_nth)
  finally have V: "(\<exists>i \<in> set S. class_val flags (map (tval \<circ> (!) ?xs) (cls ((!) ?xs) S i)) = None) \<longleftrightarrow>
      (\<exists>e \<in> set ?xs. group_val flags ?xs e = None)" .
  show ?thesis
  proof (cases "\<exists>e \<in> set ?xs. group_val flags ?xs e = None")
    case True
    then show ?thesis using c V by simp
  next
    case False
    then obtain es' d' where r: "compress_dups flags ?es (hd S) (tl S) False = Some (es', d')" "length es' = length ?es"
      "\<forall>j < length ?es. es' ! j = (if j \<in> set S then Some (compressed flags ((!) ?xs) S j) else ?es ! j)"
      "\<not> d' \<longrightarrow> (\<forall>i \<in> set S. hd (cls ((!) ?xs) S i) = i)"
      using c [unfolded V, unfolded if_not_P [OF False]] by blast
    have "take ?N es' = map Some (map (compressed flags ((!) ?xs) S) [0..<?N])"
      using r(2,3) s(3) N len by (intro nth_equalityI) auto
    moreover have "\<not> d' \<longrightarrow> (\<forall>i < ?N. hd (cls ((!) ?xs) S i) = i)" using r(4) s(3) len by simp
    ultimately show ?thesis
      using compressed_entries [OF ok False, folded S_eq, unfolded len] r(1,2) unfolding if_not_P [OF False] by blast
  qed
qed

lemma apr_table_compress_wf:
  assumes "table_wf t"
  shows "case apr_table_compress t flags of
      None \<Rightarrow> spec_compress flags (entries t) = None
    | Some t' \<Rightarrow> table_wf t' \<and> spec_compress flags (entries t) = Some (entries t')"
proof (cases "nelts (ta t) \<le> 1")
  case True
  then show ?thesis
    using assms spec_compress_short [of "entries t" flags] by (simp add: apr_table_compress_def table_wf_def)
next
  case big: False
  let ?xs = "entries t" and ?N = "nelts (ta t)"
  have wf: "arr_wf (ta t)" and ok: "list_all entry_ok ?xs" using assms by (simp_all add: table_wf_def)
  have N: "?N \<le> nalloc (ta t)" "?N \<le> length (elts (ta t))" using wf by (auto simp: arr_wf_def)
  define S where "S = table_mergesort (\<lambda>i. the (tkey (the (elts (ta t) ! i)))) [0..<?N]"
  have eq: "apr_table_compress t flags = map_option (\<lambda>(es', dups_found). table_reindex
        (if dups_found then (let (es'', dst) = compress_shift es' 0 0 ?N
           in t\<lparr>ta := (ta t)\<lparr>elts := es'', nelts := ?N - (?N - dst)\<rparr>\<rparr>)
         else t\<lparr>ta := (ta t)\<lparr>elts := es'\<rparr>\<rparr>)) (compress_dups flags (elts (ta t)) (hd S) (tl S) False)"
    using big by (simp add: apr_table_compress_def Let_def S_def)
  note c = compress_dups_table [OF wf ok, of flags, folded S_def]
  show ?thesis
  proof (cases "\<exists>e \<in> set ?xs. group_val flags ?xs e = None")
    case True
    then show ?thesis using c big eq by (simp add: spec_compress_def)
  next
    case False
    define ys where "ys = filter (\<lambda>e. tkey e \<noteq> None) (map (compressed flags ((!) ?xs) S) [0..<?N])"
    obtain es' d' where r: "compress_dups flags (elts (ta t)) (hd S) (tl S) False = Some (es', d')"
      "length es' = length (elts (ta t))"
      "take ?N es' = map Some (map (compressed flags ((!) ?xs) S) [0..<?N])"
      "\<not> d' \<longrightarrow> (\<forall>i < ?N. hd (cls ((!) ?xs) S i) = i)" and sp: "spec_compress flags ?xs = Some ys"
      using c [unfolded if_not_P [OF False]] big unfolding ys_def by auto
    note ysok = spec_compress_ok [OF ok sp]
    show ?thesis
    proof (cases d')
      case True
      obtain es'' where sh: "compress_shift es' 0 0 ?N = (es'', length ys)" "length es'' = length es'"
        "take (length ys) es'' = map Some ys"
        using compress_shift_eq [of 0 0 ?N es'] N r(2) by (auto simp: r(3) ys_def filter_map comp_def)
      have "?N - (?N - length ys) = length ys" using ysok wf by simp
      then show ?thesis
        using reindexed [OF assms sh(3) refl _ _ _ refl] ysok wf N sh r(1,2) True sp eq by simp
    next
      case d: False
      then have "ys = map (compressed flags ((!) ?xs) S) [0..<?N]"
        using ok wf r(4) unfolding ys_def filter_id_conv
        by (auto simp: list_all_length entry_ok_def compressed_def)
      with r(3) have "take ?N es' = map Some ys" "length ys = ?N" by simp_all
      then show ?thesis
        using reindexed [OF assms _ _ _ _ _ refl, of ?N es' ys] ysok N r(1,2) d sp eq by simp
    qed
  qed
qed

section \<open>Concatenating and overlapping tables\<close>

lemma idx_append: "idx (xs @ ys) h = idx xs h @ map (\<lambda>i. i + length xs) (idx ys h)"
proof -
  have "[0..<length (xs @ ys)] = [0..<length xs] @ map (\<lambda>i. i + length xs) [0..<length ys]"
    by (metis add.commute add.left_neutral length_append map_add_upt upt_add_eq_append zero_le)
  moreover have "filter (\<lambda>i. ehash ((xs @ ys) ! i) = h) [0..<length xs] = idx xs h"
    unfolding idx_def by (rule filter_cong) (auto simp: nth_append)
  ultimately show ?thesis by (simp add: idx_def filter_map comp_def nth_append add.commute)
qed

lemma cat_index_simps [simp]:
  "ta (cat_index n s t h) = ta t" "index_initialized (cat_index n s t h) = index_initialized t"
  "length (index_first (cat_index n s t h)) = length (index_first t)"
  "length (index_last (cat_index n s t h)) = length (index_last t)"
  by (simp_all add: cat_index_def Let_def)

lemma cat_index_fold:
  fixes n s m
  assumes "length (index_first t) = TABLE_HASH_SIZE" "length (index_last t) = TABLE_HASH_SIZE"
    and "m \<le> TABLE_HASH_SIZE"
  defines "t' \<equiv> fold (\<lambda>h t. cat_index n s t h) [0..<m] t"
  shows "ta t' = ta t \<and> index_initialized t' = index_initialized t \<and>
    length (index_first t') = TABLE_HASH_SIZE \<and> length (index_last t') = TABLE_HASH_SIZE \<and>
    (\<forall>h < TABLE_HASH_SIZE. index_last t' ! h =
        (if h < m \<and> bit (index_initialized s) h then Some (the (index_last s ! h) + n) else index_last t ! h) \<and>
      index_first t' ! h =
        (if h < m \<and> bit (index_initialized s) h \<and> \<not> bit (index_initialized t) h
         then Some (the (index_first s ! h) + n) else index_first t ! h))"
  unfolding t'_def using assms(3)
proof (induction m)
  case 0
  then show ?case using assms(1,2) by simp
next
  case (Suc m)
  define u where "u = fold (\<lambda>h t. cat_index n s t h) [0..<m] t"
  have IH: "ta u = ta t" "index_initialized u = index_initialized t"
    "length (index_first u) = TABLE_HASH_SIZE" "length (index_last u) = TABLE_HASH_SIZE"
    and IHl: "\<forall>h < TABLE_HASH_SIZE. index_last u ! h =
        (if h < m \<and> bit (index_initialized s) h then Some (the (index_last s ! h) + n) else index_last t ! h)"
    and IHf: "\<forall>h < TABLE_HASH_SIZE. index_first u ! h =
        (if h < m \<and> bit (index_initialized s) h \<and> \<not> bit (index_initialized t) h
         then Some (the (index_first s ! h) + n) else index_first t ! h)"
    using Suc by (simp_all add: u_def)
  have eq: "fold (\<lambda>h t. cat_index n s t h) [0..<Suc m] t = cat_index n s u m" by (simp add: u_def)
  have l: "index_last (cat_index n s u m) ! h =
      (if h = m \<and> bit (index_initialized s) m then Some (the (index_last s ! m) + n) else index_last u ! h)"
    "index_first (cat_index n s u m) ! h =
      (if h = m \<and> bit (index_initialized s) m \<and> \<not> bit (index_initialized t) m
       then Some (the (index_first s ! m) + n) else index_first u ! h)" if "h < TABLE_HASH_SIZE" for h
    using that IH(2-4) Suc.prems
    by (auto simp: cat_index_def Let_def is_initialized_bit nth_list_update)
  show ?case unfolding eq using IH IHl IHf l by (auto simp: less_Suc_eq)
qed

lemma apr_table_cat_wf:
  assumes "table_wf t" and "table_wf s"
  shows "table_wf (apr_table_cat t s) \<and> entries (apr_table_cat t s) = entries t @ entries s"
proof -
  have wf: "arr_wf (ta t)" "arr_wf (ta s)" and ok: "list_all entry_ok (entries t)" "list_all entry_ok (entries s)"
    and it: "index_ok (entries t) (index_initialized t) (index_first t) (index_last t)"
    and is': "index_ok (entries s) (index_initialized s) (index_first s) (index_last s)"
    using assms by (simp_all add: table_wf_def)
  have a: "arr_wf (apr_array_cat zero_entry (ta t) (ta s))"
    "arr_list (apr_array_cat zero_entry (ta t) (ta s)) = entries t @ entries s"
    using wf by (simp_all add: arr.invar_cat arr.contents_cat)
  show ?thesis
  proof (cases "nelts (ta t) = 0")
    case True
    then have "entries t = []" using wf by (simp add: arr_list_eq_Nil)
    then show ?thesis using a ok is' True by (simp add: table_wf_def apr_table_cat_def Let_def)
  next
    case False
    define t1 where "t1 = t\<lparr>ta := apr_array_cat zero_entry (ta t) (ta s)\<rparr>"
    define t2 where "t2 = fold (\<lambda>h u. cat_index (nelts (ta t)) s u h) [0..<TABLE_HASH_SIZE] t1"
    have eq: "apr_table_cat t s = t2\<lparr>index_initialized := index_initialized t2 OR index_initialized s\<rparr>"
      using False by (simp add: apr_table_cat_def Let_def t1_def t2_def)
    have t2: "ta t2 = ta t1" "index_initialized t2 = index_initialized t"
      "length (index_first t2) = TABLE_HASH_SIZE" "length (index_last t2) = TABLE_HASH_SIZE"
      "\<forall>h < TABLE_HASH_SIZE. index_last t2 ! h =
        (if bit (index_initialized s) h then Some (the (index_last s ! h) + nelts (ta t)) else index_last t ! h) \<and>
      index_first t2 ! h =
        (if bit (index_initialized s) h \<and> \<not> bit (index_initialized t) h
         then Some (the (index_first s ! h) + nelts (ta t)) else index_first t ! h)"
    proof -
      have "length (index_first t1) = TABLE_HASH_SIZE" "length (index_last t1) = TABLE_HASH_SIZE"
        "index_initialized t1 = index_initialized t" "index_first t1 = index_first t" "index_last t1 = index_last t"
        using it by (simp_all add: t1_def index_ok_def)
      note f = this and c = cat_index_fold [OF this(1,2) le_refl, of "nelts (ta t)" s, folded t2_def]
      show "ta t2 = ta t1" "index_initialized t2 = index_initialized t"
        "length (index_first t2) = TABLE_HASH_SIZE" "length (index_last t2) = TABLE_HASH_SIZE"
        "\<forall>h < TABLE_HASH_SIZE. index_last t2 ! h =
          (if bit (index_initialized s) h then Some (the (index_last s ! h) + nelts (ta t)) else index_last t ! h) \<and>
        index_first t2 ! h =
          (if bit (index_initialized s) h \<and> \<not> bit (index_initialized t) h
           then Some (the (index_first s ! h) + nelts (ta t)) else index_first t ! h)"
        using c f by simp_all
    qed
    have "index_ok (entries t @ entries s) (index_initialized t OR index_initialized s)
        (index_first t2) (index_last t2)"
      using it is' t2 wf unfolding index_ok_def idx_append
      by (auto simp: bit_or_iff hd_append last_map hd_map)
    then show ?thesis using a ok t2 by (simp add: table_wf_def eq t1_def)
  qed
qed

lemma apr_table_overlap_wf:
  assumes "table_wf a" and "table_wf b"
  shows "case apr_table_overlap a b flags of
      None \<Rightarrow> spec_compress flags (entries a @ entries b) = None
    | Some t \<Rightarrow> table_wf t \<and> spec_compress flags (entries a @ entries b) = Some (entries t)"
proof (cases "nelts (ta a) + nelts (ta b) = 0")
  case True
  then have "entries a = []" "entries b = []"
    using assms by (simp_all add: arr_list_eq_Nil table_wf_def)
  then show ?thesis using True assms spec_compress_short [of "[]" flags] by (simp add: apr_table_overlap_def)
next
  case False
  note c = apr_table_cat_wf [OF assms]
  have "apr_table_overlap a b flags = apr_table_compress (apr_table_cat a b) flags"
    using False by (auto simp: apr_table_overlap_def)
  then show ?thesis using apr_table_compress_wf [of "apr_table_cat a b" flags] c
    by (simp split: option.splits)
qed

section \<open>The documented meaning of overlap\<close>

abbreviation ekey :: "apr_table_entry \<Rightarrow> cstring" where
  "ekey e \<equiv> fold_case (the (tkey e))"

definition keys_unique :: "apr_table_entry list \<Rightarrow> bool" where
  "keys_unique es \<longleftrightarrow> distinct (map ekey es)"

lemma same_key_ekey: "same_key k e \<longleftrightarrow> ekey e = fold_case k"
  by (simp add: same_key_def strcasecmp_eq_0)

lemma unset_absent: "\<forall>y \<in> set ys. \<not> same_key k y \<Longrightarrow> spec_unset k ys = ys"
  by (simp add: spec_unset_def filter_id_conv)

lemma unique_tail: "keys_unique (y # ys) \<Longrightarrow> same_key k y \<Longrightarrow> \<forall>z \<in> set ys. \<not> same_key k z"
  by (auto simp: keys_unique_def same_key_ekey image_iff)

lemma unique_Cons: "keys_unique (y # ys) \<Longrightarrow> keys_unique ys"
  by (simp add: keys_unique_def)

lemma map_absent: "\<forall>y \<in> set ys. \<not> P y \<Longrightarrow> map (\<lambda>y. if P y then f y else y) ys = ys"
  by (simp add: map_idI)

lemma spec_set_unique:
  "keys_unique ys \<Longrightarrow> spec_set k v ys = (if \<exists>y \<in> set ys. same_key k y
     then map (\<lambda>y. if same_key k y then y\<lparr>tval := v\<rparr> else y) ys else ys @ [new_entry k v])"
proof (induction ys)
  case (Cons y ys)
  then show ?case
    using unique_tail [OF Cons.prems, of k] unique_Cons [OF Cons.prems]
    by (cases "same_key k y") (auto simp: unset_absent map_absent)
qed simp

lemma spec_merge_unique:
  "keys_unique ys \<Longrightarrow> spec_merge k v ys = (if \<exists>y \<in> set ys. same_key k y
     then map (\<lambda>y. if same_key k y then y\<lparr>tval := merged_val (tval y) v\<rparr> else y) ys else ys @ [new_entry k v])"
proof (induction ys)
  case (Cons y ys)
  then show ?case
    using unique_tail [OF Cons.prems, of k] unique_Cons [OF Cons.prems]
    by (cases "same_key k y") (auto simp: map_absent)
qed simp

text \<open>One more entry at the end of the list that is compressed.\<close>

lemma first_of_key_same:
  assumes "\<exists>x \<in> set xs. same_key k x"
  obtains i where "i < length xs" "same_key k (xs ! i)" "first_of_key xs i"
proof -
  obtain j where "j < length xs" "same_key k (xs ! j)" using assms by (metis in_set_conv_nth)
  then have "\<exists>j. j < length xs \<and> same_key k (xs ! j)" by blast
  from exists_least_iff [THEN iffD1, OF this] obtain i where i: "i < length xs" "same_key k (xs ! i)"
    "\<forall>m < i. \<not> (m < length xs \<and> same_key k (xs ! m))" by blast
  then have "first_of_key xs i" by (auto simp: first_of_key_def same_key_ekey)
  then show ?thesis using that i by blast
qed

lemma join_comma_snoc: "ss \<noteq> [] \<Longrightarrow> join_comma (ss @ [s]) = join_comma ss @ cstr '', '' @ s"
  by (induction ss rule: join_comma.induct) (auto simp: join_comma_Cons)

definition step_val :: "nat \<Rightarrow> cstring option \<Rightarrow> cstring option \<Rightarrow> cstring option" where
  "step_val flags old v = (if flags = APR_OVERLAP_TABLES_MERGE then merged_val old v else v)"

lemma class_val_long:
  "2 \<le> length vs \<Longrightarrow> class_val flags vs = (if flags = APR_OVERLAP_TABLES_MERGE
     then (if None \<in> set vs then None else Some (Some (join_comma (map the vs)))) else Some (last vs))"
  by (cases vs; cases "tl vs") (simp_all add: class_val_def)

lemma class_val_snoc:
  assumes "vs \<noteq> []" and "flags = APR_OVERLAP_TABLES_MERGE \<longrightarrow> None \<notin> set (vs @ [v])"
  shows "class_val flags (vs @ [v]) = Some (step_val flags (the (class_val flags vs)) v)"
proof -
  have two: "class_val flags (vs @ [v]) = (if flags = APR_OVERLAP_TABLES_MERGE
      then Some (Some (join_comma (map the (vs @ [v])))) else Some v)"
    using assms by (cases vs) (auto simp: class_val_long)
  have "class_val flags vs = Some (Some (join_comma (map the vs)))" if "flags = APR_OVERLAP_TABLES_MERGE"
  proof (cases "2 \<le> length vs")
    case False
    then obtain w where "vs = [w]" using assms(1) by (cases vs; cases "tl vs") simp_all
    then show ?thesis using assms that by auto
  qed (use assms that in \<open>simp add: class_val_long\<close>)
  then show ?thesis
    using two assms by (cases v) (auto simp: step_val_def merged_val_def join_comma_snoc)
qed

lemma group_val_snoc:
  assumes "x \<in> set xs" and "list_all (\<lambda>e. flags = APR_OVERLAP_TABLES_MERGE \<longrightarrow> tval e \<noteq> None) (xs @ [e])"
  shows "group_val flags (xs @ [e]) x =
    (if same_key (the (tkey e)) x then Some (step_val flags (the (group_val flags xs x)) (tval e))
     else group_val flags xs x)"
proof -
  have "x \<in> set (key_group x xs)" using assms(1) by (simp add: key_group_def same_key_def)
  then have ne: "map tval (key_group x xs) \<noteq> []" by auto
  have "None \<notin> set (map tval (key_group x xs) @ [tval e])" if "flags = APR_OVERLAP_TABLES_MERGE"
    using assms(2) that by (auto simp: list_all_iff key_group_def)
  then show ?thesis
    using class_val_snoc [OF ne, of flags "tval e"]
    by (auto simp: group_val_def key_group_def same_key_ekey)
qed

lemma firsts_snoc:
  "filter (first_of_key (xs @ [e])) [0..<length (xs @ [e])] =
   filter (first_of_key xs) [0..<length xs] @
   (if \<exists>x \<in> set xs. same_key (the (tkey e)) x then [] else [length xs])"
proof -
  have "first_of_key (xs @ [e]) i = first_of_key xs i" if "i < length xs" for i
    using that by (auto simp: first_of_key_def nth_append)
  then have "filter (first_of_key (xs @ [e])) [0..<length xs] = filter (first_of_key xs) [0..<length xs]"
    by (intro filter_cong) auto
  moreover have "first_of_key (xs @ [e]) (length xs) \<longleftrightarrow> \<not> (\<exists>x \<in> set xs. same_key (the (tkey e)) x)"
    by (auto simp: first_of_key_def nth_append set_conv_nth)
  ultimately show ?thesis by simp
qed

lemma spec_compress_snoc:
  assumes sp: "spec_compress flags xs = Some ys"
    and nn: "list_all (\<lambda>e. flags = APR_OVERLAP_TABLES_MERGE \<longrightarrow> tval e \<noteq> None) (xs @ [e])"
  shows "spec_compress flags (xs @ [e]) =
    Some (if \<exists>y \<in> set ys. same_key (the (tkey e)) y
          then map (\<lambda>y. if same_key (the (tkey e)) y then y\<lparr>tval := step_val flags (tval y) (tval e)\<rparr> else y) ys
          else ys @ [e])"
proof -
  let ?k = "the (tkey e)" and ?F = "filter (first_of_key xs) [0..<length xs]"
  have ok: "group_val flags xs x \<noteq> None" if "x \<in> set xs" for x
    using sp that by (auto simp: spec_compress_def split: if_splits)
  have ys: "ys = map (\<lambda>i. (xs ! i)\<lparr>tval := the (group_val flags xs (xs ! i))\<rparr>) ?F"
    using sp by (simp add: spec_compress_def split: if_splits)
  have ex: "(\<exists>y \<in> set ys. same_key ?k y) \<longleftrightarrow> (\<exists>x \<in> set xs. same_key ?k x)"
    using first_of_key_same [of xs ?k] by (auto simp: ys)
  have new: "group_val flags (xs @ [e]) e = Some (tval e)" if "\<not> (\<exists>x \<in> set xs. same_key ?k x)"
    using that by (auto simp: group_val_def key_group_def same_key_def filter_empty_conv)
  have old: "group_val flags (xs @ [e]) x =
      Some (if same_key ?k x then step_val flags (the (group_val flags xs x)) (tval e) else the (group_val flags xs x))"
    if "x \<in> set xs" for x
    using group_val_snoc [OF that nn] ok [OF that] by auto
  have all: "\<not> (\<exists>x \<in> set (xs @ [e]). group_val flags (xs @ [e]) x = None)"
  proof (cases "\<exists>x \<in> set xs. same_key ?k x")
    case True
    then obtain x where "x \<in> set xs" "same_key ?k x" by blast
    then have "group_val flags (xs @ [e]) e = group_val flags (xs @ [e]) x"
      using same_key_cong [of "the (tkey x)" ?k] by (simp add: group_val_def key_group_def same_key_def)
    then show ?thesis using old \<open>x \<in> set xs\<close> by auto
  qed (use old new in auto)
  have eq: "spec_compress flags (xs @ [e]) = Some (map (\<lambda>i. ((xs @ [e]) ! i)\<lparr>tval := the (group_val flags (xs @ [e]) ((xs @ [e]) ! i))\<rparr>)
      (?F @ (if \<exists>x \<in> set xs. same_key ?k x then [] else [length xs])))"
    unfolding spec_compress_def if_not_P [OF all] firsts_snoc ..
  have F: "map (\<lambda>i. ((xs @ [e]) ! i)\<lparr>tval := the (group_val flags (xs @ [e]) ((xs @ [e]) ! i))\<rparr>) ?F =
      map (\<lambda>y. if same_key ?k y then y\<lparr>tval := step_val flags (tval y) (tval e)\<rparr> else y) ys"
    by (auto simp: ys nth_append old)
  show ?thesis unfolding eq ex map_append F
    using new ex by (auto simp: map_absent)
qed

lemma spec_compress_unique:
  assumes "spec_compress flags xs = Some ys" shows "keys_unique ys"
proof -
  have "map ekey ys = map (\<lambda>i. ekey (xs ! i)) (filter (first_of_key xs) [0..<length xs])"
    using assms by (auto simp: spec_compress_def split: if_splits)
  moreover have "inj_on (\<lambda>i. ekey (xs ! i)) (set (filter (first_of_key xs) [0..<length xs]))"
    by (rule inj_onI) (auto simp: first_of_key_def same_key_ekey, metis linorder_neqE_nat)
  ultimately show ?thesis by (simp only: keys_unique_def distinct_map) simp
qed

lemma key_group_unique: "keys_unique xs \<Longrightarrow> x \<in> set xs \<Longrightarrow> key_group x xs = [x]"
proof (induction xs)
  case (Cons y ys)
  then have "filter (same_key (the (tkey x))) ys = []" if "x = y"
    using that by (auto simp: filter_empty_conv keys_unique_def same_key_ekey image_iff)
  then show ?case
    using Cons by (cases "x = y") (auto simp: key_group_def keys_unique_def same_key_ekey image_iff)
qed simp

lemma spec_compress_id:
  assumes "keys_unique xs" shows "spec_compress flags xs = Some xs"
proof -
  have g: "group_val flags xs x = Some (tval x)" if "x \<in> set xs" for x
    using key_group_unique [OF assms that] by (simp add: group_val_def)
  have "first_of_key xs i" if "i < length xs" for i
    using assms that nth_eq_iff_index_eq [of "map ekey xs"]
    by (auto simp: first_of_key_def keys_unique_def same_key_ekey)
  then have "filter (first_of_key xs) [0..<length xs] = [0..<length xs]" by (auto simp: filter_id_conv)
  moreover have "map (\<lambda>i. (xs ! i)\<lparr>tval := the (group_val flags xs (xs ! i))\<rparr>) [0..<length xs] = xs"
    by (rule nth_equalityI) (simp_all add: g)
  ultimately show ?thesis using g by (auto simp: spec_compress_def)
qed

text \<open>The loop the documentation of \<open>apr_table_overlap\<close> gives as its meaning.\<close>

definition doc_overlap :: "apr_table \<Rightarrow> apr_table \<Rightarrow> nat \<Rightarrow> apr_table" where
  "doc_overlap a b flags =
     fold (\<lambda>e a. (if flags AND APR_OVERLAP_TABLES_MERGE \<noteq> 0 then apr_table_mergen else apr_table_setn)
            a (the (tkey e)) (tval e)) (entries b) a"

text \<open>The documentation knows two values of the flags.\<close>

definition documented_flags :: "nat \<Rightarrow> bool" where
  "documented_flags flags \<longleftrightarrow> flags = APR_OVERLAP_TABLES_SET \<or> flags = APR_OVERLAP_TABLES_MERGE"

lemma documented_test: "documented_flags flags \<Longrightarrow> flags AND APR_OVERLAP_TABLES_MERGE \<noteq> 0 \<longleftrightarrow> flags = APR_OVERLAP_TABLES_MERGE"
  by (auto simp: documented_flags_def APR_OVERLAP_TABLES_SET_def APR_OVERLAP_TABLES_MERGE_def)

definition spec_step :: "nat \<Rightarrow> apr_table_entry \<Rightarrow> apr_table_entry list \<Rightarrow> apr_table_entry list" where
  "spec_step flags e ys =
     (if flags = APR_OVERLAP_TABLES_MERGE then spec_merge else spec_set) (the (tkey e)) (tval e) ys"

lemma doc_overlap_entries:
  assumes "table_wf a" "documented_flags flags"
  shows "entries (fold (\<lambda>e a. (if flags AND APR_OVERLAP_TABLES_MERGE \<noteq> 0 then apr_table_mergen else apr_table_setn)
      a (the (tkey e)) (tval e)) es a) = fold (spec_step flags) es (entries a)"
  unfolding documented_test [OF assms(2)] using assms(1)
  by (induction es arbitrary: a) (auto simp: spec_step_def apr_table_mergen_wf apr_table_setn_wf)

lemma compress_fold:
  assumes "keys_unique xs" and "list_all entry_ok (xs @ es)"
    and "list_all (\<lambda>e. flags = APR_OVERLAP_TABLES_MERGE \<longrightarrow> tval e \<noteq> None) (xs @ es)"
  shows "spec_compress flags (xs @ es) = Some (fold (spec_step flags) es xs)"
  using assms(2,3)
proof (induction es rule: rev_induct)
  case Nil
  then show ?case using spec_compress_id [OF assms(1)] by simp
next
  case (snoc e es)
  define ys where "ys = fold (spec_step flags) es xs"
  have sp: "spec_compress flags (xs @ es) = Some ys" using snoc by (simp add: ys_def)
  note u = spec_compress_unique [OF sp]
  have "new_entry (the (tkey e)) (tval e) = e"
    using snoc.prems by (cases e) (auto simp: new_entry_def entry_ok_def)
  then have "spec_step flags e ys = (if \<exists>y \<in> set ys. same_key (the (tkey e)) y
      then map (\<lambda>y. if same_key (the (tkey e)) y then y\<lparr>tval := step_val flags (tval y) (tval e)\<rparr> else y) ys
      else ys @ [e])"
    by (cases "flags = APR_OVERLAP_TABLES_MERGE")
      (simp_all add: spec_step_def step_val_def spec_set_unique [OF u] spec_merge_unique [OF u])
  then show ?case
    using spec_compress_snoc [OF sp, of e] snoc.prems(2) by (simp add: ys_def)
qed

lemma overlap_doc:
  assumes "table_wf a" and "table_wf b" and "keys_unique (entries a)"
    and "list_all (\<lambda>e. flags = APR_OVERLAP_TABLES_MERGE \<longrightarrow> tval e \<noteq> None) (entries a @ entries b)" and "documented_flags flags"
  shows "\<exists>t. apr_table_overlap a b flags = Some t \<and> table_wf t \<and> entries t = entries (doc_overlap a b flags)"
proof -
  have "spec_compress flags (entries a @ entries b) = Some (entries (doc_overlap a b flags))"
    using compress_fold [OF assms(3) _ assms(4)] doc_overlap_entries [OF assms(1,5)] assms(1,2)
    by (simp add: doc_overlap_def table_wf_def)
  then show ?thesis using apr_table_overlap_wf [OF assms(1,2), of flags] by (auto split: option.splits)
qed

text \<open>One key only: compressing leaves one entry for it, and the documented loop does not touch it if the second table does not have it.\<close>

lemma compress_key:
  assumes "spec_compress flags xs = Some ys"
  shows "filter (same_key k) ys = (case filter (same_key k) xs of [] \<Rightarrow> []
    | e # es \<Rightarrow> [e\<lparr>tval := the (class_val flags (map tval (e # es)))\<rparr>])"
proof -
  let ?f = "\<lambda>i. (xs ! i)\<lparr>tval := the (group_val flags xs (xs ! i))\<rparr>"
  have ys: "ys = map ?f (filter (first_of_key xs) [0..<length xs])" using assms by (simp add: spec_compress_def split: if_splits)
  have sk: "same_key k (e\<lparr>tval := v\<rparr>) = same_key k e" for e v by (simp add: same_key_def)
  have f: "filter (same_key k) ys = map ?f (filter (\<lambda>i. same_key k (xs ! i) \<and> first_of_key xs i) [0..<length xs])"
    unfolding ys filter_map comp_def sk filter_filter by (simp add: conj_commute)
  show ?thesis
  proof (cases "\<exists>e \<in> set xs. same_key k e")
    case False
    then have none: "\<not> same_key k (xs ! i)" if "i < length xs" for i using that by auto
    have "filter (\<lambda>i. same_key k (xs ! i) \<and> first_of_key xs i) [0..<length xs] = []" using none by (auto simp: filter_empty_conv)
    moreover have "filter (same_key k) xs = []" using False by (auto simp: filter_empty_conv)
    ultimately show ?thesis by (simp add: f)
  next
    case True
    then obtain us e vs where xs: "xs = us @ e # vs" "same_key k e" "\<forall>u \<in> set us. \<not> same_key k u"
      using split_list_first_prop by metis
    have nth: "same_key k (xs ! i) \<and> first_of_key xs i \<longleftrightarrow> i = length us" if "i < length xs" for i
    proof
      assume i: "same_key k (xs ! i) \<and> first_of_key xs i"
      have "\<not> i < length us" using i xs by (auto simp: nth_append)
      moreover have "\<not> length us < i"
      proof
        assume "length us < i"
        then have "\<not> same_key (the (tkey (xs ! i))) (xs ! length us)" using i by (simp add: first_of_key_def)
        then show False using i xs(1,2) by (simp add: same_key_ekey)
      qed
      ultimately show "i = length us" by simp
    next
      assume "i = length us"
      then show "same_key k (xs ! i) \<and> first_of_key xs i" using xs by (auto simp: first_of_key_def same_key_ekey nth_append)
    qed
    have "filter (\<lambda>i. same_key k (xs ! i) \<and> first_of_key xs i) [0..<length xs] = filter (\<lambda>i. i = length us) [0..<length xs]"
      by (rule filter_cong) (use nth in auto)
    also have "\<dots> = [length us]"
    proof -
      have "[0..<length xs] = [0..<length us] @ length us # [Suc (length us)..<length xs]"
        using upt_split [of 0 "length us" "length xs"] by (simp add: xs(1) upt_rec)
      then show ?thesis by (auto simp: filter_empty_conv)
    qed
    finally have "filter (same_key k) ys = [?f (length us)]" by (simp add: f)
    moreover have "key_group e xs = filter (same_key k) xs" unfolding key_group_def using xs(2) by (intro filter_cong) (auto simp: same_key_ekey)
    moreover have "filter (same_key k) xs = e # filter (same_key k) vs" using xs by simp
    ultimately show ?thesis by (simp add: xs(1) group_val_def)
  qed
qed

lemma key_untouched:
  "\<forall>e \<in> set es. \<not> same_key k e \<Longrightarrow> list_all entry_ok es \<Longrightarrow> filter (same_key k) (fold (spec_step flags) es xs) = filter (same_key k) xs"
proof (induction es arbitrary: xs)
  case (Cons e es)
  have other: "fold_case k \<noteq> ekey e" using Cons.prems(1) by (auto simp: same_key_ekey)
  have "filter (same_key k) (spec_set (the (tkey e)) v ys) = filter (same_key k) ys"
    "filter (same_key k) (spec_merge (the (tkey e)) v ys) = filter (same_key k) ys" for v ys
    using other by (induction ys) (auto simp: same_key_ekey new_entry_def spec_unset_def filter_filter intro!: filter_cong)
  then show ?case using Cons by (simp add: spec_step_def)
qed simp

section \<open>Visiting the entries\<close>

lemma vdo_entries_filter: "list_all entry_ok es \<Longrightarrow> vdo_entries cb sel rec es = vdo_entries cb (\<lambda>e. True) rec (filter sel es)"
  by (induction es arbitrary: rec) (auto simp: entry_ok_def split: prod.split)

lemma slice_outside_filter:
  assumes "f \<le> l" and "l < length xs" and "\<And>j. j < length xs \<Longrightarrow> P (xs ! j) \<Longrightarrow> f \<le> j \<and> j \<le> l"
  shows "filter P (map ((!) xs) [f..<Suc l]) = filter P xs"
proof -
  have "[0..<length xs] = [0..<f] @ [f..<Suc l] @ [Suc l..<length xs]"
    using assms(1,2) upt_split [of 0 f "length xs"] upt_split [of f "Suc l" "length xs"] by simp
  then have "xs = map ((!) xs) [0..<f] @ map ((!) xs) [f..<Suc l] @ map ((!) xs) [Suc l..<length xs]"
    by (metis map_append map_nth)
  moreover have out: "\<not> P (xs ! j)" if "j < length xs" "j < f \<or> l < j" for j
    using assms(3) [of j] that by auto
  have "filter P (map ((!) xs) [0..<f]) = []" "filter P (map ((!) xs) [Suc l..<length xs]) = []"
    using out assms(1,2) by (auto simp: filter_empty_conv)
  ultimately show ?thesis by (metis append_Nil append_Nil2 filter_append)
qed

lemma vdo_key_eq:
  assumes "table_wf t"
  shows "vdo_key cb t rec k = vdo_entries cb (\<lambda>e. True) rec (filter (same_key k) (entries t))"
proof -
  let ?es = "entries t" and ?h = "TABLE_HASH k"
  have wf: "arr_wf (ta t)" and ok: "list_all entry_ok ?es" using assms by (simp_all add: table_wf_def)
  have h: "?h < TABLE_HASH_SIZE" by (simp add: TABLE_HASH_less TABLE_HASH_SIZE_def)
  note ix = table_wf_index [OF assms h]
  have in_idx: "j \<in> set (idx ?es ?h)" if "j < length ?es" "same_key k (?es ! j)" for j
    using that same_key_hash by (auto simp: idx_def)
  show ?thesis
  proof (cases "idx ?es ?h = []")
    case True
    then have "filter (same_key k) ?es = []" using in_idx by (auto simp: filter_empty_conv in_set_conv_nth)
    then show ?thesis using True ix(1) by (simp add: vdo_key_def)
  next
    case False
    let ?f = "hd (idx ?es ?h)" and ?l = "last (idx ?es ?h)"
    have fl: "?f \<le> ?l" "?l < length ?es" using idx_bounds [OF last_in_set [OF False]] by simp_all
    let ?s = "map ((!) ?es) [?f..<Suc ?l]"
    have sl: "map (\<lambda>i. the (elts (ta t) ! i)) [?f..<Suc ?l] = ?s"
      using fl wf by (auto simp: arr_wf_nth)
    have oks: "list_all entry_ok ?s" using ok fl by (auto simp: list_all_length nth_append)
    have "vdo_key cb t rec k = vdo_entries cb (\<lambda>e. True) rec (filter (key_match k (COMPUTE_KEY_CHECKSUM k)) ?s)"
    proof -
      have "vdo_key cb t rec k = vdo_entries cb (key_match k (COMPUTE_KEY_CHECKSUM k)) rec
          (map (\<lambda>i. the (elts (ta t) ! i)) [?f..<Suc ?l])"
        using False ix by (simp add: vdo_key_def Let_def del: upt_Suc)
      then show ?thesis unfolding sl vdo_entries_filter [OF oks] .
    qed
    also have "filter (key_match k (COMPUTE_KEY_CHECKSUM k)) ?s = filter (same_key k) ?s"
      using oks by (intro filter_cong) (auto simp: key_match_same_key list_all_iff simp del: upt_Suc)
    also have "\<dots> = filter (same_key k) ?es"
      using fl in_idx idx_bounds by (intro slice_outside_filter) blast+
    finally show ?thesis .
  qed
qed

lemma vdo_keys_eq:
  "table_wf t \<Longrightarrow> vdo_keys cb t rec vdorv ks =
     foldl (\<lambda>(rec, rv) k. case vdo_entries cb (\<lambda>e. True) rec (filter (same_key k) (entries t)) of
              (rec', rv') \<Rightarrow> (rec', rv \<and> rv')) (rec, vdorv) ks"
  by (induction ks arbitrary: rec vdorv) (auto simp: vdo_key_eq split: prod.splits)

lemma vdo_all_eq:
  assumes "table_wf t"
  shows "apr_table_vdo cb rec t [] = vdo_entries cb (\<lambda>e. True) rec (entries t)"
proof -
  have "map (\<lambda>i. the (elts (ta t) ! i)) [0..<nelts (ta t)] = entries t"
    using assms by (intro nth_equalityI) (simp_all add: arr_wf_nth table_wf_def)
  then show ?thesis by (simp add: apr_table_vdo_def)
qed

section \<open>The size of the result\<close>

lemma cat_new_size_bound: "m < 2 * k \<Longrightarrow> 0 < m \<Longrightarrow> cat_new_size k m < 2 * k"
  using cat_new_size_less [of m k] by (cases "m < k") (simp_all add: cat_new_size.simps [of k m])

lemma cat_size: "nalloc (apr_array_cat z dst src) \<le> max (nalloc dst) (2 * (nelts dst + nelts src))"
proof (cases "nelts dst + nelts src > nalloc dst")
  case True
  then have "cat_new_size (nelts dst + nelts src) (if nalloc dst \<le> 0 then 1 else nalloc dst * 2) < 2 * (nelts dst + nelts src)"
    by (intro cat_new_size_bound) auto
  then show ?thesis using True by (simp add: apr_array_cat_def Let_def)
qed (simp add: apr_array_cat_def Let_def)

lemma table_cat_array: "ta (apr_table_cat t s) = apr_array_cat zero_entry (ta t) (ta s)"
proof -
  have "ta (fold (\<lambda>idx t. cat_index n s t idx) xs u) = ta u" for n xs u
    by (induction xs arbitrary: u) (simp_all add: cat_index_def Let_def)
  then show ?thesis by (simp add: apr_table_cat_def Let_def)
qed

lemma reindex_array: "ta (table_reindex t) = ta t"
proof -
  have "ta (fold reindex_step xs u) = ta u" for xs u
    by (induction xs arbitrary: u) (simp_all add: reindex_step_def Let_def)
  then show ?thesis by (simp add: table_reindex_def)
qed

lemma compress_size: "apr_table_compress t flags = Some t' \<Longrightarrow> nalloc (ta t') = nalloc (ta t)"
  by (auto simp: apr_table_compress_def Let_def reindex_array split: if_splits prod.splits)

lemma overlap_sizes_fit:
  assumes "apr_table_overlap a b flags = Some t" "sizes_fit 24 (ta a)" "48 * (nelts (ta a) + nelts (ta b)) < 2 ^ 31"
  shows "sizes_fit 24 (ta t)"
proof -
  have "nalloc (ta t) \<le> max (nalloc (ta a)) (2 * (nelts (ta a) + nelts (ta b)))"
    using assms(1) compress_size [of "apr_table_cat a b" flags t] cat_size [of zero_entry "ta a" "ta b"]
    by (auto simp: apr_table_overlap_def table_cat_array split: if_splits)
  then show ?thesis using assms(2,3) by (auto simp: sizes_fit_def)
qed

section \<open>Properties\<close>

text \<open>C4: the sort behind \<open>apr_table_compress\<close>, a bottom-up merge sort on slots, is the stable sort by
  the keys folded to lower case, for any number of slots.\<close>

theorem mergesort_stable: "table_mergesort k vs = sort_key (\<lambda>i. fold_case (k i)) vs"
  by (rule table_mergesort_eq)

text \<open>C3: \<open>apr_table_compress\<close> keeps a table well formed and leaves exactly one entry per key (keys
  that differ in case are the same), at the place of the first entry with the key. With
  \<open>APR_OVERLAP_TABLES_SET\<close> it has the value of the last entry, with \<open>APR_OVERLAP_TABLES_MERGE\<close> the
  values joined by a comma and a space; it fails only when a value to be joined is NULL.\<close>

theorem table_compress_correct:
  assumes "table_wf t"
  shows "(case apr_table_compress t flags of
      None \<Rightarrow> spec_compress flags (entries t) = None
    | Some t' \<Rightarrow> table_wf t' \<and> spec_compress flags (entries t) = Some (entries t') \<and>
        keys_unique (entries t'))"
  using apr_table_compress_wf [OF assms, of flags] spec_compress_unique by (auto split: option.splits)

definition sample_table :: apr_table where
  "sample_table = apr_table_add (apr_table_add (apr_table_add (apr_table_make 2)
     (cstr ''Vary'') (Some (cstr ''a''))) (cstr ''Date'') (Some (cstr ''b''))) (cstr ''VARY'') (Some (cstr ''c''))"

lemma sample_table_wf:
  "table_wf sample_table \<and> entries sample_table =
     [new_entry (cstr ''Vary'') (Some (cstr ''a'')), new_entry (cstr ''Date'') (Some (cstr ''b'')),
      new_entry (cstr ''VARY'') (Some (cstr ''c''))]"
  using apr_table_make_wf [of 2] unfolding sample_table_def by (simp add: apr_table_add_wf)

lemma sample_sizes:
  "nalloc (ta sample_table) = 4" "nelts (ta sample_table) = 3" "nelts (ta (apr_table_make n)) = 0" "nalloc (ta (apr_table_make 1)) = 1"
  "nalloc (ta (apr_table_make 3)) = 3"
proof -
  show "nalloc (ta sample_table) = 4" "nelts (ta sample_table) = 3" unfolding sample_table_def by code_simp+
qed (simp_all add: apr_table_make_def make_array_core_def Let_def)

lemma sample_compressed:
  "spec_compress APR_OVERLAP_TABLES_MERGE (entries sample_table) =
     Some [new_entry (cstr ''Vary'') (Some (cstr ''a, c'')), new_entry (cstr ''Date'') (Some (cstr ''b''))]"
  unfolding sample_table_wf [THEN conjunct2] by code_simp

theorem table_compress_correct_witness:
  "\<exists>t'. apr_table_compress sample_table APR_OVERLAP_TABLES_MERGE = Some t' \<and> table_wf t' \<and>
     entries t' = [new_entry (cstr ''Vary'') (Some (cstr ''a, c'')), new_entry (cstr ''Date'') (Some (cstr ''b''))]"
  using table_compress_correct [OF sample_table_wf [THEN conjunct1], of APR_OVERLAP_TABLES_MERGE]
    sample_compressed by (auto split: option.splits)

text \<open>C2: \<open>apr_table_overlap\<close> gives the same entries as the loop that documents it, setting or merging
  the entries of \<open>b\<close> one by one into \<open>a\<close>, provided the flags are one of the two documented values, \<open>a\<close> holds
  no key twice and, when merging, no value is NULL, and the sizes stay within \<open>int\<close>. It then never fails, the result is well formed
  and no size overflows.\<close>

theorem table_overlap_documented:
  assumes "table_wf a" and "table_wf b" and "keys_unique (entries a)"
    and "list_all (\<lambda>e. flags = APR_OVERLAP_TABLES_MERGE \<longrightarrow> tval e \<noteq> None) (entries a @ entries b)" and "documented_flags flags"
    and "sizes_fit 24 (ta a)" and "48 * (nelts (ta a) + nelts (ta b)) < 2 ^ 31"
  shows "\<exists>t. apr_table_overlap a b flags = Some t \<and> table_wf t \<and> sizes_fit 24 (ta t) \<and> entries t = entries (doc_overlap a b flags)"
  using overlap_doc [OF assms(1-5)] overlap_sizes_fit [OF _ assms(6,7)] by blast

theorem table_overlap_documented_witness:
  "\<exists>t. apr_table_overlap (apr_table_make 3) sample_table APR_OVERLAP_TABLES_MERGE = Some t \<and> table_wf t \<and> sizes_fit 24 (ta t) \<and>
     entries t = entries (doc_overlap (apr_table_make 3) sample_table APR_OVERLAP_TABLES_MERGE)"
  by (rule table_overlap_documented)
    (simp_all add: apr_table_make_wf sample_table_wf keys_unique_def new_entry_def documented_flags_def sizes_fit_def sample_sizes)

text \<open>C5: Without the proviso that the first table has no key twice the code and the documented loop differ. For every key that the second table
  does not have, the documented loop leaves the entries of the first table alone; the code folds them into one, at the place of the first
  and with the last or the joined value. So whenever such a key occurs more than once in the first table, the results are not the same. The
  sizes stay within \<open>int\<close> here as well.\<close>

theorem table_overlap_compresses_first:
  assumes "table_wf a" "table_wf b" "documented_flags flags"
    "list_all (\<lambda>e. flags = APR_OVERLAP_TABLES_MERGE \<longrightarrow> tval e \<noteq> None) (entries a @ entries b)"
    "\<forall>e \<in> set (entries b). \<not> same_key k e" "sizes_fit 24 (ta a)" "48 * (nelts (ta a) + nelts (ta b)) < 2 ^ 31"
  shows "\<exists>t. apr_table_overlap a b flags = Some t \<and> sizes_fit 24 (ta t) \<and>
    filter (same_key k) (entries (doc_overlap a b flags)) = filter (same_key k) (entries a) \<and>
    filter (same_key k) (entries t) = (case filter (same_key k) (entries a) of [] \<Rightarrow> []
      | e # es \<Rightarrow> [e\<lparr>tval := the (class_val flags (map tval (e # es)))\<rparr>]) \<and>
    (length (filter (same_key k) (entries a)) > 1 \<longrightarrow> entries t \<noteq> entries (doc_overlap a b flags))"
proof -
  have "group_val flags (entries a @ entries b) e \<noteq> None" for e
  proof -
    have "class_val flags (map tval es) \<noteq> None" if "set es \<subseteq> set (entries a @ entries b)" for es
    proof -
      have "flags = APR_OVERLAP_TABLES_MERGE \<Longrightarrow> None \<notin> set (map tval es)" using assms(4) that by (force simp: list_all_iff)
      then show ?thesis by (auto simp: class_val_def split: list.splits)
    qed
    then show ?thesis unfolding group_val_def key_group_def by (metis filter_is_subset)
  qed
  then have "spec_compress flags (entries a @ entries b) \<noteq> None" by (simp add: spec_compress_def)
  then obtain t where t: "apr_table_overlap a b flags = Some t" "spec_compress flags (entries a @ entries b) = Some (entries t)"
    using apr_table_overlap_wf [OF assms(1,2), of flags] by (auto split: option.splits)
  have b: "filter (same_key k) (entries b) = []" using assms(5) by (simp add: filter_empty_conv)
  have d: "filter (same_key k) (entries (doc_overlap a b flags)) = filter (same_key k) (entries a)"
    unfolding doc_overlap_def doc_overlap_entries [OF assms(1,3)] using assms(2,5) by (intro key_untouched) (simp_all add: table_wf_def)
  have c: "filter (same_key k) (entries t) = (case filter (same_key k) (entries a) of [] \<Rightarrow> []
      | e # es \<Rightarrow> [e\<lparr>tval := the (class_val flags (map tval (e # es)))\<rparr>])"
    using compress_key [OF t(2), of k] b by simp
  moreover have "entries t \<noteq> entries (doc_overlap a b flags)" if "length (filter (same_key k) (entries a)) > 1"
  proof
    assume "entries t = entries (doc_overlap a b flags)"
    then show False using that c d by (cases "filter (same_key k) (entries a)") auto
  qed
  ultimately show ?thesis using t(1) d overlap_sizes_fit [OF t(1) assms(6,7)] by blast
qed

theorem table_overlap_compresses_first_witness:
  "\<exists>t. apr_table_overlap sample_table (apr_table_make 1) APR_OVERLAP_TABLES_MERGE = Some t \<and>
     entries t \<noteq> entries (doc_overlap sample_table (apr_table_make 1) APR_OVERLAP_TABLES_MERGE)"
proof -
  let ?k = "cstr ''Vary''"
  have wf: "table_wf sample_table" "table_wf (apr_table_make 1)" "entries (apr_table_make 1) = []"
    using sample_table_wf apr_table_make_wf [of 1] by simp_all
  have n: "list_all (\<lambda>e. APR_OVERLAP_TABLES_MERGE = APR_OVERLAP_TABLES_MERGE \<longrightarrow> tval e \<noteq> None) (entries sample_table @ entries (apr_table_make 1))"
    unfolding wf(3) sample_table_wf [THEN conjunct2] by (simp add: new_entry_def)
  have "length (filter (same_key ?k) (entries sample_table)) > 1" unfolding sample_table_wf [THEN conjunct2] by code_simp
  then show ?thesis
    using table_overlap_compresses_first [OF wf(1,2) _ n, of ?k] wf(3)
    by (auto simp: documented_flags_def sizes_fit_def sample_sizes)
qed

text \<open>\<open>apr_table_vdo\<close> calls the callback on the entries with the given key, in table order, up to the
  first call that returns zero, for every callback; the index and the checksums never hide or add an
  entry. Each key of the list starts afresh, and the result is whether no call returned zero.
  Without keys it visits every entry.\<close>

theorem table_vdo_visits:
  assumes "table_wf t"
  shows "apr_table_vdo cb rec t ks =
    (if ks = [] then vdo_entries cb (\<lambda>e. True) rec (entries t)
     else foldl (\<lambda>(rec, rv) k. case vdo_entries cb (\<lambda>e. True) rec (filter (same_key k) (entries t)) of
            (rec', rv') \<Rightarrow> (rec', rv \<and> rv')) (rec, True) ks)"
  using vdo_all_eq [OF assms, of cb rec] vdo_keys_eq [OF assms, of cb rec True ks]
  by (simp add: apr_table_vdo_def)

theorem table_vdo_visits_witness:
  "apr_table_vdo (\<lambda>rec k v. (rec @ [v], v \<noteq> Some (cstr ''c''))) [] sample_table [cstr ''vary'', cstr ''date''] =
     ([Some (cstr ''a''), Some (cstr ''c''), Some (cstr ''b'')], False)"
  using table_vdo_visits [OF sample_table_wf [THEN conjunct1],
      of "\<lambda>rec k v. (rec @ [v], v \<noteq> Some (cstr ''c''))" "[]" "[cstr ''vary'', cstr ''date'']"]
    sample_table_wf
  by (simp add: same_key_def new_entry_def tolower_def)

end
