(* ===== verification/AprHash.thy ===== *)
theory AprHash
  imports Interfaces "HOL-Library.More_List" "HOL-Library.Multiset"
begin

text \<open>
  The hash tables of \<open>apr-1.3.8/tables/apr_hash.c\<close>: an array of \<open>max + 1\<close> chains, a power of
  two, grown when there are more entries than chains.

  A chain is a list of entries, a pointer into a chain the rest of the list from there on, and the
  pointer to a link that \<open>find_entry\<close> returns the number of the chain and a position in it.
  Keys are blocks of bytes with a length, \<open>APR_HASH_KEY_STRING\<close> for a NUL-terminated string.
  The hash function is a field of the table, as in the code. \<open>count\<close>, \<open>max\<close> and the hashes are
  32-bit words; the array has \<open>max + 1\<close> chains computed at that width, so a table that grew to
  \<open>max = 2^32 - 1\<close> would have none. The results hold below \<open>2^31\<close> entries, where this cannot
  happen.
\<close>

unbundle bit_operations_syntax

section \<open>State\<close>

definition APR_HASH_KEY_STRING :: int where
  "APR_HASH_KEY_STRING = -1"

record 'v apr_hash_entry =
  hhash :: u32
  hkey :: "byte list"
  hklen :: int
  hval :: "'v option"

record 'v apr_hash_index =
  hi_this :: "'v apr_hash_entry list"
  hi_next :: "'v apr_hash_entry list"
  hi_index :: nat

record 'v apr_hash =
  harray :: "'v apr_hash_entry list list"
  hcount :: u32
  hmax :: u32
  hash_func :: "byte list \<Rightarrow> int \<Rightarrow> u32 \<times> int"
  hfree :: "'v apr_hash_entry list"

definition INITIAL_MAX :: u32 where
  "INITIAL_MAX = 15"

section \<open>Creation\<close>

definition alloc_array :: "u32 \<Rightarrow> 'v apr_hash_entry list list" where
  "alloc_array m = replicate (unat (m + 1)) []"

definition hash_step :: "u32 \<Rightarrow> byte \<Rightarrow> u32" where
  "hash_step hash p = hash * 33 + ucast p"

definition apr_hashfunc_default :: "byte list \<Rightarrow> int \<Rightarrow> u32 \<times> int" where
  "apr_hashfunc_default key klen =
     (if klen = APR_HASH_KEY_STRING
      then let s = takeWhile (\<lambda>p. p \<noteq> 0) key in (foldl hash_step 0 s, int (length s))
      else (foldl hash_step 0 (take (nat klen) key), klen))"

definition apr_hash_make :: "'v apr_hash" where
  "apr_hash_make = \<lparr>harray = alloc_array INITIAL_MAX, hcount = 0, hmax = INITIAL_MAX,
     hash_func = apr_hashfunc_default, hfree = []\<rparr>"

definition apr_hash_make_custom :: "(byte list \<Rightarrow> int \<Rightarrow> u32 \<times> int) \<Rightarrow> 'v apr_hash" where
  "apr_hash_make_custom f = apr_hash_make\<lparr>hash_func := f\<rparr>"

section \<open>Iteration\<close>

text \<open>The loop of \<open>apr_hash_next\<close>: take the next chain while there is no entry.\<close>

function hash_seek ::
  "'v apr_hash_entry list list \<Rightarrow> nat \<Rightarrow> nat \<Rightarrow> 'v apr_hash_entry list \<Rightarrow>
   ('v apr_hash_entry list \<times> nat) option" where
  "hash_seek arr m index this =
     (if this \<noteq> [] then Some (this, index)
      else if index > m then None
      else hash_seek arr m (index + 1) (nth_default [] arr index))"
  by pat_completeness auto
termination
  by (relation "measure (\<lambda>(arr, m, index, this). Suc m - index)") auto

declare hash_seek.simps [simp del]

definition apr_hash_next :: "'v apr_hash \<Rightarrow> 'v apr_hash_index \<Rightarrow> 'v apr_hash_index option" where
  "apr_hash_next ht hi =
     (case hash_seek (harray ht) (unat (hmax ht)) (hi_index hi) (hi_next hi) of
        None \<Rightarrow> None
      | Some (this, index) \<Rightarrow> Some \<lparr>hi_this = this, hi_next = tl this, hi_index = index\<rparr>)"

definition apr_hash_first :: "'v apr_hash \<Rightarrow> 'v apr_hash_index option" where
  "apr_hash_first ht = apr_hash_next ht \<lparr>hi_this = [], hi_next = [], hi_index = 0\<rparr>"

definition apr_hash_this :: "'v apr_hash_index \<Rightarrow> byte list \<times> int \<times> 'v option" where
  "apr_hash_this hi = (let e = hd (hi_this hi) in (hkey e, hklen e, hval e))"

text \<open>What is left to visit, and that each step visits one entry.\<close>

definition hash_rest :: "'v apr_hash \<Rightarrow> nat \<Rightarrow> 'v apr_hash_entry list" where
  "hash_rest ht index = concat (map (nth_default [] (harray ht)) [index..<Suc (unat (hmax ht))])"

definition hi_todo :: "'v apr_hash \<Rightarrow> 'v apr_hash_index option \<Rightarrow> 'v apr_hash_entry list" where
  "hi_todo ht hi = (case hi of None \<Rightarrow> []
     | Some h \<Rightarrow> hd (hi_this h) # hi_next h @ hash_rest ht (hi_index h))"

lemma hash_seek_todo:
  "(case hash_seek arr m index this of None \<Rightarrow> [] | Some (t, i) \<Rightarrow> t @ concat (map (nth_default [] arr) [i..<Suc m]))
     = this @ concat (map (nth_default [] arr) [index..<Suc m]) \<and>
   (\<forall>t i. hash_seek arr m index this = Some (t, i) \<longrightarrow> t \<noteq> [])"
proof (induction arr m index this rule: hash_seek.induct)
  case (1 arr m index this)
  show ?case
  proof (cases "this = [] \<and> index \<le> m")
    case True
    then have "[index..<Suc m] = index # [Suc index..<Suc m]" by (simp add: upt_rec del: upt_Suc)
    then show ?thesis using 1 True by (subst (1 2) hash_seek.simps) (simp del: upt_Suc)
  next
    case False
    then show ?thesis by (subst (1 2) hash_seek.simps) auto
  qed
qed

lemma apr_hash_next_todo:
  "hi_todo ht (apr_hash_next ht h) = hi_next h @ hash_rest ht (hi_index h)"
  using hash_seek_todo [of "harray ht" "unat (hmax ht)" "hi_index h" "hi_next h"]
  by (auto simp: apr_hash_next_def hi_todo_def hash_rest_def split: option.splits simp del: upt_Suc)
    (metis append_Cons list.collapse)

text \<open>A \<open>for (hi = apr_hash_first(p, ht); hi; hi = apr_hash_next(hi))\<close> loop whose body does not change
  the table.\<close>

function hash_for ::
  "('v apr_hash_entry \<Rightarrow> 's \<Rightarrow> 's) \<Rightarrow> 'v apr_hash \<Rightarrow> 'v apr_hash_index option \<Rightarrow> 's \<Rightarrow> 's" where
  "hash_for body ht None s = s"
| "hash_for body ht (Some hi) s = hash_for body ht (apr_hash_next ht hi) (body (hd (hi_this hi)) s)"
  by pat_completeness auto
termination
  by (relation "measure (\<lambda>(body, ht, hi, s). length (hi_todo ht hi))")
    (simp_all add: apr_hash_next_todo, simp add: hi_todo_def)

section \<open>Operations\<close>

definition expand_array :: "'v apr_hash \<Rightarrow> 'v apr_hash" where
  "expand_array ht =
     (let new_max = hmax ht * 2 + 1;
          new_array = hash_for
            (\<lambda>e arr. let i = unat (hhash e AND new_max) in arr[i := e # arr ! i])
            ht (apr_hash_first ht) (alloc_array new_max)
      in ht\<lparr>harray := new_array, hmax := new_max\<rparr>)"

definition hash_match :: "u32 \<Rightarrow> byte list \<Rightarrow> int \<Rightarrow> 'v apr_hash_entry \<Rightarrow> bool" where
  "hash_match hash key klen he \<longleftrightarrow>
     hhash he = hash \<and> hklen he = klen \<and> take (nat klen) (hkey he) = take (nat klen) key"

definition find_entry ::
  "'v apr_hash \<Rightarrow> byte list \<Rightarrow> int \<Rightarrow> 'v option \<Rightarrow> 'v apr_hash \<times> nat \<times> nat" where
  "find_entry ht key klen0 val =
     (let (hash, klen) = hash_func ht key klen0;
          b = unat (hash AND hmax ht);
          chain = harray ht ! b;
          pos = length (takeWhile (\<lambda>he. \<not> hash_match hash key klen he) chain)
      in if pos < length chain \<or> val = None then (ht, b, pos)
         else (ht\<lparr>hfree := tl (hfree ht),
                  harray := (harray ht)[b := chain @ [\<lparr>hhash = hash, hkey = key, hklen = klen, hval = val\<rparr>]],
                  hcount := hcount ht + 1\<rparr>, b, pos))"

definition apr_hash_get :: "'v apr_hash \<Rightarrow> byte list \<Rightarrow> int \<Rightarrow> 'v option" where
  "apr_hash_get ht key klen =
     (let (ht', b, pos) = find_entry ht key klen None; chain = harray ht' ! b
      in if pos < length chain then hval (chain ! pos) else None)"

definition apr_hash_set :: "'v apr_hash \<Rightarrow> byte list \<Rightarrow> int \<Rightarrow> 'v option \<Rightarrow> 'v apr_hash" where
  "apr_hash_set ht key klen val =
     (let (ht1, b, pos) = find_entry ht key klen val; chain = harray ht1 ! b
      in if pos < length chain then
           if val = None then
             ht1\<lparr>harray := (harray ht1)[b := take pos chain @ drop (pos + 1) chain],
                 hfree := chain ! pos # hfree ht1,
                 hcount := hcount ht1 - 1\<rparr>
           else
             let ht2 = ht1\<lparr>harray := (harray ht1)[b := chain[pos := (chain ! pos)\<lparr>hval := val\<rparr>]]\<rparr>
             in if hcount ht2 > hmax ht2 then expand_array ht2 else ht2
         else ht1)"

definition apr_hash_count :: "'v apr_hash \<Rightarrow> u32" where
  "apr_hash_count ht = hcount ht"

text \<open>\<open>apr_hash_copy\<close> copies every chain entry by entry.\<close>

definition apr_hash_copy :: "'v apr_hash \<Rightarrow> 'v apr_hash" where
  "apr_hash_copy orig =
     \<lparr>harray = map (\<lambda>i. map (\<lambda>e. \<lparr>hhash = hhash e, hkey = hkey e, hklen = hklen e, hval = hval e\<rparr>)
                 (harray orig ! i)) [0..<Suc (unat (hmax orig))],
      hcount = hcount orig, hmax = hmax orig, hash_func = hash_func orig, hfree = []\<rparr>"

text \<open>
  \<open>apr_hash_clear\<close> deletes the entry at hand while it iterates: the iterator already holds the pointer
  to the next entry of the chain, which stays in the table.
\<close>

lemma find_entry_None: "fst (find_entry ht key klen None) = ht"
  by (simp add: find_entry_def Let_def split: prod.split)

lemma nth_update_if: "i < length xs \<Longrightarrow> xs[a := x] ! i = (if a = i then x else xs ! i)"
  by (cases "a = i") simp_all

lemma unset_chain_le:
  "length (nth_default [] (harray (apr_hash_set ht key klen None)) i) \<le> length (nth_default [] (harray ht) i) \<and>
   hmax (apr_hash_set ht key klen None) = hmax ht"
  using find_entry_None [of ht key klen]
  by (auto simp: apr_hash_set_def Let_def nth_default_def nth_update_if split: prod.splits)

lemma hash_rest_unset_le:
  "length (hash_rest (apr_hash_set ht key klen None) i) \<le> length (hash_rest ht i)"
  using unset_chain_le [of ht key klen]
  by (simp add: hash_rest_def length_concat comp_def sum_list_mono del: upt_Suc)

function hash_clear_loop :: "'v apr_hash \<Rightarrow> 'v apr_hash_index option \<Rightarrow> 'v apr_hash" where
  "hash_clear_loop ht None = ht"
| "hash_clear_loop ht (Some hi) =
     (let e = hd (hi_this hi); ht' = apr_hash_set ht (hkey e) (hklen e) None
      in hash_clear_loop ht' (apr_hash_next ht' hi))"
  by pat_completeness auto
termination
proof (relation "measure (\<lambda>(ht, hi). length (hi_todo ht hi))", simp_all, goal_cases)
  case (1 ht hi)
  have "length (hi_todo (apr_hash_set ht k n None) (apr_hash_next (apr_hash_set ht k n None) hi))
      < length (hi_todo ht (Some hi))" for k n
    using hash_rest_unset_le [of ht k n "hi_index hi"]
    by (simp add: apr_hash_next_todo) (simp add: hi_todo_def)
  then show ?case .
qed

definition apr_hash_clear :: "'v apr_hash \<Rightarrow> 'v apr_hash" where
  "apr_hash_clear ht = hash_clear_loop ht (apr_hash_first ht)"

text \<open>
  \<open>apr_hash_merge\<close>: the entries of \<open>base\<close> go to the front of their chains, then those of \<open>overlay\<close>
  replace or join them. \<open>merger\<close> NULL is \<open>None\<close>; its pool and \<open>data\<close> arguments are part of the function.
\<close>

definition hash_chains :: "'v apr_hash \<Rightarrow> 'v apr_hash_entry list" where
  "hash_chains ht = concat (map (\<lambda>k. harray ht ! k) [0..<Suc (unat (hmax ht))])"

definition merge_base :: "'v apr_hash_entry \<Rightarrow> 'v apr_hash \<Rightarrow> 'v apr_hash" where
  "merge_base iter res =
     (let i = unat (hhash iter AND hmax res)
      in res\<lparr>harray := (harray res)[i := iter # harray res ! i]\<rparr>)"

definition merge_overlay ::
  "(byte list \<Rightarrow> int \<Rightarrow> 'v option \<Rightarrow> 'v option \<Rightarrow> 'v option) option \<Rightarrow>
   'v apr_hash_entry \<Rightarrow> 'v apr_hash \<Rightarrow> 'v apr_hash" where
  "merge_overlay merger iter res =
     (let i = unat (hhash iter AND hmax res); chain = harray res ! i;
          pos = length (takeWhile (\<lambda>ent. \<not> (hklen ent = hklen iter \<and>
                  take (nat (hklen iter)) (hkey ent) = take (nat (hklen iter)) (hkey iter))) chain)
      in if pos < length chain then
           let ent = chain ! pos;
               v = (case merger of Some m \<Rightarrow> m (hkey iter) (hklen iter) (hval iter) (hval ent)
                    | None \<Rightarrow> hval iter)
           in res\<lparr>harray := (harray res)[i := chain[pos := ent\<lparr>hval := v\<rparr>]]\<rparr>
         else res\<lparr>harray := (harray res)[i := iter # chain], hcount := hcount res + 1\<rparr>)"

definition apr_hash_merge ::
  "'v apr_hash \<Rightarrow> 'v apr_hash \<Rightarrow>
   (byte list \<Rightarrow> int \<Rightarrow> 'v option \<Rightarrow> 'v option \<Rightarrow> 'v option) option \<Rightarrow> 'v apr_hash" where
  "apr_hash_merge overlay base merger =
     (let m = (if hmax overlay > hmax base then hmax overlay else hmax base);
          m' = (if hcount base + hcount overlay > m then m * 2 + 1 else m);
          res = \<lparr>harray = alloc_array m', hcount = hcount base, hmax = m',
                 hash_func = hash_func base, hfree = []\<rparr>
      in fold (merge_overlay merger) (hash_chains overlay)
           (fold merge_base (hash_chains base) res))"

definition apr_hash_overlay :: "'v apr_hash \<Rightarrow> 'v apr_hash \<Rightarrow> 'v apr_hash" where
  "apr_hash_overlay overlay base = apr_hash_merge overlay base None"

end
