(* ===== verification/AprHashCorrect.thy ===== *)
theory AprHashCorrect
  imports AprHash
begin

text \<open>
  Correctness of the hash tables: the invariant \<open>hash_wf\<close> (every entry in the chain its hash selects,
  keys different, the count right), kept by every operation; lookups after set, delete, growth, clear,
  copy and merge; the iteration. The table is an instance of the contract of a store with a limited
  number of bindings.
\<close>

section \<open>The invariant\<close>

definition ebytes :: "'v apr_hash_entry \<Rightarrow> byte list" where
  "ebytes e = take (nat (hklen e)) (hkey e)"

definition key_ok :: "byte list \<Rightarrow> int \<Rightarrow> bool" where
  "key_ok key klen \<longleftrightarrow> klen = APR_HASH_KEY_STRING \<or> (0 \<le> klen \<and> klen \<le> int (length key))"

text \<open>The bytes a key and its length stand for.\<close>

definition resolve :: "byte list \<Rightarrow> int \<Rightarrow> byte list" where
  "resolve key klen =
     (if klen = APR_HASH_KEY_STRING then takeWhile (\<lambda>p. p \<noteq> 0) key else take (nat klen) key)"

text \<open>What the documentation of \<open>apr_hashfunc_t\<close> asks of a hash function: it depends on the bytes of the
  key only and replaces the length of a string key by the real one.\<close>

definition hashfunc_ok :: "(byte list \<Rightarrow> int \<Rightarrow> u32 \<times> int) \<Rightarrow> bool" where
  "hashfunc_ok f \<longleftrightarrow> (\<forall>key klen. key_ok key klen \<longrightarrow>
     f key klen = (fst (f (resolve key klen) (int (length (resolve key klen)))), int (length (resolve key klen))))"

abbreviation bytes_hash :: "(byte list \<Rightarrow> int \<Rightarrow> u32 \<times> int) \<Rightarrow> byte list \<Rightarrow> u32" where
  "bytes_hash f k \<equiv> fst (f k (int (length k)))"

definition entry_good :: "(byte list \<Rightarrow> int \<Rightarrow> u32 \<times> int) \<Rightarrow> 'v apr_hash_entry \<Rightarrow> bool" where
  "entry_good f e \<longleftrightarrow> 0 \<le> hklen e \<and> nat (hklen e) \<le> length (hkey e) \<and> hhash e = bytes_hash f (ebytes e)"

abbreviation slot :: "u32 \<Rightarrow> 'v apr_hash_entry \<Rightarrow> nat" where
  "slot m e \<equiv> unat (hhash e AND m)"

abbreviation hents :: "'v apr_hash \<Rightarrow> 'v apr_hash_entry list" where
  "hents ht \<equiv> concat (harray ht)"

definition chains_ok :: "u32 \<Rightarrow> 'v apr_hash_entry list list \<Rightarrow> bool" where
  "chains_ok m arr \<longleftrightarrow> (\<exists>n \<le> 31. unat m + 1 = 2 ^ n) \<and> length arr = unat m + 1 \<and>
     (\<forall>b < length arr. \<forall>e \<in> set (arr ! b). slot m e = b)"

definition hash_wf :: "'v apr_hash \<Rightarrow> bool" where
  "hash_wf ht \<longleftrightarrow> hashfunc_ok (hash_func ht) \<and> chains_ok (hmax ht) (harray ht) \<and>
     list_all (entry_good (hash_func ht)) (hents ht) \<and> distinct (map ebytes (hents ht)) \<and>
     unat (hcount ht) = length (hents ht)"

definition hlookup :: "'v apr_hash \<Rightarrow> byte list \<Rightarrow> 'v apr_hash_entry option" where
  "hlookup ht k = map_of (map (\<lambda>e. (ebytes e, e)) (hents ht)) k"

lemma hashfunc_default_ok: "hashfunc_ok apr_hashfunc_default"
  by (auto simp: hashfunc_ok_def apr_hashfunc_default_def resolve_def key_ok_def Let_def
      APR_HASH_KEY_STRING_def min_def nat_le_iff)

lemma resolve_prefix: "key_ok key klen \<Longrightarrow> take (length (resolve key klen)) key = resolve key klen"
  by (auto simp: resolve_def key_ok_def min_def takeWhile_eq_take [symmetric])

lemma resolve_bytes [simp]: "resolve k (int (length k)) = k" "key_ok k (int (length k))"
  by (simp_all add: resolve_def key_ok_def APR_HASH_KEY_STRING_def)

lemma and_less: "unat (h AND m :: u32) < Suc (unat m)"
  using word_and_le1 [of h m] by (simp add: word_le_nat_alt less_Suc_eq_le)

lemma in_chain: "b < length arr \<Longrightarrow> e \<in> set (arr ! b) \<Longrightarrow> e \<in> set (concat arr)"
  using nth_mem by fastforce

lemma in_some_chain: "e \<in> set (concat arr) \<Longrightarrow> \<exists>b < length arr. e \<in> set (arr ! b)"
  by (metis UN_E in_set_conv_nth set_concat)

lemma entry_good_len: "entry_good f e \<Longrightarrow> hklen e = int (length (ebytes e))"
  by (auto simp: entry_good_def ebytes_def)

lemma hlookup_Some:
  assumes "distinct (map ebytes (hents ht))"
  shows "hlookup ht k = Some e \<longleftrightarrow> e \<in> set (hents ht) \<and> ebytes e = k"
proof -
  have "distinct (map fst (map (\<lambda>e. (ebytes e, e)) (hents ht)))" using assms by (simp add: comp_def)
  then show ?thesis unfolding hlookup_def by (auto simp: map_of_eq_Some_iff)
qed

section \<open>Searching\<close>

lemma first_match:
  "pos = length (takeWhile (\<lambda>x. \<not> P x) xs) \<Longrightarrow>
   (pos < length xs \<longrightarrow> P (xs ! pos)) \<and> (\<not> pos < length xs \<longrightarrow> (\<forall>x \<in> set xs. \<not> P x)) \<and> pos \<le> length xs"
  using nth_length_takeWhile [of "\<lambda>x. \<not> P x" xs] length_takeWhile_le [of "\<lambda>x. \<not> P x" xs]
  by (auto simp: not_less) (metis length_takeWhile_le le_antisym takeWhile_eq_all_conv takeWhile_eq_take take_all_iff)

lemma chain_match:
  assumes wf: "hash_wf ht" and ok: "key_ok key klen"
    and k: "k = resolve key klen" and f: "hash_func ht key klen = (h, kl)"
    and b: "b = unat (h AND hmax ht)"
  shows "b < length (harray ht)" and "h = bytes_hash (hash_func ht) k" and "kl = int (length k)"
    and "e \<in> set (harray ht ! b) \<Longrightarrow> hash_match h key kl e \<longleftrightarrow> ebytes e = k"
    and "e \<in> set (hents ht) \<Longrightarrow> ebytes e = k \<Longrightarrow> e \<in> set (harray ht ! b)"
proof -
  have fo: "hashfunc_ok (hash_func ht)" and ch: "chains_ok (hmax ht) (harray ht)"
    and good: "\<And>e. e \<in> set (hents ht) \<Longrightarrow> entry_good (hash_func ht) e"
    using wf by (auto simp: hash_wf_def list_all_iff)
  show b': "b < length (harray ht)"
    using ch by (simp add: b chains_ok_def and_less)
  have "hash_func ht key klen = (bytes_hash (hash_func ht) k, int (length k))"
    using fo ok unfolding hashfunc_ok_def k by blast
  then show h: "h = bytes_hash (hash_func ht) k" and kl: "kl = int (length k)" using f by auto
  show "hash_match h key kl e \<longleftrightarrow> ebytes e = k" if "e \<in> set (harray ht ! b)"
  proof -
    have g: "entry_good (hash_func ht) e" using good that b' by (blast intro: in_chain)
    have "take (length k) key = k" using resolve_prefix [OF ok] k by simp
    then have "hash_match h key kl e \<longleftrightarrow> hhash e = h \<and> hklen e = int (length k) \<and> ebytes e = k"
      by (auto simp: hash_match_def kl ebytes_def)
    moreover have "hhash e = h \<and> hklen e = int (length k)" if "ebytes e = k"
      using g entry_good_len [OF g] that h by (simp add: entry_good_def)
    ultimately show ?thesis by blast
  qed
  show "e \<in> set (harray ht ! b)" if "e \<in> set (hents ht)" "ebytes e = k"
  proof -
    from in_some_chain [OF that(1)] obtain c where c: "c < length (harray ht)" "e \<in> set (harray ht ! c)"
      by blast
    then have "slot (hmax ht) e = c" using ch by (simp add: chains_ok_def)
    moreover have "hhash e = h" using good [OF that(1)] that(2) h by (simp add: entry_good_def)
    ultimately show ?thesis using c(2) by (simp add: b)
  qed
qed

lemma find_entry_spec:
  assumes wf: "hash_wf ht" and ok: "key_ok key klen"
    and k: "k = resolve key klen" and f: "hash_func ht key klen = (h, kl)"
    and b: "b = unat (h AND hmax ht)" and chain: "chain = harray ht ! b"
    and pos: "pos = length (takeWhile (\<lambda>he. \<not> hash_match h key kl he) chain)"
  shows "hlookup ht k = (if pos < length chain then Some (chain ! pos) else None)"
proof -
  note m = chain_match [OF wf ok k f b] and p = first_match [OF pos]
  have d: "distinct (map ebytes (hents ht))" using wf by (simp add: hash_wf_def)
  show ?thesis
  proof (cases "pos < length chain")
    case True
    then have "ebytes (chain ! pos) = k" using p m(4) chain by simp
    moreover have "chain ! pos \<in> set (hents ht)" using True m(1) chain by (auto intro: in_chain simp del: set_concat)
    ultimately show ?thesis using True hlookup_Some [OF d] by simp
  next
    case False
    then have "\<forall>e \<in> set (hents ht). ebytes e \<noteq> k" using p m(4,5) chain by blast
    then have "hlookup ht k = None" using hlookup_Some [OF d, of k] by (metis not_None_eq)
    then show ?thesis using False by simp
  qed
qed

lemma apr_hash_get_eq:
  assumes "hash_wf ht" and "key_ok key klen"
  shows "apr_hash_get ht key klen = Option.bind (hlookup ht (resolve key klen)) hval"
proof -
  obtain h kl where f: "hash_func ht key klen = (h, kl)" by fastforce
  show ?thesis
    using find_entry_spec [OF assms refl f refl refl refl] f
    by (simp add: apr_hash_get_def find_entry_def Let_def)
qed

section \<open>Changing one chain\<close>

lemma mset_concat_update:
  "b < length arr \<Longrightarrow> mset (concat (arr[b := c])) + mset (arr ! b) = mset (concat arr) + mset c"
proof -
  assume b: "b < length arr"
  have "concat arr = concat (take b arr) @ arr ! b @ concat (drop (Suc b) arr)"
    using id_take_nth_drop [OF b] by (metis concat.simps(2) concat_append)
  moreover have "concat (arr[b := c]) = concat (take b arr) @ c @ concat (drop (Suc b) arr)"
    using b by (simp add: upd_conv_take_nth_drop)
  ultimately show ?thesis by simp
qed

lemma chains_ok_update:
  "chains_ok m arr \<Longrightarrow> b < length arr \<Longrightarrow> \<forall>e \<in> set c. slot m e = b \<Longrightarrow> chains_ok m (arr[b := c])"
  by (auto simp: chains_ok_def nth_list_update)

text \<open>A table with chains in order is well formed when its entries are, in any order, a list of good
  entries with different keys, and it is looked up like this list.\<close>

abbreviation keyed :: "'v apr_hash_entry list \<Rightarrow> (byte list \<times> 'v apr_hash_entry) list" where
  "keyed es \<equiv> map (\<lambda>e. (ebytes e, e)) es"

lemma hash_wf_perm:
  assumes "mset (hents ht) = mset xs" and "distinct (map ebytes xs)" and "list_all (entry_good (hash_func ht)) xs"
    and "hashfunc_ok (hash_func ht)" and "chains_ok (hmax ht) (harray ht)" and "unat (hcount ht) = length xs"
  shows "hash_wf ht \<and> hlookup ht = map_of (keyed xs)"
proof -
  have s: "set (hents ht) = set xs" using assms(1) by (rule mset_eq_setD)
  have "mset (map ebytes (hents ht)) = mset (map ebytes xs)" using assms(1) by simp
  then have d: "distinct (map ebytes (hents ht))" using assms(2) mset_eq_imp_distinct_iff by blast
  have "map_of (keyed (hents ht)) = map_of (keyed xs)"
    using d assms(2) s by (subst map_of_inject_set) (simp_all add: comp_def del: set_concat)
  moreover have "length (hents ht) = length xs" using assms(1) by (rule mset_eq_length)
  ultimately show ?thesis
    using assms d s by (auto simp: hash_wf_def hlookup_def list_all_iff fun_eq_iff simp del: set_concat)
qed

lemma insert_entry:
  assumes wf: "hash_wf ht" and e: "entry_good (hash_func ht) e" and new: "hlookup ht (ebytes e) = None"
    and b: "b = slot (hmax ht) e" and c: "mset c = add_mset e (mset (harray ht ! b))"
    and small: "length (hents ht) < 2 ^ 32 - 1"
    and ht': "ht' = ht\<lparr>hfree := fr, harray := (harray ht)[b := c], hcount := hcount ht + 1\<rparr>"
  shows "hash_wf ht' \<and> length (hents ht') = Suc (length (hents ht)) \<and>
    hlookup ht' = (hlookup ht)(ebytes e \<mapsto> e)"
proof -
  have ch: "chains_ok (hmax ht) (harray ht)" and d: "distinct (map ebytes (hents ht))"
    and cnt: "unat (hcount ht) = length (hents ht)"
    using wf by (simp_all add: hash_wf_def)
  have bl: "b < length (harray ht)" using ch by (simp add: chains_ok_def b and_less)
  have sc: "set c = insert e (set (harray ht ! b))" by (metis c set_mset_add_mset_insert set_mset_mset)
  have m: "mset (hents ht') = mset (e # hents ht)"
    using mset_concat_update [OF bl, of c] c by (simp add: ht')
  have fresh: "ebytes e \<notin> ebytes ` set (hents ht)"
    using new hlookup_Some [OF d, of "ebytes e"] by (metis imageE not_None_eq)
  have "hash_wf ht' \<and> hlookup ht' = map_of (keyed (e # hents ht))"
  proof (rule hash_wf_perm [OF m])
    show "distinct (map ebytes (e # hents ht))" using d fresh by simp
    show "list_all (entry_good (hash_func ht')) (e # hents ht)" "hashfunc_ok (hash_func ht')"
      using wf e by (simp_all add: hash_wf_def ht')
    show "unat (hcount ht') = length (e # hents ht)"
      using cnt small by (simp add: unat_word_ariths ht')
    show "chains_ok (hmax ht') (harray ht')"
      unfolding ht' using ch bl sc b by (simp, intro chains_ok_update) (auto simp: chains_ok_def)
  qed
  then show ?thesis using mset_eq_length [OF m] by (auto simp: hlookup_def fun_eq_iff)
qed

lemma delete_entry:
  assumes wf: "hash_wf ht" and bl: "b < length (harray ht)" and c: "mset (harray ht ! b) = add_mset e (mset c)"
    and ht': "ht' = ht\<lparr>harray := (harray ht)[b := c], hfree := fr, hcount := hcount ht - 1\<rparr>"
  shows "hash_wf ht' \<and> Suc (length (hents ht')) = length (hents ht) \<and> hlookup ht' = (hlookup ht)(ebytes e := None) \<and>
    mset (hents ht) = add_mset e (mset (hents ht'))"
proof -
  have ch: "chains_ok (hmax ht) (harray ht)" and d: "distinct (map ebytes (hents ht))"
    and cnt: "unat (hcount ht) = length (hents ht)"
    using wf by (simp_all add: hash_wf_def)
  have m: "mset (hents ht) = mset (e # hents ht')"
    using mset_concat_update [OF bl, of c] c by (simp add: ht')
  have "mset (map ebytes (hents ht)) = mset (map ebytes (e # hents ht'))"
    using m by (metis mset_map)
  then have d': "distinct (map ebytes (e # hents ht'))" using d mset_eq_imp_distinct_iff by blast
  have "hlookup ht = map_of (keyed (e # hents ht'))"
    using hash_wf_perm [OF m d'] wf m mset_eq_setD [OF m] mset_eq_length [OF m]
    by (auto simp: hash_wf_def list_all_iff simp del: set_concat)
  then have h: "hlookup ht = (hlookup ht')(ebytes e \<mapsto> e)" by (auto simp: hlookup_def fun_eq_iff)
  have "hlookup ht' (ebytes e) = None" using d' by (auto simp: hlookup_def map_of_eq_None_iff)
  then have "hlookup ht' = (hlookup ht)(ebytes e := None)" using h by (auto simp: fun_eq_iff)
  moreover have "hash_wf ht'"
  proof -
    have "length (hents ht) = Suc (length (hents ht'))" using mset_eq_length [OF m] by simp
    moreover from this have "hcount ht \<noteq> 0" using cnt by auto
    ultimately have "unat (hcount ht') = length (hents ht')" using cnt by (simp add: ht' unat_minus_one)
    moreover have "list_all (entry_good (hash_func ht)) (hents ht')"
      using wf mset_eq_setD [OF m] by (auto simp: hash_wf_def list_all_iff simp del: set_concat)
    moreover have "set c \<subseteq> set (harray ht ! b)" by (metis c set_mset_mset set_mset_add_mset_insert subset_insertI)
    then have "chains_ok (hmax ht) ((harray ht)[b := c])"
      using ch bl by (intro chains_ok_update) (auto simp: chains_ok_def)
    ultimately show ?thesis using wf d' by (simp add: hash_wf_def ht')
  qed
  ultimately show ?thesis using mset_eq_length [OF m] m by simp
qed

lemma replace_entry:
  assumes wf: "hash_wf ht" and bl: "b < length (harray ht)" and p: "pos < length (harray ht ! b)"
    and e: "e = harray ht ! b ! pos"
    and ht': "ht' = ht\<lparr>harray := (harray ht)[b := (harray ht ! b)[pos := e\<lparr>hval := v\<rparr>]]\<rparr>"
  shows "hash_wf ht' \<and> length (hents ht') = length (hents ht) \<and> hlookup ht' = (hlookup ht)(ebytes e \<mapsto> e\<lparr>hval := v\<rparr>)"
proof -
  let ?e' = "e\<lparr>hval := v\<rparr>"
  define c where "c = take pos (harray ht ! b) @ drop (Suc pos) (harray ht ! b)"
  define h1 where "h1 = ht\<lparr>harray := (harray ht)[b := c], hfree := hfree ht, hcount := hcount ht - 1\<rparr>"
  have chain: "harray ht ! b = take pos (harray ht ! b) @ e # drop (Suc pos) (harray ht ! b)"
    unfolding e using id_take_nth_drop [OF p] .
  then have "mset (harray ht ! b) = add_mset e (mset c)"
    unfolding c_def by (metis mset.simps(2) mset_append union_mset_add_mset_right)
  note d = delete_entry [OF wf bl this h1_def]
  have ee: "ebytes ?e' = ebytes e" by (simp add: ebytes_def)
  have g: "entry_good (hash_func h1) ?e'"
    using wf in_chain [OF bl, of e] p e by (auto simp: hash_wf_def list_all_iff entry_good_def ebytes_def h1_def simp del: set_concat)
  have sl: "b = slot (hmax h1) ?e'"
    using wf bl p e by (simp add: hash_wf_def chains_ok_def h1_def)
  have "unat (hcount ht) < 2 ^ LENGTH(32)" by (rule unsigned_less)
  then have "length (hents ht) < 2 ^ 32" using wf by (simp add: hash_wf_def)
  then have small: "length (hents h1) < 2 ^ 32 - 1" using d by simp
  have h2: "ht' = h1\<lparr>hfree := hfree ht, harray := (harray h1)[b := (harray ht ! b)[pos := ?e']], hcount := hcount h1 + 1\<rparr>"
    by (simp add: h1_def ht')
  have "harray h1 ! b = c" using bl by (simp add: h1_def)
  then have "mset ((harray ht ! b)[pos := ?e']) = add_mset ?e' (mset (harray h1 ! b))"
    by (simp add: c_def upd_conv_take_nth_drop [OF p])
  from insert_entry [OF d [THEN conjunct1] g _ sl this small h2] d ee
  show ?thesis by simp
qed

section \<open>Growing the array\<close>

lemma hash_for_fold: "hash_for f ht hi s = fold f (hi_todo ht hi) s"
proof (induction f ht hi s rule: hash_for.induct)
  case (2 body ht hi s)
  then show ?case by (simp add: apr_hash_next_todo) (simp add: hi_todo_def)
qed (simp add: hi_todo_def)

lemma hash_chains_eq: "chains_ok (hmax ht) (harray ht) \<Longrightarrow> hash_chains ht = hents ht"
  unfolding hash_chains_def chains_ok_def by (metis Suc_eq_plus1 map_nth)

lemma hash_rest_0: "chains_ok (hmax ht) (harray ht) \<Longrightarrow> hash_rest ht 0 = hents ht"
proof -
  assume c: "chains_ok (hmax ht) (harray ht)"
  then have "map (nth_default [] (harray ht)) [0..<Suc (unat (hmax ht))] = map (\<lambda>k. harray ht ! k) [0..<Suc (unat (hmax ht))]"
    by (auto simp: chains_ok_def nth_default_def simp del: upt_Suc)
  then show ?thesis using hash_chains_eq [OF c] by (simp only: hash_rest_def hash_chains_def)
qed

lemma first_todo: "chains_ok (hmax ht) (harray ht) \<Longrightarrow> hi_todo ht (apr_hash_first ht) = hents ht"
  by (simp add: apr_hash_first_def apr_hash_next_todo hash_rest_0)

lemma chains_ok_alloc:
  "n \<le> 31 \<Longrightarrow> unat m + 1 = 2 ^ n \<Longrightarrow> chains_ok m (alloc_array m :: 'v apr_hash_entry list list) \<and>
     concat (alloc_array m :: 'v apr_hash_entry list list) = []"
proof -
  assume n: "n \<le> 31" "unat m + 1 = 2 ^ n"
  then have "(2 :: nat) ^ n \<le> 2 ^ 31" by (simp only: power_increasing)
  then have "unat (m + 1) = unat m + 1" using n by (simp add: unat_word_ariths)
  then show ?thesis using n by (auto simp: chains_ok_def alloc_array_def)
qed

definition push_front :: "u32 \<Rightarrow> 'v apr_hash_entry \<Rightarrow> 'v apr_hash_entry list list \<Rightarrow> 'v apr_hash_entry list list" where
  "push_front m e arr = arr[slot m e := e # arr ! slot m e]"

lemma push_all:
  "chains_ok m arr \<Longrightarrow> chains_ok m (fold (push_front m) es arr) \<and>
     mset (concat (fold (push_front m) es arr)) = mset es + mset (concat arr)"
proof (induction es arbitrary: arr)
  case (Cons e es)
  have bl: "slot m e < length arr" using Cons.prems by (simp add: chains_ok_def and_less)
  have "chains_ok m (push_front m e arr)"
    unfolding push_front_def using Cons.prems bl by (intro chains_ok_update) (auto simp: chains_ok_def)
  moreover have "mset (concat (push_front m e arr)) = add_mset e (mset (concat arr))"
    using mset_concat_update [OF bl, of "e # arr ! slot m e"] by (simp add: push_front_def)
  ultimately show ?case using Cons.IH [of "push_front m e arr"] by simp
qed simp

lemma double_max: "n \<le> 30 \<Longrightarrow> unat (m :: u32) + 1 = 2 ^ n \<Longrightarrow> unat (m * 2 + 1) + 1 = 2 ^ Suc n"
proof -
  assume n: "n \<le> 30" "unat m + 1 = 2 ^ n"
  then have "(2 :: nat) ^ n \<le> 2 ^ 30" by (simp only: power_increasing)
  then show ?thesis using n by (simp add: unat_word_ariths)
qed

lemma expand_array_wf:
  fixes ht :: "'v apr_hash"
  assumes wf: "hash_wf ht" and m: "unat (hmax ht) < 2 ^ 31 - 1"
  shows "hash_wf (expand_array ht) \<and> hlookup (expand_array ht) = hlookup ht \<and>
    length (hents (expand_array ht)) = length (hents ht)"
proof -
  let ?m = "hmax ht * 2 + 1"
  have ch: "chains_ok (hmax ht) (harray ht)" using wf by (simp add: hash_wf_def)
  then obtain n where n: "n \<le> 31" "unat (hmax ht) + 1 = 2 ^ n" by (auto simp: chains_ok_def)
  have "n \<noteq> 31" using m n(2) by auto
  then have n30: "n \<le> 30" using n(1) by simp
  note al = chains_ok_alloc [OF _ double_max [OF n30 n(2)], where 'v = 'v]
  have eq: "expand_array ht = ht\<lparr>harray := fold (push_front ?m) (hents ht) (alloc_array ?m), hmax := ?m\<rparr>"
    by (simp add: expand_array_def Let_def hash_for_fold first_todo [OF ch] push_front_def [abs_def])
  have p: "chains_ok ?m (fold (push_front ?m) (hents ht) (alloc_array ?m))"
    "mset (concat (fold (push_front ?m) (hents ht) (alloc_array ?m))) = mset (hents ht)"
    using push_all [of ?m "alloc_array ?m" "hents ht"] al n30 by simp_all
  have "hash_wf (expand_array ht) \<and> hlookup (expand_array ht) = map_of (keyed (hents ht))"
    using wf p by (intro hash_wf_perm) (simp_all add: eq hash_wf_def)
  moreover have "mset (hents (expand_array ht)) = mset (hents ht)" using p by (simp add: eq)
  ultimately show ?thesis using mset_eq_length by (auto simp: hlookup_def fun_eq_iff)
qed

section \<open>Setting and deleting\<close>

lemma maybe_expand_wf:
  assumes "hash_wf ht" and "length (hents ht) \<le> 2 ^ 31 - 1"
    and "ht' = (if hcount ht > hmax ht then expand_array ht else ht)"
  shows "hash_wf ht' \<and> hlookup ht' = hlookup ht \<and> length (hents ht') = length (hents ht) \<and> hash_func ht' = hash_func ht"
proof (cases "hcount ht > hmax ht")
  case True
  then have "unat (hmax ht) < 2 ^ 31 - 1"
    using assms(1,2) by (simp add: hash_wf_def word_less_nat_alt)
  then show ?thesis using expand_array_wf [OF assms(1)] True assms(3) by (simp add: expand_array_def Let_def)
qed (use assms in simp)

lemma apr_hash_set_wf:
  assumes wf: "hash_wf ht" and ok: "key_ok key klen" and small: "length (hents ht) < 2 ^ 31 - 1"
    and k: "k = resolve key klen" and ht': "ht' = apr_hash_set ht key klen (Some v)"
  shows "hash_wf ht' \<and> (\<exists>e. hval e = Some v \<and> hlookup ht' = (hlookup ht)(k \<mapsto> e)) \<and>
    length (hents ht') \<le> Suc (length (hents ht)) \<and> hash_func ht' = hash_func ht"
proof -
  obtain h kl where f: "hash_func ht key klen = (h, kl)" by fastforce
  define b where "b = unat (h AND hmax ht)"
  define chain where "chain = harray ht ! b"
  define pos where "pos = length (takeWhile (\<lambda>he. \<not> hash_match h key kl he) chain)"
  note m = chain_match [OF wf ok k f b_def] and p = first_match [OF pos_def]
    and look = find_entry_spec [OF wf ok k f b_def chain_def pos_def]
  show ?thesis
  proof (cases "pos < length chain")
    case True
    define ht2 where "ht2 = ht\<lparr>harray := (harray ht)[b := (harray ht ! b)[pos := (chain ! pos)\<lparr>hval := Some v\<rparr>]]\<rparr>"
    have ek: "ebytes (chain ! pos) = k" using p True m(4) chain_def by simp
    have "find_entry ht key klen (Some v) = (ht, b, pos)"
      using f True by (simp add: find_entry_def b_def chain_def pos_def Let_def)
    then have eq: "ht' = (if hcount ht2 > hmax ht2 then expand_array ht2 else ht2)"
      using True chain_def by (simp add: ht' apr_hash_set_def ht2_def Let_def)
    have r: "hash_wf ht2 \<and> length (hents ht2) = length (hents ht) \<and>
        hlookup ht2 = (hlookup ht)(ebytes (chain ! pos) \<mapsto> (chain ! pos)\<lparr>hval := Some v\<rparr>)"
      using True chain_def by (intro replace_entry [OF wf m(1) _ _ ht2_def]) simp_all
    have "hash_func ht2 = hash_func ht" by (simp add: ht2_def)
    then show ?thesis using maybe_expand_wf [OF _ _ eq] r small ek by (auto intro!: exI [of _ "(chain ! pos)\<lparr>hval := Some v\<rparr>"])
  next
    case False
    then have pos: "pos = length chain" using p by simp
    define e where "e = \<lparr>hhash = h, hkey = key, hklen = kl, hval = Some v\<rparr>"
    define ht1 where "ht1 = ht\<lparr>hfree := tl (hfree ht), harray := (harray ht)[b := chain @ [e]], hcount := hcount ht + 1\<rparr>"
    have "find_entry ht key klen (Some v) = (ht1, b, pos)"
      using f False by (simp add: find_entry_def b_def chain_def pos_def ht1_def e_def Let_def)
    moreover have hb: "harray ht1 ! b = chain @ [e]" using m(1) by (simp add: ht1_def)
    moreover have "(harray ht1)[b := chain @ [e]] = harray ht1" by (simp add: ht1_def)
    then have "ht1\<lparr>harray := (harray ht1)[b := (chain @ [e])[pos := e\<lparr>hval := Some v\<rparr>]]\<rparr> = ht1"
      using pos by (simp add: e_def)
    ultimately have eq: "ht' = (if hcount ht1 > hmax ht1 then expand_array ht1 else ht1)"
      using pos by (simp add: ht' apr_hash_set_def Let_def)
    have ek: "ebytes e = k" using resolve_prefix [OF ok] m(3) k by (simp add: e_def ebytes_def)
    have "length k \<le> length key" using resolve_prefix [OF ok] k by (metis length_take min.cobounded1)
    then have "entry_good (hash_func ht) e" using ek m(2,3) by (simp add: entry_good_def e_def)
    then have r: "hash_wf ht1 \<and> length (hents ht1) = Suc (length (hents ht)) \<and> hlookup ht1 = (hlookup ht)(ebytes e \<mapsto> e)"
      using look False ek small by (intro insert_entry [OF wf _ _ _ _ _ ht1_def]) (simp_all add: e_def b_def chain_def)
    have "hash_func ht1 = hash_func ht" by (simp add: ht1_def)
    then show ?thesis using maybe_expand_wf [OF _ _ eq] r small ek by (auto intro!: exI [of _ e] simp: e_def)
  qed
qed

lemma apr_hash_unset_wf:
  assumes wf: "hash_wf ht" and ok: "key_ok key klen"
    and k: "k = resolve key klen" and ht': "ht' = apr_hash_set ht key klen None"
  shows "hash_wf ht' \<and> hlookup ht' = (hlookup ht)(k := None) \<and> hash_func ht' = hash_func ht \<and>
    (case hlookup ht k of None \<Rightarrow> ht' = ht | Some e \<Rightarrow> mset (hents ht) = add_mset e (mset (hents ht')))"
proof -
  obtain h kl where f: "hash_func ht key klen = (h, kl)" by fastforce
  define b where "b = unat (h AND hmax ht)"
  define chain where "chain = harray ht ! b"
  define pos where "pos = length (takeWhile (\<lambda>he. \<not> hash_match h key kl he) chain)"
  note m = chain_match [OF wf ok k f b_def] and p = first_match [OF pos_def]
    and look = find_entry_spec [OF wf ok k f b_def chain_def pos_def]
  have fe: "find_entry ht key klen None = (ht, b, pos)"
    using f by (simp add: find_entry_def b_def chain_def pos_def Let_def)
  show ?thesis
  proof (cases "pos < length chain")
    case True
    have ek: "ebytes (chain ! pos) = k" using p True m(4) chain_def by simp
    have eq: "ht' = ht\<lparr>harray := (harray ht)[b := take pos chain @ drop (pos + 1) chain],
        hfree := chain ! pos # hfree ht, hcount := hcount ht - 1\<rparr>"
      using True chain_def fe by (simp add: ht' apr_hash_set_def Let_def)
    have "mset (harray ht ! b) = add_mset (chain ! pos) (mset (take pos chain @ drop (pos + 1) chain))"
      using arg_cong [OF id_take_nth_drop [OF True], of mset] by (simp add: chain_def)
    from delete_entry [OF wf m(1) this eq] show ?thesis using ek look True eq by auto
  next
    case False
    then show ?thesis using fe look wf chain_def by (auto simp: ht' apr_hash_set_def Let_def fun_eq_iff)
  qed
qed

section \<open>Copying and clearing\<close>

lemma apr_hash_copy_eq: "chains_ok (hmax ht) (harray ht) \<Longrightarrow> apr_hash_copy ht = ht\<lparr>hfree := []\<rparr>"
proof -
  assume c: "chains_ok (hmax ht) (harray ht)"
  have "(\<lambda>e. \<lparr>hhash = hhash e, hkey = hkey e, hklen = hklen e, hval = hval e\<rparr>) = (\<lambda>e :: 'a apr_hash_entry. e)"
    by (simp add: fun_eq_iff)
  then have "harray (apr_hash_copy ht) = map (\<lambda>i. harray ht ! i) [0..<Suc (unat (hmax ht))]"
    by (simp add: apr_hash_copy_def)
  also have "\<dots> = harray ht" using c unfolding chains_ok_def by (metis Suc_eq_plus1 map_nth)
  finally show ?thesis by (simp add: apr_hash_copy_def)
qed

lemma hash_wf_free [simp]: "hash_wf (ht\<lparr>hfree := fr\<rparr>) = hash_wf ht" "hlookup (ht\<lparr>hfree := fr\<rparr>) = hlookup ht"
  by (simp_all add: hash_wf_def hlookup_def fun_eq_iff)

lemma good_key:
  "entry_good f e \<Longrightarrow> key_ok (hkey e) (hklen e) \<and> resolve (hkey e) (hklen e) = ebytes e"
  by (auto simp: entry_good_def key_ok_def resolve_def ebytes_def APR_HASH_KEY_STRING_def)

lemma good_hash:
  "hashfunc_ok f \<Longrightarrow> entry_good f e \<Longrightarrow> f (hkey e) (hklen e) = (hhash e, hklen e)"
  using good_key [of f e] entry_good_len [of f e] unfolding hashfunc_ok_def
  by (metis entry_good_def)

text \<open>Deleting an entry of a chain that was passed leaves what is still to be visited alone.\<close>

lemma unset_rest:
  assumes wf: "hash_wf ht" and e: "e \<in> set (hents ht)" and i: "slot (hmax ht) e < i"
  shows "hash_rest (apr_hash_set ht (hkey e) (hklen e) None) i = hash_rest ht i"
proof -
  have "entry_good (hash_func ht) e" "hashfunc_ok (hash_func ht)"
    using wf e by (auto simp: hash_wf_def list_all_iff simp del: set_concat)
  then have f: "hash_func ht (hkey e) (hklen e) = (hhash e, hklen e)" by (simp add: good_hash)
  define b where "b = slot (hmax ht) e"
  obtain pos where fe: "find_entry ht (hkey e) (hklen e) None = (ht, b, pos)"
    using f by (simp add: find_entry_def b_def Let_def)
  have "nth_default [] (harray (apr_hash_set ht (hkey e) (hklen e) None)) j = nth_default [] (harray ht) j"
    if "i \<le> j" for j
    using that i by (simp add: apr_hash_set_def fe Let_def nth_default_def b_def)
  moreover have "hmax (apr_hash_set ht (hkey e) (hklen e) None) = hmax ht" using unset_chain_le by blast
  ultimately show ?thesis by (auto simp: hash_rest_def simp del: upt_Suc intro!: arg_cong [where f = concat])
qed

definition hi_ok :: "'v apr_hash \<Rightarrow> 'v apr_hash_index option \<Rightarrow> bool" where
  "hi_ok ht hi = (case hi of None \<Rightarrow> True
     | Some h \<Rightarrow> hi_this h \<noteq> [] \<and> hi_next h = tl (hi_this h) \<and> (\<forall>e \<in> set (hi_this h). slot (hmax ht) e < hi_index h))"

lemma chains_okD: "chains_ok m arr \<Longrightarrow> b < length arr \<Longrightarrow> e \<in> set (arr ! b) \<Longrightarrow> slot m e = b"
  unfolding chains_ok_def by blast

lemma hash_seek_slots:
  "chains_ok m arr \<Longrightarrow> \<forall>e \<in> set this. slot m e < index \<Longrightarrow> hash_seek arr (unat m) index this = Some (t, i) \<Longrightarrow>
   t \<noteq> [] \<and> (\<forall>e \<in> set t. slot m e < i)"
proof (induction arr "unat m" index this rule: hash_seek.induct)
  case (1 arr index this)
  show ?case
  proof (cases "this = [] \<and> \<not> unat m < index")
    case True
    then have "nth_default [] arr index = arr ! index" using 1(2) by (simp add: nth_default_def chains_ok_def)
    moreover have "index < length arr" using 1(2) True by (auto simp: chains_ok_def)
    then have "\<forall>e \<in> set (arr ! index). slot m e < index + 1" using chains_okD [OF 1(2)] by simp
    ultimately show ?thesis
      using 1(1) [OF _ _ 1(2)] 1(4) True by (subst (asm) (2) hash_seek.simps) auto
  next
    case False
    then show ?thesis using 1(3,4) by (subst (asm) hash_seek.simps) (auto split: if_splits)
  qed
qed

lemma apr_hash_next_ok:
  "chains_ok (hmax ht) (harray ht) \<Longrightarrow> \<forall>e \<in> set (hi_next h). slot (hmax ht) e < hi_index h \<Longrightarrow>
   hi_ok ht (apr_hash_next ht h)"
  using hash_seek_slots [of "hmax ht" "harray ht" "hi_next h" "hi_index h"]
  by (auto simp: apr_hash_next_def hi_ok_def split: option.splits)

lemma clear_loop:
  "hash_wf ht \<Longrightarrow> hi_ok ht hi \<Longrightarrow> mset (hents ht) = mset (hi_todo ht hi) \<Longrightarrow>
   hash_wf (hash_clear_loop ht hi) \<and> hents (hash_clear_loop ht hi) = []"
proof (induction ht hi rule: hash_clear_loop.induct)
  case (1 ht)
  then show ?case by (simp add: hi_todo_def)
next
  case (2 ht hi)
  define e where "e = hd (hi_this hi)"
  define ht' where "ht' = apr_hash_set ht (hkey e) (hklen e) None"
  have todo: "mset (hents ht) = mset (e # hi_next hi @ hash_rest ht (hi_index hi))"
    using 2(4) by (simp add: hi_todo_def e_def)
  then have e: "e \<in> set (hents ht)" by (metis list.set_intros(1) mset_eq_setD)
  then have g: "entry_good (hash_func ht) e" and d: "distinct (map ebytes (hents ht))"
    and ch: "chains_ok (hmax ht) (harray ht)"
    using 2(2) by (auto simp: hash_wf_def list_all_iff simp del: set_concat)
  have sl: "\<forall>x \<in> set (hi_this hi). slot (hmax ht) x < hi_index hi" and ne: "hi_this hi \<noteq> []"
    and nx: "hi_next hi = tl (hi_this hi)"
    using 2(3) by (auto simp: hi_ok_def)
  have "e \<in> set (hi_this hi)" using ne by (simp add: e_def)
  then have r: "hash_rest ht' (hi_index hi) = hash_rest ht (hi_index hi)"
    unfolding ht'_def using sl by (intro unset_rest [OF 2(2) e]) blast
  have "hlookup ht (ebytes e) = Some e" using hlookup_Some [OF d] e by simp
  then have u: "hash_wf ht'" "mset (hents ht) = add_mset e (mset (hents ht'))"
    using apr_hash_unset_wf [OF 2(2) _ refl ht'_def] good_key [OF g] by simp_all
  have mx: "hmax ht' = hmax ht" unfolding ht'_def using unset_chain_le by blast
  have m: "mset (hents ht') = mset (hi_next hi @ hash_rest ht (hi_index hi))"
    using u(2) todo by simp
  have "hi_ok ht' (apr_hash_next ht' hi)"
    using u sl ne nx mx by (intro apr_hash_next_ok) (auto simp: hash_wf_def dest: list.set_sel(2))
  then show ?case
    using 2(1) [OF e_def ht'_def] u m r by (simp add: e_def [symmetric] ht'_def [symmetric] apr_hash_next_todo)
qed

lemma apr_hash_clear_wf:
  assumes "hash_wf ht" shows "hash_wf (apr_hash_clear ht) \<and> hents (apr_hash_clear ht) = []"
proof -
  have ch: "chains_ok (hmax ht) (harray ht)" using assms by (simp add: hash_wf_def)
  have "hi_ok ht (apr_hash_first ht)"
    unfolding apr_hash_first_def by (rule apr_hash_next_ok [OF ch]) simp
  then show ?thesis
    unfolding apr_hash_clear_def by (rule clear_loop [OF assms]) (simp add: first_todo [OF ch])
qed

section \<open>Merging\<close>

definition merged ::
  "(byte list \<Rightarrow> int \<Rightarrow> 'v option \<Rightarrow> 'v option \<Rightarrow> 'v option) option \<Rightarrow>
   'v apr_hash_entry \<Rightarrow> 'v apr_hash_entry option \<Rightarrow> 'v apr_hash_entry" where
  "merged merger iter old = (case old of None \<Rightarrow> iter
     | Some ent \<Rightarrow> ent\<lparr>hval := (case merger of Some m \<Rightarrow> m (hkey iter) (hklen iter) (hval iter) (hval ent)
                        | None \<Rightarrow> hval iter)\<rparr>)"

lemma good_match:
  "entry_good f e \<Longrightarrow> entry_good f ent \<Longrightarrow>
   hash_match (hhash e) (hkey e) (hklen e) ent \<longleftrightarrow>
   hklen ent = hklen e \<and> take (nat (hklen e)) (hkey ent) = take (nat (hklen e)) (hkey e)"
  by (auto simp: hash_match_def entry_good_def ebytes_def)

lemma merge_overlay_wf:
  assumes wf: "hash_wf res" and g: "entry_good (hash_func res) iter"
    and small: "length (hents res) < 2 ^ 32 - 1" and res': "res' = merge_overlay merger iter res"
  shows "hash_wf res' \<and> hlookup res' = (hlookup res)(ebytes iter \<mapsto> merged merger iter (hlookup res (ebytes iter))) \<and>
    length (hents res') \<le> Suc (length (hents res)) \<and> hash_func res' = hash_func res"
proof -
  define b where "b = slot (hmax res) iter"
  define chain where "chain = harray res ! b"
  define pos where "pos = length (takeWhile (\<lambda>he. \<not> hash_match (hhash iter) (hkey iter) (hklen iter) he) chain)"
  have "hashfunc_ok (hash_func res)" using wf by (simp add: hash_wf_def)
  then have f: "hash_func res (hkey iter) (hklen iter) = (hhash iter, hklen iter)" using g by (rule good_hash)
  have ok: "key_ok (hkey iter) (hklen iter)" and k: "ebytes iter = resolve (hkey iter) (hklen iter)"
    using good_key [OF g] by simp_all
  note m = chain_match [OF wf ok k f b_def] and p = first_match [OF pos_def]
    and look = find_entry_spec [OF wf ok k f b_def chain_def pos_def]
  have gc: "entry_good (hash_func res) ent" if "ent \<in> set chain" for ent
    using wf in_chain [OF m(1), of ent] that by (auto simp: hash_wf_def list_all_iff chain_def simp del: set_concat)
  have "takeWhile (\<lambda>ent. \<not> (hklen ent = hklen iter \<and> take (nat (hklen iter)) (hkey ent) = take (nat (hklen iter)) (hkey iter))) chain
      = takeWhile (\<lambda>he. \<not> hash_match (hhash iter) (hkey iter) (hklen iter) he) chain"
    by (rule takeWhile_cong) (use good_match [OF g gc] in auto)
  then have eq: "res' = (if pos < length chain
      then res\<lparr>harray := (harray res)[b := (harray res ! b)[pos := (chain ! pos)\<lparr>hval := hval (merged merger iter (Some (chain ! pos)))\<rparr>]]\<rparr>
      else res\<lparr>hfree := hfree res, harray := (harray res)[b := iter # chain], hcount := hcount res + 1\<rparr>)"
    by (simp add: res' merge_overlay_def Let_def pos_def b_def chain_def merged_def split: option.split)
  show ?thesis
  proof (cases "pos < length chain")
    case True
    have ek: "ebytes (chain ! pos) = ebytes iter" using p True m(4) chain_def by simp
    have "res' = res\<lparr>harray := (harray res)[b := (harray res ! b)[pos := (chain ! pos)\<lparr>hval := hval (merged merger iter (Some (chain ! pos)))\<rparr>]]\<rparr>"
      using eq True by simp
    from replace_entry [OF wf m(1) _ _ this] True look ek this show ?thesis
      by (simp add: chain_def merged_def)
  next
    case False
    then have "res' = res\<lparr>hfree := hfree res, harray := (harray res)[b := iter # chain], hcount := hcount res + 1\<rparr>"
      using eq by simp
    from insert_entry [OF wf g _ b_def _ small this] False look this show ?thesis
      by (simp add: chain_def merged_def)
  qed
qed

lemma merge_overlays_wf:
  "hash_wf res \<Longrightarrow> list_all (entry_good (hash_func res)) xs \<Longrightarrow> distinct (map ebytes xs) \<Longrightarrow>
   length (hents res) + length xs \<le> 2 ^ 32 - 1 \<Longrightarrow> res' = fold (merge_overlay merger) xs res \<Longrightarrow>
   hash_wf res' \<and> (\<forall>k. hlookup res' k = (case map_of (keyed xs) k of None \<Rightarrow> hlookup res k
     | Some e \<Rightarrow> Some (merged merger e (hlookup res k)))) \<and>
   length (hents res') \<le> length (hents res) + length xs"
proof (induction xs arbitrary: res)
  case (Cons x xs)
  define r1 where "r1 = merge_overlay merger x res"
  have s: "hash_wf r1 \<and> hlookup r1 = (hlookup res)(ebytes x \<mapsto> merged merger x (hlookup res (ebytes x))) \<and>
      length (hents r1) \<le> Suc (length (hents res)) \<and> hash_func r1 = hash_func res"
    using Cons.prems by (intro merge_overlay_wf [OF _ _ _ r1_def]) simp_all
  have "map_of (keyed xs) (ebytes x) = None" using Cons.prems(3) by (auto simp: map_of_eq_None_iff)
  moreover have "res' = fold (merge_overlay merger) xs r1" using Cons.prems(5) by (simp add: r1_def)
  from Cons.IH [OF _ _ _ _ this] Cons.prems s
  have "hash_wf res'" "length (hents res') \<le> length (hents res) + length (x # xs)"
    "\<forall>k. hlookup res' k = (case map_of (keyed xs) k of None \<Rightarrow> hlookup r1 k
       | Some e \<Rightarrow> Some (merged merger e (hlookup r1 k)))"
    by auto
  ultimately show ?case using s by (auto split: option.splits)
qed simp

lemma merge_base_fold:
  "fold merge_base es res = res\<lparr>harray := fold (push_front (hmax res)) es (harray res)\<rparr>"
proof (induction es arbitrary: res)
  case (Cons e es)
  then show ?case by (simp add: merge_base_def push_front_def Let_def)
qed simp

lemma apr_hash_merge_wf:
  assumes o: "hash_wf overlay" and b: "hash_wf base" and hf: "hash_func overlay = hash_func base"
    and small: "length (hents overlay) + length (hents base) \<le> 2 ^ 31 - 1"
    and res: "res = apr_hash_merge overlay base merger"
  shows "hash_wf res \<and> (\<forall>k. hlookup res k = (case hlookup overlay k of None \<Rightarrow> hlookup base k
      | Some e \<Rightarrow> Some (merged merger e (hlookup base k)))) \<and>
    length (hents res) \<le> length (hents overlay) + length (hents base)"
proof -
  define m where "m = (if hmax overlay > hmax base then hmax overlay else hmax base)"
  define m' where "m' = (if hcount base + hcount overlay > m then m * 2 + 1 else m)"
  define r0 :: "'a apr_hash" where "r0 = \<lparr>harray = alloc_array m', hcount = hcount base, hmax = m', hash_func = hash_func base, hfree = []\<rparr>"
  have co: "chains_ok (hmax overlay) (harray overlay)" and cb: "chains_ok (hmax base) (harray base)"
    and cnt: "unat (hcount overlay) = length (hents overlay)" "unat (hcount base) = length (hents base)"
    using o b by (simp_all add: hash_wf_def)
  have "\<exists>n \<le> 31. unat m + 1 = 2 ^ n" using co cb by (simp add: m_def chains_ok_def)
  then obtain n where n: "n \<le> 31" "unat m + 1 = 2 ^ n" by blast
  have "\<exists>n \<le> 31. unat m' + 1 = 2 ^ n"
  proof (cases "hcount base + hcount overlay > m")
    case True
    have "unat (hcount base + hcount overlay) = length (hents overlay) + length (hents base)"
      using small cnt by (simp add: unat_word_ariths)
    then have "unat m < 2 ^ 31 - 1" using True small by (simp add: word_less_nat_alt)
    then have "n \<noteq> 31" using n(2) by auto
    then have "n \<le> 30" using n(1) by simp
    from double_max [OF this n(2)] show ?thesis using True \<open>n \<le> 30\<close> by (auto simp: m'_def intro!: exI [of _ "Suc n"])
  qed (use n in \<open>auto simp: m'_def\<close>)
  then have al: "chains_ok m' (alloc_array m' :: 'a apr_hash_entry list list)"
    "concat (alloc_array m' :: 'a apr_hash_entry list list) = []"
    using chains_ok_alloc [where 'v = 'a] by blast+
  define r1 where "r1 = r0\<lparr>harray := fold (push_front m') (hents base) (harray r0)\<rparr>"
  have p: "chains_ok m' (harray r1)" "mset (hents r1) = mset (hents base)"
    using push_all [OF al(1), of "hents base"] al(2) by (simp_all add: r1_def r0_def)
  have w1: "hash_wf r1 \<and> hlookup r1 = map_of (keyed (hents base))"
    using b p by (intro hash_wf_perm) (simp_all add: r1_def r0_def hash_wf_def)
  have "res = fold (merge_overlay merger) (hents overlay) r1"
    by (simp add: res apr_hash_merge_def Let_def hash_chains_eq [OF co] hash_chains_eq [OF cb]
        merge_base_fold m_def m'_def r0_def r1_def)
  note mo = merge_overlays_wf [OF w1 [THEN conjunct1] _ _ _ this]
  have "length (hents r1) = length (hents base)" using mset_eq_length [OF p(2)] .
  moreover have "list_all (entry_good (hash_func r1)) (hents overlay)" "distinct (map ebytes (hents overlay))"
    using o hf by (simp_all add: hash_wf_def r1_def r0_def)
  moreover have "hlookup r1 = hlookup base" "map_of (keyed (hents overlay)) = hlookup overlay"
    using w1 by (simp_all add: hlookup_def fun_eq_iff)
  ultimately show ?thesis using mo small by (simp split: option.split)
qed

section \<open>The contract of a keyed store\<close>

lemma apr_hash_make_wf:
  assumes "hashfunc_ok f"
  shows "hash_wf (apr_hash_make_custom f :: 'v apr_hash) \<and> hents (apr_hash_make_custom f :: 'v apr_hash) = []"
proof -
  have "chains_ok INITIAL_MAX (alloc_array INITIAL_MAX :: 'v apr_hash_entry list list)"
    "concat (alloc_array INITIAL_MAX :: 'v apr_hash_entry list list) = []"
    using chains_ok_alloc [of 4 INITIAL_MAX, where 'v = 'v] by (simp_all add: INITIAL_MAX_def del: concat_eq_Nil_conv)
  then show ?thesis
    using assms by (simp add: hash_wf_def apr_hash_make_custom_def apr_hash_make_def del: concat_eq_Nil_conv)
qed

lemma hash_new:
  "hash_wf (apr_hash_make :: 'v apr_hash)" "hents (apr_hash_make :: 'v apr_hash) = []"
  "length (hents (apr_hash_make :: 'v apr_hash)) < 2 ^ 31 - 1"
proof -
  have "(apr_hash_make :: 'v apr_hash) = apr_hash_make_custom apr_hashfunc_default"
    by (simp add: apr_hash_make_custom_def apr_hash_make_def)
  then show "hash_wf (apr_hash_make :: 'v apr_hash)" and e: "hents (apr_hash_make :: 'v apr_hash) = []"
    using apr_hash_make_wf [OF hashfunc_default_ok, where 'v = 'v] by (simp_all del: concat_eq_Nil_conv)
  show "length (hents (apr_hash_make :: 'v apr_hash)) < 2 ^ 31 - 1" by (simp only: e) simp
qed

lemma hash_get_set:
  assumes "hash_wf ht" and "length (hents ht) < 2 ^ 31 - 1" and "key_ok key klen" and "key_ok key' klen'"
  shows "apr_hash_get (apr_hash_set ht key klen (Some v)) key' klen' =
    (if resolve key klen = resolve key' klen' then Some v else apr_hash_get ht key' klen')"
  using apr_hash_set_wf [OF assms(1,3,2) refl refl, of v] assms
  by (auto simp: apr_hash_get_eq)

lemma hash_get_unset:
  assumes "hash_wf ht" and "key_ok key klen" and "key_ok key' klen'"
  shows "apr_hash_get (apr_hash_set ht key klen None) key' klen' =
    (if resolve key klen = resolve key' klen' then None else apr_hash_get ht key' klen')"
  using apr_hash_unset_wf [OF assms(1,2) refl refl] assms by (auto simp: apr_hash_get_eq)

interpretation hsh: bounded_store hash_wf "(=)" "\<lambda>ht k. apr_hash_get ht k (int (length k))"
  "\<lambda>ht k v. apr_hash_set ht k (int (length k)) (Some v)" "\<lambda>ht k. apr_hash_set ht k (int (length k)) None"
  "\<lambda>ht. length (hents ht)" "enat (2 ^ 31 - 1)"
proof
  show "equivp ((=) :: byte list \<Rightarrow> byte list \<Rightarrow> bool)" by (rule identity_equivp)
  fix s :: "'a apr_hash" and k k' v
  assume wf: "hash_wf s"
  show "hash_wf (apr_hash_set s k (int (length k)) None)"
    using apr_hash_unset_wf [OF wf _ refl refl] by simp
  show "apr_hash_get (apr_hash_set s k (int (length k)) None) k' (int (length k')) =
      (if k = k' then None else apr_hash_get s k' (int (length k')))"
    using hash_get_unset [OF wf] by simp
  assume "enat (length (hents s)) < enat (2 ^ 31 - 1)"
  then have small: "length (hents s) < 2 ^ 31 - 1" by simp
  note st = apr_hash_set_wf [OF wf resolve_bytes(2) small refl refl]
  show "hash_wf (apr_hash_set s k (int (length k)) (Some v))" using st by blast
  show "length (hents (apr_hash_set s k (int (length k)) (Some v))) \<le> Suc (length (hents s))" using st by blast
  show "apr_hash_get (apr_hash_set s k (int (length k)) (Some v)) k' (int (length k')) =
      (if k = k' then Some v else apr_hash_get s k' (int (length k')))"
    using hash_get_set [OF wf small] by simp
qed

section \<open>Properties\<close>

text \<open>C6: in a well-formed table with fewer than \<open>2^31 - 1\<close> entries, \<open>apr_hash_set\<close> keeps the
  invariant, is seen by \<open>apr_hash_get\<close> of a key with the same bytes, whether the keys are given with
  a length or as NUL-terminated strings, and by no other; setting NULL removes the key. The growth
  of the array that a set may trigger changes no lookup. This holds for every hash function that
  depends on the bytes of the key only.\<close>

theorem hash_store_laws:
  assumes "hash_wf ht" and "length (hents ht) < 2 ^ 31 - 1" and "key_ok key klen" and "key_ok key' klen'"
  shows "hash_wf (apr_hash_set ht key klen v) \<and>
    apr_hash_get (apr_hash_set ht key klen v) key' klen' =
      (if resolve key klen = resolve key' klen' then v else apr_hash_get ht key' klen')"
  using hash_get_set [OF assms] hash_get_unset [OF assms(1,3,4)]
    apr_hash_set_wf [OF assms(1,3,2) refl refl] apr_hash_unset_wf [OF assms(1,3) refl refl]
  by (cases v) auto

theorem hash_store_laws_witness:
  "apr_hash_get (apr_hash_set apr_hash_make (cstr ''key'' @ [0]) APR_HASH_KEY_STRING (Some (7 :: nat)))
     (cstr ''keyword'') 3 = Some 7"
proof -
  from hash_store_laws [OF hash_new(1,3), of "cstr ''key'' @ [0]" APR_HASH_KEY_STRING "cstr ''keyword''" 3 "Some (7 :: nat)"]
  show ?thesis by (simp add: key_ok_def resolve_def APR_HASH_KEY_STRING_def)
qed

text \<open>After loading a list of bindings into a new table, however often its array grew meanwhile,
  a lookup finds the last binding of the key.\<close>

theorem hash_load_lookup:
  assumes "length kvs < 2 ^ 31"
  shows "apr_hash_get (foldl (\<lambda>ht (k, v). apr_hash_set ht k (int (length k)) (Some v)) apr_hash_make kvs)
      k' (int (length k')) =
    (case find (\<lambda>(k, v). k = k') (rev kvs) of Some (k, v) \<Rightarrow> Some v | None \<Rightarrow> None)"
proof -
  note m = hash_new [where 'v = 'a]
  have "enat (length (hents (apr_hash_make :: 'a apr_hash)) + length kvs) \<le> enat (2 ^ 31 - 1)"
    using assms by (simp only: m(2)) simp
  moreover have "apr_hash_get (apr_hash_make :: 'a apr_hash) k' (int (length k')) = None"
    by (simp only: apr_hash_get_eq [OF m(1) resolve_bytes(2)] hlookup_def m(2)) simp
  ultimately show ?thesis
    using hsh.store_list [OF m(1), of kvs k'] by (simp split: option.splits)
qed

theorem hash_load_lookup_witness:
  "apr_hash_get (foldl (\<lambda>ht (k, v). apr_hash_set ht k (int (length k)) (Some v)) apr_hash_make
     [(cstr ''a'', 1 :: nat), (cstr ''b'', 2), (cstr ''a'', 3)]) (cstr ''a'') 1 = Some 3"
  using hash_load_lookup [of "[(cstr ''a'', 1 :: nat), (cstr ''b'', 2), (cstr ''a'', 3)]" "cstr ''a''"] by simp

text \<open>C20: an iteration with \<open>apr_hash_first\<close> and \<open>apr_hash_next\<close> visits every entry exactly once:
  as many as \<open>apr_hash_count\<close> says, with pairwise different keys, and exactly those a lookup finds.\<close>

theorem hash_iteration_complete:
  assumes "hash_wf ht"
  defines "visited \<equiv> rev (hash_for Cons ht (apr_hash_first ht) [])"
  shows "distinct (map ebytes visited) \<and> length visited = unat (apr_hash_count ht) \<and>
    (\<forall>e. e \<in> set visited \<longleftrightarrow> hlookup ht (ebytes e) = Some e)"
proof -
  have "chains_ok (hmax ht) (harray ht)" and d: "distinct (map ebytes (hents ht))"
    using assms(1) by (simp_all add: hash_wf_def)
  then have "visited = hents ht"
    by (simp add: visited_def hash_for_fold first_todo fold_Cons_rev)
  then show ?thesis
    using assms(1) d hlookup_Some [OF d] by (simp add: hash_wf_def apr_hash_count_def del: set_concat)
qed

theorem hash_iteration_complete_witness:
  "length (rev (hash_for Cons (apr_hash_set apr_hash_make (cstr ''k'') 1 (Some True))
     (apr_hash_first (apr_hash_set apr_hash_make (cstr ''k'') 1 (Some True))) [])) = 1"
proof -
  have "hash_wf (apr_hash_set (apr_hash_make :: bool apr_hash) (cstr ''k'') 1 (Some True))"
    using apr_hash_set_wf [OF hash_new(1) _ hash_new(3) refl refl, of "cstr ''k''" 1 True] by (simp add: key_ok_def)
  moreover have "unat (apr_hash_count (apr_hash_set (apr_hash_make :: bool apr_hash) (cstr ''k'') 1 (Some True))) = 1"
    by code_simp
  ultimately show ?thesis using hash_iteration_complete by metis
qed

text \<open>\<open>apr_hash_clear\<close>, which deletes entries while it iterates over them, terminates and leaves a
  well-formed empty table; \<open>apr_hash_copy\<close> gives a table with the same lookups.\<close>

theorem hash_clear_copy:
  assumes "hash_wf ht"
  shows "hash_wf (apr_hash_clear ht) \<and> apr_hash_count (apr_hash_clear ht) = 0 \<and>
    apr_hash_get (apr_hash_clear ht) k (int (length k)) = None \<and>
    hash_wf (apr_hash_copy ht) \<and> apr_hash_count (apr_hash_copy ht) = apr_hash_count ht \<and>
    apr_hash_get (apr_hash_copy ht) k (int (length k)) = apr_hash_get ht k (int (length k))"
proof -
  note c = apr_hash_clear_wf [OF assms]
  then have "unat (hcount (apr_hash_clear ht)) = 0" by (metis hash_wf_def list.size(3))
  moreover have "hlookup (apr_hash_clear ht) k = None" by (simp only: hlookup_def c) simp
  moreover have "apr_hash_copy ht = ht\<lparr>hfree := []\<rparr>"
    using assms by (simp add: apr_hash_copy_eq hash_wf_def)
  ultimately show ?thesis using c assms by (simp add: apr_hash_get_eq apr_hash_count_def unat_eq_zero)
qed

theorem hash_clear_copy_witness:
  "apr_hash_count (apr_hash_clear (apr_hash_make_custom apr_hashfunc_default :: nat apr_hash)) = 0"
  using hash_clear_copy [of "apr_hash_make_custom apr_hashfunc_default :: nat apr_hash" "[]"]
    apr_hash_make_wf [OF hashfunc_default_ok, where 'v = nat] by blast

text \<open>C7: \<open>apr_hash_merge\<close> of two tables with the same hash function gives a well-formed table in which
  a key of one table only has its value, and a key of both has what the merge function makes of the
  overlay's and the base's value, or the overlay's value when there is no merge function.\<close>

theorem hash_merge_lookup:
  assumes "hash_wf overlay" and "hash_wf base" and "hash_func overlay = hash_func base"
    and "length (hents overlay) + length (hents base) \<le> 2 ^ 31 - 1" and "key_ok key klen"
  shows "hash_wf (apr_hash_merge overlay base merger) \<and>
    apr_hash_get (apr_hash_merge overlay base merger) key klen =
      (case hlookup overlay (resolve key klen) of
         None \<Rightarrow> apr_hash_get base key klen
       | Some e \<Rightarrow> (if hlookup base (resolve key klen) = None then hval e
           else case merger of Some m \<Rightarrow> m (hkey e) (hklen e) (hval e) (apr_hash_get base key klen)
             | None \<Rightarrow> hval e))"
  using apr_hash_merge_wf [OF assms(1-4) refl, of merger] assms(2,5)
  by (auto simp: apr_hash_get_eq merged_def split: option.splits)

theorem hash_merge_lookup_witness:
  "apr_hash_get (apr_hash_merge (apr_hash_set apr_hash_make (cstr ''x'') 1 (Some 5))
      (apr_hash_set apr_hash_make (cstr ''x'') 1 (Some 6))
      (Some (\<lambda>key klen h1 h2. Some (the h1 + 10 * the h2 :: nat)))) (cstr ''x'') 1 = Some 65"
proof -
  note m = hash_new [where 'v = nat]
  have ok: "key_ok (cstr ''x'') 1" "resolve (cstr ''x'') 1 = cstr ''x''"
    by (simp_all add: key_ok_def resolve_def APR_HASH_KEY_STRING_def)
  define t where "t v = apr_hash_set (apr_hash_make :: nat apr_hash) (cstr ''x'') 1 (Some v)" for v
  have s: "hash_wf (t v)" "\<exists>e. hval e = Some v \<and> hlookup (t v) (cstr ''x'') = Some e"
    "length (hents (t v)) \<le> 1" "hash_func (t v) = apr_hashfunc_default" for v
    using apr_hash_set_wf [OF m(1) ok(1) m(3) refl refl, of v, unfolded m(2)] ok(2)
    by (auto simp: t_def apr_hash_make_def)
  obtain e1 e2 where e: "hlookup (t 5) (cstr ''x'') = Some e1" "hval e1 = Some 5"
    "hlookup (t 6) (cstr ''x'') = Some e2" "hval e2 = Some 6" using s(2) by metis
  have l: "length (hents (t 5)) + length (hents (t 6)) \<le> 2 ^ 31 - 1" using s(3) [of 5] s(3) [of 6] by simp
  have f: "hash_func (t 5) = hash_func (t 6)" using s(4) by simp
  from hash_merge_lookup [OF s(1) s(1) f l ok(1), of "Some (\<lambda>key klen h1 h2. Some (the h1 + 10 * the h2))"]
  have "apr_hash_get (apr_hash_merge (t 5) (t 6) (Some (\<lambda>key klen h1 h2. Some (the h1 + 10 * the h2)))) (cstr ''x'') 1
      = Some (the (hval e1) + 10 * the (hval e2))"
    unfolding apr_hash_get_eq [OF s(1) ok(1)] ok(2) e(1,3) by simp
  then show ?thesis by (simp only: t_def e) simp
qed

end
