(* ===== verification/AprAllocator.thy ===== *)
theory AprAllocator
  imports Prelude
begin

text \<open>
  The allocator of memory nodes under the pools: \<open>apr_allocator_t\<close> of \<open>apr-1.3.8/memory/unix/apr_pools.c\<close>.

  An address or a \<open>size_t\<close> is a natural number, an \<open>apr_uint32_t\<close> one below \<open>2 ^ 32\<close>; sums and differences wrap around. A node is
  always on one list, so a list of nodes linked by \<open>next\<close> is a list of records; \<open>free_index\<close> is \<open>None\<close> until it is set. The
  address \<open>malloc\<close> would return, \<open>None\<close> for NULL, is an argument of the operations that call it, and the nodes that \<open>free\<close> gives
  back to the system are part of the result. A machine with pointers of eight bytes, where the structure of a node has 40 bytes and
  that of an allocator 200. The operations are the sections of the optional mutex.
\<close>

section \<open>The code\<close>

definition uint32 :: "nat \<Rightarrow> nat" where
  "uint32 x = x mod 2 ^ 32"

definition uint32_minus :: "nat \<Rightarrow> nat \<Rightarrow> nat" where
  "uint32_minus x y = uint32 (x + 2 ^ 32 - y)"

definition BOUNDARY_INDEX :: nat where "BOUNDARY_INDEX = 12"

definition BOUNDARY_SIZE :: nat where "BOUNDARY_SIZE = 2 ^ BOUNDARY_INDEX"

definition MIN_ALLOC :: nat where "MIN_ALLOC = 8192"

definition MAX_INDEX :: nat where "MAX_INDEX = 20"

definition APR_ALLOCATOR_MAX_FREE_UNLIMITED :: nat where
  "APR_ALLOCATOR_MAX_FREE_UNLIMITED = 0"

text \<open>\<open>APR_ALIGN(size, BOUNDARY_SIZE)\<close> on a \<open>size_t\<close> is \<open>(size + 4095) & ~4095\<close>.\<close>

definition align_boundary :: "nat \<Rightarrow> nat" where
  "align_boundary sz = size_t (sz + (BOUNDARY_SIZE - 1)) div BOUNDARY_SIZE * BOUNDARY_SIZE"

record apr_memnode =
  naddr :: nat
  nindex :: nat
  free_index :: "nat option"
  first_avail :: nat
  endp :: nat

definition APR_MEMNODE_T_SIZE :: nat where
  "APR_MEMNODE_T_SIZE = APR_ALIGN_DEFAULT 40"

record apr_allocator =
  max_index :: nat
  max_free_index :: nat
  current_free_index :: nat
  mutex :: "nat option"
  owner :: "nat option"
  free_lists :: "apr_memnode list list"

definition new_allocator :: apr_allocator where
  "new_allocator = \<lparr>max_index = 0, max_free_index = APR_ALLOCATOR_MAX_FREE_UNLIMITED, current_free_index = 0,
     mutex = None, owner = None, free_lists = replicate MAX_INDEX []\<rparr>"

definition apr_allocator_create :: "nat option \<Rightarrow> (nat \<times> apr_allocator) option" where
  "apr_allocator_create mem = map_option (\<lambda>address. (address, new_allocator)) mem"

text \<open>The nodes that are freed, in the order in which they are.\<close>

fun destroy_lists :: "apr_memnode list list \<Rightarrow> nat \<Rightarrow> nat \<Rightarrow> apr_memnode list" where
  "destroy_lists frees i 0 = []"
| "destroy_lists frees i (Suc k) = frees ! i @ destroy_lists frees (i + 1) k"

definition apr_allocator_destroy :: "apr_allocator \<Rightarrow> apr_memnode list" where
  "apr_allocator_destroy a = destroy_lists (free_lists a) 0 MAX_INDEX"

definition apr_allocator_mutex_set :: "apr_allocator \<Rightarrow> nat option \<Rightarrow> apr_allocator" where
  "apr_allocator_mutex_set a m = a\<lparr>mutex := m\<rparr>"

definition apr_allocator_mutex_get :: "apr_allocator \<Rightarrow> nat option" where
  "apr_allocator_mutex_get a = mutex a"

definition apr_allocator_owner_set :: "apr_allocator \<Rightarrow> nat option \<Rightarrow> apr_allocator" where
  "apr_allocator_owner_set a pool = a\<lparr>owner := pool\<rparr>"

definition apr_allocator_owner_get :: "apr_allocator \<Rightarrow> nat option" where
  "apr_allocator_owner_get a = owner a"

text \<open>The limit is computed in 32 bits.\<close>

definition apr_allocator_max_free_set :: "apr_allocator \<Rightarrow> nat \<Rightarrow> apr_allocator" where
  "apr_allocator_max_free_set a in_size =
     (let new_max = uint32 (uint32 in_size + (BOUNDARY_SIZE - 1)) div BOUNDARY_SIZE;
          current = uint32_minus (uint32 (current_free_index a + new_max)) (max_free_index a)
      in a\<lparr>current_free_index := (if current > new_max then new_max else current), max_free_index := new_max\<rparr>)"

text \<open>The walk along the lists: the first one from \<open>i\<close> on that is not empty, or the last.\<close>

function find_list :: "apr_memnode list list \<Rightarrow> nat \<Rightarrow> nat \<Rightarrow> nat" where
  "find_list frees i max_i = (if frees ! i = [] \<and> i < max_i then find_list frees (i + 1) max_i else i)"
  by pat_completeness auto
termination by (relation "measure (\<lambda>(frees, i, max_i). max_i - i)") auto

text \<open>The way back to the highest list in use. \<open>ref\<close> and \<open>max_index\<close> go down together and begin at a positive index.\<close>

function lower_max :: "apr_memnode list list \<Rightarrow> nat \<Rightarrow> nat" where
  "lower_max frees m = (if frees ! (m - 1) = [] \<and> m - 1 > 0 then lower_max frees (m - 1) else m - 1)"
  by pat_completeness auto
termination by (relation "measure snd") auto

declare find_list.simps [simp del] lower_max.simps [simp del]

definition raise_current :: "apr_allocator \<Rightarrow> nat \<Rightarrow> apr_allocator" where
  "raise_current a i =
     (let current = uint32 (current_free_index a + i)
      in a\<lparr>current_free_index := (if current > max_free_index a then max_free_index a else current)\<rparr>)"

definition reset_node :: "apr_memnode \<Rightarrow> apr_memnode" where
  "reset_node node = node\<lparr>first_avail := naddr node + APR_MEMNODE_T_SIZE\<rparr>"

text \<open>The sink: the nodes before the first that is large enough, and that node with those behind it.\<close>

fun sink_search :: "nat \<Rightarrow> apr_memnode list \<Rightarrow> apr_memnode list \<times> apr_memnode list" where
  "sink_search i [] = ([], [])"
| "sink_search i (node # nodes) =
     (if i > nindex node then (case sink_search i nodes of (before, found) \<Rightarrow> (node # before, found))
      else ([], node # nodes))"

definition new_node :: "nat \<Rightarrow> nat \<Rightarrow> nat \<Rightarrow> apr_memnode" where
  "new_node address i sz = \<lparr>naddr = address, nindex = uint32 i, free_index = None,
     first_avail = address + APR_MEMNODE_T_SIZE, endp = address + sz\<rparr>"

definition malloc_node :: "nat option \<Rightarrow> nat \<Rightarrow> nat \<Rightarrow> apr_memnode option" where
  "malloc_node mem i sz = map_option (\<lambda>address. new_node address i sz) mem"

definition node_size :: "nat \<Rightarrow> nat" where
  "node_size in_size =
     (let sz = align_boundary (size_t (in_size + APR_MEMNODE_T_SIZE)) in if sz < MIN_ALLOC then MIN_ALLOC else sz)"

definition allocator_alloc :: "apr_allocator \<Rightarrow> nat \<Rightarrow> nat option \<Rightarrow> apr_allocator \<times> apr_memnode option" where
  "allocator_alloc a in_size mem =
     (if align_boundary (size_t (in_size + APR_MEMNODE_T_SIZE)) < in_size then (a, None)
      else let sz = node_size in_size; i = sz div BOUNDARY_SIZE - 1
       in if i > 2 ^ 32 - 1 then (a, None)
          else if i \<le> max_index a then
            (let frees = free_lists a; j = find_list frees i (max_index a)
             in case frees ! j of
                  [] \<Rightarrow> (a, malloc_node mem i sz)
                | node # nodes \<Rightarrow>
                    (let frees = frees[j := nodes];
                         a = (if nodes = [] \<and> j \<ge> max_index a
                              then a\<lparr>free_lists := frees, max_index := lower_max frees j\<rparr>
                              else a\<lparr>free_lists := frees\<rparr>)
                     in (raise_current a (nindex node), Some (reset_node node))))
          else if free_lists a ! 0 \<noteq> [] then
            (case sink_search i (free_lists a ! 0) of (before, found) \<Rightarrow>
               (case found of
                  [] \<Rightarrow> (a, malloc_node mem i sz)
                | node # nodes \<Rightarrow>
                    (raise_current (a\<lparr>free_lists := (free_lists a)[0 := before @ nodes]\<rparr>) (nindex node), Some (reset_node node))))
          else (a, malloc_node mem i sz))"

text \<open>The nodes given back are walked one by one. The state of the loop: the lists, \<open>max_index\<close>, \<open>current_free_index\<close> and
  \<open>freelist\<close>, the nodes for the system.\<close>

fun free_loop :: "nat \<Rightarrow> apr_memnode list list \<Rightarrow> nat \<Rightarrow> nat \<Rightarrow> apr_memnode list \<Rightarrow> apr_memnode list \<Rightarrow>
    apr_memnode list list \<times> nat \<times> nat \<times> apr_memnode list" where
  "free_loop max_free frees max_i current freelist [] = (frees, max_i, current, freelist)"
| "free_loop max_free frees max_i current freelist (node # nodes) =
     (let i = nindex node
      in if max_free \<noteq> APR_ALLOCATOR_MAX_FREE_UNLIMITED \<and> i > current
         then free_loop max_free frees max_i current (node # freelist) nodes
         else let current' = (if current \<ge> i then current - i else 0)
          in if i < MAX_INDEX
             then free_loop max_free (frees[i := node # frees ! i]) (if frees ! i = [] \<and> i > max_i then i else max_i)
                    current' freelist nodes
             else free_loop max_free (frees[0 := node # frees ! 0]) max_i current' freelist nodes)"

definition allocator_free :: "apr_allocator \<Rightarrow> apr_memnode list \<Rightarrow> apr_allocator \<times> apr_memnode list" where
  "allocator_free a nodes =
     (case free_loop (max_free_index a) (free_lists a) (max_index a) (current_free_index a) [] nodes of
        (frees, max_i, current, freelist) \<Rightarrow>
          (a\<lparr>free_lists := frees, max_index := max_i, current_free_index := current\<rparr>, freelist))"

definition apr_allocator_alloc :: "apr_allocator \<Rightarrow> nat \<Rightarrow> nat option \<Rightarrow> apr_allocator \<times> apr_memnode option" where
  "apr_allocator_alloc a in_size mem = allocator_alloc a in_size mem"

definition apr_allocator_free :: "apr_allocator \<Rightarrow> apr_memnode list \<Rightarrow> apr_allocator \<times> apr_memnode list" where
  "apr_allocator_free a nodes = allocator_free a nodes"

end
