(* ===== verification/AprPools.thy ===== *)
theory AprPools
  imports AprAllocator "HOL-Library.Monad_Syntax"
begin

text \<open>
  Pools: \<open>apr_pool_t\<close> of \<open>apr-1.3.8/memory/unix/apr_pools.c\<close>, in builds without pool debugging.

  A pool is known by the address of its structure. The ring of its nodes is a list that begins with the active node; the last node
  comes before the first. The tree of pools is linked as in the code: every pool has a parent, a first child, the next sibling, and
  the place \<open>ref\<close> that points to it, which is the \<open>child\<close> of its parent or the \<open>sibling\<close> of the pool before it. Functions and data of
  cleanups are numbers; running one is an entry in the history, as is the call of an abort function. An operation is \<open>None\<close> if it follows a
  wild pointer, reads a field that has not been set, or does not return.
\<close>

section \<open>Structures\<close>

datatype ref = In_child nat | In_sibling nat

record cleanup =
  cdata :: nat
  plain_fn :: nat
  child_fn :: nat

record apr_pool =
  parent :: "nat option"
  child :: "nat option"
  sibling :: "nat option"
  pref :: "ref option"
  cleanups :: "cleanup list"
  free_cleanups :: "cleanup list"
  pallocator :: nat
  abort_fn :: "nat option"
  tag :: "nat option"
  ring :: "apr_memnode list"
  self :: nat
  self_first_avail :: nat
  pre_cleanups :: "cleanup list"
  free_pre_cleanups :: "cleanup list"

definition SIZEOF_POOL_T :: nat where
  "SIZEOF_POOL_T = APR_ALIGN_DEFAULT 128"

datatype event = Cleanup nat nat | Child_cleanup nat nat | Abort nat

record world =
  pools :: "nat \<rightharpoonup> apr_pool"
  allocators :: "nat \<rightharpoonup> apr_allocator"
  global_pool :: "nat option"
  pools_initialized :: nat
  freed :: "apr_memnode list"
  history :: "event list"

abbreviation (input) APR_SUCCESS :: int where "APR_SUCCESS \<equiv> 0"
abbreviation (input) APR_ENOMEM :: int where "APR_ENOMEM \<equiv> 12"
abbreviation (input) APR_ENOPOOL :: int where "APR_ENOPOOL \<equiv> 20002"

definition put_pool :: "nat \<Rightarrow> apr_pool \<Rightarrow> world \<Rightarrow> world" where
  "put_pool p pool w = w\<lparr>pools := (pools w)(p \<mapsto> pool)\<rparr>"

definition put_allocator :: "nat \<Rightarrow> apr_allocator \<Rightarrow> world \<Rightarrow> world" where
  "put_allocator x a w = w\<lparr>allocators := (allocators w)(x \<mapsto> a)\<rparr>"

definition log_events :: "event list \<Rightarrow> world \<Rightarrow> world" where
  "log_events es w = w\<lparr>history := history w @ es\<rparr>"

definition call_abort :: "nat option \<Rightarrow> world \<Rightarrow> world" where
  "call_abort f w = (case f of None \<Rightarrow> w | Some f \<Rightarrow> log_events [Abort f] w)"

section \<open>Allocation\<close>

definition node_free_space :: "apr_memnode \<Rightarrow> nat" where
  "node_free_space node = endp node - first_avail node"

definition bump :: "nat \<Rightarrow> apr_memnode \<Rightarrow> apr_memnode" where
  "bump sz node = node\<lparr>first_avail := first_avail node + sz\<rparr>"

definition compute_free_index :: "apr_memnode \<Rightarrow> nat" where
  "compute_free_index node = (align_boundary (endp node - first_avail node + 1) - BOUNDARY_SIZE) div BOUNDARY_SIZE"

text \<open>Where the former active node goes: before the first node behind the new active one that has not more room. The new active
  node, which ends the ring, has the index 0 and stops the walk.\<close>

fun ring_place :: "nat \<Rightarrow> apr_memnode \<Rightarrow> apr_memnode list \<Rightarrow> apr_memnode list option" where
  "ring_place i active [] = Some [active]"
| "ring_place i active (node # nodes) =
     Option.bind (free_index node) (\<lambda>f. if i \<ge> f then Some (active # node # nodes)
       else map_option ((#) node) (ring_place i active nodes))"

definition make_active :: "nat \<Rightarrow> apr_memnode \<Rightarrow> apr_memnode \<Rightarrow> apr_memnode list \<Rightarrow> apr_memnode list option" where
  "make_active sz node active rest =
     (let i = compute_free_index active
      in map_option ((#) (bump sz (node\<lparr>free_index := Some 0\<rparr>))) (ring_place i (active\<lparr>free_index := Some (uint32 i)\<rparr>) rest))"

definition ring_palloc :: "apr_memnode list \<Rightarrow> apr_allocator \<Rightarrow> nat \<Rightarrow> nat option \<Rightarrow>
    (apr_memnode list \<times> apr_allocator \<times> nat option) option" where
  "ring_palloc nodes a in_size mem =
     (let sz = APR_ALIGN_DEFAULT in_size
      in if sz < in_size then Some (nodes, a, None)
         else case nodes of
           [] \<Rightarrow> None
         | active # rest \<Rightarrow>
             if sz \<le> node_free_space active then Some (bump sz active # rest, a, Some (first_avail active))
             else let node = (case rest of [] \<Rightarrow> active | n # _ \<Rightarrow> n)
               in if sz \<le> node_free_space node
                  then map_option (\<lambda>nodes'. (nodes', a, Some (first_avail node))) (make_active sz node active (tl rest))
                  else (case allocator_alloc a sz mem of
                      (a', None) \<Rightarrow> Some (nodes, a', None)
                    | (a', Some node) \<Rightarrow>
                        map_option (\<lambda>nodes'. (nodes', a', Some (first_avail node))) (make_active sz node active rest)))"

definition apr_palloc :: "nat \<Rightarrow> nat \<Rightarrow> nat option \<Rightarrow> world \<Rightarrow> (world \<times> nat option) option" where
  "apr_palloc p in_size mem w = do {
     pool \<leftarrow> pools w p;
     a \<leftarrow> allocators w (pallocator pool);
     (nodes, a', res) \<leftarrow> ring_palloc (ring pool) a in_size mem;
     let w' = put_allocator (pallocator pool) a' (put_pool p (pool\<lparr>ring := nodes\<rparr>) w);
     Some (if res = None then call_abort (abort_fn pool) w' else w', res)
   }"

section \<open>Creation\<close>

definition new_pool :: "apr_memnode \<Rightarrow> nat \<Rightarrow> nat option \<Rightarrow> apr_pool" where
  "new_pool node x abort =
     \<lparr>parent = None, child = None, sibling = None, pref = None, cleanups = [], free_cleanups = [], pallocator = x, abort_fn = abort,
      tag = None, ring = [node\<lparr>first_avail := first_avail node + SIZEOF_POOL_T\<rparr>], self = naddr node,
      self_first_avail = first_avail node + SIZEOF_POOL_T, pre_cleanups = [], free_pre_cleanups = []\<rparr>"

text \<open>The new pool becomes the first child of its parent.\<close>

definition link_child :: "nat \<Rightarrow> apr_pool \<Rightarrow> nat \<Rightarrow> world \<Rightarrow> world option" where
  "link_child p pool q w = do {
     par \<leftarrow> pools w q;
     let w1 = put_pool p (pool\<lparr>parent := Some q, sibling := child par, pref := Some (In_child q)\<rparr>) w;
     w2 \<leftarrow> (case child par of
              None \<Rightarrow> Some w1
            | Some s \<Rightarrow> map_option (\<lambda>sib. put_pool s (sib\<lparr>pref := Some (In_sibling p)\<rparr>) w1) (pools w1 s));
     par2 \<leftarrow> pools w2 q;
     Some (put_pool q (par2\<lparr>child := Some p\<rparr>) w2)
   }"

definition apr_pool_create_ex :: "nat option \<Rightarrow> nat option \<Rightarrow> nat option \<Rightarrow> nat option \<Rightarrow> world \<Rightarrow> (world \<times> int \<times> nat option) option" where
  "apr_pool_create_ex par abort alloc mem w = do {
     let par = (if par = None then global_pool w else par);
     abort \<leftarrow> (case par of Some q \<Rightarrow> if abort = None then map_option abort_fn (pools w q) else Some abort | None \<Rightarrow> Some abort);
     x \<leftarrow> (case alloc of Some x \<Rightarrow> Some x | None \<Rightarrow> Option.bind par (\<lambda>q. map_option pallocator (pools w q)));
     a \<leftarrow> allocators w x;
     (case allocator_alloc a (MIN_ALLOC - APR_MEMNODE_T_SIZE) mem of
        (a', None) \<Rightarrow> Some (call_abort abort (put_allocator x a' w), APR_ENOMEM, None)
      | (a', Some node) \<Rightarrow>
          let p = first_avail node; pool = new_pool node x abort; w1 = put_allocator x a' w
          in map_option (\<lambda>w2. (w2, APR_SUCCESS, Some p))
               (case par of None \<Rightarrow> Some (put_pool p pool w1) | Some q \<Rightarrow> link_child p pool q w1))
   }"

definition apr_pool_create_unmanaged_ex ::
    "nat option \<Rightarrow> nat option \<Rightarrow> nat option \<Rightarrow> nat option \<Rightarrow> world \<Rightarrow> (world \<times> int \<times> nat option) option" where
  "apr_pool_create_unmanaged_ex abort alloc amem mem w =
     (if pools_initialized w = 0 then Some (w, APR_ENOPOOL, None)
      else case (case alloc of Some x \<Rightarrow> Some (x, w) | None \<Rightarrow> map_option (\<lambda>x. (x, put_allocator x new_allocator w)) amem) of
          None \<Rightarrow> Some (call_abort abort w, APR_ENOMEM, None)
        | Some (x, w) \<Rightarrow> do {
            a \<leftarrow> allocators w x;
            Some (case allocator_alloc a (MIN_ALLOC - APR_MEMNODE_T_SIZE) mem of
                (a', None) \<Rightarrow> (call_abort abort (put_allocator x a' w), APR_ENOMEM, None)
              | (a', Some node) \<Rightarrow>
                  let p = first_avail node; a' = (if alloc = None then a'\<lparr>owner := Some p\<rparr> else a')
                  in (put_pool p (new_pool node x abort) (put_allocator x a' w), APR_SUCCESS, Some p))
          })"

definition apr_pool_create_core_ex :: "nat option \<Rightarrow> nat option \<Rightarrow> nat option \<Rightarrow> nat option \<Rightarrow> world \<Rightarrow> (world \<times> int \<times> nat option) option" where
  "apr_pool_create_core_ex abort alloc amem mem w = apr_pool_create_unmanaged_ex abort alloc amem mem w"

section \<open>Cleanups\<close>

text \<open>A cleanup structure is taken from the list of the free ones, or allocated; it has 32 bytes.\<close>

definition apr_pool_cleanup_register :: "nat option \<Rightarrow> nat \<Rightarrow> nat \<Rightarrow> nat \<Rightarrow> nat option \<Rightarrow> world \<Rightarrow> world option" where
  "apr_pool_cleanup_register p data plain chld mem w =
     (case p of
        None \<Rightarrow> Some w
      | Some p \<Rightarrow> do {
          pool \<leftarrow> pools w p;
          w1 \<leftarrow> (case free_cleanups pool of
                   c # cs \<Rightarrow> Some (put_pool p (pool\<lparr>free_cleanups := cs\<rparr>) w)
                 | [] \<Rightarrow> Option.bind (apr_palloc p 32 mem w) (\<lambda>(w1, res). map_option (\<lambda>_. w1) res));
          pool \<leftarrow> pools w1 p;
          Some (put_pool p (pool\<lparr>cleanups := \<lparr>cdata = data, plain_fn = plain, child_fn = chld\<rparr> # cleanups pool\<rparr>) w1)
        })"

definition apr_pool_pre_cleanup_register :: "nat option \<Rightarrow> nat \<Rightarrow> nat \<Rightarrow> nat option \<Rightarrow> world \<Rightarrow> world option" where
  "apr_pool_pre_cleanup_register p data plain mem w =
     (case p of
        None \<Rightarrow> Some w
      | Some p \<Rightarrow> do {
          pool \<leftarrow> pools w p;
          (w1, chld) \<leftarrow> (case free_pre_cleanups pool of
                   c # cs \<Rightarrow> Some (put_pool p (pool\<lparr>free_pre_cleanups := cs\<rparr>) w, child_fn c)
                 | [] \<Rightarrow> Option.bind (apr_palloc p 32 mem w) (\<lambda>(w1, res). map_option (\<lambda>_. (w1, 0)) res));
          pool \<leftarrow> pools w1 p;
          Some (put_pool p (pool\<lparr>pre_cleanups := \<lparr>cdata = data, plain_fn = plain, child_fn = chld\<rparr> # pre_cleanups pool\<rparr>) w1)
        })"

text \<open>The list without its first cleanup of the given data and function, and that cleanup.\<close>

fun kill_first :: "nat \<Rightarrow> nat \<Rightarrow> cleanup list \<Rightarrow> cleanup list \<times> cleanup list" where
  "kill_first data f [] = ([], [])"
| "kill_first data f (c # cs) =
     (if cdata c = data \<and> plain_fn c = f then (cs, [c])
      else case kill_first data f cs of (rest, killed) \<Rightarrow> (c # rest, killed))"

definition apr_pool_cleanup_kill :: "nat option \<Rightarrow> nat \<Rightarrow> nat \<Rightarrow> world \<Rightarrow> world option" where
  "apr_pool_cleanup_kill p data f w =
     (case p of
        None \<Rightarrow> Some w
      | Some p \<Rightarrow> map_option (\<lambda>pool.
          case kill_first data f (cleanups pool) of (cs, killed) \<Rightarrow>
          case kill_first data f (pre_cleanups pool) of (pcs, pkilled) \<Rightarrow>
            put_pool p (pool\<lparr>cleanups := cs, free_cleanups := killed @ free_cleanups pool,
              pre_cleanups := pcs, free_pre_cleanups := pkilled @ free_pre_cleanups pool\<rparr>) w) (pools w p))"

fun set_child_fn :: "nat \<Rightarrow> nat \<Rightarrow> nat \<Rightarrow> cleanup list \<Rightarrow> cleanup list" where
  "set_child_fn data f g [] = []"
| "set_child_fn data f g (c # cs) =
     (if cdata c = data \<and> plain_fn c = f then c\<lparr>child_fn := g\<rparr> # cs else c # set_child_fn data f g cs)"

definition apr_pool_child_cleanup_set :: "nat option \<Rightarrow> nat \<Rightarrow> nat \<Rightarrow> nat \<Rightarrow> world \<Rightarrow> world option" where
  "apr_pool_child_cleanup_set p data f g w =
     (case p of
        None \<Rightarrow> Some w
      | Some p \<Rightarrow> map_option (\<lambda>pool. put_pool p (pool\<lparr>cleanups := set_child_fn data f g (cleanups pool)\<rparr>) w) (pools w p))"

definition apr_pool_cleanup_run :: "nat option \<Rightarrow> nat \<Rightarrow> nat \<Rightarrow> world \<Rightarrow> world option" where
  "apr_pool_cleanup_run p data f w = map_option (log_events [Cleanup f data]) (apr_pool_cleanup_kill p data f w)"

fun run_cleanups :: "cleanup list \<Rightarrow> event list" where
  "run_cleanups [] = []"
| "run_cleanups (c # cs) = Cleanup (plain_fn c) (cdata c) # run_cleanups cs"

fun run_child_cleanups :: "cleanup list \<Rightarrow> event list" where
  "run_child_cleanups [] = []"
| "run_child_cleanups (c # cs) = Child_cleanup (child_fn c) (cdata c) # run_child_cleanups cs"

section \<open>Destruction\<close>

text \<open>\<open>*ref = v\<close>.\<close>

definition set_ref :: "ref \<Rightarrow> nat option \<Rightarrow> world \<Rightarrow> world option" where
  "set_ref r v w =
     (case r of
        In_child q \<Rightarrow> map_option (\<lambda>pool. put_pool q (pool\<lparr>child := v\<rparr>) w) (pools w q)
      | In_sibling q \<Rightarrow> map_option (\<lambda>pool. put_pool q (pool\<lparr>sibling := v\<rparr>) w) (pools w q))"

definition unlink_pool :: "apr_pool \<Rightarrow> world \<Rightarrow> world option" where
  "unlink_pool pool w =
     (if parent pool = None then Some w
      else do {
        r \<leftarrow> pref pool;
        w1 \<leftarrow> set_ref r (sibling pool) w;
        (case sibling pool of
           None \<Rightarrow> Some w1
         | Some s \<Rightarrow> map_option (\<lambda>sib. put_pool s (sib\<lparr>pref := Some r\<rparr>) w1) (pools w1 s))
      })"

text \<open>The ring from the node of the pool itself on.\<close>

definition from_self :: "apr_pool \<Rightarrow> apr_memnode list" where
  "from_self pool = dropWhile (\<lambda>n. naddr n \<noteq> self pool) (ring pool) @ takeWhile (\<lambda>n. naddr n \<noteq> self pool) (ring pool)"

text \<open>The nodes go to the allocator, and with the pool that owns it the allocator goes too.\<close>

definition release_pool :: "nat \<Rightarrow> apr_pool \<Rightarrow> world \<Rightarrow> world option" where
  "release_pool p pool w = do {
     let x = pallocator pool;
     a \<leftarrow> allocators w x;
     let a1 = (if apr_allocator_owner_get a = Some p then apr_allocator_mutex_set a None else a);
     (case allocator_free a1 (from_self pool) of (a2, nodes) \<Rightarrow>
        let w1 = w\<lparr>pools := (pools w)(p := None), freed := freed w @ nodes\<rparr>
        in Some (if apr_allocator_owner_get a2 = Some p
                 then w1\<lparr>allocators := (allocators w1)(x := None), freed := freed w1 @ apr_allocator_destroy a2\<rparr>
                 else put_allocator x a2 w1))
   }"

definition start_cleanup :: "nat \<Rightarrow> apr_pool \<Rightarrow> world \<Rightarrow> world" where
  "start_cleanup p pool w =
     log_events (run_cleanups (pre_cleanups pool)) (put_pool p (pool\<lparr>pre_cleanups := [], free_pre_cleanups := []\<rparr>) w)"

text \<open>\<open>Inl p\<close> destroys the pool \<open>p\<close>, \<open>Inr p\<close> is the loop that destroys its children.\<close>

partial_function (option) destroy_work :: "nat + nat \<Rightarrow> world \<Rightarrow> world option" where
  "destroy_work job w =
     (case job of
        Inl p \<Rightarrow> do {
          pool \<leftarrow> pools w p;
          w1 \<leftarrow> destroy_work (Inr p) (start_cleanup p pool w);
          pool \<leftarrow> pools w1 p;
          w2 \<leftarrow> unlink_pool pool (log_events (run_cleanups (cleanups pool)) w1);
          release_pool p pool w2
        }
      | Inr p \<Rightarrow> do {
          pool \<leftarrow> pools w p;
          (case child pool of
             None \<Rightarrow> Some w
           | Some c \<Rightarrow> do {
               w1 \<leftarrow> destroy_work (Inl c) w;
               destroy_work (Inr p) w1
             })
        })"

definition apr_pool_destroy :: "nat \<Rightarrow> world \<Rightarrow> world option" where
  "apr_pool_destroy p w = destroy_work (Inl p) w"

definition apr_pool_clear :: "nat \<Rightarrow> world \<Rightarrow> world option" where
  "apr_pool_clear p w = do {
     pool \<leftarrow> pools w p;
     w1 \<leftarrow> destroy_work (Inr p) (start_cleanup p pool w);
     pool \<leftarrow> pools w1 p;
     let w2 = log_events (run_cleanups (cleanups pool)) w1;
     (case from_self pool of
        [] \<Rightarrow> None
      | n # nodes \<Rightarrow>
          let pool2 = pool\<lparr>cleanups := [], free_cleanups := [], ring := [n\<lparr>first_avail := self_first_avail pool\<rparr>]\<rparr>
          in if nodes = [] then Some (put_pool p pool2 w2)
             else do {
               a \<leftarrow> allocators w2 (pallocator pool);
               Some (case allocator_free a nodes of (a', gone) \<Rightarrow>
                 put_allocator (pallocator pool) a' (put_pool p pool2 (w2\<lparr>freed := freed w2 @ gone\<rparr>)))
             })
   }"

section \<open>Properties of a pool\<close>

definition apr_pool_abort_set :: "nat option \<Rightarrow> nat \<Rightarrow> world \<Rightarrow> world option" where
  "apr_pool_abort_set f p w = map_option (\<lambda>pool. put_pool p (pool\<lparr>abort_fn := f\<rparr>) w) (pools w p)"

definition apr_pool_abort_get :: "nat \<Rightarrow> world \<Rightarrow> nat option option" where
  "apr_pool_abort_get p w = map_option abort_fn (pools w p)"

definition apr_pool_parent_get :: "nat \<Rightarrow> world \<Rightarrow> nat option option" where
  "apr_pool_parent_get p w = map_option parent (pools w p)"

definition apr_pool_allocator_get :: "nat \<Rightarrow> world \<Rightarrow> nat option" where
  "apr_pool_allocator_get p w = map_option pallocator (pools w p)"

definition apr_pool_tag :: "nat \<Rightarrow> nat option \<Rightarrow> world \<Rightarrow> world option" where
  "apr_pool_tag p t w = map_option (\<lambda>pool. put_pool p (pool\<lparr>tag := t\<rparr>) w) (pools w p)"

partial_function (option) ancestor_loop :: "nat \<Rightarrow> nat option \<Rightarrow> world \<Rightarrow> bool option" where
  "ancestor_loop a b w =
     (case b of
        None \<Rightarrow> Some False
      | Some b \<Rightarrow> if a = b then Some True else Option.bind (pools w b) (\<lambda>pool. ancestor_loop a (parent pool) w))"

definition apr_pool_is_ancestor :: "nat option \<Rightarrow> nat option \<Rightarrow> world \<Rightarrow> bool option" where
  "apr_pool_is_ancestor a b w = (case a of None \<Rightarrow> Some True | Some a \<Rightarrow> ancestor_loop a b w)"

partial_function (option) exec_work :: "nat + nat option \<Rightarrow> world \<Rightarrow> world option" where
  "exec_work job w =
     (case job of
        Inl p \<Rightarrow> do {
          pool \<leftarrow> pools w p;
          exec_work (Inr (child pool)) (log_events (run_child_cleanups (cleanups pool)) (put_pool p (pool\<lparr>cleanups := []\<rparr>) w))
        }
      | Inr None \<Rightarrow> Some w
      | Inr (Some p) \<Rightarrow> do {
          w1 \<leftarrow> exec_work (Inl p) w;
          pool \<leftarrow> pools w1 p;
          exec_work (Inr (sibling pool)) w1
        })"

definition apr_pool_cleanup_for_exec :: "world \<Rightarrow> world option" where
  "apr_pool_cleanup_for_exec w = Option.bind (global_pool w) (\<lambda>p. exec_work (Inl p) w)"

end
