(* ===== verification/AprAllocatorCorrect.thy ===== *)
theory AprAllocatorCorrect
  imports AprAllocator Interfaces
begin

text \<open>
  Correctness of the allocator of memory nodes: the lists hold nodes of their sizes, \<open>max_index\<close> is the highest list in use, a request
  takes the best node that is free and calls \<open>malloc\<close> only if none is large enough, and nodes are neither lost nor handed out twice.
\<close>

section \<open>Sizes\<close>

definition need :: "nat \<Rightarrow> nat" where
  "need in_size = node_size in_size div BOUNDARY_SIZE - 1"

lemmas alloc_consts = BOUNDARY_SIZE_def BOUNDARY_INDEX_def MIN_ALLOC_def MAX_INDEX_def APR_MEMNODE_T_SIZE_def
  APR_ALLOCATOR_MAX_FREE_UNLIMITED_def APR_ALIGN_DEFAULT_def size_t_def

lemma allocator_consts [simp]: "BOUNDARY_SIZE = 4096" "APR_MEMNODE_T_SIZE = 40" "MAX_INDEX = 20" "MIN_ALLOC = 8192"
  "APR_ALLOCATOR_MAX_FREE_UNLIMITED = 0"
  by (simp_all add: alloc_consts)

lemma boundary_up: "x \<le> (x + 4095) div 4096 * 4096 \<and> (x + 4095) div 4096 * 4096 \<le> x + 4095" for x :: nat
  using div_mult_mod_eq [of "x + 4095" 4096] mod_less_divisor [of 4096 "x + 4095"] by linarith

lemma align_small:
  assumes "in_size + 40 + 4095 < 2 ^ 64"
  shows "align_boundary (size_t (in_size + 40)) = (in_size + 40 + 4095) div 4096 * 4096"
  using assms by (simp add: align_boundary_def size_t_def)

lemma boundary_wraps:
  assumes "in_size < 2 ^ 64" "\<not> in_size + 40 + 4095 < 2 ^ 64"
  shows "align_boundary (size_t (in_size + 40)) < in_size"
proof -
  have "size_t (size_t (in_size + 40) + 4095) \<le> 4135"
  proof (cases "in_size + 40 < 2 ^ 64")
    case True
    then have "size_t (size_t (in_size + 40) + 4095) = in_size + 40 + 4095 - 2 ^ 64"
      using assms by (simp add: size_t_def le_mod_geq)
    then show ?thesis using assms(1) by linarith
  next
    case False
    then have "size_t (in_size + 40) = in_size + 40 - 2 ^ 64" using assms(1) by (simp add: size_t_def le_mod_geq)
    then show ?thesis using assms(1) by (simp add: size_t_def)
  qed
  then have "align_boundary (size_t (in_size + 40)) \<le> 4135 div 4096 * 4096" by (simp add: align_boundary_def div_le_mono)
  then show ?thesis using assms(2) by simp
qed

lemma node_size_up: "in_size + 40 + 4095 < 2 ^ 64 \<Longrightarrow> node_size in_size = max 8192 ((in_size + 40 + 4095) div 4096 * 4096)"
  by (simp add: node_size_def align_small max_def)

lemma node_size:
  assumes "in_size + 40 \<le> 2 ^ 44"
  shows "\<not> align_boundary (size_t (in_size + 40)) < in_size" "node_size in_size = (need in_size + 1) * 4096"
    "in_size + 40 \<le> node_size in_size" "1 \<le> need in_size" "need in_size < 2 ^ 32"
proof -
  let ?k = "(in_size + 40 + 4095) div 4096"
  have w: "in_size + 40 + 4095 < 2 ^ 64" using assms by simp
  note s = node_size_up [OF w] and up = boundary_up [of "in_size + 40"]
  show "\<not> align_boundary (size_t (in_size + 40)) < in_size" using up align_small [OF w] by linarith
  have k: "node_size in_size = max 2 ?k * 4096" unfolding s by (simp add: max_def)
  then show "node_size in_size = (need in_size + 1) * 4096" by (simp add: need_def)
  show "in_size + 40 \<le> node_size in_size" using up unfolding s by linarith
  show "1 \<le> need in_size" unfolding need_def k by simp
  have "?k \<le> (2 ^ 44 + 4095) div 4096" using assms by (intro div_le_mono) simp
  then show "need in_size < 2 ^ 32" unfolding need_def k by simp
qed

text \<open>A larger request is refused: it wraps around, or its index has more than 32 bits.\<close>

lemma node_size_refused:
  assumes "in_size < 2 ^ 64" "2 ^ 44 < in_size + 40" "\<not> align_boundary (size_t (in_size + 40)) < in_size"
  shows "2 ^ 32 - 1 < need in_size"
proof -
  have w: "in_size + 40 + 4095 < 2 ^ 64" using boundary_wraps [OF assms(1)] assms(3) by blast
  let ?k = "(in_size + 40 + 4095) div 4096"
  have "(2 ^ 44 + 1 + 4095) div 4096 \<le> ?k" using assms(2) by (intro div_le_mono) simp
  then show ?thesis unfolding need_def node_size_up [OF w] by (simp add: max_def)
qed

section \<open>The invariant\<close>

definition node_ok :: "apr_memnode \<Rightarrow> bool" where
  "node_ok n \<longleftrightarrow> 1 \<le> nindex n \<and> nindex n < 2 ^ 32 \<and> endp n = naddr n + (nindex n + 1) * BOUNDARY_SIZE"

definition bucket :: "nat \<Rightarrow> apr_memnode \<Rightarrow> bool" where
  "bucket i n \<longleftrightarrow> node_ok n \<and> (if i = 0 then MAX_INDEX \<le> nindex n else nindex n = i)"

definition lists_ok :: "apr_memnode list list \<Rightarrow> nat \<Rightarrow> bool" where
  "lists_ok frees m \<longleftrightarrow> length frees = MAX_INDEX \<and> m < MAX_INDEX \<and> (\<forall>i < MAX_INDEX. m < i \<longrightarrow> frees ! i = []) \<and>
     (0 < m \<longrightarrow> frees ! m \<noteq> []) \<and> (\<forall>i < MAX_INDEX. \<forall>n \<in> set (frees ! i). bucket i n)"

definition allocator_ok :: "apr_allocator \<Rightarrow> bool" where
  "allocator_ok a \<longleftrightarrow> lists_ok (free_lists a) (max_index a) \<and> max_free_index a < 2 ^ 32 \<and> current_free_index a \<le> max_free_index a"

definition stock :: "apr_memnode list list \<Rightarrow> apr_memnode multiset" where
  "stock frees = mset (concat frees)"

lemma in_stock: "length frees = MAX_INDEX \<Longrightarrow> n \<in># stock frees \<longleftrightarrow> (\<exists>i < MAX_INDEX. n \<in> set (frees ! i))"
  by (simp add: stock_def) (metis in_set_conv_nth)

lemma stock_update:
  assumes "i < length frees"
  shows "stock (frees[i := xs]) + mset (frees ! i) = stock frees + mset xs"
proof -
  have "stock frees = stock (take i frees @ frees ! i # drop (Suc i) frees)"
    using arg_cong [OF id_take_nth_drop [OF assms], of stock] .
  also have "\<dots> = mset (concat (take i frees)) + mset (frees ! i) + mset (concat (drop (Suc i) frees))" by (simp add: stock_def)
  finally have "stock frees = mset (concat (take i frees)) + mset (frees ! i) + mset (concat (drop (Suc i) frees))" .
  moreover have "stock (frees[i := xs]) = mset (concat (take i frees)) + mset xs + mset (concat (drop (Suc i) frees))"
    unfolding stock_def upd_conv_take_nth_drop [OF assms] by simp
  ultimately show ?thesis by simp
qed

lemma stock_push: "i < length frees \<Longrightarrow> stock (frees[i := n # frees ! i]) = add_mset n (stock frees)"
  using stock_update [of i frees "n # frees ! i"] by simp

lemma stock_bucket: "lists_ok frees m \<Longrightarrow> n \<in># stock frees \<Longrightarrow> node_ok n \<and>
    n \<in> set (frees ! (if nindex n < MAX_INDEX then nindex n else 0))"
proof -
  assume l: "lists_ok frees m" and n: "n \<in># stock frees"
  then obtain i where i: "i < MAX_INDEX" "n \<in> set (frees ! i)" using in_stock [of frees n] by (auto simp: lists_ok_def)
  then have "bucket i n" using l by (simp add: lists_ok_def)
  then show ?thesis using i by (auto simp: bucket_def split: if_splits)
qed

text \<open>No list above \<open>max_index\<close> holds a node.\<close>

lemma stock_max: "lists_ok frees m \<Longrightarrow> n \<in># stock frees \<Longrightarrow> nindex n < MAX_INDEX \<Longrightarrow> nindex n \<le> m"
  using stock_bucket [of frees m n] by (fastforce simp: lists_ok_def node_ok_def not_le)

section \<open>The walks\<close>

lemma find_list:
  "i \<le> m \<Longrightarrow> i \<le> find_list frees i m \<and> find_list frees i m \<le> m \<and>
    (\<forall>k. i \<le> k \<and> k < find_list frees i m \<longrightarrow> frees ! k = []) \<and> (frees ! m \<noteq> [] \<longrightarrow> frees ! find_list frees i m \<noteq> [])"
proof (induction frees i m rule: find_list.induct)
  case (1 frees i m)
  show ?case
  proof (cases "frees ! i = [] \<and> i < m")
    case True
    then have IH: "i + 1 \<le> find_list frees (i + 1) m \<and> find_list frees (i + 1) m \<le> m \<and>
        (\<forall>k. i + 1 \<le> k \<and> k < find_list frees (i + 1) m \<longrightarrow> frees ! k = []) \<and>
        (frees ! m \<noteq> [] \<longrightarrow> frees ! find_list frees (i + 1) m \<noteq> [])"
      using 1 by simp
    have "frees ! k = []" if "i \<le> k" "k < find_list frees (i + 1) m" for k
      using IH True that by (cases "k = i") auto
    then show ?thesis using IH True by (simp add: find_list.simps [of frees i m])
  next
    case False
    then have "find_list frees i m = i" unfolding find_list.simps [of frees i m] by (simp only: if_False)
    then show ?thesis using 1(2) False by auto
  qed
qed

lemma lower_max:
  "0 < m \<Longrightarrow> lower_max frees m < m \<and> (\<forall>k. lower_max frees m < k \<and> k < m \<longrightarrow> frees ! k = []) \<and>
    (0 < lower_max frees m \<longrightarrow> frees ! lower_max frees m \<noteq> [])"
proof (induction frees m rule: lower_max.induct)
  case (1 frees m)
  show ?case
  proof (cases "frees ! (m - 1) = [] \<and> m - 1 > 0")
    case True
    then have IH: "lower_max frees (m - 1) < m - 1" "\<forall>k. lower_max frees (m - 1) < k \<and> k < m - 1 \<longrightarrow> frees ! k = []"
        "0 < lower_max frees (m - 1) \<longrightarrow> frees ! lower_max frees (m - 1) \<noteq> []"
      using 1 by simp_all
    have "frees ! k = []" if "lower_max frees (m - 1) < k" "k < m" for k
      using IH(2) True that by (cases "k = m - 1") auto
    then show ?thesis using IH True by (simp add: lower_max.simps [of frees m])
  next
    case False
    then have "lower_max frees m = m - 1" unfolding lower_max.simps [of frees m] by (simp only: if_False)
    then show ?thesis using 1(2) False by auto
  qed
qed

lemma sink_search:
  "sink_search i nodes = (before, found) \<Longrightarrow> nodes = before @ found \<and> (\<forall>n \<in> set before. nindex n < i) \<and>
    (found \<noteq> [] \<longrightarrow> i \<le> nindex (hd found))"
proof (induction i nodes arbitrary: before found rule: sink_search.induct)
  case (2 i node nodes)
  then show ?case by (cases "sink_search i nodes") (auto split: if_splits)
qed simp

section \<open>Requests\<close>

text \<open>Taking the head of a list.\<close>

lemma stock_pop:
  assumes "i < length frees" "frees ! i = n # nodes"
  shows "stock frees = add_mset n (stock (frees[i := nodes]))"
  using stock_update [OF assms(1), of nodes] assms(2) by simp

lemma lists_ok_pop:
  assumes "lists_ok frees m" "j \<le> m" "0 < j" "frees ! j = n # nodes" "m' = (if nodes = [] \<and> j \<ge> m then lower_max (frees[j := nodes]) j else m)"
  shows "lists_ok (frees[j := nodes]) m'"
proof -
  let ?f = "frees[j := nodes]"
  have l: "length frees = 20" "m < 20" "\<forall>i < 20. m < i \<longrightarrow> frees ! i = []" "frees ! m \<noteq> []" "\<forall>i < 20. \<forall>n \<in> set (frees ! i). bucket i n"
    using assms(1-3) by (auto simp: lists_ok_def)
  have b: "\<forall>i < 20. \<forall>n \<in> set (?f ! i). bucket i n"
  proof (intro allI impI)
    fix i assume i: "i < (20 :: nat)"
    show "\<forall>n \<in> set (?f ! i). bucket i n"
      using l(1,5) i assms(4) by (cases "i = j") auto
  qed
  show ?thesis
  proof (cases "nodes = [] \<and> j \<ge> m")
    case True
    then have jm: "j = m" "m' = lower_max ?f j" "?f ! j = []" using assms(2,5) l(1,2) by auto
    note lm = lower_max [OF assms(3), of ?f]
    have "?f ! i = []" if "i < 20" "m' < i" for i
      using lm l(1,3) that jm by (cases i j rule: linorder_cases) auto
    then show ?thesis using lm l jm b assms(3) by (auto simp: lists_ok_def)
  next
    case False
    then have m': "m' = m" using assms(5) by auto
    have "?f ! m \<noteq> []" using False l(1,2,4) assms(2) by (cases "j = m") auto
    moreover have "?f ! i = []" if "i < 20" "m < i" for i using l(1,3) that assms(2) by simp
    ultimately show ?thesis using l(1,2) b m' by (simp add: lists_ok_def)
  qed
qed

lemma lists_ok_sink:
  assumes "lists_ok frees m" "frees ! 0 = before @ n # nodes"
  shows "lists_ok (frees[0 := before @ nodes]) m" "stock frees = add_mset n (stock (frees[0 := before @ nodes]))"
proof -
  have l: "length frees = 20" using assms(1) by (simp add: lists_ok_def)
  show "stock frees = add_mset n (stock (frees[0 := before @ nodes]))"
    using stock_update [of 0 frees "before @ nodes"] assms(2) l by simp
  have "\<forall>n \<in> set (frees[0 := before @ nodes] ! i). bucket i n" if "i < 20" for i
    using assms that l by (cases "i = 0") (auto simp: lists_ok_def)
  moreover have "frees[0 := before @ nodes] ! i = []" if "m < i" "i < 20" for i using assms that by (auto simp: lists_ok_def)
  moreover have "frees[0 := before @ nodes] ! m \<noteq> []" if "0 < m" using assms that by (auto simp: lists_ok_def)
  ultimately show "lists_ok (frees[0 := before @ nodes]) m" using assms(1) by (simp add: lists_ok_def)
qed

definition stock_of :: "apr_allocator \<Rightarrow> apr_memnode multiset" where
  "stock_of a = stock (free_lists a)"

lemma raise_current_simps [simp]:
  "free_lists (raise_current a i) = free_lists a" "max_index (raise_current a i) = max_index a"
  "max_free_index (raise_current a i) = max_free_index a" "current_free_index (raise_current a i) \<le> max_free_index a"
  "owner (raise_current a i) = owner a"
  by (simp_all add: raise_current_def Let_def)

text \<open>The list a free node is in.\<close>

definition list_of :: "apr_memnode \<Rightarrow> nat" where
  "list_of n = (if nindex n < MAX_INDEX then nindex n else 0)"

text \<open>\<open>took a in_size f a'\<close>: the request is served by the free node \<open>f\<close>, which leaves its list. If a node that is not large has room, then
  \<open>f\<close> is the first node of the list of the smallest such nodes; otherwise it is the first node with room in the list of the large ones.\<close>

definition took :: "apr_allocator \<Rightarrow> nat \<Rightarrow> apr_memnode \<Rightarrow> apr_allocator \<Rightarrow> bool" where
  "took a in_size f a' \<longleftrightarrow> stock_of a = add_mset f (stock_of a') \<and> need in_size \<le> nindex f \<and>
     (\<exists>us vs. free_lists a ! list_of f = us @ f # vs \<and> free_lists a' = (free_lists a)[list_of f := us @ vs] \<and>
        (if \<exists>g \<in># stock_of a. need in_size \<le> nindex g \<and> nindex g < MAX_INDEX
         then nindex f < MAX_INDEX \<and> us = [] \<and> (\<forall>g \<in># stock_of a. need in_size \<le> nindex g \<longrightarrow> nindex f \<le> nindex g)
         else MAX_INDEX \<le> nindex f \<and> (\<forall>g \<in> set us. nindex g < need in_size))) \<and>
     max_free_index a' = max_free_index a \<and> owner a' = owner a \<and>
     current_free_index a' = min (max_free_index a) (uint32 (current_free_index a + nindex f))"

lemma alloc_from_list:
  assumes "allocator_ok a" "need n \<le> max_index a" "n + 40 \<le> 2 ^ 44"
  shows "\<exists>f a'. allocator_alloc a n mem = (a', Some (reset_node f)) \<and> allocator_ok a' \<and> took a n f a'"
proof -
  let ?frees = "free_lists a" let ?m = "max_index a"
  define j where "j = find_list ?frees (need n) ?m"
  have l: "lists_ok ?frees ?m" using assms(1) by (simp add: allocator_ok_def)
  then have len: "length ?frees = 20" "?m < 20" by (simp_all add: lists_ok_def)
  have pos: "0 < need n" using node_size(4) [OF assms(3)] by simp
  then have "?frees ! ?m \<noteq> []" using l assms(2) by (auto simp: lists_ok_def)
  then have j: "need n \<le> j" "j \<le> ?m" "?frees ! j \<noteq> []" "\<forall>k. need n \<le> k \<and> k < j \<longrightarrow> ?frees ! k = []"
    using find_list [OF assms(2), of ?frees] by (simp_all add: j_def)
  then obtain f nodes where f: "?frees ! j = f # nodes" by (auto simp: neq_Nil_conv)
  define a1 where "a1 = (if nodes = [] \<and> j \<ge> ?m then a\<lparr>free_lists := ?frees[j := nodes], max_index := lower_max (?frees[j := nodes]) j\<rparr>
     else a\<lparr>free_lists := ?frees[j := nodes]\<rparr>)"
  have al: "allocator_alloc a n mem = (raise_current a1 (nindex f), Some (reset_node f))"
  proof -
    have nd: "node_size n div 4096 - 1 = need n" by (simp add: need_def)
    show ?thesis
      unfolding allocator_alloc_def Let_def a1_def allocator_consts nd j_def [symmetric] f
      using node_size(1,5) [OF assms(3)] assms(2) by simp
  qed
  have "bucket j f" using l f j(2) len by (auto simp: lists_ok_def)
  then have fj: "nindex f = j" using j(1) pos by (simp add: bucket_def)
  have s: "stock ?frees = add_mset f (stock (?frees[j := nodes]))" using f j(2) len by (intro stock_pop) auto
  have best: "nindex f \<le> nindex g" if "g \<in># stock_of a" "need n \<le> nindex g" for g
  proof (rule ccontr)
    assume "\<not> nindex f \<le> nindex g"
    then have "nindex g < j" using fj by simp
    moreover have "g \<in> set (?frees ! nindex g)"
      using stock_bucket [OF l, of g] that(1) calculation j(2) len(2) by (auto simp: stock_of_def)
    ultimately show False using j(4) that(2) by auto
  qed
  have "lists_ok (?frees[j := nodes]) (if nodes = [] \<and> j \<ge> ?m then lower_max (?frees[j := nodes]) j else ?m)"
    using l j(1,2) f pos by (intro lists_ok_pop [OF l j(2) _ f]) simp_all
  then have "lists_ok (free_lists a1) (max_index a1)" unfolding a1_def by (cases "nodes = [] \<and> j \<ge> ?m") auto
  moreover have a1: "free_lists a1 = ?frees[j := nodes]" "max_free_index a1 = max_free_index a" "owner a1 = owner a"
    "current_free_index a1 = current_free_index a" by (simp_all add: a1_def)
  ultimately have "allocator_ok (raise_current a1 (nindex f))"
    using assms(1) raise_current_simps(4) [of a1 "nindex f"] by (simp add: allocator_ok_def)
  moreover have "took a n f (raise_current a1 (nindex f))"
  proof -
    have small: "nindex f < MAX_INDEX" using fj j(2) len(2) by simp
    have "f \<in># stock_of a" using s by (simp add: stock_of_def)
    then have "\<exists>g \<in># stock_of a. need n \<le> nindex g \<and> nindex g < MAX_INDEX" using small fj j(1) by blast
    moreover have "list_of f = j" using small fj by (simp add: list_of_def)
    ultimately show ?thesis
      using s best a1 fj j(1) f small unfolding took_def
      by (intro conjI exI [of _ "[]"] exI [of _ nodes]) (simp_all add: stock_of_def raise_current_def Let_def min_def)
  qed
  ultimately show ?thesis using al by blast
qed

lemma alloc_above:
  assumes "allocator_ok a" "\<not> need n \<le> max_index a" "n + 40 \<le> 2 ^ 44"
  shows "(\<exists>f a'. allocator_alloc a n mem = (a', Some (reset_node f)) \<and> allocator_ok a' \<and> took a n f a') \<or>
    allocator_alloc a n mem = (a, malloc_node mem (need n) (node_size n)) \<and> (\<forall>g \<in># stock_of a. nindex g < need n)"
proof -
  let ?frees = "free_lists a"
  have l: "lists_ok ?frees (max_index a)" using assms(1) by (simp add: allocator_ok_def)
  obtain before found where bf: "sink_search (need n) (?frees ! 0) = (before, found)" by fastforce
  note ss = sink_search [OF bf]
  have nd: "node_size n div 4096 - 1 = need n" by (simp add: need_def)
  have al: "allocator_alloc a n mem = (case found of [] \<Rightarrow> (a, malloc_node mem (need n) (node_size n))
      | node # nodes \<Rightarrow> (raise_current (a\<lparr>free_lists := ?frees[0 := before @ nodes]\<rparr>) (nindex node), Some (reset_node node)))"
    unfolding allocator_alloc_def Let_def allocator_consts nd
    using node_size(1,5) [OF assms(3)] assms(2) bf ss by (cases "?frees ! 0 = []") auto
  show ?thesis
  proof (cases found)
    case Nil
    have "nindex g < need n" if "g \<in># stock_of a" for g
    proof (cases "nindex g < MAX_INDEX")
      case True
      then show ?thesis using stock_max [OF l, of g] that assms(2) by (simp add: stock_of_def)
    next
      case False
      then have "g \<in> set (?frees ! 0)" using stock_bucket [OF l, of g] that by (simp add: stock_of_def)
      then show ?thesis using ss Nil by simp
    qed
    then show ?thesis using al Nil by simp
  next
    case (Cons f nodes)
    let ?a = "raise_current (a\<lparr>free_lists := ?frees[0 := before @ nodes]\<rparr>) (nindex f)"
    have c: "?frees ! 0 = before @ f # nodes" "need n \<le> nindex f" using ss Cons by simp_all
    have "\<forall>n \<in> set (?frees ! 0). bucket 0 n" using l by (simp add: lists_ok_def)
    then have big: "MAX_INDEX \<le> nindex f" using c(1) by (simp add: bucket_def)
    have "allocator_ok ?a" using assms(1) lists_ok_sink(1) [OF l c(1)]
        raise_current_simps(4) [of "a\<lparr>free_lists := ?frees[0 := before @ nodes]\<rparr>" "nindex f"]
      by (simp add: allocator_ok_def)
    moreover have "took a n f ?a"
    proof -
      have "\<not> (\<exists>g \<in># stock_of a. need n \<le> nindex g \<and> nindex g < MAX_INDEX)"
        using stock_max [OF l] assms(2) by (fastforce simp: stock_of_def)
      moreover have "list_of f = 0" using big by (simp add: list_of_def)
      ultimately show ?thesis
        using lists_ok_sink(2) [OF l c(1)] c ss big unfolding took_def
        by (intro conjI exI [of _ before] exI [of _ nodes]) (simp_all add: stock_of_def raise_current_def Let_def min_def)
    qed
    ultimately show ?thesis using al Cons by auto
  qed
qed

lemma alloc_refused:
  assumes "n < 2 ^ 64" "2 ^ 44 < n + 40"
  shows "allocator_alloc a n mem = (a, None)"
proof -
  have "node_size n div 4096 - 1 = need n" by (simp add: need_def)
  then show ?thesis using node_size_refused [OF assms] unfolding allocator_alloc_def Let_def allocator_consts by simp
qed

section \<open>Returns\<close>

lemma lists_ok_push:
  assumes "lists_ok frees m" "node_ok n"
  shows "lists_ok (frees[(if nindex n < MAX_INDEX then nindex n else 0) := n # frees ! (if nindex n < MAX_INDEX then nindex n else 0)])
    (if nindex n < MAX_INDEX \<and> frees ! nindex n = [] \<and> nindex n > m then nindex n else m)"
    (is "lists_ok (frees[?i := _]) ?m")
proof -
  let ?f = "frees[?i := n # frees ! ?i]"
  have l: "length frees = 20" "m < 20" "\<forall>i < 20. m < i \<longrightarrow> frees ! i = []" "0 < m \<longrightarrow> frees ! m \<noteq> []"
    "\<forall>i < 20. \<forall>n \<in> set (frees ! i). bucket i n"
    using assms(1) by (auto simp: lists_ok_def)
  have i: "?i < 20" "bucket ?i n" using assms(2) by (auto simp: bucket_def node_ok_def)
  have at: "?f ! k = (if k = ?i then n # frees ! k else frees ! k)" for k using l(1) i(1) by simp
  have "\<forall>x \<in> set (?f ! k). bucket k x" if "k < 20" for k unfolding at using that l(5) i(2) by auto
  moreover have "?f ! k = []" if "k < 20" "?m < k" for k unfolding at using that l(2,3) by (auto split: if_splits)
  moreover have "0 < ?m \<longrightarrow> ?f ! ?m \<noteq> []" unfolding at using l(4) by auto
  ultimately show ?thesis using l(1,2) by (simp add: lists_ok_def)
qed

text \<open>What the loop does: it keeps the lists in order, and every node is in a list or in \<open>freelist\<close>.\<close>

lemma free_loop:
  assumes "lists_ok frees m" "\<forall>n \<in> set nodes. node_ok n" "free_loop limit frees m current freelist nodes = (frees', m', current', freelist')"
  shows "lists_ok frees' m' \<and> stock frees' + mset freelist' = stock frees + mset freelist + mset nodes \<and> current' \<le> current \<and>
    (limit = 0 \<longrightarrow> freelist' = freelist) \<and>
    (limit \<noteq> 0 \<longrightarrow> sum_mset (image_mset nindex (stock frees')) + current' = sum_mset (image_mset nindex (stock frees)) + current)"
  using assms
proof (induction nodes arbitrary: frees m current freelist)
  case Nil
  then show ?case by simp
next
  case (Cons n nodes)
  let ?i = "if nindex n < MAX_INDEX then nindex n else 0"
  let ?f = "frees[?i := n # frees ! ?i]" let ?m = "if nindex n < MAX_INDEX \<and> frees ! nindex n = [] \<and> nindex n > m then nindex n else m"
  let ?c = "if current \<ge> nindex n then current - nindex n else 0"
  have i: "?i < length frees" using Cons.prems(1) by (simp add: lists_ok_def)
  show ?case
  proof (cases "limit \<noteq> 0 \<and> nindex n > current")
    case True
    then have "free_loop limit frees m current (n # freelist) nodes = (frees', m', current', freelist')" using Cons.prems(3) by simp
    from Cons.IH [OF Cons.prems(1) _ this] show ?thesis using Cons.prems(2) True by auto
  next
    case False
    then have r: "free_loop limit ?f ?m ?c freelist nodes = (frees', m', current', freelist')"
      using Cons.prems(3) by (auto simp: Let_def split: if_splits)
    have "lists_ok ?f ?m" using Cons.prems by (intro lists_ok_push) simp_all
    moreover have "stock ?f = add_mset n (stock frees)" by (rule stock_push [OF i])
    ultimately show ?thesis using Cons.IH [OF _ _ r] Cons.prems(2) False by auto
  qed
qed

section \<open>Runs\<close>

definition node_span :: "apr_memnode \<Rightarrow> span" where
  "node_span n = (naddr n, endp n)"

definition stock_spans :: "apr_allocator \<Rightarrow> span multiset" where
  "stock_spans a = image_mset node_span (stock_of a)"

definition weight :: "apr_allocator \<Rightarrow> nat" where
  "weight a = sum_mset (image_mset nindex (stock_of a))"

lemma node_ok_reset [simp]: "node_ok (reset_node n) = node_ok n" "node_span (reset_node n) = node_span n"
  by (simp_all add: node_ok_def reset_node_def node_span_def)

lemma new_node_ok:
  assumes "n + 40 \<le> 2 ^ 44"
  shows "node_ok (new_node p (need n) (node_size n))" "node_span (new_node p (need n) (node_size n)) = (p, p + node_size n)"
proof -
  have "uint32 (need n) = need n" using node_size(5) [OF assms] by (simp add: uint32_def)
  then show "node_ok (new_node p (need n) (node_size n))" "node_span (new_node p (need n) (node_size n)) = (p, p + node_size n)"
    using node_size(2,4,5) [OF assms] by (simp_all add: node_ok_def new_node_def node_span_def)
qed

text \<open>The three outcomes of a request.\<close>

lemma alloc_outcome:
  assumes "allocator_ok a" "n < 2 ^ 64"
  obtains (refused) "2 ^ 44 < n + 40" "allocator_alloc a n mem = (a, None)"
  | (reused) f a' where "n + 40 \<le> 2 ^ 44" "allocator_alloc a n mem = (a', Some (reset_node f))" "allocator_ok a'" "took a n f a'"
  | (fresh) "n + 40 \<le> 2 ^ 44" "allocator_alloc a n mem = (a, malloc_node mem (need n) (node_size n))" "\<forall>g \<in># stock_of a. nindex g < need n"
proof (cases "n + 40 \<le> 2 ^ 44")
  case False
  then show ?thesis using alloc_refused [OF assms(2)] refused by simp
next
  case True
  show ?thesis
  proof (cases "need n \<le> max_index a")
    case le: True
    show ?thesis using alloc_from_list [OF assms(1) le True] reused True by blast
  next
    case False
    show ?thesis using alloc_above [OF assms(1) False True] reused fresh True by blast
  qed
qed

lemma alloc_none: "allocator_alloc a n mem = (a', None) \<Longrightarrow> a' = a"
  by (auto simp: allocator_alloc_def Let_def split: if_splits list.splits prod.splits)

lemma stock_node_ok: "allocator_ok a \<Longrightarrow> f \<in># stock_of a \<Longrightarrow> node_ok f"
  using stock_bucket by (auto simp: allocator_ok_def stock_of_def)

lemma allocator_free:
  assumes "allocator_ok a" "\<forall>n \<in> set nodes. node_ok n" "allocator_free a nodes = (a', gone)"
  shows "allocator_ok a' \<and> stock_of a' + mset gone = stock_of a + mset nodes \<and> max_free_index a' = max_free_index a \<and>
    owner a' = owner a \<and> (max_free_index a = 0 \<longrightarrow> gone = []) \<and>
    (max_free_index a \<noteq> 0 \<longrightarrow> weight a' + current_free_index a' = weight a + current_free_index a)"
proof -
  obtain frees m c fl where r: "free_loop (max_free_index a) (free_lists a) (max_index a) (current_free_index a) [] nodes = (frees, m, c, fl)"
    using prod_cases4 by blast
  have l: "lists_ok (free_lists a) (max_index a)" using assms(1) by (simp add: allocator_ok_def)
  have "a' = a\<lparr>free_lists := frees, max_index := m, current_free_index := c\<rparr>" "gone = fl"
    using assms(3) r by (simp_all add: allocator_free_def)
  then show ?thesis using free_loop [OF l assms(2) r] assms(1) by (auto simp: allocator_ok_def stock_of_def weight_def)
qed

interpretation nodes: node_source allocator_alloc allocator_free allocator_ok stock_spans node_ok node_span node_size "2 ^ 64"
proof (unfold_locales, goal_cases)
  case (1 s n mem s' x)
  from 1(1,2) show ?case
  proof (cases rule: alloc_outcome [where mem = mem])
    case (reused f a')
    then have "f \<in># stock_of s" by (simp add: took_def)
    then have "node_ok f" using stock_node_ok 1(1) by blast
    then show ?thesis using reused 1(3) by (simp add: took_def stock_spans_def)
  next
    case fresh
    then obtain p where p: "mem = Some p" "x = new_node p (need n) (node_size n)" "s' = s"
      using 1(3) by (cases mem) (auto simp: malloc_node_def)
    have "0 < node_size n" using node_size(3) [OF fresh(1)] by simp
    then show ?thesis using p new_node_ok [OF fresh(1)] 1(1) by simp
  qed (use 1(3) in simp)
next
  case (2 s n mem s')
  then show ?case by (rule alloc_none)
next
  case (3 s xs s' gone)
  then have f: "stock_of s' + mset gone = stock_of s + mset xs" "allocator_ok s'" using allocator_free by blast+
  show ?case using f(2) arg_cong [OF f(1), of "image_mset node_span"] by (simp add: stock_spans_def)
qed

lemma new_allocator_ok [simp]: "allocator_ok new_allocator" "stock_of new_allocator = {#}" "max_free_index new_allocator = 0"
  "current_free_index new_allocator = 0"
  by (auto simp: allocator_ok_def lists_ok_def new_allocator_def stock_of_def stock_def)

text \<open>With a limit, what the lists hold and what they may still take add up to it.\<close>

definition balanced :: "nat \<Rightarrow> apr_allocator \<Rightarrow> bool" where
  "balanced limit a \<longleftrightarrow> max_free_index a = limit \<and> (limit \<noteq> 0 \<longrightarrow> weight a + current_free_index a = limit)"

lemma balanced_alloc:
  assumes "allocator_ok a" "balanced limit a" "n < 2 ^ 64" "allocator_alloc a n mem = (a', res)"
  shows "balanced limit a'"
  using assms(1,3)
proof (cases rule: alloc_outcome [where mem = mem])
  case (reused f b)
  then have t: "took a n f a'" using assms(4) by simp
  then have w: "weight a = nindex f + weight a'" by (simp add: took_def weight_def)
  have "uint32 (current_free_index a + nindex f) = current_free_index a + nindex f" if "limit \<noteq> 0"
    using assms(1,2) w that by (simp add: balanced_def allocator_ok_def uint32_def)
  then show ?thesis using assms(2) t w by (auto simp: balanced_def took_def)
next
  case fresh
  then show ?thesis using assms(2,4) by simp
qed (use assms in simp)

lemma balanced_free:
  "allocator_ok a \<Longrightarrow> balanced limit a \<Longrightarrow> \<forall>x \<in> set xs. node_ok x \<Longrightarrow> allocator_free a xs = (a', gone) \<Longrightarrow> balanced limit a'"
  using allocator_free [of a xs a' gone] by (auto simp: balanced_def)

definition free_bytes :: "apr_allocator \<Rightarrow> nat" where
  "free_bytes a = sum_mset (image_mset (\<lambda>n. endp n - naddr n) (stock_of a))"

lemma free_bytes:
  assumes "allocator_ok a"
  shows "free_bytes a \<le> 2 * BOUNDARY_SIZE * weight a"
proof -
  have "sum_mset (image_mset (\<lambda>n. endp n - naddr n) M) \<le> 2 * 4096 * sum_mset (image_mset nindex M)" if "\<forall>n \<in># M. node_ok n" for M
    using that by (induction M) (auto simp: node_ok_def)
  then show ?thesis using stock_node_ok [OF assms] by (simp add: free_bytes_def weight_def)
qed

text \<open>Nodes of two blocks have the index one: as many of them as the limit has blocks are kept.\<close>

lemma free_loop_ones:
  "\<forall>n \<in> set nodes. nindex n = 1 \<Longrightarrow> length nodes \<le> current \<Longrightarrow> m \<le> 1 \<Longrightarrow> length frees = 20 \<Longrightarrow>
    \<exists>m'. free_loop limit frees m current freelist nodes = (frees[1 := rev nodes @ frees ! 1], m', current - length nodes, freelist)"
proof (induction nodes arbitrary: frees m current)
  case (Cons n nodes)
  then have "\<exists>m'. free_loop limit (frees[1 := n # frees ! 1]) (if frees ! 1 = [] \<and> 1 > m then 1 else m) (current - 1) freelist nodes =
     ((frees[1 := n # frees ! 1])[1 := rev nodes @ (frees[1 := n # frees ! 1]) ! 1], m', current - 1 - length nodes, freelist)"
    by (intro Cons.IH) auto
  then show ?case using Cons.prems by (cases "frees ! 1 = [] \<and> m = 0") (auto simp: Let_def)
qed (simp add: list_update_id)

lemma limit_blocks: "k < 2 ^ 20 \<Longrightarrow> uint32 (uint32 (k * 4096) + 4095) div 4096 = k"
proof -
  assume "k < 2 ^ 20"
  then have "uint32 (k * 4096) = k * 4096" "uint32 (k * 4096 + 4095) = k * 4096 + 4095" by (simp_all add: uint32_def)
  then show ?thesis by simp
qed

lemma limit_set:
  assumes "k < 2 ^ 20"
  defines "s \<equiv> apr_allocator_max_free_set new_allocator (k * BOUNDARY_SIZE)"
  shows "allocator_ok s" "stock_of s = {#}" "balanced k s" "s = new_allocator\<lparr>current_free_index := k, max_free_index := k\<rparr>"
proof -
  show s: "s = new_allocator\<lparr>current_free_index := k, max_free_index := k\<rparr>"
    using limit_blocks [OF assms(1)] assms(1) by (simp add: s_def apr_allocator_max_free_set_def Let_def uint32_minus_def uint32_def)
  show "allocator_ok s" "stock_of s = {#}"
    using assms(1) new_allocator_ok(1,2) unfolding s by (simp_all add: allocator_ok_def stock_of_def)
  then show "balanced k s" by (simp add: s balanced_def weight_def)
qed

section \<open>Properties\<close>

text \<open>C12: A request is refused exactly when it is too large for an index of 32 bits. Otherwise, if a free node is large enough, one
  is taken off its list: the first node of the list of the smallest nodes with room, if a node that is not large has room, and else the first
  node with room in the list of the large ones. \<open>malloc\<close> is asked only if no free node is large enough. The node has room for the request,
  and the lists, \<open>max_index\<close> and the other nodes stay in order.\<close>

theorem allocator_best_fit:
  assumes "allocator_ok a" "n < 2 ^ 64"
  shows "if 2 ^ 44 < n + 40 then allocator_alloc a n mem = (a, None)
    else (if \<exists>g \<in># stock_of a. need n \<le> nindex g
      then \<exists>f a'. allocator_alloc a n mem = (a', Some (reset_node f)) \<and> allocator_ok a' \<and> took a n f a' \<and>
        n \<le> endp f - first_avail (reset_node f)
      else allocator_alloc a n mem = (a, malloc_node mem (need n) (node_size n)) \<and> n + APR_MEMNODE_T_SIZE \<le> node_size n)"
  using assms
proof (cases rule: alloc_outcome [where mem = mem])
  case (reused f a')
  then have f: "f \<in># stock_of a" "need n \<le> nindex f" by (simp_all add: took_def)
  then have "endp f = naddr f + (nindex f + 1) * 4096" using stock_node_ok [OF assms(1)] by (simp add: node_ok_def)
  moreover have "(need n + 1) * 4096 \<le> (nindex f + 1) * 4096" using f(2) by simp
  ultimately have "n \<le> endp f - first_avail (reset_node f)"
    using node_size(2,3) [OF reused(1)] by (simp add: reset_node_def)
  moreover have "\<not> 2 ^ 44 < n + 40" using reused(1) by simp
  ultimately show ?thesis using reused f by auto
next
  case fresh
  then have "\<not> 2 ^ 44 < n + 40" "\<not> (\<exists>g \<in># stock_of a. need n \<le> nindex g)" by auto
  then show ?thesis using fresh node_size(3) [OF fresh(1)] by simp
qed simp

theorem allocator_best_fit_witness:
  "allocator_alloc new_allocator 9000 (Some 4096) = (new_allocator, Some (new_node 4096 2 12288))"
proof -
  have n: "need 9000 = 2" "node_size 9000 = 12288"
    by (simp_all add: need_def node_size_def align_boundary_def size_t_def)
  show ?thesis using allocator_best_fit [of new_allocator 9000 "Some 4096"] by (simp add: n malloc_node_def)
qed

text \<open>C13: In any run of requests and returns, with a \<open>malloc\<close> that gives memory apart from what has not been freed, the nodes of the clients
  and of the lists never overlap, and together with those given back to the system they are exactly what \<open>malloc\<close> gave.\<close>

theorem allocator_run_apart:
  assumes "malloc_ok malloc" "\<forall>n. Take n \<in> set rs \<longrightarrow> n < 2 ^ 64"
    "node_run allocator_alloc allocator_free stock_spans node_span node_size malloc rs new_allocator [] = (a, out, fresh, gone)"
  shows "allocator_ok a \<and> apart (stock_spans a + mset (map node_span out)) \<and>
    stock_spans a + mset (map node_span out) + mset gone = mset fresh"
  using nodes.run_conserves [OF _ _ _ assms, unfolded nodes.live_def] by (simp add: stock_spans_def)

theorem allocator_run_apart_witness:
  defines "malloc \<equiv> \<lambda>(L :: span multiset) (n :: nat). if L = {#} then Some (8192 :: nat) else None"
  shows "\<exists>a out fresh gone. node_run allocator_alloc allocator_free stock_spans node_span node_size malloc [Take 100, Take 200] new_allocator [] =
      (a, out, fresh, gone) \<and> apart (stock_spans a + mset (map node_span out)) \<and> stock_spans a + mset (map node_span out) + mset gone = mset fresh"
proof -
  have m: "malloc_ok malloc" by (auto simp: malloc_ok_def malloc_def)
  obtain a out fresh gone where r: "node_run allocator_alloc allocator_free stock_spans node_span node_size malloc [Take 100, Take 200]
      new_allocator [] = (a, out, fresh, gone)" using prod_cases4 by blast
  show ?thesis using allocator_run_apart [OF m _ r] r by auto
qed

text \<open>C14: With a limit on free memory of \<open>k\<close> blocks, set before anything is free, what the lists hold and what they may still take add up to
  \<open>k\<close> after every run of requests and returns. They count the index of a node; a node of index \<open>i\<close> has \<open>i + 1\<close> blocks of memory, so
  that the free memory may reach twice the limit, but not more.\<close>

theorem allocator_limit:
  assumes "\<forall>n. Take n \<in> set rs \<longrightarrow> n < 2 ^ 64" "0 < k" "k < 2 ^ 20"
    "node_run allocator_alloc allocator_free stock_spans node_span node_size malloc rs
       (apr_allocator_max_free_set new_allocator (k * BOUNDARY_SIZE)) [] = (a, out, fresh, gone)"
  shows "weight a + current_free_index a = k \<and> free_bytes a \<le> 2 * (k * BOUNDARY_SIZE)"
proof -
  note init = limit_set [OF assms(3)]
  have "allocator_ok a \<and> balanced k a"
    by (rule nodes.run_keeps [where P = "balanced k", OF init(1) _ assms(1) init(3) balanced_alloc balanced_free assms(4)]) simp_all
  then show ?thesis using free_bytes [of a] assms(2) by (simp add: balanced_def)
qed

theorem allocator_limit_witness:
  "\<exists>a out fresh gone. node_run allocator_alloc allocator_free stock_spans node_span node_size (\<lambda>L n. Some 8192) [Take 100, Hand_back [0]]
      (apr_allocator_max_free_set new_allocator (5 * BOUNDARY_SIZE)) [] = (a, out, fresh, gone) \<and> weight a + current_free_index a = 5"
proof -
  obtain a out fresh gone where r: "node_run allocator_alloc allocator_free stock_spans node_span node_size (\<lambda>L n. Some 8192)
      [Take 100, Hand_back [0]] (apr_allocator_max_free_set new_allocator (5 * BOUNDARY_SIZE)) [] = (a, out, fresh, gone)"
    using prod_cases4 by blast
  show ?thesis using allocator_limit [OF _ _ _ r] r by auto
qed

text \<open>C15: The bound is reached: with a limit of \<open>k\<close> blocks an allocator keeps \<open>k\<close> nodes of two blocks each, twice the limit, and gives none
  of them back to the system.\<close>

theorem allocator_keeps_double:
  assumes "k < 2 ^ 20" "length nodes = k" "\<forall>n \<in> set nodes. node_ok n \<and> nindex n = 1"
  shows "\<exists>a. allocator_free (apr_allocator_max_free_set new_allocator (k * BOUNDARY_SIZE)) nodes = (a, []) \<and>
    free_bytes a = 2 * (k * BOUNDARY_SIZE)"
proof -
  let ?s = "apr_allocator_max_free_set new_allocator (k * BOUNDARY_SIZE)"
  note init = limit_set [OF assms(1)]
  have "max_index ?s \<le> 1" "length (free_lists ?s) = 20" "current_free_index ?s = k"
    unfolding init(4) by (simp_all add: new_allocator_def)
  then obtain m' where "free_loop k (free_lists ?s) (max_index ?s) (current_free_index ?s) [] nodes =
      ((free_lists ?s)[1 := rev nodes @ free_lists ?s ! 1], m', 0, [])"
    using free_loop_ones [of nodes k "max_index ?s" "free_lists ?s" k "[]"] assms(2,3) by auto
  moreover have "max_free_index ?s = k" unfolding init(4) by simp
  ultimately obtain a where a: "allocator_free ?s nodes = (a, [])" by (auto simp: allocator_free_def)
  then have st: "stock_of a = mset nodes" using allocator_free [OF init(1) _ a] assms(3) init(2) by simp
  have "sum_mset (image_mset (\<lambda>n. endp n - naddr n) (mset nodes)) = 2 * 4096 * length nodes"
    using assms(3) by (induction nodes) (auto simp: node_ok_def)
  then show ?thesis using a assms(2) by (simp add: free_bytes_def st)
qed

theorem allocator_keeps_double_witness:
  "\<exists>a. allocator_free (apr_allocator_max_free_set new_allocator (1 * BOUNDARY_SIZE)) [new_node 8192 1 8192] = (a, []) \<and>
    free_bytes a = 8192"
  using allocator_keeps_double [of 1 "[new_node 8192 1 8192]"] by (simp add: node_ok_def new_node_def uint32_def)

text \<open>Lowering the limit below what is already free wraps around: the allocator then believes that nothing is free and may keep as much as
  the new limit on top of what it has.\<close>

theorem max_free_lowered:
  assumes "allocator_ok a" "balanced limit a" "limit \<noteq> 0" "k < 2 ^ 20" "k < weight a"
  shows "current_free_index (apr_allocator_max_free_set a (k * BOUNDARY_SIZE)) = k \<and>
    max_free_index (apr_allocator_max_free_set a (k * BOUNDARY_SIZE)) = k \<and>
    weight (apr_allocator_max_free_set a (k * BOUNDARY_SIZE)) = weight a"
proof -
  have l: "limit < 2 ^ 32" "current_free_index a + weight a = limit" "max_free_index a = limit"
    using assms(1-3) by (simp_all add: allocator_ok_def balanced_def)
  have u: "uint32 (uint32 (k * 4096) + 4095) div 4096 = k" by (rule limit_blocks [OF assms(4)])
  have "uint32 (current_free_index a + k) = current_free_index a + k" using l(1,2) assms(5) by (simp add: uint32_def)
  then have "uint32_minus (uint32 (current_free_index a + k)) limit = current_free_index a + k + 2 ^ 32 - limit"
    using l(1,2) assms(5) by (simp add: uint32_minus_def uint32_def)
  then have "k < uint32_minus (uint32 (current_free_index a + k)) limit" using l(1) assms(4) by simp
  then show ?thesis by (simp add: apr_allocator_max_free_set_def Let_def u l(3) weight_def stock_of_def)
qed

theorem max_free_lowered_witness:
  "current_free_index (apr_allocator_max_free_set (new_allocator\<lparr>max_free_index := 10, current_free_index := 2, max_index := 8,
     free_lists := (replicate 20 [])[8 := [new_node 8192 8 36864]]\<rparr>) (5 * BOUNDARY_SIZE)) = 5"
proof -
  let ?a = "new_allocator\<lparr>max_free_index := 10, current_free_index := 2, max_index := 8,
     free_lists := (replicate 20 [])[8 := [new_node 8192 8 36864]]\<rparr>"
  have w: "weight ?a = 8"
    using stock_push [of 8 "replicate 20 []" "new_node 8192 8 36864"] by (simp add: weight_def stock_of_def stock_def new_node_def uint32_def)
  have "lists_ok (replicate 20 []) 0" using new_allocator_ok(1) by (simp add: allocator_ok_def new_allocator_def)
  from lists_ok_push [OF this, of "new_node 8192 8 36864"] have "allocator_ok ?a"
    by (simp add: allocator_ok_def node_ok_def new_node_def uint32_def)
  then show ?thesis using max_free_lowered [of ?a 10 5] w by (simp add: balanced_def)
qed

end
