(* ===== verification/AprPalloc.thy ===== *)
theory AprPalloc
  imports AprPools AprAllocatorCorrect
begin

text \<open>
  Allocation from a pool: the ring of a pool stays sorted by the room its nodes have, a new node is asked for only if no node of the ring has
  much room, and the blocks a pool hands out are aligned, inside its nodes and apart from each other.
\<close>

section \<open>The ring\<close>

definition node_aligned :: "apr_memnode \<Rightarrow> bool" where
  "node_aligned n \<longleftrightarrow> node_ok n \<and> naddr n mod 8 = 0"

definition ring_node :: "apr_memnode \<Rightarrow> bool" where
  "ring_node n \<longleftrightarrow> node_aligned n \<and> naddr n + APR_MEMNODE_T_SIZE \<le> first_avail n \<and> first_avail n \<le> endp n \<and> first_avail n mod 8 = 0"

abbreviation room :: "apr_memnode \<Rightarrow> nat" where
  "room n \<equiv> node_free_space n div BOUNDARY_SIZE"

definition placed :: "apr_memnode \<Rightarrow> bool" where
  "placed n \<longleftrightarrow> free_index n = Some (room n)"

definition ring_ok :: "apr_memnode list \<Rightarrow> bool" where
  "ring_ok nodes \<longleftrightarrow> nodes \<noteq> [] \<and> (\<forall>n \<in> set nodes. ring_node n) \<and> (\<forall>n \<in> set (tl nodes). placed n) \<and>
     sorted_wrt (\<lambda>x y. room x \<ge> room y) (tl nodes)"

lemma ring_node_room: "ring_node n \<Longrightarrow> first_avail n + node_free_space n = endp n \<and> node_free_space n + 40 \<le> 2 ^ 44"
proof -
  assume n: "ring_node n"
  then have "nindex n < 4294967296" "endp n = naddr n + (nindex n + 1) * 4096" "naddr n + 40 \<le> first_avail n" "first_avail n \<le> endp n"
    by (simp_all add: ring_node_def node_aligned_def node_ok_def)
  moreover from this have "(nindex n + 1) * 4096 \<le> 17592186044416" by simp
  ultimately have "first_avail n + (endp n - first_avail n) = endp n" "endp n - first_avail n + 40 \<le> 17592186044416" by simp_all
  then show ?thesis by (simp add: node_free_space_def)
qed

lemma compute_free_index: "ring_node n \<Longrightarrow> compute_free_index n = room n \<and> uint32 (room n) = room n"
proof -
  assume n: "ring_node n"
  let ?s = "node_free_space n"
  have s: "?s + 40 \<le> 2 ^ 44" using ring_node_room [OF n] by blast
  then have "align_boundary (?s + 1) = (?s + 4096) div 4096 * 4096" by (simp add: align_boundary_def size_t_def)
  then have "compute_free_index n = room n" by (simp add: compute_free_index_def node_free_space_def)
  moreover have "room n \<le> (2 ^ 44 - 40) div 4096" using s by (simp add: div_le_mono)
  then have "uint32 (room n) = room n" by (simp add: uint32_def)
  ultimately show ?thesis by simp
qed

lemma ring_place:
  assumes "\<forall>n \<in> set rest. placed n"
  shows "ring_place i x rest = Some (takeWhile (\<lambda>n. i < room n) rest @ x # dropWhile (\<lambda>n. i < room n) rest)"
  using assms by (induction rest) (auto simp: placed_def)

lemma set_place: "set (takeWhile P rest @ x # dropWhile P rest) = insert x (set rest)"
  using set_append [of "takeWhile P rest" "dropWhile P rest"] by auto

lemma mset_place: "mset (takeWhile P rest @ x # dropWhile P rest) = add_mset x (mset rest)"
  using mset_append [of "takeWhile P rest" "dropWhile P rest"] by simp

lemma sorted_place:
  assumes "sorted_wrt (\<lambda>x y. room x \<ge> room y) rest" "room x = i"
  shows "sorted_wrt (\<lambda>x y. room x \<ge> room y) (takeWhile (\<lambda>n. i < room n) rest @ x # dropWhile (\<lambda>n. i < room n) rest)"
  using assms
proof (induction rest)
  case (Cons n rest)
  show ?case
  proof (cases "i < room n")
    case True
    have "set (takeWhile (\<lambda>n. i < room n) rest @ x # dropWhile (\<lambda>n. i < room n) rest) = insert x (set rest)" by (rule set_place)
    then show ?thesis using Cons True by (simp del: set_append)
  next
    case False
    then show ?thesis using Cons.prems by (auto intro: order.trans)
  qed
qed simp

text \<open>Making a node active.\<close>

lemma make_active:
  assumes "ring_ok (active # rest)" "ring_node node" "sz \<le> node_free_space node" "sz mod 8 = 0"
  defines "x \<equiv> active\<lparr>free_index := Some (room active)\<rparr>"
  shows "\<exists>nodes. make_active sz node active rest = Some (bump sz (node\<lparr>free_index := Some 0\<rparr>) # nodes) \<and>
    ring_ok (bump sz (node\<lparr>free_index := Some 0\<rparr>) # nodes) \<and> mset nodes = add_mset x (mset rest)"
proof -
  define nodes where "nodes = takeWhile (\<lambda>n. room active < room n) rest @ x # dropWhile (\<lambda>n. room active < room n) rest"
  let ?node = "bump sz (node\<lparr>free_index := Some 0\<rparr>)"
  have r: "ring_node active" "\<forall>n \<in> set rest. ring_node n \<and> placed n" "sorted_wrt (\<lambda>x y. room x \<ge> room y) rest"
    using assms(1) by (auto simp: ring_ok_def)
  have fi: "uint32 (compute_free_index active) = room active" using compute_free_index [OF r(1)] by simp
  have "make_active sz node active rest = Some (?node # nodes)"
    using r(2) compute_free_index [OF r(1)] by (simp add: make_active_def Let_def x_def ring_place nodes_def)
  moreover have x: "ring_node x" "placed x" "room x = room active"
    using r(1) by (simp_all add: x_def ring_node_def node_aligned_def node_ok_def placed_def node_free_space_def)
  moreover have "first_avail node + sz \<le> endp node" using ring_node_room [OF assms(2)] assms(3) by linarith
  then have "ring_node ?node"
    using assms(2-4) by (simp add: ring_node_def node_aligned_def node_ok_def bump_def node_free_space_def mod_add_eq [symmetric])
  moreover have "sorted_wrt (\<lambda>x y. room x \<ge> room y) nodes" unfolding nodes_def by (rule sorted_place [OF r(3) x(3)])
  moreover have "set nodes = insert x (set rest)" "mset nodes = add_mset x (mset rest)" unfolding nodes_def by (rule set_place, rule mset_place)
  ultimately show ?thesis using r(2) by (intro exI [of _ nodes]) (simp add: ring_ok_def)
qed

section \<open>One allocation\<close>

definition memory_ok :: "apr_memnode list \<Rightarrow> apr_allocator \<Rightarrow> bool" where
  "memory_ok nodes a \<longleftrightarrow> ring_ok nodes \<and> allocator_ok a \<and> (\<forall>n \<in># stock_of a. naddr n mod 8 = 0)"

text \<open>The part of a node that has been handed out ends at \<open>first_avail\<close>. An allocation of \<open>sz\<close> bytes at \<open>q\<close> moves that end in one node,
  which was on the ring, or comes from the lists of the allocator, or from \<open>malloc\<close>.\<close>

definition core :: "apr_memnode \<Rightarrow> span \<times> nat" where
  "core n = (node_span n, first_avail n)"

definition cores :: "apr_memnode list \<Rightarrow> (span \<times> nat) multiset" where
  "cores nodes = mset (map core nodes)"

definition grows :: "nat \<Rightarrow> nat \<Rightarrow> apr_memnode list \<Rightarrow> apr_allocator \<Rightarrow> nat option \<Rightarrow> apr_memnode list \<Rightarrow> apr_allocator \<Rightarrow> bool" where
  "grows sz q nodes a mem nodes' a' \<longleftrightarrow> (\<exists>s M. cores nodes' = add_mset (s, q + sz) M \<and>
     (cores nodes = add_mset (s, q) M \<and> a' = a \<or>
      cores nodes = M \<and> q = fst s + APR_MEMNODE_T_SIZE \<and>
        (stock_spans a = add_mset s (stock_spans a') \<or> a' = a \<and> 0 < node_size sz \<and> mem = Some (fst s) \<and> snd s = fst s + node_size sz)))"

lemma core_simps [simp]: "core (bump sz n) = (node_span n, first_avail n + sz)" "core (n\<lparr>free_index := f\<rparr>) = core n"
  "core (bump sz (n\<lparr>free_index := f\<rparr>)) = (node_span n, first_avail n + sz)"
  "node_span (n\<lparr>free_index := f\<rparr>) = node_span n"
  by (simp_all add: core_def bump_def node_span_def)

lemma APR_ALIGN_DEFAULT: "APR_ALIGN_DEFAULT n mod 8 = 0 \<and> APR_ALIGN_DEFAULT n < 2 ^ 64"
proof -
  have "size_t (n + 7) < 2 ^ 64" by (simp add: size_t_def)
  then show ?thesis using div_mult_mod_eq [of "size_t (n + 7)" 8] by (simp add: APR_ALIGN_DEFAULT_def)
qed

lemma taken_node:
  assumes "memory_ok nodes a" "took a sz f a'" "sz + 40 \<le> 2 ^ 44" "allocator_ok a'"
  shows "ring_node (reset_node f)" "sz \<le> node_free_space (reset_node f)" "\<forall>n \<in># stock_of a'. naddr n mod 8 = 0"
    "stock_spans a = add_mset (node_span f) (stock_spans a')"
proof -
  have f: "f \<in># stock_of a" "need sz \<le> nindex f" "stock_of a = add_mset f (stock_of a')" using assms(2) by (simp_all add: took_def)
  have ok: "node_ok f" using assms(1) stock_node_ok [OF _ f(1)] by (simp add: memory_ok_def)
  have al: "\<forall>n \<in># stock_of a. naddr n mod 8 = 0" using assms(1) by (simp add: memory_ok_def)
  then show "\<forall>n \<in># stock_of a'. naddr n mod 8 = 0" "stock_spans a = add_mset (node_span f) (stock_spans a')"
    using f(3) by (simp_all add: stock_spans_def)
  have e: "endp f = naddr f + (nindex f + 1) * 4096" using ok by (simp add: node_ok_def)
  have "(need sz + 1) * 4096 \<le> (nindex f + 1) * 4096" using f(2) by simp
  then have "sz + 40 \<le> (nindex f + 1) * 4096" using node_size(2,3) [OF assms(3)] by linarith
  then show "sz \<le> node_free_space (reset_node f)" using e by (simp add: node_free_space_def reset_node_def)
  have "naddr f mod 8 = 0" using al f(1) by simp
  then have "(naddr f + 40) mod 8 = 0" by presburger
  then show "ring_node (reset_node f)" using e ok \<open>naddr f mod 8 = 0\<close>
    by (simp add: ring_node_def node_aligned_def reset_node_def node_ok_def)
qed

lemma fresh_node:
  assumes "sz + 40 \<le> 2 ^ 44" "p mod 8 = 0"
  defines "x \<equiv> new_node p (need sz) (node_size sz)"
  shows "ring_node x" "sz \<le> node_free_space x" "node_span x = (p, p + node_size sz)" "0 < node_size sz"
proof -
  show s: "node_span x = (p, p + node_size sz)" unfolding x_def by (rule new_node_ok(2) [OF assms(1)])
  have "node_ok x" unfolding x_def by (rule new_node_ok(1) [OF assms(1)])
  moreover have f: "first_avail x = p + 40" "naddr x = p" "endp x = p + node_size sz" by (simp_all add: x_def new_node_def)
  moreover have n: "sz + 40 \<le> node_size sz" by (rule node_size(3) [OF assms(1)])
  moreover have "(p + 40) mod 8 = 0" using assms(2) by presburger
  ultimately show "ring_node x" using assms(2) by (simp add: ring_node_def node_aligned_def)
  show "sz \<le> node_free_space x" "0 < node_size sz" using f n by (simp_all add: node_free_space_def)
qed

text \<open>A new active node, from wherever it comes.\<close>

lemma activate:
  assumes "ring_ok (active # rest)" "ring_node node" "sz \<le> node_free_space node" "sz mod 8 = 0"
  obtains nodes where "make_active sz node active rest = Some nodes" "ring_ok nodes"
    "cores nodes = add_mset (node_span node, first_avail node + sz) (cores (active # rest))" "length nodes = length rest + 2"
proof -
  obtain ns where ns: "make_active sz node active rest = Some (bump sz (node\<lparr>free_index := Some 0\<rparr>) # ns)"
    "ring_ok (bump sz (node\<lparr>free_index := Some 0\<rparr>) # ns)" "mset ns = add_mset (active\<lparr>free_index := Some (room active)\<rparr>) (mset rest)"
    using make_active [OF assms] by blast
  have "cores (bump sz (node\<lparr>free_index := Some 0\<rparr>) # ns) = add_mset (node_span node, first_avail node + sz) (cores (active # rest))"
    using ns(3) by (simp add: cores_def)
  moreover have "length ns = length rest + 1" using arg_cong [OF ns(3), of size] by simp
  ultimately show ?thesis using that [OF ns(1,2)] by simp
qed

lemma ring_ok_tl: "ring_ok (active # n # rest) \<Longrightarrow> ring_ok (active # rest)"
  by (auto simp: ring_ok_def)

text \<open>The first node behind the active one has the most room, so that the others have at most a block more than it.\<close>

lemma most_room:
  assumes "ring_ok (active # n # rest)" "node_free_space n < sz" "x \<in> set rest"
  shows "node_free_space x < sz + 4096"
proof -
  have "room x \<le> room n" using assms(1,3) by (auto simp: ring_ok_def)
  then have "node_free_space x < (node_free_space n div 4096 + 1) * 4096"
    using div_mult_mod_eq [of "node_free_space x" 4096] mod_less_divisor [of 4096 "node_free_space x"] by simp
  then show ?thesis using assms(2) by simp
qed

text \<open>The outcome of an allocation: refused, from the nodes of the ring, or from a node of the allocator, which is asked only if every node of
  the ring has less room than the request and a block.\<close>

lemma ring_palloc_outcome:
  assumes "memory_ok nodes a" "n < 2 ^ 64" "\<forall>p. mem = Some p \<longrightarrow> p mod 8 = 0"
  defines "sz \<equiv> APR_ALIGN_DEFAULT n"
  obtains (refused) "ring_palloc nodes a n mem = Some (nodes, a, None)" "sz < n \<or> 2 ^ 44 < sz + 40 \<or> mem = None"
      "sz < n \<or> (\<forall>x \<in> set nodes. node_free_space x < sz + BOUNDARY_SIZE)"
  | (ring) nodes' q where "ring_palloc nodes a n mem = Some (nodes', a, Some q)" "memory_ok nodes' a" "n \<le> sz" "q mod 8 = 0"
      "grows sz q nodes a mem nodes' a" "length nodes' = length nodes"
  | (allocator) nodes' a' q where "ring_palloc nodes a n mem = Some (nodes', a', Some q)" "memory_ok nodes' a'" "n \<le> sz" "q mod 8 = 0"
      "grows sz q nodes a mem nodes' a'" "length nodes' = length nodes + 1" "\<forall>x \<in> set nodes. node_free_space x < sz + BOUNDARY_SIZE"
proof -
  have rok: "ring_ok nodes" and ok: "allocator_ok a" and al: "\<forall>n \<in># stock_of a. naddr n mod 8 = 0"
    using assms(1) by (simp_all add: memory_ok_def)
  have sz: "sz mod 8 = 0" "sz < 2 ^ 64" using APR_ALIGN_DEFAULT [of n] by (simp_all add: sz_def)
  obtain active rest where nodes: "nodes = active # rest" using rok by (cases nodes) (auto simp: ring_ok_def)
  have rn: "\<forall>x \<in> set nodes. ring_node x" using rok by (simp add: ring_ok_def)
  show thesis
  proof (cases "sz < n")
    case True
    then show thesis using that(1) by (simp add: ring_palloc_def sz_def Let_def)
  next
    case fits: False
    show thesis
    proof (cases "sz \<le> node_free_space active")
      case True
      have r: "ring_palloc nodes a n mem = Some (bump sz active # rest, a, Some (first_avail active))"
        using fits True by (simp add: ring_palloc_def sz_def [symmetric] nodes)
      have "first_avail active + sz \<le> endp active" using ring_node_room [of active] rn True by (simp add: nodes)
      moreover have "(first_avail active + sz) mod 8 = 0" using rn sz(1) by (auto simp: nodes ring_node_def mod_add_eq [symmetric])
      ultimately have "ring_node (bump sz active)" using rn by (simp add: nodes ring_node_def node_aligned_def node_ok_def bump_def)
      then have "memory_ok (bump sz active # rest) a" using assms(1) by (simp add: memory_ok_def ring_ok_def nodes)
      moreover have "grows sz (first_avail active) nodes a mem (bump sz active # rest) a"
        unfolding grows_def nodes
        by (intro exI [of _ "node_span active"] exI [of _ "cores rest"]) (simp add: cores_def, simp add: core_def)
      ultimately show thesis using that(2) [OF r] fits rn by (simp add: nodes ring_node_def)
    next
      case full: False
      define node where "node = (case rest of [] \<Rightarrow> active | n # _ \<Rightarrow> n)"
      show thesis
      proof (cases "sz \<le> node_free_space node")
        case True
        then obtain n' rest' where rest: "rest = n' # rest'" using full by (cases rest) (auto simp: node_def)
        then have n': "node = n'" "ring_node n'" "ring_ok (active # rest')" using rn rok ring_ok_tl by (auto simp: node_def nodes)
        obtain nodes' where m: "make_active sz n' active rest' = Some nodes'" "ring_ok nodes'"
          "cores nodes' = add_mset (node_span n', first_avail n' + sz) (cores (active # rest'))" "length nodes' = length rest' + 2"
          using activate [OF n'(3,2) _ sz(1)] True n'(1) by auto
        have "ring_palloc nodes a n mem = Some (nodes', a, Some (first_avail n'))"
          using fits full True m(1) n'(1) by (simp add: ring_palloc_def sz_def [symmetric] nodes rest Let_def node_def)
        moreover have "grows sz (first_avail n') nodes a mem nodes' a"
          unfolding grows_def m(3) nodes rest
          by (intro exI [of _ "node_span n'"] exI [of _ "cores (active # rest')"]) (simp add: cores_def, simp add: core_def)
        ultimately show thesis using that(2) m(2,4) fits n'(2) ok al by (simp add: memory_ok_def nodes rest ring_node_def)
      next
        case False
        have few: "\<forall>x \<in> set nodes. node_free_space x < sz + BOUNDARY_SIZE"
        proof
          fix x assume "x \<in> set nodes"
          then consider "x = active" | "x \<in> set rest" by (auto simp: nodes)
          then show "node_free_space x < sz + BOUNDARY_SIZE"
          proof cases
            case 2
            then obtain n' rest' where rest: "rest = n' # rest'" by (cases rest) auto
            then show ?thesis using most_room [of active n' rest' sz x] rok False 2 by (auto simp: nodes node_def)
          qed (use full in simp)
        qed
        have r: "ring_palloc nodes a n mem = (case allocator_alloc a sz mem of (a', None) \<Rightarrow> Some (nodes, a', None)
            | (a', Some node) \<Rightarrow> map_option (\<lambda>nodes'. (nodes', a', Some (first_avail node))) (make_active sz node active rest))"
          unfolding ring_palloc_def Let_def sz_def [symmetric] nodes list.case node_def [symmetric] using fits full False by simp
        have ra: "ring_ok (active # rest)" using rok by (simp add: nodes)
        from ok sz(2) show thesis
        proof (cases rule: alloc_outcome [where mem = mem])
          case refused
          then show thesis using that(1) r few by simp
        next
          case (reused f a')
          note t = taken_node [OF assms(1) reused(4,1,3)]
          obtain nodes' where m: "make_active sz (reset_node f) active rest = Some nodes'" "ring_ok nodes'"
            "cores nodes' = add_mset (node_span (reset_node f), first_avail (reset_node f) + sz) (cores (active # rest))" "length nodes' = length rest + 2"
            by (rule activate [OF ra t(1,2) sz(1)])
          have g: "grows sz (first_avail (reset_node f)) nodes a mem nodes' a'"
            unfolding grows_def m(3) nodes using t(4)
            by (intro exI [of _ "node_span f"] exI [of _ "cores (active # rest)"]) (simp add: reset_node_def node_span_def)
          show thesis
            using that(3) [of nodes' a' "first_avail (reset_node f)"] r reused(2,3) m(1,2,4) t(1,3) g fits few
            by (simp add: memory_ok_def nodes ring_node_def)
        next
          case fresh
          show thesis
          proof (cases mem)
            case None
            then show thesis using that(1) r few fresh(2) by (simp add: malloc_node_def)
          next
            case (Some p)
            let ?x = "new_node p (need sz) (node_size sz)"
            have "p mod 8 = 0" using assms(3) Some by simp
            note x = fresh_node [OF fresh(1) this]
            obtain nodes' where m: "make_active sz ?x active rest = Some nodes'" "ring_ok nodes'"
              "cores nodes' = add_mset (node_span ?x, first_avail ?x + sz) (cores (active # rest))" "length nodes' = length rest + 2"
              by (rule activate [OF ra x(1,2) sz(1)])
            have g: "grows sz (first_avail ?x) nodes a mem nodes' a"
              unfolding grows_def m(3) nodes x(3) using x(4) Some
              by (intro exI [of _ "(p, p + node_size sz)"] exI [of _ "cores (active # rest)"]) (simp add: new_node_def)
            show thesis
              using that(3) [of nodes' a "first_avail ?x"] r fresh(2) m(1,2,4) x(1) g fits few ok al Some
              by (simp add: memory_ok_def nodes ring_node_def malloc_node_def)
          qed
        qed
      qed
    qed
  qed
qed

text \<open>Which node serves a request: the active one, else the first one behind it, which has the most room of these, else a node of the
  allocator. A new active node is the first of the ring, and the former one goes behind it.\<close>

definition serves :: "nat \<Rightarrow> apr_memnode list \<Rightarrow> apr_allocator \<Rightarrow> nat option \<Rightarrow> apr_memnode list \<Rightarrow> apr_allocator \<Rightarrow> nat option \<Rightarrow> bool" where
  "serves sz nodes a mem nodes' a' res \<longleftrightarrow> (case nodes of [] \<Rightarrow> False | active # rest \<Rightarrow>
     if sz \<le> node_free_space active then nodes' = bump sz active # rest \<and> a' = a \<and> res = Some (first_avail active)
     else if rest \<noteq> [] \<and> sz \<le> node_free_space (hd rest)
       then (\<exists>ns. nodes' = bump sz ((hd rest)\<lparr>free_index := Some 0\<rparr>) # ns \<and> mset ns = add_mset (active\<lparr>free_index := Some (room active)\<rparr>) (mset (tl rest))) \<and>
         a' = a \<and> res = Some (first_avail (hd rest)) \<and> (\<forall>x \<in> set rest. room x \<le> room (hd rest))
       else case allocator_alloc a sz mem of
           (a1, None) \<Rightarrow> nodes' = nodes \<and> a' = a1 \<and> res = None
         | (a1, Some x) \<Rightarrow> (\<exists>ns. nodes' = bump sz (x\<lparr>free_index := Some 0\<rparr>) # ns \<and> mset ns = add_mset (active\<lparr>free_index := Some (room active)\<rparr>) (mset rest)) \<and>
             a' = a1 \<and> res = Some (first_avail x))"

lemma make_active_mset:
  assumes "ring_node active" "\<forall>n \<in> set rest. placed n" "make_active sz node active rest = Some nodes"
  shows "\<exists>ns. nodes = bump sz (node\<lparr>free_index := Some 0\<rparr>) # ns \<and> mset ns = add_mset (active\<lparr>free_index := Some (room active)\<rparr>) (mset rest)"
proof -
  let ?x = "active\<lparr>free_index := Some (room active)\<rparr>"
  have "nodes = bump sz (node\<lparr>free_index := Some 0\<rparr>) #
      (takeWhile (\<lambda>n. room active < room n) rest @ ?x # dropWhile (\<lambda>n. room active < room n) rest)"
    using assms(3) compute_free_index [OF assms(1)] by (simp add: make_active_def ring_place [OF assms(2)] Let_def)
  then show ?thesis using mset_place [of "\<lambda>n. room active < room n" rest ?x] by blast
qed

lemma ring_palloc_serves:
  assumes "ring_ok nodes" "ring_palloc nodes a n mem = Some (nodes', a', res)" "n \<le> APR_ALIGN_DEFAULT n"
  shows "serves (APR_ALIGN_DEFAULT n) nodes a mem nodes' a' res"
proof -
  let ?sz = "APR_ALIGN_DEFAULT n"
  obtain active rest where nodes: "nodes = active # rest" using assms(1) by (cases nodes) (auto simp: ring_ok_def)
  have r: "ring_node active" "\<forall>x \<in> set rest. placed x" "sorted_wrt (\<lambda>x y. room x \<ge> room y) rest" using assms(1) by (auto simp: ring_ok_def nodes)
  show ?thesis
  proof (cases rest)
    case Nil
    then show ?thesis using assms(2,3) make_active_mset [OF r(1,2)]
      by (auto simp: serves_def ring_palloc_def nodes Let_def split: if_splits prod.splits option.splits)
  next
    case (Cons m rest')
    then show ?thesis using assms(2,3) make_active_mset [OF r(1,2)] make_active_mset [OF r(1), of rest' ?sz m] r(2,3)
      by (auto simp: serves_def ring_palloc_def nodes Let_def split: if_splits prod.splits option.splits)
  qed
qed

section \<open>Blocks\<close>

definition apart_spans :: "span \<Rightarrow> span \<Rightarrow> bool" where
  "apart_spans x y \<longleftrightarrow> snd x \<le> fst y \<or> snd y \<le> fst x"

text \<open>The blocks a pool has handed out lie in the used parts of its nodes.\<close>

definition issued :: "apr_memnode list \<Rightarrow> span list \<Rightarrow> bool" where
  "issued nodes bs \<longleftrightarrow> (\<forall>b \<in> set bs. \<exists>c \<in># cores nodes. fst (fst c) + APR_MEMNODE_T_SIZE \<le> fst b \<and> fst b \<le> snd b \<and> snd b \<le> snd c)"

definition live_spans :: "apr_memnode list \<Rightarrow> apr_allocator \<Rightarrow> span multiset \<Rightarrow> span multiset" where
  "live_spans nodes a others = stock_spans a + mset (map node_span nodes) + others"

lemma live_spans_cores: "live_spans nodes a others = stock_spans a + image_mset fst (cores nodes) + others"
  by (simp add: live_spans_def cores_def core_def image_mset.compositionality comp_def)

lemma cores_bounds: "ring_ok nodes \<Longrightarrow> c \<in># cores nodes \<Longrightarrow> fst (fst c) + 40 \<le> snd c \<and> snd c \<le> snd (fst c)"
  by (auto simp: ring_ok_def cores_def core_def node_span_def ring_node_def)

lemma grows_apart:
  assumes "grows sz q nodes a mem nodes' a'" "apart (live_spans nodes a others)" "malloc_ok malloc"
    "mem = malloc (live_spans nodes a others) (node_size sz)"
  shows "apart (live_spans nodes' a' others)"
proof -
  obtain s M where g: "cores nodes' = add_mset (s, q + sz) M"
    "cores nodes = add_mset (s, q) M \<and> a' = a \<or> cores nodes = M \<and> q = fst s + APR_MEMNODE_T_SIZE \<and>
        (stock_spans a = add_mset s (stock_spans a') \<or> a' = a \<and> 0 < node_size sz \<and> mem = Some (fst s) \<and> snd s = fst s + node_size sz)"
    using assms(1) by (auto simp: grows_def)
  consider "cores nodes = add_mset (s, q) M" "a' = a" | "cores nodes = M" "stock_spans a = add_mset s (stock_spans a')"
    | "cores nodes = M" "a' = a" "0 < node_size sz" "mem = Some (fst s)" "snd s = fst s + node_size sz" using g(2) by (elim disjE conjE)
  then show ?thesis
  proof cases
    case 3
    then have "\<forall>y \<in># live_spans nodes a others. fst s + node_size sz \<le> fst y \<or> snd y \<le> fst s"
      using assms(3,4) unfolding malloc_ok_def by metis
    then have "apart (add_mset s (live_spans nodes a others))" using assms(2) 3 by (intro apart_add) auto
    then show ?thesis using 3(1,2) g(1) by (simp add: live_spans_cores)
  qed (use assms(2) g(1) in \<open>simp_all add: live_spans_cores\<close>)
qed

lemma grows_issued:
  assumes "grows sz q nodes a mem nodes' a'" "ring_ok nodes" "ring_ok nodes'" "apart (live_spans nodes' a' others)" "issued nodes bs" "n \<le> sz"
  shows "issued nodes' ((q, q + n) # bs)" "\<forall>b \<in> set bs. apart_spans (q, q + n) b"
proof -
  obtain s M where g: "cores nodes' = add_mset (s, q + sz) M"
    "cores nodes = add_mset (s, q) M \<or> cores nodes = M \<and> q = fst s + APR_MEMNODE_T_SIZE"
    using assms(1) by (auto simp: grows_def)
  have new: "fst s + 40 \<le> q" using g cores_bounds [OF assms(2), of "(s, q)"] by auto
  have qs: "q + sz \<le> snd s" using cores_bounds [OF assms(3), of "(s, q + sz)"] g(1) by simp
  have old: "c \<in># M \<or> c = (s, q) \<and> cores nodes = add_mset (s, q) M" if "c \<in># cores nodes" for c using that g(2) by auto
  show "issued nodes' ((q, q + n) # bs)"
    unfolding issued_def
  proof
    fix b assume "b \<in> set ((q, q + n) # bs)"
    then consider "b = (q, q + n)" | "b \<in> set bs" by auto
    then show "\<exists>c \<in># cores nodes'. fst (fst c) + APR_MEMNODE_T_SIZE \<le> fst b \<and> fst b \<le> snd b \<and> snd b \<le> snd c"
    proof cases
      case 1
      then show ?thesis using new assms(6) by (intro bexI [of _ "(s, q + sz)"]) (simp_all add: g(1))
    next
      case 2
      then obtain c where c: "c \<in># cores nodes" "fst (fst c) + 40 \<le> fst b" "fst b \<le> snd b" "snd b \<le> snd c"
        using assms(5) by (auto simp: issued_def)
      from old [OF c(1)] show ?thesis
      proof
        assume "c \<in># M"
        then show ?thesis using c by (intro bexI [of _ c]) (simp_all add: g(1))
      next
        assume "c = (s, q) \<and> cores nodes = add_mset (s, q) M"
        then show ?thesis using c by (intro bexI [of _ "(s, q + sz)"]) (simp_all add: g(1))
      qed
    qed
  qed
  show "\<forall>b \<in> set bs. apart_spans (q, q + n) b"
  proof
    fix b assume "b \<in> set bs"
    then obtain c where c: "c \<in># cores nodes" "fst (fst c) + 40 \<le> fst b" "fst b \<le> snd b" "snd b \<le> snd c"
      using assms(5) by (auto simp: issued_def)
    from old [OF c(1)] show "apart_spans (q, q + n) b"
    proof
      assume m: "c \<in># M"
      then have "{#s, fst c#} \<subseteq># add_mset s (image_mset fst M)" by simp
      also have "\<dots> \<subseteq># live_spans nodes' a' others" by (simp add: live_spans_cores g(1))
      finally have "snd s \<le> fst (fst c) \<or> snd (fst c) \<le> fst s" using assms(4) by (simp add: apart_def)
      moreover have "snd c \<le> snd (fst c)" using cores_bounds [OF assms(2) c(1)] by simp
      ultimately show ?thesis using c new qs assms(6) by (auto simp: apart_spans_def)
    next
      assume "c = (s, q) \<and> cores nodes = add_mset (s, q) M"
      then show ?thesis using c by (simp add: apart_spans_def)
    qed
  qed
qed

text \<open>A run of allocations from one pool; \<open>others\<close> are the blocks of memory that are in use elsewhere.\<close>

fun palloc_run :: "(span multiset \<Rightarrow> nat \<Rightarrow> nat option) \<Rightarrow> span multiset \<Rightarrow> nat list \<Rightarrow> apr_memnode list \<Rightarrow> apr_allocator \<Rightarrow>
    (apr_memnode list \<times> apr_allocator \<times> span list) option" where
  "palloc_run malloc others [] nodes a = Some (nodes, a, [])"
| "palloc_run malloc others (n # ns) nodes a =
     Option.bind (ring_palloc nodes a n (malloc (live_spans nodes a others) (node_size (APR_ALIGN_DEFAULT n)))) (\<lambda>(nodes1, a1, res).
       map_option (\<lambda>(nodes2, a2, bs). (nodes2, a2, case res of None \<Rightarrow> bs | Some q \<Rightarrow> (q, q + n) # bs)) (palloc_run malloc others ns nodes1 a1))"

lemma palloc_run:
  assumes "memory_ok nodes a" "apart (live_spans nodes a others)" "malloc_ok malloc" "\<forall>n \<in> set ns. n < 2 ^ 64" "issued nodes bs"
    "sorted_wrt apart_spans bs"
  shows "\<exists>nodes' a' new. palloc_run malloc others ns nodes a = Some (nodes', a', new) \<and> memory_ok nodes' a' \<and>
    apart (live_spans nodes' a' others) \<and> issued nodes' (rev new @ bs) \<and> sorted_wrt apart_spans (rev new @ bs) \<and> (\<forall>b \<in> set new. fst b mod 8 = 0)"
  using assms
proof (induction ns arbitrary: nodes a bs)
  case Nil
  then show ?case by simp
next
  case (Cons n ns)
  let ?mem = "malloc (live_spans nodes a others) (node_size (APR_ALIGN_DEFAULT n))"
  have n: "n < 2 ^ 64" and mem: "\<forall>p. ?mem = Some p \<longrightarrow> p mod 8 = 0" using Cons.prems(3,4) by (auto simp: malloc_ok_def)
  have ok: "ring_ok nodes" using Cons.prems(1) by (simp add: memory_ok_def)
  have step: ?case if r: "ring_palloc nodes a n ?mem = Some (nodes1, a1, Some q)" "memory_ok nodes1 a1" "n \<le> APR_ALIGN_DEFAULT n" "q mod 8 = 0"
      "grows (APR_ALIGN_DEFAULT n) q nodes a ?mem nodes1 a1" for nodes1 a1 q
  proof -
    have ap: "apart (live_spans nodes1 a1 others)" by (rule grows_apart [OF r(5) Cons.prems(2,3) refl])
    have ok1: "ring_ok nodes1" using r(2) by (simp add: memory_ok_def)
    note iss = grows_issued [OF r(5) ok ok1 ap Cons.prems(5) r(3)]
    have "sorted_wrt apart_spans ((q, q + n) # bs)" using iss(2) Cons.prems(6) by simp
    from Cons.IH [OF r(2) ap Cons.prems(3) _ iss(1) this] show ?thesis using Cons.prems(4) r(1,4) by auto
  qed
  from Cons.prems(1) n mem show ?case
  proof (cases rule: ring_palloc_outcome)
    case refused
    then show ?thesis using Cons.IH [of nodes a bs] Cons.prems by auto
  next
    case (ring nodes' q)
    show ?thesis by (rule step [OF ring(1-5)])
  next
    case (allocator nodes' a' q)
    show ?thesis by (rule step [OF allocator(1-5)])
  qed
qed

lemma new_pool_ring:
  assumes "node_aligned node" "first_avail node = naddr node + APR_MEMNODE_T_SIZE"
  shows "ring_ok (ring (new_pool node x f))" "issued (ring (new_pool node x f)) [(first_avail node, first_avail node + SIZEOF_POOL_T)]"
    "map node_span (ring (new_pool node x f)) = [node_span node]"
proof -
  have s: "SIZEOF_POOL_T = 128" by (simp add: SIZEOF_POOL_T_def APR_ALIGN_DEFAULT_def size_t_def)
  have n: "1 \<le> nindex node" "endp node = naddr node + (nindex node + 1) * 4096" "naddr node mod 8 = 0"
    using assms(1) by (simp_all add: node_aligned_def node_ok_def)
  moreover have "(168 + naddr node) mod 8 = 0" using n(3) by presburger
  ultimately show "ring_ok (ring (new_pool node x f))"
    using assms by (simp add: ring_ok_def new_pool_def ring_node_def node_aligned_def node_ok_def s)
  show "issued (ring (new_pool node x f)) [(first_avail node, first_avail node + SIZEOF_POOL_T)]"
    using assms(2) by (simp add: issued_def cores_def core_def node_span_def new_pool_def)
  show "map node_span (ring (new_pool node x f)) = [node_span node]" by (simp add: new_pool_def node_span_def)
qed

section \<open>Properties\<close>

text \<open>C16: An allocation from a pool uses the active node if it has room; else the next node of the ring, which has the most whole blocks of room
  of the nodes behind the active one, if that has room; else a node that the allocator gives, and then no node of the ring has room for the
  request and one block more. It is refused only if the request wraps around or is too large, or \<open>malloc\<close> fails, and then nothing changes.
  A node that is not yet active becomes the active one, and the former one goes to its place in the ring, which stays sorted; the indices in it
  never are read before they are set. The block is an aligned piece at the end of the used part of the node.\<close>

theorem palloc_most_room:
  assumes "memory_ok nodes a" "n < 2 ^ 64" "\<forall>p. mem = Some p \<longrightarrow> p mod 8 = 0"
  defines "sz \<equiv> APR_ALIGN_DEFAULT n"
  shows "\<exists>nodes' a' res. ring_palloc nodes a n mem = Some (nodes', a', res) \<and> memory_ok nodes' a' \<and>
    (if sz < n then nodes' = nodes \<and> a' = a \<and> res = None else serves sz nodes a mem nodes' a' res) \<and>
    (\<forall>q. res = Some q \<longrightarrow> q mod 8 = 0 \<and> n \<le> sz \<and> grows sz q nodes a mem nodes' a') \<and>
    (res = None \<longrightarrow> nodes' = nodes \<and> a' = a \<and> (sz < n \<or> 2 ^ 44 < sz + 40 \<or> mem = None)) \<and>
    (length nodes' \<noteq> length nodes \<or> res = None \<and> n \<le> sz \<longrightarrow> (\<forall>x \<in> set nodes. node_free_space x < sz + BOUNDARY_SIZE))"
proof -
  have serves: "serves sz nodes a mem nodes' a' res" if "ring_palloc nodes a n mem = Some (nodes', a', res)" "\<not> sz < n" for nodes' a' res
    using ring_palloc_serves [OF _ that(1)] that(2) assms(1) by (simp add: memory_ok_def sz_def)
  from assms(1-3) show ?thesis
  proof (cases rule: ring_palloc_outcome)
    case refused
    then show ?thesis using assms(1) serves by (intro exI [of _ nodes] exI [of _ a] exI [of _ None]) (auto simp: sz_def)
  next
    case (ring nodes' q)
    then show ?thesis using serves [of nodes' a "Some q"] by (intro exI [of _ nodes'] exI [of _ a] exI [of _ "Some q"]) (auto simp: sz_def)
  next
    case (allocator nodes' a' q)
    then show ?thesis using serves [of nodes' a' "Some q"] by (intro exI [of _ nodes'] exI [of _ a'] exI [of _ "Some q"]) (auto simp: sz_def)
  qed
qed

theorem palloc_most_room_witness:
  "\<exists>nodes' a' res. ring_palloc (ring (new_pool (new_node 8192 1 8192) 1 None)) new_allocator 100 None = Some (nodes', a', res) \<and>
    memory_ok nodes' a'"
proof -
  have "node_aligned (new_node 8192 1 8192)" by (simp add: node_aligned_def node_ok_def new_node_def uint32_def)
  then have "memory_ok (ring (new_pool (new_node 8192 1 8192) 1 None)) new_allocator"
    using new_pool_ring(1) [of "new_node 8192 1 8192"] by (simp add: memory_ok_def) (simp add: new_node_def)
  from palloc_most_room [OF this, of 100 None] show ?thesis by auto
qed

text \<open>C17: Any sequence of allocations from a new pool succeeds without a wild pointer, and the blocks it hands out are aligned, lie in nodes
  of the pool, and are apart from each other and from the structure of the pool; the nodes stay apart from all other memory.\<close>

theorem palloc_run_apart:
  assumes "node_aligned node" "first_avail node = naddr node + APR_MEMNODE_T_SIZE" "allocator_ok a" "\<forall>n \<in># stock_of a. naddr n mod 8 = 0"
    "apart (stock_spans a + {#node_span node#} + others)" "malloc_ok malloc" "\<forall>n \<in> set ns. n < 2 ^ 64"
  shows "\<exists>nodes' a' bs. palloc_run malloc others ns (ring (new_pool node x f)) a = Some (nodes', a', bs) \<and>
    sorted_wrt apart_spans (rev bs @ [(first_avail node, first_avail node + SIZEOF_POOL_T)]) \<and>
    (\<forall>b \<in> set bs. fst b mod 8 = 0 \<and> (\<exists>y \<in> set nodes'. naddr y + APR_MEMNODE_T_SIZE \<le> fst b \<and> snd b \<le> endp y)) \<and>
    apart (stock_spans a' + mset (map node_span nodes') + others)"
proof -
  note new = new_pool_ring [OF assms(1,2), of x f]
  have "memory_ok (ring (new_pool node x f)) a" using new(1) assms(3,4) by (simp add: memory_ok_def)
  moreover have "apart (live_spans (ring (new_pool node x f)) a others)" using assms(5) by (simp add: live_spans_def new(3))
  moreover have "sorted_wrt apart_spans [(first_avail node, first_avail node + SIZEOF_POOL_T)]" by simp
  ultimately obtain nodes' a' bs where r: "palloc_run malloc others ns (ring (new_pool node x f)) a = Some (nodes', a', bs)"
    "memory_ok nodes' a'" "apart (live_spans nodes' a' others)" "issued nodes' (rev bs @ [(first_avail node, first_avail node + SIZEOF_POOL_T)])"
    "sorted_wrt apart_spans (rev bs @ [(first_avail node, first_avail node + SIZEOF_POOL_T)])" "\<forall>b \<in> set bs. fst b mod 8 = 0"
    using palloc_run [OF _ _ assms(6,7) new(2), of a others] by blast
  have "\<exists>y \<in> set nodes'. naddr y + APR_MEMNODE_T_SIZE \<le> fst b \<and> snd b \<le> endp y" if "b \<in> set bs" for b
  proof -
    have "b \<in> set (rev bs @ [(first_avail node, first_avail node + SIZEOF_POOL_T)])" using that by simp
    with r(4) obtain c where c: "c \<in># cores nodes'" "fst (fst c) + APR_MEMNODE_T_SIZE \<le> fst b" "snd b \<le> snd c"
      unfolding issued_def by blast
    then obtain y where "y \<in> set nodes'" "c = core y" by (auto simp: cores_def)
    moreover have "snd c \<le> snd (fst c)" using cores_bounds [OF _ c(1)] r(2) by (simp add: memory_ok_def)
    ultimately show ?thesis using c(2,3) by (intro bexI [of _ y]) (auto simp: core_def node_span_def)
  qed
  then show ?thesis using r by (auto simp: live_spans_def)
qed

theorem palloc_run_apart_witness:
  "\<exists>nodes' a' bs. palloc_run (\<lambda>L n. None) {#(0, 4096)#} [100, 9000, 17] (ring (new_pool (new_node 8192 1 8192) 1 None)) new_allocator =
      Some (nodes', a', bs) \<and> sorted_wrt apart_spans (rev bs @ [(8232, 8360)])"
proof -
  let ?n = "new_node 8192 1 8192"
  have n: "node_aligned ?n" "first_avail ?n = 8232" "naddr ?n = 8192" "node_span ?n = (8192, 16384)"
    by (simp_all add: node_aligned_def node_ok_def new_node_def uint32_def node_span_def)
  have "apart {#(0, 4096)#}" "apart (add_mset (8192, 16384) {#(0, 4096)#})" by (auto intro!: apart_add)
  then have a: "apart (stock_spans new_allocator + {#node_span ?n#} + {#(0, 4096)#})" 
    unfolding n(4) stock_spans_def new_allocator_ok(2) by (simp add: add_mset_commute)
  have m: "malloc_ok (\<lambda>L n. None)" by (simp add: malloc_ok_def)
  have e: "SIZEOF_POOL_T = 128" "(8232 :: nat) + 128 = 8360" by (simp_all add: SIZEOF_POOL_T_def APR_ALIGN_DEFAULT_def size_t_def)
  have f: "first_avail ?n = naddr ?n + APR_MEMNODE_T_SIZE" unfolding n(2,3) by simp
  have st: "\<forall>x \<in># stock_of new_allocator. naddr x mod 8 = 0" by simp
  have len: "\<forall>k \<in> set [100, 9000, 17]. k < (2 :: nat) ^ 64" by simp
  from palloc_run_apart [OF n(1) f new_allocator_ok(1) st a m len, of 1 None] show ?thesis unfolding n(2) e by blast
qed

end
