(* ===== verification/AprPoolTree.thy ===== *)
theory AprPoolTree
  imports AprPools AprAllocatorCorrect
begin

text \<open>
  The tree of pools: destroying a pool ends, destroys exactly the pools below it, runs every cleanup once, in order, and gives all nodes back.
\<close>

section \<open>Trees\<close>

text \<open>A forest are the trees of siblings, in the order of the \<open>sibling\<close> links.\<close>

datatype ptree = PNode nat "ptree list"

fun pids :: "ptree list \<Rightarrow> nat list" where
  "pids [] = []"
| "pids (PNode q cs # ts) = q # pids cs @ pids ts"

lemma pids_append [simp]: "pids (ts1 @ ts2) = pids ts1 @ pids ts2"
  by (induction ts1 rule: pids.induct) simp_all

lemmas forest_induct = pids.induct [case_names Nil Cons]

text \<open>The forest whose first tree \<open>v\<close> points to from the place \<open>r\<close>.\<close>

fun siblings :: "(nat \<rightharpoonup> apr_pool) \<Rightarrow> nat \<Rightarrow> ref \<Rightarrow> nat option \<Rightarrow> ptree list \<Rightarrow> bool" where
  "siblings P par r v [] \<longleftrightarrow> v = None"
| "siblings P par r v (PNode q cs # ts) \<longleftrightarrow> v = Some q \<and>
     (case P q of None \<Rightarrow> False
      | Some pool \<Rightarrow> parent pool = Some par \<and> pref pool = Some r \<and> siblings P q (In_child q) (child pool) cs \<and>
          siblings P par (In_sibling q) (sibling pool) ts)"

definition links :: "apr_pool \<Rightarrow> nat option \<times> ref option \<times> nat option \<times> nat option" where
  "links pool = (parent pool, pref pool, child pool, sibling pool)"

lemma siblings_frame:
  "siblings P par r v ts \<Longrightarrow> \<forall>p \<in> set (pids ts). map_option links (P' p) = map_option links (P p) \<Longrightarrow> siblings P' par r v ts"
proof (induction P par r v ts rule: siblings.induct)
  case (2 P par r v q cs ts)
  obtain pool where p: "P q = Some pool" using 2 by (auto split: option.splits)
  then obtain pool' where p': "P' q = Some pool'" "links pool' = links pool" using 2(4) by force
  have "siblings P' q (In_child q) (child pool) cs" "siblings P' par (In_sibling q) (sibling pool) ts"
    using 2(1) [OF p] 2(2) [OF p] 2(3,4) p by simp_all
  then show ?case using 2(3) p p' by (simp add: links_def)
qed simp

text \<open>The first pool of a forest gets a new place that points to it.\<close>

lemma siblings_head:
  assumes "siblings P par r v ts" "distinct (pids ts)"
    "\<forall>p \<in> set (pids ts). map_option links (P' p) =
       map_option links (map_option (\<lambda>pool. if Some p = v then pool\<lparr>pref := Some r'\<rparr> else pool) (P p))"
  shows "siblings P' par r' v ts"
proof (cases ts)
  case Nil
  then show ?thesis using assms(1) by simp
next
  case (Cons t ts')
  obtain q cs where t: "t = PNode q cs" by (cases t)
  obtain pool where p: "P q = Some pool" "v = Some q" "parent pool = Some par" "siblings P q (In_child q) (child pool) cs"
    "siblings P par (In_sibling q) (sibling pool) ts'"
    using assms(1) by (auto simp: Cons t split: option.splits)
  have q: "map_option links (P' q) = Some (links (pool\<lparr>pref := Some r'\<rparr>))" using assms(3) p by (simp add: Cons t)
  then obtain pool' where p': "P' q = Some pool'" "links pool' = links (pool\<lparr>pref := Some r'\<rparr>)" by auto
  have same: "map_option links (P' u) = map_option links (P u)" if "u \<in> set (pids cs) \<union> set (pids ts')" for u
  proof -
    have "u \<in> set (pids ts)" "Some u \<noteq> v" using that assms(2) p(2) by (auto simp: Cons t)
    then show ?thesis using assms(3) by (cases "P u") auto
  qed
  have "siblings P' q (In_child q) (child pool) cs" by (rule siblings_frame [OF p(4)]) (use same in simp)
  moreover have "siblings P' par (In_sibling q) (sibling pool) ts'" by (rule siblings_frame [OF p(5)]) (use same in simp)
  ultimately show ?thesis using p p' by (simp add: Cons t links_def)
qed

text \<open>What the cleanups of a forest do, and the nodes of its pools.\<close>

fun tree_events :: "(nat \<rightharpoonup> apr_pool) \<Rightarrow> ptree list \<Rightarrow> event list" where
  "tree_events P [] = []"
| "tree_events P (PNode q cs # ts) =
     (case P q of None \<Rightarrow> [] | Some pool \<Rightarrow> run_cleanups (pre_cleanups pool) @ tree_events P cs @ run_cleanups (cleanups pool)) @
     tree_events P ts"

fun tree_nodes :: "(nat \<rightharpoonup> apr_pool) \<Rightarrow> ptree list \<Rightarrow> apr_memnode list" where
  "tree_nodes P [] = []"
| "tree_nodes P (PNode q cs # ts) = (case P q of None \<Rightarrow> [] | Some pool \<Rightarrow> ring pool) @ tree_nodes P cs @ tree_nodes P ts"

definition content :: "apr_pool \<Rightarrow> cleanup list \<times> cleanup list \<times> apr_memnode list \<times> nat" where
  "content pool = (pre_cleanups pool, cleanups pool, ring pool, pallocator pool)"

lemma tree_frame:
  "\<forall>p \<in> set (pids ts). map_option content (P' p) = map_option content (P p) \<Longrightarrow>
   tree_events P' ts = tree_events P ts \<and> tree_nodes P' ts = tree_nodes P ts"
proof (induction ts rule: forest_induct)
  case (Cons q cs ts)
  then have "map_option content (P' q) = map_option content (P q)" by simp
  then show ?case using Cons by (cases "P q"; cases "P' q") (auto simp: content_def)
qed simp

text \<open>The memory of a forest: all its pools take their nodes from the allocator \<open>x\<close>, which none of them owns.\<close>

definition tree_memory :: "(nat \<rightharpoonup> apr_pool) \<Rightarrow> nat \<Rightarrow> ptree list \<Rightarrow> bool" where
  "tree_memory P x ts \<longleftrightarrow> (\<forall>p \<in> set (pids ts). \<forall>pool. P p = Some pool \<longrightarrow> pallocator pool = x \<and> (\<forall>n \<in> set (ring pool). node_ok n))"

lemma tree_memory_frame:
  assumes "tree_memory P x ts" "set (pids ts') \<subseteq> set (pids ts)" "\<forall>p \<in> set (pids ts'). map_option content (P' p) = map_option content (P p)"
  shows "tree_memory P' x ts'"
  unfolding tree_memory_def
proof (intro ballI allI impI)
  fix p pool assume p: "p \<in> set (pids ts')" "P' p = Some pool"
  have "map_option content (P p) = map_option content (P' p)" using assms(3) p(1) by simp
  then obtain pool0 where "P p = Some pool0" "content pool = content pool0" using p(2) by auto
  then show "pallocator pool = x \<and> (\<forall>n \<in> set (ring pool). node_ok n)"
    using assms(1,2) p(1) by (auto simp: tree_memory_def content_def)
qed

section \<open>One pool\<close>

lemma from_self: "mset (from_self pool) = mset (ring pool)" "set (from_self pool) = set (ring pool)"
proof -
  show m: "mset (from_self pool) = mset (ring pool)"
    using mset_append [of "takeWhile (\<lambda>n. naddr n \<noteq> self pool) (ring pool)" "dropWhile (\<lambda>n. naddr n \<noteq> self pool) (ring pool)"]
    by (simp add: from_self_def)
  show "set (from_self pool) = set (ring pool)" by (rule mset_eq_setD [OF m])
qed

lemma mutex_set [simp]: "allocator_ok (apr_allocator_mutex_set a m) = allocator_ok a" "stock_of (apr_allocator_mutex_set a m) = stock_of a"
  "owner (apr_allocator_mutex_set a m) = owner a"
  by (simp_all add: apr_allocator_mutex_set_def allocator_ok_def stock_of_def)

lemma destroy_lists: "i + k = length frees \<Longrightarrow> destroy_lists frees i k = concat (drop i frees)"
proof (induction k arbitrary: i)
  case (Suc k)
  then have "drop i frees = frees ! i # drop (i + 1) frees" by (simp add: Cons_nth_drop_Suc)
  then show ?case using Suc by simp
qed simp

lemma apr_allocator_destroy: "allocator_ok a \<Longrightarrow> mset (apr_allocator_destroy a) = stock_of a"
  using destroy_lists [of 0 "length (free_lists a)" "free_lists a"]
  by (simp add: apr_allocator_destroy_def allocator_ok_def lists_ok_def stock_of_def stock_def)

lemma release_pool:
  assumes "allocators w (pallocator pool) = Some a" "allocator_ok a" "\<forall>n \<in> set (ring pool). node_ok n" "owner a \<noteq> Some p"
  shows "\<exists>a' gone. release_pool p pool w = Some (w\<lparr>pools := (pools w)(p := None), freed := freed w @ gone,
      allocators := (allocators w)(pallocator pool \<mapsto> a')\<rparr>) \<and>
    allocator_ok a' \<and> owner a' = owner a \<and> stock_of a' + mset gone = stock_of a + mset (ring pool)"
proof -
  obtain a' gone where f: "allocator_free a (from_self pool) = (a', gone)" by fastforce
  then have "allocator_ok a' \<and> owner a' = owner a \<and> stock_of a' + mset gone = stock_of a + mset (ring pool)"
    using allocator_free [OF assms(2) _ f] assms(3) by (simp add: from_self)
  then show ?thesis using assms(1,4) f
    by (intro exI [of _ a'] exI [of _ gone]) (simp add: release_pool_def apr_allocator_owner_get_def put_allocator_def)
qed

text \<open>The pool that owns its allocator: all nodes go back to the system.\<close>

lemma release_owner:
  assumes "allocators w (pallocator pool) = Some a" "allocator_ok a" "\<forall>n \<in> set (ring pool). node_ok n" "owner a = Some p"
  shows "\<exists>gone. release_pool p pool w = Some (w\<lparr>pools := (pools w)(p := None), freed := freed w @ gone,
      allocators := (allocators w)(pallocator pool := None)\<rparr>) \<and> mset gone = stock_of a + mset (ring pool)"
proof -
  obtain a' gone where f: "allocator_free (apr_allocator_mutex_set a None) (from_self pool) = (a', gone)" by fastforce
  have g: "allocator_ok a' \<and> owner a' = owner a \<and> stock_of a' + mset gone = stock_of a + mset (ring pool)"
    using allocator_free [OF _ _ f] assms(2,3) by (simp add: from_self)
  then have "mset (gone @ apr_allocator_destroy a') = stock_of a + mset (ring pool)"
    by (simp add: apr_allocator_destroy ac_simps)
  moreover have "release_pool p pool w = Some (w\<lparr>pools := (pools w)(p := None), freed := freed w @ gone @ apr_allocator_destroy a',
      allocators := (allocators w)(pallocator pool := None)\<rparr>)"
    using assms(1,4) f g by (simp add: release_pool_def apr_allocator_owner_get_def)
  ultimately show ?thesis by blast
qed

text \<open>After its children are gone, a pool runs its cleanups, is unlinked and released.\<close>

definition orphan :: "apr_pool \<Rightarrow> apr_pool" where
  "orphan pool = pool\<lparr>pre_cleanups := [], free_pre_cleanups := [], child := None\<rparr>"

text \<open>The children of \<open>p\<close> are destroyed: what becomes of the world.\<close>

definition children_gone :: "nat \<Rightarrow> apr_pool \<Rightarrow> nat \<Rightarrow> ptree list \<Rightarrow> world \<Rightarrow> apr_allocator \<Rightarrow> apr_memnode list \<Rightarrow> world" where
  "children_gone p pool x ts w a' gone = w\<lparr>pools := (pools w |` (- set (pids ts)))(p \<mapsto> pool\<lparr>child := None\<rparr>),
     allocators := (allocators w)(x \<mapsto> a'), freed := freed w @ gone, history := history w @ tree_events (pools w) ts\<rparr>"

definition kept :: "apr_allocator \<Rightarrow> apr_memnode list \<Rightarrow> apr_allocator \<Rightarrow> apr_memnode list \<Rightarrow> bool" where
  "kept a nodes a' gone \<longleftrightarrow> allocator_ok a' \<and> owner a' = owner a \<and> stock_of a' + mset gone = stock_of a + mset nodes"

lemma destroy_Inl:
  assumes "pools w q = Some pool" "destroy_work (Inr q) (start_cleanup q pool w) = Some w1" "pools w1 q = Some pool1"
  shows "destroy_work (Inl q) w = Option.bind (unlink_pool pool1 (log_events (run_cleanups (cleanups pool1)) w1)) (release_pool q pool1)"
  using assms by (subst destroy_work.simps) simp

lemma destroy_Inr_None: "pools w p = Some pool \<Longrightarrow> child pool = None \<Longrightarrow> destroy_work (Inr p) w = Some w"
  by (subst destroy_work.simps) simp

lemma destroy_Inr_Some: "pools w p = Some pool \<Longrightarrow> child pool = Some c \<Longrightarrow> destroy_work (Inl c) w = Some w1 \<Longrightarrow>
    destroy_work (Inr p) w = destroy_work (Inr p) w1"
  by (subst destroy_work.simps) simp

section \<open>Unlinking\<close>

fun place :: "ref \<Rightarrow> nat" where
  "place (In_child u) = u"
| "place (In_sibling u) = u"

text \<open>The place \<open>r\<close> points to \<open>s\<close> now.\<close>

definition relinked :: "ref \<Rightarrow> nat option \<Rightarrow> (nat \<rightharpoonup> apr_pool) \<Rightarrow> nat \<rightharpoonup> apr_pool" where
  "relinked r s P u = map_option (\<lambda>pool. if r = In_child u then pool\<lparr>child := s\<rparr> else if r = In_sibling u then pool\<lparr>sibling := s\<rparr>
     else if s = Some u then pool\<lparr>pref := Some r\<rparr> else pool) (P u)"

lemma unlink_pool:
  assumes "parent pool \<noteq> None" "pref pool = Some r" "pools w (place r) \<noteq> None"
    "\<forall>s. sibling pool = Some s \<longrightarrow> s \<noteq> place r \<and> pools w s \<noteq> None"
  shows "unlink_pool pool w = Some (w\<lparr>pools := relinked r (sibling pool) (pools w)\<rparr>)"
proof -
  obtain lp where lp: "pools w (place r) = Some lp" using assms(3) by blast
  obtain par where par: "parent pool = Some par" using assms(1) by blast
  show ?thesis
  proof (cases "sibling pool")
    case None
    have "relinked r None (pools w) = (pools w)(place r \<mapsto> (case r of In_child u \<Rightarrow> lp\<lparr>child := None\<rparr> | In_sibling u \<Rightarrow> lp\<lparr>sibling := None\<rparr>))"
      using lp by (cases r) (auto simp: relinked_def fun_eq_iff option.map_ident)
    then show ?thesis using par assms(2) lp None by (cases r) (simp_all add: unlink_pool_def set_ref_def put_pool_def)
  next
    case (Some s)
    then obtain sp where sp: "s \<noteq> place r" "pools w s = Some sp" using assms(4) by blast
    have "relinked r (Some s) (pools w) = (pools w)(place r \<mapsto> (case r of In_child u \<Rightarrow> lp\<lparr>child := Some s\<rparr> | In_sibling u \<Rightarrow> lp\<lparr>sibling := Some s\<rparr>),
        s \<mapsto> sp\<lparr>pref := Some r\<rparr>)"
      using lp sp by (cases r) (auto simp: relinked_def fun_eq_iff option.map_ident)
    then show ?thesis using par assms(2) lp sp Some by (cases r) (simp_all add: unlink_pool_def set_ref_def put_pool_def)
  qed
qed

section \<open>Destruction\<close>

lemma kept_step: "b + g1 = a + t \<Longrightarrow> c + g2 = b + r \<Longrightarrow> c + (g1 + g2) = a + (r + t)" for a :: "'a multiset"
proof -
  assume b: "b + g1 = a + t" and c: "c + g2 = b + r"
  have "c + (g1 + g2) = (c + g2) + g1" by (simp add: ac_simps)
  also have "\<dots> = (b + g1) + r" unfolding c by (simp add: ac_simps)
  also have "\<dots> = a + (r + t)" unfolding b by (simp add: ac_simps)
  finally show ?thesis .
qed

text \<open>One tree, when its children are known to go.\<close>

definition tree_gone :: "(nat \<rightharpoonup> apr_pool) \<Rightarrow> nat \<Rightarrow> ptree \<Rightarrow> world \<Rightarrow> apr_allocator option \<Rightarrow> apr_memnode list \<Rightarrow> world" where
  "tree_gone P x t w a' gone = w\<lparr>pools := P, allocators := (allocators w)(x := a'), freed := freed w @ gone,
     history := history w @ tree_events (pools w) [t]\<rparr>"

lemma destroy_step:
  assumes "pools w q = Some pool" "q \<notin> set (pids cs)" "tree_memory (pools w) x [PNode q cs]"
    "\<exists>a1 gone1. destroy_work (Inr q) (start_cleanup q pool w) =
       Some (children_gone q (pool\<lparr>pre_cleanups := [], free_pre_cleanups := []\<rparr>) x cs (start_cleanup q pool w) a1 gone1) \<and>
       kept a (tree_nodes (pools w) cs) a1 gone1"
  defines "P \<equiv> pools w |` (- set (q # pids cs))"
  shows "parent pool = Some par \<Longrightarrow> pref pool = Some r \<Longrightarrow> P (place r) \<noteq> None \<Longrightarrow> \<forall>s. sibling pool = Some s \<longrightarrow> s \<noteq> place r \<and> P s \<noteq> None \<Longrightarrow>
      owner a \<noteq> Some q \<Longrightarrow> \<exists>a' gone. destroy_work (Inl q) w = Some (tree_gone (relinked r (sibling pool) P) x (PNode q cs) w (Some a') gone) \<and>
        kept a (tree_nodes (pools w) [PNode q cs]) a' gone" (is "_ \<Longrightarrow> _ \<Longrightarrow> _ \<Longrightarrow> _ \<Longrightarrow> _ \<Longrightarrow> ?child")
    and "parent pool = None \<Longrightarrow> owner a = Some q \<Longrightarrow> \<exists>gone. destroy_work (Inl q) w = Some (tree_gone P x (PNode q cs) w None gone) \<and>
        mset gone = stock_of a + mset (tree_nodes (pools w) [PNode q cs])" (is "_ \<Longrightarrow> _ \<Longrightarrow> ?root")
proof -
  let ?w0 = "start_cleanup q pool w" let ?pool0 = "pool\<lparr>pre_cleanups := [], free_pre_cleanups := []\<rparr>"
  obtain a1 gone1 where c: "destroy_work (Inr q) ?w0 = Some (children_gone q ?pool0 x cs ?w0 a1 gone1)"
    "kept a (tree_nodes (pools w) cs) a1 gone1" using assms(4) by blast
  define w1 where "w1 = log_events (run_cleanups (cleanups pool)) (children_gone q ?pool0 x cs ?w0 a1 gone1)"
  have p0: "pools ?w0 = (pools w)(q \<mapsto> ?pool0)" by (simp add: start_cleanup_def log_events_def put_pool_def)
  have ev: "tree_events (pools ?w0) cs = tree_events (pools w) cs"
    using assms(2) by (intro conjunct1 [OF tree_frame]) (auto simp: p0)
  have h1: "history w1 = history w @ tree_events (pools w) [PNode q cs]"
    using assms(1) ev by (simp add: w1_def children_gone_def log_events_def start_cleanup_def put_pool_def)
  have p1: "pools w1 = (pools w |` (- set (pids cs)))(q \<mapsto> orphan pool)"
    using assms(2) by (auto simp: w1_def children_gone_def log_events_def p0 orphan_def restrict_map_def fun_eq_iff)
  have w1: "allocators w1 = (allocators w)(x \<mapsto> a1)" "freed w1 = freed w @ gone1"
    "global_pool w1 = global_pool w" "pools_initialized w1 = pools_initialized w"
    by (simp_all add: w1_def children_gone_def log_events_def start_cleanup_def put_pool_def)
  have gone: "w1\<lparr>pools := A, freed := freed w1 @ g, allocators := (allocators w1)(x := v)\<rparr> = tree_gone A x (PNode q cs) w v (gone1 @ g)"
    for A g v by (rule world.equality) (simp_all add: tree_gone_def w1 h1)
  have d: "destroy_work (Inl q) w = Option.bind (unlink_pool (orphan pool) w1) (release_pool q (orphan pool))"
    using destroy_Inl [OF assms(1) c(1), of "orphan pool"] by (simp add: children_gone_def w1_def orphan_def)
  have o: "parent (orphan pool) = parent pool" "pref (orphan pool) = pref pool" "sibling (orphan pool) = sibling pool"
    "ring (orphan pool) = ring pool" "pallocator (orphan pool) = pallocator pool" by (simp_all add: orphan_def)
  have m: "pallocator pool = x" "\<forall>n \<in> set (ring pool). node_ok n" using assms(1,3) by (auto simp: tree_memory_def)
  have a1: "allocator_ok a1" "owner a1 = owner a" "stock_of a1 + mset gone1 = stock_of a + mset (tree_nodes (pools w) cs)"
    using c(2) by (simp_all add: kept_def)
  have nodes: "mset (tree_nodes (pools w) [PNode q cs]) = mset (ring pool) + mset (tree_nodes (pools w) cs)" using assms(1) by simp
  show ?child if l: "parent pool = Some par" "pref pool = Some r" "P (place r) \<noteq> None" "\<forall>s. sibling pool = Some s \<longrightarrow> s \<noteq> place r \<and> P s \<noteq> None"
    "owner a \<noteq> Some q"
  proof -
    have pr: "pools w1 u = P u" if "P u \<noteq> None" for u using that by (auto simp: p1 P_def restrict_map_def split: if_splits)
    have "unlink_pool (orphan pool) w1 = Some (w1\<lparr>pools := relinked r (sibling pool) (pools w1)\<rparr>)" (is "_ = Some ?w2")
      using unlink_pool [of "orphan pool" r w1] l pr by (simp add: o)
    moreover obtain a' gone2 where rel: "release_pool q (orphan pool) ?w2 = Some (?w2\<lparr>pools := (pools ?w2)(q := None), freed := freed ?w2 @ gone2,
        allocators := (allocators ?w2)(x \<mapsto> a')\<rparr>)" "allocator_ok a'" "owner a' = owner a1"
        "stock_of a' + mset gone2 = stock_of a1 + mset (ring pool)"
      using release_pool [of ?w2 "orphan pool" a1 q] a1 m l(5) w1 by (auto simp: o)
    moreover have "(relinked r (sibling pool) (pools w1))(q := None) = relinked r (sibling pool) P"
      by (auto simp: relinked_def p1 P_def restrict_map_def fun_eq_iff)
    ultimately have "destroy_work (Inl q) w = Some (tree_gone (relinked r (sibling pool) P) x (PNode q cs) w (Some a') (gone1 @ gone2))"
      using d m(1) gone [where A = "relinked r (sibling pool) P" and g = gone2 and v = "Some a'"] by simp
    moreover have "kept a (tree_nodes (pools w) [PNode q cs]) a' (gone1 @ gone2)"
      using rel(2-4) a1 nodes kept_step [OF a1(3) rel(4)] by (simp add: kept_def)
    ultimately show ?thesis by blast
  qed
  show ?root if l: "parent pool = None" "owner a = Some q"
  proof -
    have "unlink_pool (orphan pool) w1 = Some w1" using l by (simp add: unlink_pool_def o)
    moreover obtain gone2 where rel: "release_pool q (orphan pool) w1 = Some (w1\<lparr>pools := (pools w1)(q := None), freed := freed w1 @ gone2,
        allocators := (allocators w1)(x := None)\<rparr>)" "mset gone2 = stock_of a1 + mset (ring pool)"
      using release_owner [of w1 "orphan pool" a1 q] a1 m l(2) w1 by (auto simp: o)
    moreover have "(pools w1)(q := None) = P" by (auto simp: p1 P_def restrict_map_def fun_eq_iff)
    ultimately have "destroy_work (Inl q) w = Some (tree_gone P x (PNode q cs) w None (gone1 @ gone2))"
      using d m(1) gone [where A = P and g = gone2 and v = None] by simp
    moreover have "mset (gone1 @ gone2) = stock_of a + mset (tree_nodes (pools w) [PNode q cs])"
      using rel(2) a1 nodes by (simp add: ac_simps)
    ultimately show ?thesis by blast
  qed
qed

lemma links_relinked: "r \<noteq> In_child u \<Longrightarrow> r \<noteq> In_sibling u \<Longrightarrow> s \<noteq> Some u \<Longrightarrow> relinked r s P u = P u"
  by (simp add: relinked_def option.map_ident)

lemma content_relinked: "map_option content (relinked r s P u) = map_option content (P u)"
  by (cases "P u") (auto simp: relinked_def content_def)

lemma siblings_hd: "siblings P par r (Some s) ts \<Longrightarrow> s \<in> set (pids ts) \<and> P s \<noteq> None"
  by (cases "(P, par, r, Some s, ts)" rule: siblings.cases) (auto split: option.splits)

lemma siblings_Cons:
  assumes "siblings P par r v (PNode q cs # ts)"
  obtains pool where "v = Some q" "P q = Some pool" "parent pool = Some par" "pref pool = Some r"
    "siblings P q (In_child q) (child pool) cs" "siblings P par (In_sibling q) (sibling pool) ts"
  using assms by (auto split: option.splits)

lemma children_gone_none: "pools w p = Some pool \<Longrightarrow> child pool = None \<Longrightarrow> allocators w x = Some a \<Longrightarrow> children_gone p pool x [] w a [] = w"
  by (rule world.equality) (simp_all add: children_gone_def fun_upd_idem restrict_map_def)

lemma tree_memory_part: "tree_memory P x (PNode q cs # ts) \<Longrightarrow> tree_memory P x [PNode q cs] \<and> tree_memory P x cs \<and> tree_memory P x ts"
  unfolding tree_memory_def pids.simps set_simps set_append by blast

text \<open>What is left of the children when the first one is gone.\<close>

lemma children_gone_step:
  fixes x :: nat and a1 :: apr_allocator and gone1 :: "apr_memnode list"
  assumes "pools w p = Some pool" "p \<notin> set (q # pids cs @ pids ts)" "distinct (q # pids cs @ pids ts)" "s \<in> {None} \<union> Some ` set (pids ts)"
  defines "w2 \<equiv> tree_gone (relinked (In_child p) s (pools w |` (- set (q # pids cs)))) x (PNode q cs) w (Some a1) gone1"
  shows "pools w2 p = Some (pool\<lparr>child := s\<rparr>)"
    and "\<forall>u \<in> set (pids ts). pools w2 u = map_option (\<lambda>pool. if Some u = s then pool\<lparr>pref := Some (In_child p)\<rparr> else pool) (pools w u)"
    and "children_gone p (pool\<lparr>child := s\<rparr>) x ts w2 a' gone = children_gone p pool x (PNode q cs # ts) w a' (gone1 @ gone)"
proof -
  show p: "pools w2 p = Some (pool\<lparr>child := s\<rparr>)" using assms(1,2) by (simp add: w2_def tree_gone_def relinked_def)
  show u: "\<forall>u \<in> set (pids ts). pools w2 u = map_option (\<lambda>pool. if Some u = s then pool\<lparr>pref := Some (In_child p)\<rparr> else pool) (pools w u)"
  proof
    fix u assume "u \<in> set (pids ts)"
    then have "u \<notin> set (q # pids cs)" "u \<noteq> p" using assms(2,3) by auto
    then show "pools w2 u = map_option (\<lambda>pool. if Some u = s then pool\<lparr>pref := Some (In_child p)\<rparr> else pool) (pools w u)"
      by (auto simp: w2_def tree_gone_def relinked_def intro!: option.map_cong)
  qed
  have "tree_events (pools w2) ts = tree_events (pools w) ts"
  proof (intro conjunct1 [OF tree_frame] ballI)
    fix v assume v: "v \<in> set (pids ts)"
    then have "v \<notin> set (q # pids cs)" using assms(3) by auto
    then show "map_option content (pools w2 v) = map_option content (pools w v)" by (simp add: w2_def tree_gone_def content_relinked)
  qed
  moreover have "(pools w2 |` (- set (pids ts)))(p \<mapsto> pool\<lparr>child := None\<rparr>) =
      (pools w |` (- set (pids (PNode q cs # ts))))(p \<mapsto> pool\<lparr>child := None\<rparr>)"
  proof
    fix v
    have "v \<notin> set (pids ts) \<Longrightarrow> s \<noteq> Some v" using assms(4) by auto
    then show "((pools w2 |` (- set (pids ts)))(p \<mapsto> pool\<lparr>child := None\<rparr>)) v =
      ((pools w |` (- set (pids (PNode q cs # ts))))(p \<mapsto> pool\<lparr>child := None\<rparr>)) v"
      by (auto simp: restrict_map_def w2_def tree_gone_def links_relinked)
  qed
  ultimately show "children_gone p (pool\<lparr>child := s\<rparr>) x ts w2 a' gone = children_gone p pool x (PNode q cs # ts) w a' (gone1 @ gone)"
    by (simp add: children_gone_def w2_def tree_gone_def)
qed

lemma kept_trans: "kept a n1 b g1 \<Longrightarrow> kept b n2 c g2 \<Longrightarrow> kept a (n1 @ n2) c (g1 @ g2)"
  using kept_step [of "stock_of b" "mset g1" "stock_of a" "mset n1" "stock_of c" "mset g2" "mset n2"]
  by (simp add: kept_def ac_simps)

lemma start_cleanup_simps [simp]:
  "pools (start_cleanup q pool w) = (pools w)(q \<mapsto> pool\<lparr>pre_cleanups := [], free_pre_cleanups := []\<rparr>)"
  "allocators (start_cleanup q pool w) = allocators w"
  by (simp_all add: start_cleanup_def log_events_def put_pool_def)

lemma start_cleanup_frame:
  assumes "q \<notin> set (pids cs)"
  shows "siblings (pools w) q r v cs \<Longrightarrow> siblings (pools (start_cleanup q pool w)) q r v cs"
    and "tree_memory (pools w) x cs \<Longrightarrow> tree_memory (pools (start_cleanup q pool w)) x cs"
    and "tree_nodes (pools (start_cleanup q pool w)) cs = tree_nodes (pools w) cs"
proof -
  have same: "pools (start_cleanup q pool w) u = pools w u" if "u \<in> set (pids cs)" for u using that assms by auto
  show "siblings (pools w) q r v cs \<Longrightarrow> siblings (pools (start_cleanup q pool w)) q r v cs" by (erule siblings_frame) (use same in simp)
  show "tree_memory (pools w) x cs \<Longrightarrow> tree_memory (pools (start_cleanup q pool w)) x cs"
    by (erule tree_memory_frame [OF _ subset_refl]) (use same in simp)
  show "tree_nodes (pools (start_cleanup q pool w)) cs = tree_nodes (pools w) cs" by (intro conjunct2 [OF tree_frame]) (use same in simp)
qed

text \<open>The loop that destroys the children ends, and all of them are gone.\<close>

lemma children_destroyed:
  "pools w p = Some pool \<Longrightarrow> siblings (pools w) p (In_child p) (child pool) ts \<Longrightarrow> distinct (p # pids ts) \<Longrightarrow> tree_memory (pools w) x ts \<Longrightarrow>
   allocators w x = Some a \<Longrightarrow> allocator_ok a \<Longrightarrow> owner a \<notin> Some ` set (pids ts) \<Longrightarrow>
   \<exists>a' gone. destroy_work (Inr p) w = Some (children_gone p pool x ts w a' gone) \<and> kept a (tree_nodes (pools w) ts) a' gone"
proof (induction ts arbitrary: w p pool a rule: forest_induct)
  case Nil
  then have "destroy_work (Inr p) w = Some (children_gone p pool x [] w a []) \<and> kept a (tree_nodes (pools w) []) a []"
    by (simp add: destroy_Inr_None children_gone_none kept_def)
  then show ?case by blast
next
  case (Cons q cs ts)
  obtain qp where q: "child pool = Some q" "pools w q = Some qp" "parent qp = Some p" "pref qp = Some (In_child p)"
    "siblings (pools w) q (In_child q) (child qp) cs" "siblings (pools w) p (In_sibling q) (sibling qp) ts"
    using siblings_Cons [OF Cons.prems(2)] .
  let ?w0 = "start_cleanup q qp w" let ?q0 = "qp\<lparr>pre_cleanups := [], free_pre_cleanups := []\<rparr>"
  have mem: "tree_memory (pools w) x [PNode q cs]" "tree_memory (pools w) x cs" "tree_memory (pools w) x ts"
    using tree_memory_part [OF Cons.prems(4)] by simp_all
  have d: "distinct (q # pids cs @ pids ts)" "p \<notin> set (q # pids cs @ pids ts)" using Cons.prems(3) by simp_all
  have q_new: "q \<notin> set (pids cs)" using d(1) by simp
  note frame = start_cleanup_frame [OF q_new, where w = w and pool = qp]
  have sub: "\<exists>a1 gone1. destroy_work (Inr q) ?w0 = Some (children_gone q ?q0 x cs ?w0 a1 gone1) \<and> kept a (tree_nodes (pools ?w0) cs) a1 gone1"
  proof (rule Cons.IH(1))
    show "siblings (pools ?w0) q (In_child q) (child ?q0) cs" using frame(1) [OF q(5)] by simp
    show "tree_memory (pools ?w0) x cs" by (rule frame(2) [OF mem(2)])
  qed (use Cons.prems d in auto)
  let ?P = "pools w |` (- set (q # pids cs))"
  have hd: "s \<in> set (pids ts)" "pools w s \<noteq> None" if "sibling qp = Some s" for s using siblings_hd [of "pools w" p "In_sibling q" s ts] q(6) that by simp_all
  obtain a1 gone1 where step: "destroy_work (Inl q) w = Some (tree_gone (relinked (In_child p) (sibling qp) ?P) x (PNode q cs) w (Some a1) gone1)"
    "kept a (tree_nodes (pools w) [PNode q cs]) a1 gone1"
  proof -
    have "\<exists>a' gone. destroy_work (Inl q) w = Some (tree_gone (relinked (In_child p) (sibling qp) ?P) x (PNode q cs) w (Some a') gone) \<and>
        kept a (tree_nodes (pools w) [PNode q cs]) a' gone"
    proof (rule destroy_step(1) [OF q(2) _ mem(1) _ q(3,4)])
      show "\<forall>s. sibling qp = Some s \<longrightarrow> s \<noteq> place (In_child p) \<and> ?P s \<noteq> None" using hd d by (auto simp: restrict_map_def)
    qed (use d sub frame(3) Cons.prems in \<open>auto simp: restrict_map_def\<close>)
    then show ?thesis using that by blast
  qed
  let ?w2 = "tree_gone (relinked (In_child p) (sibling qp) ?P) x (PNode q cs) w (Some a1) gone1"
  have s: "sibling qp \<in> {None} \<union> Some ` set (pids ts)" using hd by (cases "sibling qp") auto
  note after = children_gone_step [OF Cons.prems(1) d(2,1) s, where x = x and ?a1.0 = a1 and ?gone1.0 = gone1]
  have w2: "allocators ?w2 x = Some a1" by (simp add: tree_gone_def)
  have "\<exists>a' gone. destroy_work (Inr p) ?w2 = Some (children_gone p (pool\<lparr>child := sibling qp\<rparr>) x ts ?w2 a' gone) \<and>
      kept a1 (tree_nodes (pools ?w2) ts) a' gone"
  proof (rule Cons.IH(2) [OF after(1) _ _ _ w2])
    show "siblings (pools ?w2) p (In_child p) (child (pool\<lparr>child := sibling qp\<rparr>)) ts"
      using siblings_head [OF q(6), of "pools ?w2" "In_child p"] after(2) d(1) by simp
    show "tree_memory (pools ?w2) x ts"
    proof (rule tree_memory_frame [OF mem(3) subset_refl])
      show "\<forall>u \<in> set (pids ts). map_option content (pools ?w2 u) = map_option content (pools w u)"
        using d(1) by (auto simp: tree_gone_def content_relinked restrict_map_def)
    qed
  qed (use Cons.prems step(2) in \<open>auto simp: kept_def\<close>)
  then obtain a' gone where rest: "destroy_work (Inr p) ?w2 = Some (children_gone p pool x (PNode q cs # ts) w a' (gone1 @ gone))"
    "kept a1 (tree_nodes (pools ?w2) ts) a' gone" using after(3) by auto
  have "tree_nodes (pools ?w2) ts = tree_nodes (pools w) ts"
    by (intro conjunct2 [OF tree_frame]) (use d(1) in \<open>auto simp: tree_gone_def content_relinked restrict_map_def\<close>)
  then have "kept a (tree_nodes (pools w) (PNode q cs # ts)) a' (gone1 @ gone)" using kept_trans [OF step(2)] rest(2) by simp
  then show ?case using destroy_Inr_Some [OF Cons.prems(1) q(1) step(1)] rest(1) by auto
qed

lemma children_of:
  assumes "pools w q = Some pool" "siblings (pools w) q (In_child q) (child pool) cs" "distinct (q # pids cs)"
    "tree_memory (pools w) x [PNode q cs]" "allocators w x = Some a" "allocator_ok a" "owner a \<notin> Some ` set (pids cs)"
  shows "\<exists>a1 gone1. destroy_work (Inr q) (start_cleanup q pool w) =
      Some (children_gone q (pool\<lparr>pre_cleanups := [], free_pre_cleanups := []\<rparr>) x cs (start_cleanup q pool w) a1 gone1) \<and>
    kept a (tree_nodes (pools w) cs) a1 gone1"
proof -
  have q_new: "q \<notin> set (pids cs)" using assms(3) by simp
  note frame = start_cleanup_frame [OF q_new, where w = w and pool = pool]
  have mem: "tree_memory (pools w) x cs" using tree_memory_part [OF assms(4)] by simp
  have "\<exists>a1 gone1. destroy_work (Inr q) (start_cleanup q pool w) =
      Some (children_gone q (pool\<lparr>pre_cleanups := [], free_pre_cleanups := []\<rparr>) x cs (start_cleanup q pool w) a1 gone1) \<and>
    kept a (tree_nodes (pools (start_cleanup q pool w)) cs) a1 gone1"
  proof (rule children_destroyed)
    show "siblings (pools (start_cleanup q pool w)) q (In_child q) (child (pool\<lparr>pre_cleanups := [], free_pre_cleanups := []\<rparr>)) cs"
      using frame(1) [OF assms(2)] by simp
    show "tree_memory (pools (start_cleanup q pool w)) x cs" by (rule frame(2) [OF mem])
  qed (use assms in auto)
  then show ?thesis by (simp only: frame(3))
qed

section \<open>The tree that is left\<close>

text \<open>Taking one tree out of a forest: the other trees stay, in their order.\<close>

lemma siblings_without:
  "siblings P par r v (ts1 @ PNode q cs # ts2) \<Longrightarrow> distinct (pids (ts1 @ PNode q cs # ts2)) \<Longrightarrow> place r \<notin> set (pids (ts1 @ PNode q cs # ts2)) \<Longrightarrow>
   \<exists>r0 pool. P q = Some pool \<and> parent pool = Some par \<and> pref pool = Some r0 \<and> siblings P q (In_child q) (child pool) cs \<and>
     (if ts1 = [] then r0 = r else \<exists>z \<in> set (pids ts1). r0 = In_sibling z \<and> P z \<noteq> None) \<and>
     (\<forall>s. sibling pool = Some s \<longrightarrow> s \<in> set (pids ts2) \<and> P s \<noteq> None) \<and>
     siblings (relinked r0 (sibling pool) (P |` (- set (q # pids cs)))) par r (if ts1 = [] then sibling pool else v) (ts1 @ ts2)"
proof (induction ts1 arbitrary: r v)
  case Nil
  obtain pool where p: "v = Some q" "P q = Some pool" "parent pool = Some par" "pref pool = Some r"
    "siblings P q (In_child q) (child pool) cs" "siblings P par (In_sibling q) (sibling pool) ts2"
    using siblings_Cons [OF Nil(1) [unfolded append_Nil]] .
  have "siblings (relinked r (sibling pool) (P |` (- set (q # pids cs)))) par r (sibling pool) ts2"
  proof (rule siblings_head [OF p(6)])
    show "\<forall>u \<in> set (pids ts2). map_option links (relinked r (sibling pool) (P |` (- set (q # pids cs))) u) =
        map_option links (map_option (\<lambda>pl. if Some u = sibling pool then pl\<lparr>pref := Some r\<rparr> else pl) (P u))"
    proof
      fix u assume "u \<in> set (pids ts2)"
      then have "u \<notin> set (q # pids cs)" "place r \<noteq> u" using Nil(2,3) by auto
      then show "map_option links (relinked r (sibling pool) (P |` (- set (q # pids cs))) u) =
        map_option links (map_option (\<lambda>pl. if Some u = sibling pool then pl\<lparr>pref := Some r\<rparr> else pl) (P u))"
        by (cases "P u"; cases r) (auto simp: relinked_def)
    qed
  qed (use Nil(2) in auto)
  moreover have "\<forall>s. sibling pool = Some s \<longrightarrow> s \<in> set (pids ts2) \<and> P s \<noteq> None" using p(6) siblings_hd by metis
  ultimately show ?case using p by auto
next
  case (Cons t ts1)
  obtain u us where t: "t = PNode u us" by (cases t)
  obtain pu where u: "v = Some u" "P u = Some pu" "parent pu = Some par" "pref pu = Some r"
    "siblings P u (In_child u) (child pu) us" "siblings P par (In_sibling u) (sibling pu) (ts1 @ PNode q cs # ts2)"
    using siblings_Cons [OF Cons.prems(1) [unfolded t append_Cons]] .
  have d: "distinct (pids (ts1 @ PNode q cs # ts2))" "place (In_sibling u) \<notin> set (pids (ts1 @ PNode q cs # ts2))"
    using Cons.prems(2) by (auto simp: t)
  obtain r0 pool where p: "P q = Some pool" "parent pool = Some par" "pref pool = Some r0" "siblings P q (In_child q) (child pool) cs"
    "if ts1 = [] then r0 = In_sibling u else \<exists>z \<in> set (pids ts1). r0 = In_sibling z \<and> P z \<noteq> None"
    "\<forall>s. sibling pool = Some s \<longrightarrow> s \<in> set (pids ts2) \<and> P s \<noteq> None"
    "siblings (relinked r0 (sibling pool) (P |` (- set (q # pids cs)))) par (In_sibling u) (if ts1 = [] then sibling pool else sibling pu) (ts1 @ ts2)"
    using Cons.IH [OF u(6) d] by blast
  let ?P' = "relinked r0 (sibling pool) (P |` (- set (q # pids cs)))"
  have in_ts: "set (pids ts1) \<subseteq> set (pids (ts1 @ PNode q cs # ts2))" "set (pids ts2) \<subseteq> set (pids (ts1 @ PNode q cs # ts2))"
    "set (q # pids cs) \<subseteq> set (pids (ts1 @ PNode q cs # ts2))" by auto
  have sep: "set (u # pids us) \<inter> set (pids (ts1 @ PNode q cs # ts2)) = {}" "u \<notin> set (pids us)" using Cons.prems(2) by (auto simp: t)
  have sib: "w \<noteq> q" "w \<notin> set (pids cs)" "w \<notin> set (pids ts1)" "sibling pool \<noteq> Some w" if "w \<in> set (u # pids us)" for w
    using that sep(1) in_ts p(6) by auto
  have "?P' w = P w" if "w \<in> set (pids us)" for w
  proof -
    have "r0 \<noteq> In_child w" "r0 \<noteq> In_sibling w" using p(5) sib(3) [of w] that sep(2) by (auto split: if_splits)
    then show ?thesis using sib [of w] that by (simp add: links_relinked)
  qed
  then have us: "siblings ?P' u (In_child u) (child pu) us" by (intro siblings_frame [OF u(5)]) simp
  have "?P' u = Some (pu\<lparr>sibling := (if ts1 = [] then sibling pool else sibling pu)\<rparr>)"
    using p(5) sib [of u] u(2) by (auto simp: relinked_def split: if_splits)
  then have "siblings ?P' par r v ((t # ts1) @ ts2)" using u p(7) us by (simp add: t)
  moreover have "\<exists>z \<in> set (pids (t # ts1)). r0 = In_sibling z \<and> P z \<noteq> None" using p(5) u(2) by (auto simp: t split: if_splits)
  ultimately show ?case using p by (intro exI [of _ r0] exI [of _ pool]) simp
qed

text \<open>A pool with two children, the first of which has a child, each with a node and two cleanups.\<close>

definition sample_pool :: "nat \<Rightarrow> nat option \<Rightarrow> nat option \<Rightarrow> nat option \<Rightarrow> ref option \<Rightarrow> apr_pool" where
  "sample_pool k par chld sib r = (new_pool (new_node (8192 * k) 1 8192) 7 None)\<lparr>parent := par, child := chld, sibling := sib, pref := r,
     pre_cleanups := [\<lparr>cdata = k, plain_fn = 1, child_fn = 0\<rparr>], cleanups := [\<lparr>cdata = k, plain_fn = 2, child_fn = 0\<rparr>]\<rparr>"

definition sample_world :: world where
  "sample_world = \<lparr>pools = [1 \<mapsto> sample_pool 1 None (Some 2) None None, 2 \<mapsto> sample_pool 2 (Some 1) (Some 3) (Some 4) (Some (In_child 1)),
       3 \<mapsto> sample_pool 3 (Some 2) None None (Some (In_child 2)), 4 \<mapsto> sample_pool 4 (Some 1) None None (Some (In_sibling 2))],
     allocators = [7 \<mapsto> new_allocator\<lparr>owner := Some 1\<rparr>], global_pool = None, pools_initialized = 1, freed = [], history = []\<rparr>"

lemma sample_pool_simps [simp]:
  "parent (sample_pool k par chld sib r) = par" "child (sample_pool k par chld sib r) = chld" "sibling (sample_pool k par chld sib r) = sib"
  "pref (sample_pool k par chld sib r) = r" "pallocator (sample_pool k par chld sib r) = 7"
  "run_cleanups (pre_cleanups (sample_pool k par chld sib r)) = [Cleanup 1 k]" "run_cleanups (cleanups (sample_pool k par chld sib r)) = [Cleanup 2 k]"
  "\<exists>n. from_self (sample_pool k par chld sib r) = [n]" "\<forall>n \<in> set (ring (sample_pool k par chld sib r)). node_ok n"
  by (simp_all add: sample_pool_def new_pool_def from_self_def node_ok_def new_node_def uint32_def)

lemma sample_world_simps [simp]: "allocators sample_world = [7 \<mapsto> new_allocator\<lparr>owner := Some 1\<rparr>]" "history sample_world = []"
  "pools sample_world 1 = Some (sample_pool 1 None (Some 2) None None)"
  "pools sample_world (Suc 0) = Some (sample_pool 1 None (Some 2) None None)"
  "pools sample_world 2 = Some (sample_pool 2 (Some 1) (Some 3) (Some 4) (Some (In_child 1)))"
  "pools sample_world 3 = Some (sample_pool 3 (Some 2) None None (Some (In_child 2)))"
  "pools sample_world 4 = Some (sample_pool 4 (Some 1) None None (Some (In_sibling 2)))"
  by (simp_all add: sample_world_def)

lemma sample_trees:
  "siblings (pools sample_world) 1 (In_child 1) (Some 2) ([] @ PNode 2 [PNode 3 []] # [PNode 4 []])"
  "siblings (pools sample_world) 2 (In_child 2) (Some 3) [PNode 3 []]"
  "tree_memory (pools sample_world) 7 [PNode 1 [PNode 2 [PNode 3 []], PNode 4 []]]"
  "tree_memory (pools sample_world) 7 [PNode 2 [PNode 3 []]]"
  by (simp_all add: tree_memory_def)

lemma sample_allocator: "allocator_ok (new_allocator\<lparr>owner := v\<rparr>)"
  using new_allocator_ok(1) by (simp add: allocator_ok_def)

text \<open>C18: Destroying a pool ends. The pool and all pools below it are gone and no other; the pools beside it keep their order in the list of
  the children of the parent; the first cleanups of every pool have run before those of its children, its other ones after them; all nodes
  of the pools are kept by the allocator or given back to the system, each one once.\<close>

theorem pool_destroy_child:
  assumes "pools w par = Some pp" "siblings (pools w) par (In_child par) (child pp) (ts1 @ PNode q cs # ts2)"
    "distinct (par # pids (ts1 @ PNode q cs # ts2))" "tree_memory (pools w) x [PNode q cs]"
    "allocators w x = Some a" "allocator_ok a" "owner a \<notin> Some ` set (q # pids cs)"
  shows "\<exists>w' pp' a' gone. apr_pool_destroy q w = Some w' \<and>
    dom (pools w') = dom (pools w) - set (q # pids cs) \<and> (\<forall>u. u \<notin> set (q # pids cs) \<longrightarrow> map_option content (pools w' u) = map_option content (pools w u)) \<and>
    pools w' par = Some pp' \<and> siblings (pools w') par (In_child par) (child pp') (ts1 @ ts2) \<and>
    history w' = history w @ tree_events (pools w) [PNode q cs] \<and>
    allocators w' = (allocators w)(x \<mapsto> a') \<and> freed w' = freed w @ gone \<and> kept a (tree_nodes (pools w) [PNode q cs]) a' gone"
proof -
  have d: "distinct (pids (ts1 @ PNode q cs # ts2))" "place (In_child par) \<notin> set (pids (ts1 @ PNode q cs # ts2))" using assms(3) by simp_all
  let ?P = "pools w |` (- set (q # pids cs))"
  obtain r0 pool where p: "pools w q = Some pool" "parent pool = Some par" "pref pool = Some r0" "siblings (pools w) q (In_child q) (child pool) cs"
    "if ts1 = [] then r0 = In_child par else \<exists>z \<in> set (pids ts1). r0 = In_sibling z \<and> pools w z \<noteq> None"
    "\<forall>s. sibling pool = Some s \<longrightarrow> s \<in> set (pids ts2) \<and> pools w s \<noteq> None"
    "siblings (relinked r0 (sibling pool) ?P) par (In_child par) (if ts1 = [] then sibling pool else child pp) (ts1 @ ts2)"
    using siblings_without [OF assms(2) d] by blast
  have "\<exists>a' gone. destroy_work (Inl q) w = Some (tree_gone (relinked r0 (sibling pool) ?P) x (PNode q cs) w (Some a') gone) \<and>
      kept a (tree_nodes (pools w) [PNode q cs]) a' gone"
  proof (rule destroy_step(1) [OF p(1) _ assms(4) _ p(2,3)])
    show "q \<notin> set (pids cs)" using assms(3) by simp
    show "\<exists>a1 gone1. destroy_work (Inr q) (start_cleanup q pool w) =
        Some (children_gone q (pool\<lparr>pre_cleanups := [], free_pre_cleanups := []\<rparr>) x cs (start_cleanup q pool w) a1 gone1) \<and>
      kept a (tree_nodes (pools w) cs) a1 gone1"
      by (rule children_of [OF p(1,4) _ assms(4-6)]) (use assms(3,7) in auto)
    show "?P (place r0) \<noteq> None"
    proof (cases "ts1 = []")
      case False
      then obtain z where z: "z \<in> set (pids ts1)" "r0 = In_sibling z" "pools w z \<noteq> None" using p(5) by auto
      then have "z \<notin> set (q # pids cs)" using assms(3) by auto
      then show ?thesis using z by simp
    qed (use p(5) assms(1,3) in auto)
    show "\<forall>s. sibling pool = Some s \<longrightarrow> s \<noteq> place r0 \<and> ?P s \<noteq> None"
    proof (intro allI impI)
      fix s assume "sibling pool = Some s"
      then have s: "s \<in> set (pids ts2)" "pools w s \<noteq> None" using p(6) by simp_all
      then have "s \<notin> set (q # pids cs)" "s \<noteq> par" "s \<notin> set (pids ts1)" using assms(3) by auto
      then show "s \<noteq> place r0 \<and> ?P s \<noteq> None" using s p(5) by (auto split: if_splits)
    qed
    show "owner a \<noteq> Some q" using assms(7) by auto
  qed
  then obtain a' gone where w': "apr_pool_destroy q w = Some (tree_gone (relinked r0 (sibling pool) ?P) x (PNode q cs) w (Some a') gone)"
    "kept a (tree_nodes (pools w) [PNode q cs]) a' gone" by (auto simp: apr_pool_destroy_def)
  have par: "relinked r0 (sibling pool) ?P par = Some (if ts1 = [] then pp\<lparr>child := sibling pool\<rparr> else pp)"
    using p(5,6) assms(1,3) by (auto simp: relinked_def split: if_splits)
  have "dom (relinked r0 (sibling pool) ?P) = dom (pools w) - set (q # pids cs)" by (auto simp: relinked_def restrict_map_def split: if_splits)
  moreover have "\<forall>u. u \<notin> set (q # pids cs) \<longrightarrow> map_option content (relinked r0 (sibling pool) ?P u) = map_option content (pools w u)"
    by (simp add: content_relinked)
  ultimately show ?thesis using w' par p(7) by (intro exI conjI) (auto simp: tree_gone_def)
qed

theorem pool_destroy_child_witness:
  "\<exists>w' pp'. apr_pool_destroy 2 sample_world = Some w' \<and> pools w' 1 = Some pp' \<and> siblings (pools w') 1 (In_child 1) (child pp') [PNode 4 []] \<and>
    history w' = [Cleanup 1 2, Cleanup 1 3, Cleanup 2 3, Cleanup 2 2]"
proof -
  have "distinct (1 # pids ([] @ PNode 2 [PNode 3 []] # [PNode 4 []]))" by simp
  moreover have "allocators sample_world 7 = Some (new_allocator\<lparr>owner := Some 1\<rparr>)" by simp
  moreover have "owner (new_allocator\<lparr>owner := Some 1\<rparr>) \<notin> Some ` set (2 # pids [PNode 3 []])" by simp
  ultimately obtain w' pp' where "apr_pool_destroy 2 sample_world = Some w'" "pools w' 1 = Some pp'"
    "siblings (pools w') 1 (In_child 1) (child pp') ([] @ [PNode 4 []])"
    "history w' = history sample_world @ tree_events (pools sample_world) [PNode 2 [PNode 3 []]]"
    using pool_destroy_child [OF sample_world_simps(3) _ _ sample_trees(4) _ sample_allocator] sample_trees(1) sample_pool_simps(2) by metis
  moreover have "tree_events (pools sample_world) [PNode 2 [PNode 3 []]] = [Cleanup 1 2, Cleanup 1 3, Cleanup 2 3, Cleanup 2 2]" by simp
  ultimately show ?thesis by (metis append_Nil sample_world_simps(2))
qed

text \<open>Destroying a pool without a parent that owns its allocator ends. The pool and all pools below it are gone, their cleanups have run
  in order, the allocator is gone, and all its nodes and those of the pools went back to the system, each one once.\<close>

theorem pool_destroy_root:
  assumes "pools w q = Some pool" "parent pool = None" "siblings (pools w) q (In_child q) (child pool) cs" "distinct (q # pids cs)"
    "tree_memory (pools w) x [PNode q cs]" "allocators w x = Some a" "allocator_ok a" "owner a = Some q"
  shows "\<exists>w' gone. apr_pool_destroy q w = Some w' \<and> pools w' = pools w |` (- set (q # pids cs)) \<and>
    history w' = history w @ tree_events (pools w) [PNode q cs] \<and> allocators w' = (allocators w)(x := None) \<and>
    freed w' = freed w @ gone \<and> mset gone = stock_of a + mset (tree_nodes (pools w) [PNode q cs])"
proof -
  have "\<exists>gone. destroy_work (Inl q) w = Some (tree_gone (pools w |` (- set (q # pids cs))) x (PNode q cs) w None gone) \<and>
      mset gone = stock_of a + mset (tree_nodes (pools w) [PNode q cs])"
  proof (rule destroy_step(2) [OF assms(1) _ assms(5) _ assms(2,8)])
    show "q \<notin> set (pids cs)" using assms(4) by simp
    show "\<exists>a1 gone1. destroy_work (Inr q) (start_cleanup q pool w) =
        Some (children_gone q (pool\<lparr>pre_cleanups := [], free_pre_cleanups := []\<rparr>) x cs (start_cleanup q pool w) a1 gone1) \<and>
      kept a (tree_nodes (pools w) cs) a1 gone1"
      by (rule children_of [OF assms(1,3,4,5,6,7)]) (use assms(4,8) in auto)
  qed
  then show ?thesis by (auto simp: apr_pool_destroy_def tree_gone_def)
qed

theorem pool_destroy_root_witness:
  "\<exists>w'. apr_pool_destroy 1 sample_world = Some w' \<and> pools w' 3 = None \<and> allocators w' 7 = None \<and>
    history w' = [Cleanup 1 1, Cleanup 1 2, Cleanup 1 3, Cleanup 2 3, Cleanup 2 2, Cleanup 1 4, Cleanup 2 4, Cleanup 2 1]"
proof -
  let ?cs = "[PNode 2 [PNode 3 []], PNode 4 []]"
  have "distinct (1 # pids ?cs)" by simp
  moreover have "siblings (pools sample_world) 1 (In_child 1) (child (sample_pool 1 None (Some 2) None None)) ?cs" using sample_trees(1) by simp
  moreover have "allocators sample_world 7 = Some (new_allocator\<lparr>owner := Some 1\<rparr>)" by simp
  moreover have "owner (new_allocator\<lparr>owner := Some 1\<rparr>) = Some 1" by simp
  ultimately obtain w' where w': "apr_pool_destroy 1 sample_world = Some w'" "pools w' = pools sample_world |` (- set (1 # pids ?cs))"
    "allocators w' = (allocators sample_world)(7 := None)"
    "history w' = history sample_world @ tree_events (pools sample_world) [PNode 1 ?cs]"
    using pool_destroy_root [OF sample_world_simps(3) _ _ _ sample_trees(3) _ sample_allocator] sample_pool_simps(1) by metis
  have e: "tree_events (pools sample_world) [PNode 1 ?cs] =
      [Cleanup 1 1, Cleanup 1 2, Cleanup 1 3, Cleanup 2 3, Cleanup 2 2, Cleanup 1 4, Cleanup 2 4, Cleanup 2 1]" by simp
  have "pools w' 3 = None" "allocators w' 7 = None" by (simp_all add: w')
  then show ?thesis using w'(1,4) e by (metis append_Nil sample_world_simps(2))
qed

text \<open>C19: Clearing a pool ends. The pools below it are gone, all cleanups have run in order, the pool is empty and keeps the node it lies in, and
  all other nodes of these pools are kept by the allocator or given back to the system, each one once.\<close>

theorem pool_clear:
  assumes "pools w q = Some pool" "siblings (pools w) q (In_child q) (child pool) cs" "distinct (q # pids cs)"
    "tree_memory (pools w) x [PNode q cs]" "allocators w x = Some a" "allocator_ok a" "owner a \<notin> Some ` set (pids cs)"
    "from_self pool = n # nodes"
  shows "\<exists>w' a' gone. apr_pool_clear q w = Some w' \<and>
    pools w' = (pools w |` (- set (pids cs)))(q \<mapsto> pool\<lparr>pre_cleanups := [], free_pre_cleanups := [], child := None, cleanups := [],
      free_cleanups := [], ring := [n\<lparr>first_avail := self_first_avail pool\<rparr>]\<rparr>) \<and>
    history w' = history w @ tree_events (pools w) [PNode q cs] \<and> allocators w' = (allocators w)(x \<mapsto> a') \<and>
    freed w' = freed w @ gone \<and> kept a (nodes @ tree_nodes (pools w) cs) a' gone"
proof -
  let ?w0 = "start_cleanup q pool w" let ?pool0 = "pool\<lparr>pre_cleanups := [], free_pre_cleanups := []\<rparr>"
  obtain a1 gone1 where c: "destroy_work (Inr q) ?w0 = Some (children_gone q ?pool0 x cs ?w0 a1 gone1)" (is "_ = Some ?w1")
    "kept a (tree_nodes (pools w) cs) a1 gone1" using children_of [OF assms(1-7)] by blast
  have ev: "tree_events (pools ?w0) cs = tree_events (pools w) cs"
    using assms(3) by (intro conjunct1 [OF tree_frame]) auto
  have m: "pallocator pool = x" "\<forall>n \<in> set nodes. node_ok n"
    using assms(1,4) from_self(2) [of pool] by (auto simp: tree_memory_def assms(8))
  obtain a' gone2 where f: "allocator_free a1 nodes = (a', gone2)" by fastforce
  have "kept a1 nodes a' gone2" using allocator_free [OF _ _ f] c(2) m(2) by (simp add: kept_def)
  then have k: "kept a (nodes @ tree_nodes (pools w) cs) a' (gone1 @ gone2)" using kept_trans [OF c(2), of nodes a' gone2] by (simp add: kept_def ac_simps)
  have none: "a' = a1 \<and> gone2 = []" if "nodes = []"
    using f that by (simp add: allocator_free_def)
  let ?log = "log_events (run_cleanups (cleanups pool)) ?w1" let ?pool1 = "?pool0\<lparr>child := None\<rparr>"
  let ?pool2 = "?pool1\<lparr>cleanups := [], free_cleanups := [], ring := [n\<lparr>first_avail := self_first_avail pool\<rparr>]\<rparr>"
  have w1: "pools ?w1 q = Some ?pool1" "from_self ?pool1 = n # nodes" using assms(8) by (simp_all add: children_gone_def from_self_def)
  let ?w' = "put_allocator x a' (put_pool q ?pool2 (?log\<lparr>freed := freed ?log @ gone2\<rparr>))"
  have al: "allocators ?log x = Some a1" by (simp add: log_events_def children_gone_def)
  have "apr_pool_clear q w = Some (if nodes = [] then put_pool q ?pool2 ?log else ?w')"
    using assms(1) c(1) w1 m(1) al f by (simp add: apr_pool_clear_def Let_def)
  moreover have "put_pool q ?pool2 ?log = ?w'" if "nodes = []"
    using none [OF that] al by (intro world.equality) (simp_all add: put_pool_def put_allocator_def fun_upd_idem)
  ultimately have "apr_pool_clear q w = Some ?w'" by (simp split: if_splits)
  moreover have "history ?w' = history w @ tree_events (pools w) [PNode q cs]"
    using assms(1) ev by (simp add: put_allocator_def put_pool_def log_events_def children_gone_def start_cleanup_def)
  moreover have "pools ?w' = (pools w |` (- set (pids cs)))(q \<mapsto> ?pool2)"
    using assms(3) by (auto simp: put_allocator_def put_pool_def log_events_def children_gone_def restrict_map_def fun_eq_iff)
  moreover have "allocators ?w' = (allocators w)(x \<mapsto> a')" "freed ?w' = freed w @ gone1 @ gone2"
    by (simp_all add: put_allocator_def put_pool_def log_events_def children_gone_def start_cleanup_def)
  ultimately show ?thesis using k by (intro exI [of _ ?w'] exI [of _ a'] exI [of _ "gone1 @ gone2"]) simp
qed

theorem pool_clear_witness:
  "\<exists>w'. apr_pool_clear 2 sample_world = Some w' \<and> pools w' 3 = None \<and> history w' = [Cleanup 1 2, Cleanup 1 3, Cleanup 2 3, Cleanup 2 2]"
proof -
  let ?pool = "sample_pool 2 (Some 1) (Some 3) (Some 4) (Some (In_child 1))"
  obtain n where n: "from_self ?pool = [n]" using sample_pool_simps(8) by blast
  have "distinct (2 # pids [PNode 3 []])" by simp
  moreover have "siblings (pools sample_world) 2 (In_child 2) (child ?pool) [PNode 3 []]" using sample_trees(2) by simp
  moreover have "allocators sample_world 7 = Some (new_allocator\<lparr>owner := Some 1\<rparr>)" by simp
  moreover have "owner (new_allocator\<lparr>owner := Some 1\<rparr>) \<notin> Some ` set (pids [PNode 3 []])" by simp
  ultimately obtain w' p' where w': "apr_pool_clear 2 sample_world = Some w'" "pools w' = (pools sample_world |` (- set (pids [PNode 3 []])))(2 \<mapsto> p')"
    "history w' = history sample_world @ tree_events (pools sample_world) [PNode 2 [PNode 3 []]]"
    using pool_clear [OF sample_world_simps(5) _ _ sample_trees(4) _ sample_allocator _ n] by metis
  have e: "tree_events (pools sample_world) [PNode 2 [PNode 3 []]] = [Cleanup 1 2, Cleanup 1 3, Cleanup 2 3, Cleanup 2 2]" by simp
  have "pools w' 3 = None" by (simp add: w')
  then show ?thesis using w'(1,3) e by (metis append_Nil sample_world_simps(2))
qed

section \<open>Creation\<close>

text \<open>A pool created with the memory of its parent becomes the first child of the parent, before the children it had, with an abort function
  of its own or else that of the parent.\<close>

theorem pool_create_child:
  assumes "pools w q = Some par" "siblings (pools w) q (In_child q) (child par) ts" "distinct (q # pids ts)"
    "allocators w (pallocator par) = Some a" "allocator_alloc a (MIN_ALLOC - APR_MEMNODE_T_SIZE) mem = (a', Some node)"
    "first_avail node \<notin> set (q # pids ts)"
  shows "\<exists>w' par'. apr_pool_create_ex (Some q) abort None mem w = Some (w', APR_SUCCESS, Some (first_avail node)) \<and>
    pools w' q = Some par' \<and> siblings (pools w') q (In_child q) (child par') (PNode (first_avail node) [] # ts) \<and>
    map_option abort_fn (pools w' (first_avail node)) = Some (if abort = None then abort_fn par else abort) \<and>
    (\<forall>u. u \<noteq> first_avail node \<longrightarrow> map_option content (pools w' u) = map_option content (pools w u)) \<and>
    allocators w' = (allocators w)(pallocator par \<mapsto> a')"
proof -
  let ?p = "first_avail node" let ?ab = "if abort = None then abort_fn par else abort"
  let ?pool = "(new_pool node (pallocator par) ?ab)\<lparr>parent := Some q, sibling := child par, pref := Some (In_child q)\<rparr>"
  let ?w1 = "put_pool ?p ?pool (put_allocator (pallocator par) a' w)"
  define w' where "w' = ?w1\<lparr>pools := \<lambda>u. if u = q then Some (par\<lparr>child := Some ?p\<rparr>)
    else if child par = Some u then map_option (\<lambda>s. s\<lparr>pref := Some (In_sibling ?p)\<rparr>) (pools w u) else pools ?w1 u\<rparr>"
  have p: "?p \<noteq> q" "?p \<notin> set (pids ts)" using assms(6) by simp_all
  have hd: "s \<in> set (pids ts)" "pools w s \<noteq> None" if "child par = Some s" for s
    using siblings_hd [of "pools w" q "In_child q" s ts] assms(2) that by simp_all
  have "link_child ?p (new_pool node (pallocator par) ?ab) q (put_allocator (pallocator par) a' w) = Some w'"
  proof (cases "child par")
    case None
    have "put_pool q (par\<lparr>child := Some ?p\<rparr>) ?w1 = w'"
      by (rule world.equality) (auto simp: w'_def put_pool_def None fun_eq_iff)
    then show ?thesis using assms(1) p(1) None by (simp add: link_child_def put_pool_def put_allocator_def)
  next
    case (Some s)
    then obtain sp where sp: "pools w s = Some sp" "s \<noteq> ?p" "s \<noteq> q" using hd [OF Some] p(2) assms(3) by auto
    have "put_pool q (par\<lparr>child := Some ?p\<rparr>) (put_pool s (sp\<lparr>pref := Some (In_sibling ?p)\<rparr>) ?w1) = w'"
      by (rule world.equality) (auto simp: w'_def put_pool_def Some sp fun_eq_iff)
    then show ?thesis using assms(1) p(1) Some sp by (simp add: link_child_def put_pool_def put_allocator_def)
  qed
  then have r: "apr_pool_create_ex (Some q) abort None mem w = Some (w', APR_SUCCESS, Some ?p)"
    using assms(1,4,5) by (auto simp: apr_pool_create_ex_def Let_def)
  have q': "pools w' q = Some (par\<lparr>child := Some ?p\<rparr>)" by (simp add: w'_def)
  have p': "pools w' ?p = Some ?pool" using p hd by (auto simp: w'_def put_pool_def)
  have "siblings (pools w') q (In_sibling ?p) (child par) ts"
  proof (rule siblings_head [OF assms(2)])
    show "\<forall>u \<in> set (pids ts). map_option links (pools w' u) =
        map_option links (map_option (\<lambda>pool. if Some u = child par then pool\<lparr>pref := Some (In_sibling ?p)\<rparr> else pool) (pools w u))"
      using p assms(3) by (auto simp: w'_def put_pool_def put_allocator_def option.map_ident)
  qed (use assms(3) in simp)
  then have "siblings (pools w') q (In_child q) (Some ?p) (PNode ?p [] # ts)" using p' by (simp add: new_pool_def)
  moreover have "\<forall>u. u \<noteq> ?p \<longrightarrow> map_option content (pools w' u) = map_option content (pools w u)"
  proof (intro allI impI)
    fix u assume "u \<noteq> ?p"
    then show "map_option content (pools w' u) = map_option content (pools w u)"
      using assms(1) by (cases "pools w u") (auto simp: w'_def put_pool_def put_allocator_def content_def)
  qed
  moreover have "allocators w' = (allocators w)(pallocator par \<mapsto> a')" by (simp add: w'_def put_pool_def put_allocator_def)
  ultimately show ?thesis using r q' p' by (intro exI [of _ w'] exI [of _ "par\<lparr>child := Some ?p\<rparr>"]) (simp add: new_pool_def)
qed

theorem pool_create_child_witness:
  "\<exists>w' par' p. apr_pool_create_ex (Some 1) None None (Some 65536) sample_world = Some (w', APR_SUCCESS, Some p) \<and> pools w' 1 = Some par' \<and>
    siblings (pools w') 1 (In_child 1) (child par') [PNode p [], PNode 2 [PNode 3 []], PNode 4 []]"
proof -
  let ?par = "sample_pool 1 None (Some 2) None None" let ?a = "new_allocator\<lparr>owner := Some 1\<rparr>"
  let ?ts = "[] @ PNode 2 [PNode 3 []] # [PNode 4 []]"
  have "distinct (1 # pids ?ts)" by simp
  moreover have "siblings (pools sample_world) 1 (In_child 1) (child ?par) ?ts" using sample_trees(1) by simp
  moreover have "allocators sample_world (pallocator ?par) = Some ?a" by simp
  moreover have "map_option first_avail (snd (allocator_alloc ?a (MIN_ALLOC - APR_MEMNODE_T_SIZE) (Some 65536))) = Some 65576"
    by (simp add: allocator_alloc_def node_size_def align_boundary_def size_t_def malloc_node_def new_node_def new_allocator_def)
  then obtain a' node where "allocator_alloc ?a (MIN_ALLOC - APR_MEMNODE_T_SIZE) (Some 65536) = (a', Some node)" "first_avail node = 65576"
    by (cases "allocator_alloc ?a (MIN_ALLOC - APR_MEMNODE_T_SIZE) (Some 65536)") auto
  moreover from this have "first_avail node \<notin> set (1 # pids ?ts)" by simp
  ultimately show ?thesis
    using pool_create_child [OF sample_world_simps(3), of ?ts ?a "Some 65536" a' node None] by (metis append_Nil)
qed

end
