(* ===== verification/AprNumbers.thy ===== *)
theory AprNumbers
  imports Prelude "HOL-Library.Signed_Division"
begin

text \<open>
  Numbers to text and back: the functions of \<open>apr-1.3.8/strings/apr_strings.c\<close> from
  \<open>apr_strtoi64\<close> (the branch that does not use the C library's own conversion) to
  \<open>apr_strfsize\<close>.

  Signed C integers are \<open>int\<close>s with the wrap-around of two's complement written out
  (\<open>swrap\<close>); division truncates towards zero (\<open>sdiv\<close>, \<open>smod\<close>). The functions that write
  backwards into a block of fixed size fail (\<open>None\<close>) if they would write before its start.
\<close>

section \<open>Text to numbers\<close>

datatype errno = E_OK | EINVAL | ERANGE

definition INT64_MAX :: int where
  "INT64_MAX = 0x7fffffffffffffff"

definition INT64_MIN :: int where
  "INT64_MIN = - 0x7fffffffffffffff - 1"

function skip_space :: "cstring \<Rightarrow> nat \<Rightarrow> nat" where
  "skip_space s i = (if isspace (cget s i) then skip_space s (i + 1) else i)"
  by pat_completeness auto
termination
  by (relation "measure (\<lambda>(s, i). length s - i)") (auto simp: cget_def isspace_def split: if_splits)

declare skip_space.simps [simp del]

definition digit_val :: "byte \<Rightarrow> int option" where
  "digit_val c =
     (if 0x30 \<le> c \<and> c \<le> 0x39 then Some (uint c - 0x30)
      else if 0x41 \<le> c \<and> c \<le> 0x5a then Some (uint c - (0x41 - 10))
      else if 0x61 \<le> c \<and> c \<le> 0x7a then Some (uint c - (0x61 - 10))
      else None)"

text \<open>The digit loop. \<open>i\<close> is the position of the character at hand (\<open>s - 1\<close> in the source); the result
  is \<open>acc\<close>, \<open>any\<close> and the position of the character that ended the loop.\<close>

function strto_loop ::
  "cstring \<Rightarrow> int \<Rightarrow> bool \<Rightarrow> int \<Rightarrow> int \<Rightarrow> int \<Rightarrow> nat \<Rightarrow> int \<times> int \<times> nat" where
  "strto_loop s base neg acc any val i =
     (case digit_val (cget s i) of
        None \<Rightarrow> (acc, any, i)
      | Some c \<Rightarrow>
          if c \<ge> base then (acc, any, i)
          else
            let val1 = swrap 64 (val * base) in
            if any < 0 then strto_loop s base neg acc (-1) val1 (i + 1)
            else if neg then
              if val1 > acc then strto_loop s base neg acc (-1) val1 (i + 1)
              else let val2 = swrap 64 (val1 - c) in
                   if val2 > acc then strto_loop s base neg acc (-1) val2 (i + 1)
                   else strto_loop s base neg val2 1 val2 (i + 1)
            else
              if val1 < acc then strto_loop s base neg acc (-1) val1 (i + 1)
              else let val2 = swrap 64 (val1 + c) in
                   if val2 < acc then strto_loop s base neg acc (-1) val2 (i + 1)
                   else strto_loop s base neg val2 1 val2 (i + 1))"
  by pat_completeness auto
termination
  by (relation "measure (\<lambda>(s, base, neg, acc, any, val, i). length s - i)")
    (auto simp: cget_def digit_val_def split: if_splits)

declare strto_loop.simps [simp del]

text \<open>The value, \<open>errno\<close> and the position \<open>*endptr\<close> is set to.\<close>

definition apr_strtoi64 :: "cstring \<Rightarrow> int \<Rightarrow> int \<times> errno \<times> nat" where
  "apr_strtoi64 nptr base0 =
     (let i0 = skip_space nptr 0;
          neg = (cget nptr i0 = 0x2d);
          i1 = (if neg \<or> cget nptr i0 = 0x2b then i0 + 1 else i0);
          hex = ((base0 = 0 \<or> base0 = 16) \<and> cget nptr i1 = 0x30 \<and>
                 (cget nptr (i1 + 1) = 0x78 \<or> cget nptr (i1 + 1) = 0x58));
          i2 = (if hex then i1 + 2 else i1);
          base1 = (if hex then 16 else base0);
          base = (if base1 = 0 then if cget nptr i2 = 0x30 then 8 else 10 else base1)
      in if base < 2 \<or> base > 36 then (0, EINVAL, 0)
         else
           let (acc, any, i) = strto_loop nptr base neg 0 0 0 i2;
               endp = (if any \<noteq> 0 then i else 0)
           in if any < 0 then (if neg then INT64_MIN else INT64_MAX, ERANGE, endp)
              else if any = 0 then (acc, EINVAL, endp)
              else (acc, E_OK, endp))"

definition apr_atoi64 :: "cstring \<Rightarrow> int" where
  "apr_atoi64 buf = fst (apr_strtoi64 buf 10)"

section \<open>Numbers to text\<close>

text \<open>\<open>do { *--start = '0' + n % 10; n /= 10; } while (n);\<close>\<close>

fun toa_loop :: "byte mem \<Rightarrow> nat \<Rightarrow> int \<Rightarrow> (byte mem \<times> nat) option" where
  "toa_loop buf 0 n = None"
| "toa_loop buf (Suc start) n =
     (let buf' = buf[start := Some (word_of_int (0x30 + n smod 10))]; n' = n sdiv 10
      in if n' \<noteq> 0 then toa_loop buf' start n' else Some (buf', start))"

text \<open>The common body of the three conversions, for a type of \<open>w\<close> bits.\<close>

definition toa :: "nat \<Rightarrow> int \<Rightarrow> cstring option" where
  "toa w n =
     (let BUFFER_SIZE = w div 8 * 3 + 2; buf = palloc BUFFER_SIZE; start = BUFFER_SIZE - 1;
          negative = (n < 0);
          n' = (if n < 0 then swrap w (- n) else n);
          buf0 = buf[start := Some 0]
      in case toa_loop buf0 start n' of
           None \<Rightarrow> None
         | Some (buf1, start1) \<Rightarrow>
             if negative then
               (if start1 = 0 then None
                else Some (map the (butlast (drop (start1 - 1) (buf1[start1 - 1 := Some 0x2d])))))
             else Some (map the (butlast (drop start1 buf1))))"

definition apr_itoa :: "int \<Rightarrow> cstring option" where
  "apr_itoa n = toa 32 n"

definition apr_ltoa :: "int \<Rightarrow> cstring option" where
  "apr_ltoa n = toa 64 n"

definition apr_off_t_toa :: "int \<Rightarrow> cstring option" where
  "apr_off_t_toa n = toa 64 n"

text \<open>
  \<open>apr_strfsize\<close>: the loop divides by 1024 until fewer than 973 units are left. Its result is the number
  of units, the tenths if they are printed, and the position in \<open>ord\<close>. The formats \<open>%3d\<close> and
  \<open>%d\<close> are written out; \<open>apr_snprintf\<close> with a block of 5 bytes keeps at most 4 characters and never
  returns a negative count for them, so the branches that store four asterisks are not reached.
\<close>

definition ord_units :: cstring where
  "ord_units = cstr ''KMGTPE''"

function strfsize_loop :: "int \<Rightarrow> nat \<Rightarrow> int \<times> int option \<times> nat" where
  "strfsize_loop sz u =
     (let remain = sz mod 1024; size' = sz div 1024 in
      if size' \<ge> 973 then strfsize_loop size' (u + 1)
      else if size' < 9 \<or> (size' = 9 \<and> remain < 973) then
        let remain' = (remain * 5 + 256) div 512
        in if remain' \<ge> 10 then (size' + 1, Some 0, u) else (size', Some remain', u)
      else (if remain \<ge> 512 then size' + 1 else size', None, u))"
  by pat_completeness auto
termination
  by (relation "measure (\<lambda>(sz, u). nat sz)") auto

declare strfsize_loop.simps [simp del]

fun dec :: "nat \<Rightarrow> cstring" where
  "dec n = (if n < 10 then [of_nat (0x30 + n)] else dec (n div 10) @ [of_nat (0x30 + n mod 10)])"

declare dec.simps [simp del]

definition pad3 :: "cstring \<Rightarrow> cstring" where
  "pad3 s = replicate (3 - length s) 0x20 @ s"

definition apr_strfsize :: "int \<Rightarrow> cstring" where
  "apr_strfsize sz =
     (if sz < 0 then cstr ''  - ''
      else if sz < 973 then take 4 (pad3 (dec (nat sz)) @ [0x20])
      else case strfsize_loop sz 0 of
        (n, Some r, u) \<Rightarrow> take 4 (dec (nat n) @ [0x2e] @ dec (nat r) @ [cget ord_units u])
      | (n, None, u) \<Rightarrow> take 4 (pad3 (dec (nat n)) @ [cget ord_units u]))"

section \<open>Decimal representation\<close>

definition dec_int :: "int \<Rightarrow> cstring" where
  "dec_int n = (if n < 0 then 0x2d # dec (nat (- n)) else dec (nat n))"

lemma dec_length: "n < 10 ^ k \<Longrightarrow> 0 < k \<Longrightarrow> length (dec n) \<le> k"
proof (induction n arbitrary: k rule: dec.induct)
  case (1 n)
  show ?case
  proof (cases "n < 10")
    case True
    then show ?thesis using 1(3) by (subst dec.simps) simp
  next
    case False
    then obtain k' where k: "k = Suc k'" "0 < k'" using 1(2,3) by (cases k; cases "k - 1") auto
    then have "n div 10 < 10 ^ k'" using 1(2) by (simp add: less_mult_imp_div_less)
    then show ?thesis using 1(1) [OF False _ k(2)] k False by (subst dec.simps) simp
  qed
qed

lemma smod_nat: "int n smod 10 = int (n mod 10)" and sdiv_nat: "int n sdiv 10 = int (n div 10)"
  by (simp_all add: signed_modulo_int_def signed_divide_int_def sgn_if zmod_int zdiv_int)

lemma toa_loop_dec:
  "length (dec n) \<le> start \<Longrightarrow> start \<le> length buf \<Longrightarrow>
   \<exists>buf'. toa_loop buf start (int n) = Some (buf', start - length (dec n)) \<and> length buf' = length buf \<and>
     drop (start - length (dec n)) buf' = map Some (dec n) @ drop start buf"
proof (induction n arbitrary: start buf rule: dec.induct)
  case (1 n)
  have "0 < length (dec n)" by (subst dec.simps) simp
  then obtain st where st: "start = Suc st" using 1(2) by (cases start) auto
  define d :: byte where "d = of_nat (0x30 + n mod 10)"
  define buf1 where "buf1 = buf[st := Some d]"
  have w: "word_of_int (0x30 + int n smod 10) = d" by (simp add: smod_nat d_def)
  have step: "toa_loop buf (Suc st) (int n) = (if n div 10 \<noteq> 0
      then toa_loop (buf[st := Some d]) st (int (n div 10)) else Some (buf[st := Some d], st))"
    by (simp only: toa_loop.simps w sdiv_nat Let_def) simp
  have d1: "drop st buf1 = Some d # drop start buf"
    using 1(3) st by (simp add: buf1_def drop_update_cancel Cons_nth_drop_Suc [symmetric])
  show ?case
  proof (cases "n < 10")
    case True
    then have "dec n = [d]" by (subst dec.simps) (simp add: d_def)
    moreover have "toa_loop buf start (int n) = Some (buf1, st)"
      using True by (simp only: st step buf1_def) simp
    ultimately show ?thesis using d1 st by (simp add: buf1_def)
  next
    case False
    then have dec: "dec n = dec (n div 10) @ [d]" by (subst dec.simps) (simp add: d_def)
    have "n div 10 \<noteq> 0" using False by (simp add: div_eq_0_iff)
    then have "toa_loop buf start (int n) = toa_loop buf1 st (int (n div 10))"
      by (simp only: st step buf1_def) simp
    moreover obtain buf' where "toa_loop buf1 st (int (n div 10)) = Some (buf', st - length (dec (n div 10)))"
      "length buf' = length buf1" "drop (st - length (dec (n div 10))) buf' = map Some (dec (n div 10)) @ drop st buf1"
      using 1(1) [OF False, of st buf1] 1(2,3) dec st by (auto simp: buf1_def)
    ultimately show ?thesis using d1 dec st by (simp add: buf1_def)
  qed
qed

lemma toa_dec:
  assumes "nat \<bar>n\<bar> < 10 ^ k" and "0 < k" and "k + 1 \<le> w div 8 * 3 + 1" and "n < 0 \<longrightarrow> swrap w (- n) = - n"
  shows "toa w n = Some (dec_int n)"
proof -
  let ?B = "w div 8 * 3 + 2" and ?N = "nat \<bar>n\<bar>"
  define buf where "buf = (palloc ?B :: byte mem)[?B - 1 := Some 0]"
  have lb: "length buf = ?B" by (simp add: buf_def)
  have len: "length (dec ?N) \<le> k" using dec_length [OF assms(1,2)] .
  obtain buf' where t: "toa_loop buf (?B - 1) (int ?N) = Some (buf', ?B - 1 - length (dec ?N))"
    "length buf' = ?B" "drop (?B - 1 - length (dec ?N)) buf' = map Some (dec ?N) @ drop (?B - 1) buf"
    using toa_loop_dec [of ?N "?B - 1" buf] len assms(3) lb by auto
  define st where "st = ?B - 1 - length (dec ?N)"
  have last: "drop (?B - 1) buf = [Some 0]"
    by (rule nth_equalityI) (simp_all add: buf_def)
  have str: "drop st buf' = map Some (dec ?N) @ [Some 0]" using t(3) last by (simp add: st_def)
  have st: "0 < st" "st \<le> ?B" using len assms(3) by (simp_all add: st_def)
  have n': "(if n < 0 then swrap w (- n) else n) = int ?N" using assms(4) by simp
  have eq: "toa w n = (if n < 0 then Some (map the (butlast (drop (st - 1) (buf'[st - 1 := Some 0x2d]))))
      else Some (map the (butlast (drop st buf'))))"
    unfolding toa_def Let_def n' buf_def [symmetric] t(1) option.case prod.case st_def [symmetric]
    using st(1) by simp
  have "drop (st - 1) (buf'[st - 1 := Some 0x2d]) = Some 0x2d # drop st buf'"
    using st t(2) by (simp add: Cons_nth_drop_Suc [symmetric] drop_update_cancel)
  then show ?thesis unfolding eq by (simp add: dec_int_def str butlast_append comp_def)
qed

section \<open>The digit loop\<close>

definition is_digit :: "int \<Rightarrow> byte \<Rightarrow> bool" where
  "is_digit base c \<longleftrightarrow> (case digit_val c of None \<Rightarrow> False | Some d \<Rightarrow> d < base)"

definition num :: "int \<Rightarrow> int \<Rightarrow> cstring \<Rightarrow> int" where
  "num base a ds = foldl (\<lambda>a d. a * base + the (digit_val d)) a ds"

lemma digit_val_nonneg: "digit_val c = Some d \<Longrightarrow> 0 \<le> d"
  by (auto simp: digit_val_def word_le_def split: if_splits)

lemma num_ge: "0 \<le> a \<Longrightarrow> 1 \<le> base \<Longrightarrow> \<forall>d \<in> set ds. is_digit base d \<Longrightarrow> a \<le> num base a ds"
proof (induction ds arbitrary: a)
  case (Cons d ds)
  obtain v where v: "digit_val d = Some v" "0 \<le> v"
    using Cons.prems(3) digit_val_nonneg by (force simp: is_digit_def split: option.splits)
  have "a \<le> a * base" using Cons.prems(1,2) by (simp add: mult_le_cancel_left1)
  then have "a \<le> a * base + v" using v(2) by simp
  also have "\<dots> \<le> num base (a * base + v) ds"
    using Cons.prems v(2) by (intro Cons.IH) simp_all
  finally show ?case using v(1) by (simp add: num_def)
qed (simp add: num_def)

lemma cget_append: "cget (xs @ ys) (length xs + i) = cget ys i" "cget (xs @ ys) (length xs) = cget ys 0"
  by (simp_all add: cget_def nth_append)

lemma cget_Cons_0 [simp]: "cget (x # xs) 0 = x"
  by (simp add: cget_def)

text \<open>The loop passes over digits as long as their value fits.\<close>

lemma strto_loop_run:
  assumes "1 \<le> base"
  shows "0 \<le> a \<Longrightarrow> \<forall>d \<in> set ds. is_digit base d \<Longrightarrow>
    (if neg then num base a ds \<le> 2 ^ 63 else num base a ds < 2 ^ 63) \<Longrightarrow> 0 \<le> any \<Longrightarrow>
    acc = (if neg then - a else a) \<Longrightarrow> acc' = (if neg then - num base a ds else num base a ds) \<Longrightarrow>
    strto_loop (pre @ ds @ rest) base neg acc any acc (length pre) =
    strto_loop (pre @ ds @ rest) base neg acc' (if ds = [] then any else 1) acc' (length (pre @ ds))"
proof (induction ds arbitrary: pre a any acc)
  case Nil
  then show ?case by (simp add: num_def)
next
  case (Cons d ds)
  obtain v where v: "digit_val d = Some v" "v < base" "0 \<le> v"
    using Cons.prems(2) digit_val_nonneg by (force simp: is_digit_def split: option.splits)
  let ?a = "a * base + v"
  have n: "num base a (d # ds) = num base ?a ds" using v(1) by (simp add: num_def)
  have le: "?a \<le> num base ?a ds" using Cons.prems v assms(1) by (intro num_ge) simp_all
  have ab: "a \<le> a * base" using Cons.prems(1) assms(1) by (simp add: mult_le_cancel_left1)
  have "swrap 64 (acc * base) = acc * base"
    using Cons.prems(1,3,5) le n v(3) ab by (intro swrap_id) (auto split: if_splits)
  moreover have "swrap 64 (acc * base + (if neg then - v else v)) = (if neg then - ?a else ?a)"
    using Cons.prems(1,3,5) le n v(3) ab by (subst swrap_id) (auto split: if_splits)
  ultimately have "strto_loop (pre @ (d # ds) @ rest) base neg acc any acc (length pre) =
      strto_loop ((pre @ [d]) @ ds @ rest) base neg (if neg then - ?a else ?a) 1 (if neg then - ?a else ?a) (length (pre @ [d]))"
    using Cons.prems(1,4,5) v ab by (subst strto_loop.simps) (auto simp: cget_append cget_def Let_def)
  also have "\<dots> = strto_loop ((pre @ [d]) @ ds @ rest) base neg acc' (if ds = [] then 1 else 1) acc' (length ((pre @ [d]) @ ds))"
    using Cons.prems v n by (intro Cons.IH) auto
  finally show ?case by simp
qed

lemma strto_loop_stop:
  assumes "\<not> is_digit base (cget rest 0)"
  shows "strto_loop (pre @ rest) base neg acc any val (length pre) = (acc, any, length pre)"
  using assms by (subst strto_loop.simps) (auto simp: cget_append is_digit_def split: option.splits)

lemma strto_loop_num:
  assumes "1 \<le> base" "\<not> is_digit base (cget rest 0)" "0 \<le> a" "\<forall>d \<in> set ds. is_digit base d"
    "if neg then num base a ds \<le> 2 ^ 63 else num base a ds < 2 ^ 63" "0 \<le> any" "acc = (if neg then - a else a)"
  shows "strto_loop (pre @ ds @ rest) base neg acc any acc (length pre) =
    (if neg then - num base a ds else num base a ds, if ds = [] then any else 1, length pre + length ds)"
  using strto_loop_run [OF assms(1,3-7) refl, of pre rest] strto_loop_stop [OF assms(2), of "pre @ ds" neg] by simp

text \<open>A last digit with which the value does not fit any more: the test sees that the wrapped product is smaller, unless it has wrapped past
  the value before.\<close>

lemma swrap_over: "2 ^ 63 \<le> x \<Longrightarrow> x < 2 ^ 64 + 2 ^ 63 \<Longrightarrow> swrap 64 x = x - 2 ^ 64"
  by (simp add: swrap_def mod_pos_geq)

lemma swrap_under: "- (2 ^ 64 + 2 ^ 63) \<le> x \<Longrightarrow> x < - (2 ^ 63) \<Longrightarrow> swrap 64 x = x + 2 ^ 64"
proof -
  assume x: "- (2 ^ 64 + 2 ^ 63) \<le> x" "x < - (2 ^ 63 :: int)"
  have "(x + 2 ^ 63) mod 2 ^ 64 = (x + 2 ^ 63 + 2 ^ 64) mod 2 ^ 64" by (simp only: mod_add_self2)
  also have "\<dots> = x + 2 ^ 63 + 2 ^ 64" using x by (intro mod_pos_pos_trivial) simp_all
  finally show ?thesis by (simp add: swrap_def)
qed

lemma strto_loop_last:
  assumes "\<not> is_digit 10 (cget rest 0)" "digit_val d = Some c" "0 \<le> c" "c < 10" "0 \<le> v" "0 \<le> any"
    "if neg then 2 ^ 63 < 10 * v + c \<and> 10 * v + c \<le> 2 ^ 64 + 2 ^ 63 else 2 ^ 63 \<le> 10 * v + c \<and> 10 * v + c < 2 ^ 64 + 2 ^ 63"
    "acc = (if neg then - v else v)" "acc' = (if neg then - (10 * v + c - 2 ^ 64) else 10 * v + c - 2 ^ 64)"
  shows "strto_loop (pre @ d # rest) 10 neg acc any acc (length pre) =
    (if 9 * v < 2 ^ 64 then (acc, - 1, length (pre @ [d])) else (acc', 1, length (pre @ [d])))"
proof -
  have stop: "strto_loop (pre @ d # rest) 10 neg x y z (length (pre @ [d])) = (x, y, length (pre @ [d]))" for x y z
    using strto_loop_stop [OF assms(1), of "pre @ [d]"] by simp
  have dg: "digit_val (cget (pre @ d # rest) (length pre)) = Some c" using assms(2) by (simp add: cget_append)
  show ?thesis
  proof (cases neg)
    case True
    have v1: "swrap 64 (acc * 10) = (if 10 * v \<le> 2 ^ 63 then - (10 * v) else - (10 * v) + 2 ^ 64)"
      using assms(3-8) True swrap_id [of 64 "- (v * 10)"] swrap_under [of "- (v * 10)"] by auto
    have v2: "swrap 64 (swrap 64 (acc * 10) - c) = - (10 * v + c) + 2 ^ 64" if "10 * v \<le> 2 ^ 63 \<or> 2 ^ 64 \<le> 9 * v"
      using assms(3-8) True that unfolding v1 by (auto simp: swrap_id swrap_under)
    show ?thesis
      using assms(3-9) True v1 v2 stop by (subst strto_loop.simps) (auto simp: dg Let_def)
  next
    case False
    have v1: "swrap 64 (acc * 10) = (if 10 * v < 2 ^ 63 then 10 * v else 10 * v - 2 ^ 64)"
      using assms(3-8) False swrap_id [of 64 "v * 10"] swrap_over [of "v * 10"] by auto
    have v2: "swrap 64 (swrap 64 (acc * 10) + c) = 10 * v + c - 2 ^ 64" if "10 * v < 2 ^ 63 \<or> 2 ^ 64 \<le> 9 * v"
      using assms(3-8) False that unfolding v1 by (auto simp: swrap_id swrap_over)
    show ?thesis
      using assms(3-9) False v1 v2 stop by (subst strto_loop.simps) (auto simp: dg Let_def)
  qed
qed

lemma skip_space_append: "\<forall>c \<in> set ws. isspace c \<Longrightarrow> \<not> isspace (cget s 0) \<Longrightarrow> skip_space (pre @ ws @ s) (length pre) = length pre + length ws"
proof (induction ws arbitrary: pre)
  case Nil
  then show ?case by (subst skip_space.simps) (simp add: cget_append)
next
  case (Cons w ws)
  have "skip_space (pre @ (w # ws) @ s) (length pre) = skip_space ((pre @ [w]) @ ws @ s) (length (pre @ [w]))"
    using Cons.prems(1) by (subst skip_space.simps) (simp add: cget_append cget_def)
  also have "\<dots> = length (pre @ [w]) + length ws" using Cons.prems by (intro Cons.IH) simp_all
  finally show ?case by simp
qed

lemma digit_plain: "is_digit base c \<Longrightarrow> \<not> isspace c \<and> c \<noteq> 0x2d \<and> c \<noteq> 0x2b"
  by (auto simp: is_digit_def digit_val_def isspace_def word_le_def split: if_splits)

lemma digit_char: "m < 10 \<Longrightarrow> digit_val (of_nat (0x30 + m)) = Some (int m)"
proof -
  assume m: "m < 10"
  have "unat (of_nat (0x30 + m) :: byte) = 0x30 + m" using m by (simp only: unat_of_nat) simp
  then have "uint (of_nat (0x30 + m) :: byte) = 0x30 + int m" by (metis uint_nat of_nat_add of_nat_numeral)
  then show ?thesis using m by (simp add: digit_val_def word_le_def)
qed

lemma dec_digits: "\<forall>d \<in> set (dec n). is_digit 10 d"
proof (induction n rule: dec.induct)
  case (1 n)
  have "is_digit 10 (of_nat (0x30 + n mod 10))" using digit_char [of "n mod 10"] by (simp add: is_digit_def)
  then show ?case using 1 by (subst dec.simps) (cases "n < 10", simp_all)
qed

lemma num_append: "num base a (xs @ ys) = num base (num base a xs) ys"
  by (simp add: num_def)

lemma num_dec: "num 10 0 (dec n) = int n"
proof (induction n rule: dec.induct)
  case (1 n)
  have d: "the (digit_val (of_nat (0x30 + n mod 10))) = int (n mod 10)"
    using digit_char [of "n mod 10"] by simp
  have n: "int n = int (n div 10) * 10 + int (n mod 10)"
    by (metis div_mult_mod_eq of_nat_add of_nat_mult of_nat_numeral)
  show ?case
  proof (cases "n < 10")
    case True
    then show ?thesis using d by (subst dec.simps) (simp add: num_def)
  next
    case False
    then have "num 10 0 (dec n) = num 10 0 (dec (n div 10)) * 10 + the (digit_val (of_nat (0x30 + n mod 10)))"
      by (subst dec.simps) (simp add: num_append, simp add: num_def)
    then show ?thesis using 1 [OF False] n by (simp only: d)
  qed
qed

text \<open>White space and sign lead to the digits.\<close>

lemma strtoi64_digits:
  assumes "\<forall>c \<in> set ws. isspace c" "sg = [] \<or> sg = [0x2b] \<or> sg = [0x2d]" "2 \<le> base" "base \<le> 36" "base \<noteq> 16" "ds \<noteq> []"
    "\<forall>d \<in> set ds. is_digit base d"
    "strto_loop (ws @ sg @ ds @ rest) base (sg = [0x2d]) 0 0 0 (length (ws @ sg)) = (acc, any, i)" "any \<noteq> 0"
  shows "apr_strtoi64 (ws @ sg @ ds @ rest) base =
    (if any < 0 then (if sg = [0x2d] then INT64_MIN else INT64_MAX, ERANGE, i) else (acc, E_OK, i))"
proof -
  let ?s = "ws @ sg @ ds @ rest"
  note nd = digit_plain [of base]
  obtain d ds' where ds: "ds = d # ds'" using assms(6) by (cases ds) auto
  have c0: "cget (sg @ ds @ rest) 0 = (if sg = [] then d else hd sg)"
    using assms(2) ds by (auto simp: cget_def)
  have "\<not> isspace (cget (sg @ ds @ rest) 0)"
    using assms(2,7) nd [of d] ds by (auto simp: c0 isspace_def)
  then have i0: "skip_space ?s 0 = length ws"
    using skip_space_append [OF assms(1), of "sg @ ds @ rest" "[]"] by simp
  have neg: "(cget ?s (length ws) = 0x2d) = (sg = [0x2d])"
    and plus: "cget ?s (length ws) = 0x2d \<or> cget ?s (length ws) = 0x2b \<longleftrightarrow> sg \<noteq> []"
    using assms(2,7) nd [of d] ds by (auto simp: cget_append c0)
  have i1: "(if sg \<noteq> [] then length ws + 1 else length ws) = length (ws @ sg)"
    using assms(2) by auto
  show ?thesis
    using assms(3-5,8,9) unfolding apr_strtoi64_def Let_def i0 neg plus [unfolded neg] i1 by simp
qed

lemma strtoi64_val:
  assumes "\<forall>c \<in> set ws. isspace c" and "sg = [] \<or> sg = [0x2b] \<or> sg = [0x2d]"
    and "2 \<le> base" and "base \<le> 36" and "base \<noteq> 16" and "ds \<noteq> []" and "\<forall>d \<in> set ds. is_digit base d"
    and "\<not> is_digit base (cget rest 0)"
    and "if sg = [0x2d] then num base 0 ds \<le> 2 ^ 63 else num base 0 ds < 2 ^ 63"
  shows "apr_strtoi64 (ws @ sg @ ds @ rest) base =
    ((if sg = [0x2d] then - num base 0 ds else num base 0 ds), E_OK, length ws + length sg + length ds)"
proof -
  have "strto_loop ((ws @ sg) @ ds @ rest) base (sg = [0x2d]) 0 0 0 (length (ws @ sg)) =
      (if sg = [0x2d] then - num base 0 ds else num base 0 ds, 1, length (ws @ sg) + length ds)"
    using strto_loop_num [OF _ assms(8), of 0 ds "sg = [0x2d]" 0 0 "ws @ sg"] assms(3,6,7,9) by simp
  then show ?thesis using strtoi64_digits [OF assms(1-7), of rest] by simp
qed

text \<open>Decimal numbers below \<open>2 ^ 64 + 2 ^ 63\<close> that do not fit.\<close>

lemma strtoi64_over:
  assumes "\<forall>c \<in> set ws. isspace c" "sg = [] \<or> sg = [0x2b] \<or> sg = [0x2d]" "\<not> is_digit 10 (cget rest 0)"
    "if sg = [0x2d] then 2 ^ 63 < n \<and> n \<le> 2 ^ 64 + 2 ^ 63 else 2 ^ 63 \<le> n \<and> n < 2 ^ 64 + 2 ^ 63"
  shows "apr_strtoi64 (ws @ sg @ dec n @ rest) 10 =
    (if n < 20496382304121724020 then (if sg = [0x2d] then INT64_MIN else INT64_MAX, ERANGE, length (ws @ sg @ dec n))
     else (if sg = [0x2d] then - (int n - 2 ^ 64) else int n - 2 ^ 64, E_OK, length (ws @ sg @ dec n)))"
proof -
  let ?neg = "sg = [0x2d]" let ?v = "n div 10" let ?d = "of_nat (0x30 + n mod 10) :: byte"
  define sn where "sn = (\<lambda>x :: int. if ?neg then - x else x)"
  have n: "2 ^ 63 \<le> n" "n \<le> 2 ^ 64 + 2 ^ 63" using assms(4) by (auto split: if_splits)
  have e: "dec n = dec ?v @ [?d]" using n(1) by (subst dec.simps) simp
  have v: "n = 10 * ?v + n mod 10" "n mod 10 < 10" "?v < 2 ^ 63" "10 \<le> ?v" using n by simp_all
  have nv: "int n = 10 * int ?v + int (n mod 10)" using v(1) by (metis of_nat_add of_nat_mult of_nat_numeral)
  have nz: "dec ?v \<noteq> []" by (subst dec.simps) simp
  have d: "digit_val ?d = Some (int (n mod 10))" using digit_char [OF v(2)] .
  have run: "strto_loop ((ws @ sg) @ dec ?v @ [?d] @ rest) 10 ?neg 0 0 0 (length (ws @ sg)) =
      strto_loop (((ws @ sg) @ dec ?v) @ ?d # rest) 10 ?neg (sn (int ?v)) 1 (sn (int ?v)) (length ((ws @ sg) @ dec ?v))"
  proof -
    have f: "if ?neg then num 10 0 (dec ?v) \<le> 2 ^ 63 else num 10 0 (dec ?v) < 2 ^ 63" using v(3) by (simp add: num_dec)
    show ?thesis using strto_loop_run [of 10 0 "dec ?v" ?neg 0 0 _ "ws @ sg" "[?d] @ rest", OF _ _ dec_digits f] nz
      by (simp add: num_dec sn_def)
  qed
  have "strto_loop (((ws @ sg) @ dec ?v) @ ?d # rest) 10 ?neg (sn (int ?v)) 1 (sn (int ?v)) (length ((ws @ sg) @ dec ?v)) =
    (if 9 * int ?v < 2 ^ 64 then (sn (int ?v), - 1, length (((ws @ sg) @ dec ?v) @ [?d]))
     else (sn (10 * int ?v + int (n mod 10) - 2 ^ 64), 1, length (((ws @ sg) @ dec ?v) @ [?d])))"
    using v assms(4) nv by (intro strto_loop_last [OF assms(3) d]) (auto simp: sn_def)
  also have "9 * int ?v < 2 ^ 64 \<longleftrightarrow> n < 20496382304121724020"
  proof -
    have "9 * int ?v < 2 ^ 64 \<longleftrightarrow> ?v < 2049638230412172402" by simp linarith
    also have "\<dots> \<longleftrightarrow> n < 2049638230412172402 * 10" by (rule div_less_iff_less_mult) simp
    finally show ?thesis by simp
  qed
  finally have l: "strto_loop (ws @ sg @ dec n @ rest) 10 ?neg 0 0 0 (length (ws @ sg)) =
    (if n < 20496382304121724020 then (sn (int ?v), - 1, length (ws @ sg @ dec n)) else (sn (int n - 2 ^ 64), 1, length (ws @ sg @ dec n)))"
    using run by (simp add: e nv [symmetric])
  have nn: "dec n \<noteq> []" using e by simp
  show ?thesis
    using strtoi64_digits [OF assms(1,2) _ _ _ nn dec_digits, of rest] l by (auto simp: sn_def)
qed

section \<open>File sizes\<close>

definition unit_count :: "int \<Rightarrow> nat \<Rightarrow> int \<times> int option \<Rightarrow> bool" where
  "unit_count sz k nr \<longleftrightarrow> (case nr of
       (n, None) \<Rightarrow> n = (sz + 512 * 1024 ^ k) div 1024 ^ (k + 1) \<and> 9 \<le> n \<and> n \<le> 973
     | (n, Some r) \<Rightarrow> 10 * n + r = (10 * (sz div 1024 ^ k) + 512) div 1024 \<and> 0 \<le> r \<and> r \<le> 9 \<and> 0 \<le> n \<and> n \<le> 9)"

lemma unit_count_shift:
  assumes "unit_count (sz div 1024) k (n, f)" shows "unit_count sz (Suc k) (n, f)"
proof -
  have "(sz + 512 * 1024 ^ Suc k) div 1024 ^ (Suc k + 1) = ((sz + 1024 * (512 * 1024 ^ k)) div 1024) div 1024 ^ (k + 1)"
  proof -
    have "(1024 :: int) ^ (Suc k + 1) = 1024 * 1024 ^ (k + 1)" "512 * (1024 :: int) ^ Suc k = 1024 * (512 * 1024 ^ k)" by simp_all
    then show ?thesis by (simp only: zdiv_zmult2_eq [of "1024 ^ (k + 1)"]) (simp only: zdiv_zmult2_eq zero_le_power zero_le_numeral)
  qed
  also have "(sz + 1024 * (512 * 1024 ^ k)) div 1024 = sz div 1024 + 512 * 1024 ^ k" by simp
  finally have a: "(sz + 512 * 1024 ^ Suc k) div 1024 ^ (Suc k + 1) = (sz div 1024 + 512 * 1024 ^ k) div 1024 ^ (k + 1)" .
  have b: "sz div 1024 ^ Suc k = sz div 1024 div 1024 ^ k" by (simp add: zdiv_zmult2_eq)
  show ?thesis using assms unfolding unit_count_def prod.case a b .
qed

lemma strfsize_last:
  assumes "0 \<le> sz" and "sz div 1024 < 973" and "973 \<le> sz"
  shows "\<exists>n f. strfsize_loop sz u = (n, f, u) \<and> unit_count sz 0 (n, f)"
proof -
  define q where "q = sz div 1024"
  define m where "m = sz mod 1024"
  have sz: "sz = 1024 * q + m" and m: "0 \<le> m" "m < 1024" and q: "0 \<le> q" "q < 973"
    using assms by (simp_all add: q_def m_def)
  have ten: "(10 * sz + 512) div 1024 = 10 * q + (m * 5 + 256) div 512"
  proof -
    have "(10 * sz + 512) div 1024 = (1024 * (10 * q) + 2 * (m * 5 + 256)) div 1024" by (simp add: sz algebra_simps)
    also have "\<dots> = 10 * q + (2 * (m * 5 + 256)) div (2 * 512)" by simp
    finally show ?thesis by (simp only: div_mult_mult1_if) simp
  qed
  have t: "0 \<le> (m * 5 + 256) div 512" "(m * 5 + 256) div 512 \<le> 10" using m by simp_all
  show ?thesis
  proof (cases "q < 9 \<or> (q = 9 \<and> m < 973)")
    case True
    define r where "r = (m * 5 + 256) div 512"
    have "strfsize_loop sz u = (if r \<ge> 10 then (q + 1, Some 0, u) else (q, Some r, u))"
      using True q by (subst strfsize_loop.simps) (simp add: q_def m_def r_def)
    moreover have "q \<noteq> 9" if "r \<ge> 10" using True that m by (auto simp: r_def)
    ultimately show ?thesis using ten t True q by (auto simp: unit_count_def r_def [symmetric])
  next
    case False
    have "strfsize_loop sz u = (if m \<ge> 512 then q + 1 else q, None, u)"
      using False q by (subst strfsize_loop.simps) (auto simp: q_def m_def Let_def)
    moreover have "(sz + 512) div 1024 = (if m \<ge> 512 then q + 1 else q)"
    proof (cases "m \<ge> 512")
      case True
      have "(sz + 512) div 1024 = (1024 * (q + 1) + (m - 512)) div 1024" by (simp add: sz algebra_simps)
      then show ?thesis using True m by simp
    next
      case False
      have "(sz + 512) div 1024 = (1024 * q + (m + 512)) div 1024" by (simp add: sz algebra_simps)
      then show ?thesis using False m by simp
    qed
    ultimately show ?thesis using False q by (auto simp: unit_count_def)
  qed
qed

lemma strfsize_loop_units:
  "973 \<le> sz \<Longrightarrow> sz < 973 * 1024 ^ (k + 1) \<Longrightarrow>
   \<exists>n f j. strfsize_loop sz u = (n, f, u + j) \<and> j \<le> k \<and> unit_count sz j (n, f)"
proof (induction k arbitrary: sz u)
  case 0
  then have "sz div 1024 < 973" by simp
  then show ?case using strfsize_last [of sz u] 0 by auto
next
  case (Suc k)
  show ?case
  proof (cases "973 \<le> sz div 1024")
    case False
    then show ?thesis using strfsize_last [of sz u] Suc.prems by fastforce
  next
    case True
    have "sz div 1024 < 973 * 1024 ^ (k + 1)" using Suc.prems(2) by (simp add: div_less_iff_less_mult mult_ac)
    then obtain n f j where IH: "strfsize_loop (sz div 1024) (u + 1) = (n, f, u + 1 + j)" "j \<le> k" "unit_count (sz div 1024) j (n, f)"
      using Suc.IH [OF True, of "u + 1"] by auto
    have "strfsize_loop sz u = strfsize_loop (sz div 1024) (u + 1)"
      using True by (subst strfsize_loop.simps) simp
    then show ?thesis using IH unit_count_shift [OF IH(3)] by (intro exI [of _ n] exI [of _ f] exI [of _ "Suc j"]) simp
  qed
qed

lemma dec_small: "n < 10 \<Longrightarrow> length (dec n) = 1"
  by (subst dec.simps) simp

lemma pad3_length: "n < 1000 \<Longrightarrow> length (pad3 (dec n)) = 3"
  using dec_length [of n 3] by (simp add: pad3_def)

section \<open>Properties\<close>

text \<open>\<open>apr_strtoi64\<close> reads white space, an optional sign and digits of a base from 2 to 36 (a base
  of 16 apart, which also allows a prefix): if the number fits into 64 bits, it returns the number with
  \<open>errno\<close> zero and the position of the first character that is no digit.\<close>

theorem strtoi64_value:
  assumes "\<forall>c \<in> set ws. isspace c" and "sg = [] \<or> sg = [0x2b] \<or> sg = [0x2d]"
    and "2 \<le> base" and "base \<le> 36" and "base \<noteq> 16" and "ds \<noteq> []" and "\<forall>d \<in> set ds. is_digit base d"
    and "\<not> is_digit base (cget rest 0)"
    and "if sg = [0x2d] then num base 0 ds \<le> 2 ^ 63 else num base 0 ds < 2 ^ 63"
  shows "apr_strtoi64 (ws @ sg @ ds @ rest) base =
    ((if sg = [0x2d] then - num base 0 ds else num base 0 ds), E_OK, length ws + length sg + length ds)"
  using assms by (rule strtoi64_val)

theorem strtoi64_value_witness:
  "apr_strtoi64 (cstr ''  -129z'') 10 = (-129, E_OK, 6)"
  using strtoi64_value [of "cstr ''  ''" "[0x2d]" 10 "cstr ''129''" "cstr ''z''"]
  by (simp add: isspace_def is_digit_def digit_val_def cget_def num_def)

text \<open>\<open>apr_itoa\<close>, \<open>apr_ltoa\<close> and \<open>apr_off_t_toa\<close> write the decimal representation within their block,
  for every number of their type but the most negative one.\<close>

theorem toa_decimal:
  "(\<bar>n\<bar> < 2 ^ 31 \<longrightarrow> apr_itoa n = Some (dec_int n)) \<and>
   (\<bar>n\<bar> < 2 ^ 63 \<longrightarrow> apr_ltoa n = Some (dec_int n) \<and> apr_off_t_toa n = Some (dec_int n))"
proof -
  have "toa 32 n = Some (dec_int n)" if "\<bar>n\<bar> < 2 ^ 31"
    using that by (intro toa_dec [of n 10]) (auto simp: swrap_id nat_less_iff)
  moreover have "toa 64 n = Some (dec_int n)" if "\<bar>n\<bar> < 2 ^ 63"
    using that by (intro toa_dec [of n 19]) (auto simp: swrap_id nat_less_iff)
  ultimately show ?thesis by (simp add: apr_itoa_def apr_ltoa_def apr_off_t_toa_def)
qed

theorem toa_decimal_witness: "apr_itoa (-407) = Some (cstr ''-407'')"
  using toa_decimal [of "-407"] by (simp add: dec_int_def dec.simps)

text \<open>C33: reading back what \<open>apr_off_t_toa\<close> wrote gives the number again.\<close>

theorem toa_atoi_roundtrip:
  assumes "\<bar>n\<bar> < 2 ^ 63"
  shows "\<exists>s. apr_off_t_toa n = Some s \<and> apr_atoi64 s = n \<and> apr_strtoi64 s 10 = (n, E_OK, length s)"
proof -
  have "toa 64 n = Some (dec_int n)"
    using assms by (intro toa_dec [of n 19]) (auto simp: swrap_id nat_less_iff)
  moreover have "apr_strtoi64 (dec_int n) 10 = (n, E_OK, length (dec_int n))"
  proof -
    define sg :: cstring where "sg = (if n < 0 then [0x2d] else [])"
    have "dec_int n = [] @ sg @ dec (nat \<bar>n\<bar>) @ []" by (simp add: dec_int_def sg_def)
    moreover have "dec (nat \<bar>n\<bar>) \<noteq> []" by (subst dec.simps) simp
    ultimately show ?thesis
      using assms strtoi64_val [of "[]" sg 10 "dec (nat \<bar>n\<bar>)" "[]"] dec_digits [of "nat \<bar>n\<bar>"] num_dec [of "nat \<bar>n\<bar>"]
      by (auto simp: sg_def is_digit_def digit_val_def cget_def)
  qed
  ultimately show ?thesis by (simp add: apr_off_t_toa_def apr_atoi64_def)
qed

theorem toa_atoi_roundtrip_witness:
  "\<exists>s. apr_off_t_toa (-9000000000000000000) = Some s \<and> apr_atoi64 s = -9000000000000000000"
  using toa_atoi_roundtrip [of "-9000000000000000000"] by auto

text \<open>C34: a decimal number below \<open>2 ^ 64 + 2 ^ 63\<close>, with white space and a sign before it, is read correctly if it fits into 64 bits and is
  refused with the limit and \<open>ERANGE\<close> if it is larger, but less than 20496382304121724020. From there on the test for overflow fails: the wrapped
  product of ten and the digits before the last one is not smaller than they are, and the number less \<open>2 ^ 64\<close> is returned with \<open>errno\<close> zero.\<close>

theorem strtoi64_missed_overflow:
  assumes "\<forall>c \<in> set ws. isspace c" "sg = [] \<or> sg = [0x2b] \<or> sg = [0x2d]" "\<not> is_digit 10 (cget rest 0)"
    "if sg = [0x2d] then n \<le> 2 ^ 64 + 2 ^ 63 else n < 2 ^ 64 + 2 ^ 63"
  shows "apr_strtoi64 (ws @ sg @ dec n @ rest) 10 =
    (if n < 2 ^ 63 \<or> sg = [0x2d] \<and> n = 2 ^ 63 then (if sg = [0x2d] then - int n else int n, E_OK, length (ws @ sg @ dec n))
     else if n < 20496382304121724020 then (if sg = [0x2d] then INT64_MIN else INT64_MAX, ERANGE, length (ws @ sg @ dec n))
     else (if sg = [0x2d] then - (int n - 2 ^ 64) else int n - 2 ^ 64, E_OK, length (ws @ sg @ dec n)))"
proof (cases "n < 2 ^ 63 \<or> sg = [0x2d] \<and> n = 2 ^ 63")
  case True
  have "dec n \<noteq> []" by (subst dec.simps) simp
  moreover have "if sg = [0x2d] then num 10 0 (dec n) \<le> 2 ^ 63 else num 10 0 (dec n) < 2 ^ 63" using True by (auto simp: num_dec)
  ultimately show ?thesis
    using True strtoi64_val [OF assms(1,2) _ _ _ _ dec_digits assms(3), of n] by (simp add: num_dec)
next
  case False
  then show ?thesis using strtoi64_over [OF assms(1-3), of n] assms(4) by (auto split: if_splits)
qed

theorem strtoi64_missed_overflow_witness:
  "apr_strtoi64 (dec 21000000000000000000) 10 = (2553255926290448384, E_OK, length (dec 21000000000000000000))"
  using strtoi64_missed_overflow [of "[]" "[]" "[]" 21000000000000000000] by (simp add: is_digit_def digit_val_def cget_def)

text \<open>\<open>apr_itoa\<close> of the most negative number does not give its decimal representation: negating it
  overflows, and the characters stored are below the digit zero.\<close>

theorem itoa_int_min:
  "apr_itoa (- (2 ^ 31)) = Some (cstr ''-./,),(-*,('') \<and> dec_int (- (2 ^ 31)) = cstr ''-2147483648''"
proof
  show "apr_itoa (- (2 ^ 31)) = Some (cstr ''-./,),(-*,('')" by code_simp
  show "dec_int (- (2 ^ 31)) = cstr ''-2147483648''" by (simp add: dec_int_def dec.simps)
qed

text \<open>\<open>apr_strfsize\<close> always makes exactly four characters, and for a size of 973 bytes or more it
  ends, prints one of the six units (the pointer into the table of units never leaves it) and the
  number shown is the size in that unit, rounded half up to whole units, or to tenths below ten units.\<close>

theorem strfsize_rounds:
  assumes "0 \<le> sz" and "sz < 2 ^ 63"
  shows "length (apr_strfsize sz) = 4 \<and>
    (973 \<le> sz \<longrightarrow> (\<exists>n f k. strfsize_loop sz 0 = (n, f, k) \<and> k < length ord_units \<and>
       last (apr_strfsize sz) = ord_units ! k \<and> unit_count sz k (n, f)))"
proof (cases "sz < 973")
  case True
  then show ?thesis using pad3_length [of "nat sz"] assms by (simp add: apr_strfsize_def)
next
  case False
  obtain n f k where l: "strfsize_loop sz 0 = (n, f, k)" "k \<le> 5" "unit_count sz k (n, f)"
    using strfsize_loop_units [of sz 5 0] False assms by auto
  have k: "k < length ord_units" "cget ord_units k = ord_units ! k" using l(2) by (simp_all add: ord_units_def cget_def)
  show ?thesis
  proof (cases f)
    case None
    then have "n \<le> 973" using l(3) by (simp add: unit_count_def)
    then have "length (pad3 (dec (nat n))) = 3" by (intro pad3_length) simp
    then show ?thesis using l k None False assms by (simp add: apr_strfsize_def)
  next
    case (Some r)
    then have "length (dec (nat n)) = 1" "length (dec (nat r)) = 1"
      using l(3) by (intro dec_small; simp add: unit_count_def nat_less_iff)+
    then show ?thesis using l k Some False assms by (simp add: apr_strfsize_def)
  qed
qed

theorem strfsize_rounds_witness: "last (apr_strfsize 1536) = 0x4b \<and> length (apr_strfsize 1536) = 4"
proof -
  have "strfsize_loop 1536 0 = (1, Some 5, 0)" by (subst strfsize_loop.simps) simp
  then show ?thesis using strfsize_rounds [of 1536] by (auto simp: ord_units_def)
qed

end
