(* ===== verification/AprFnmatch.thy ===== *)
theory AprFnmatch
  imports AprStrings
begin

text \<open>
  Matching of file names: \<open>apr-1.3.8/strings/apr_fnmatch.c\<close>.

  A pointer into the pattern is the rest of the pattern from there on. A pointer \<open>string\<close> into the string is the rest of the
  string and \<open>passed\<close>, the character \<open>*(string - 1)\<close>; it is \<open>None\<close> when \<open>string == stringstart\<close>. Reading the NUL is
  the case of the empty rest; pattern and string have no NUL inside. A \<open>char\<close> is signed, so that the ranges of a class are
  compared with \<open>sint\<close>, and as numbers from 0 to 255 once \<open>apr_tolower\<close> has been applied. \<open>flags\<close> is an \<open>int\<close>.

  The reference is the description of patterns in \<open>include/apr_fnmatch.h\<close>: a pattern is a list of parts, which can be written down and
  stands for a set of strings. Between the code and the reference stand the tokens of a pattern and their language (\<open>glob_tokens\<close>,
  \<open>glob_lang\<close>), which follow the code.
\<close>

section \<open>Flags\<close>

abbreviation (input) APR_FNM_NOMATCH :: int where "APR_FNM_NOMATCH \<equiv> 1"

abbreviation (input) APR_FNM_NOESCAPE :: int where "APR_FNM_NOESCAPE \<equiv> 0x01"
abbreviation (input) APR_FNM_PATHNAME :: int where "APR_FNM_PATHNAME \<equiv> 0x02"
abbreviation (input) APR_FNM_PERIOD :: int where "APR_FNM_PERIOD \<equiv> 0x04"
abbreviation (input) APR_FNM_CASE_BLIND :: int where "APR_FNM_CASE_BLIND \<equiv> 0x08"

definition escapes :: "int \<Rightarrow> bool" where
  "escapes flags \<longleftrightarrow> flags AND APR_FNM_NOESCAPE = 0"

definition pathname :: "int \<Rightarrow> bool" where
  "pathname flags \<longleftrightarrow> flags AND APR_FNM_PATHNAME \<noteq> 0"

definition period :: "int \<Rightarrow> bool" where
  "period flags \<longleftrightarrow> flags AND APR_FNM_PERIOD \<noteq> 0"

definition case_blind :: "int \<Rightarrow> bool" where
  "case_blind flags \<longleftrightarrow> flags AND APR_FNM_CASE_BLIND \<noteq> 0"

section \<open>Classes\<close>

text \<open>One character of a class, with its backslash: \<open>None\<close> at the end of the pattern.\<close>

definition range_char :: "int \<Rightarrow> cstring \<Rightarrow> (byte \<times> cstring) option" where
  "range_char flags pattern =
     (case pattern of [] \<Rightarrow> None
      | c # p \<Rightarrow>
          if c = 0x5c \<and> escapes flags then (case p of [] \<Rightarrow> None | c' # p' \<Rightarrow> Some (c', p'))
          else Some (c, p))"

text \<open>What follows it: \<open>-\<close> and the upper end of a range, or nothing.\<close>

definition range_end :: "int \<Rightarrow> cstring \<Rightarrow> (byte option \<times> cstring) option" where
  "range_end flags pattern =
     (case pattern of
        d # c2 # p \<Rightarrow>
          if d = 0x2d \<and> c2 \<noteq> 0x5d then map_option (\<lambda>(h, p'). (Some h, p')) (range_char flags (c2 # p))
          else Some (None, pattern)
      | _ \<Rightarrow> Some (None, pattern))"

fun item_matches :: "int \<Rightarrow> byte \<times> byte option \<Rightarrow> byte \<Rightarrow> bool" where
  "item_matches flags (c, Some c2) test \<longleftrightarrow>
     sint c \<le> sint test \<and> sint test \<le> sint c2 \<or>
     case_blind flags \<and> tolower c \<le> tolower test \<and> tolower test \<le> tolower c2"
| "item_matches flags (c, None) test \<longleftrightarrow> c = test \<or> case_blind flags \<and> tolower c = tolower test"

lemma range_char_shorter: "range_char flags p = Some (c, q) \<Longrightarrow> length q < length p"
  by (auto simp: range_char_def split: list.splits if_splits)

lemma range_end_shorter: "range_end flags p = Some (h, q) \<Longrightarrow> length q \<le> length p"
  by (auto simp: range_end_def split: list.splits if_splits dest: range_char_shorter)

function range_loop :: "cstring \<Rightarrow> byte \<Rightarrow> int \<Rightarrow> bool \<Rightarrow> bool \<Rightarrow> cstring option" where
  "range_loop pattern test flags negate ok =
     (if pattern \<noteq> [] \<and> hd pattern = 0x5d then (if ok = negate then None else Some (tl pattern))
      else case range_char flags pattern of None \<Rightarrow> None
        | Some (c, p) \<Rightarrow>
            (case range_end flags p of None \<Rightarrow> None
             | Some (c2, p') \<Rightarrow> range_loop p' test flags negate (if item_matches flags (c, c2) test then True else ok)))"
  by pat_completeness auto
termination
  by (relation "measure (\<lambda>(pattern, test, flags, negate, ok). length pattern)")
    (auto dest!: range_char_shorter range_end_shorter)

declare range_loop.simps [simp del]

definition rangematch :: "cstring \<Rightarrow> byte \<Rightarrow> int \<Rightarrow> cstring option" where
  "rangematch pattern test flags =
     (let negate = (pattern \<noteq> [] \<and> (hd pattern = 0x21 \<or> hd pattern = 0x5e))
      in range_loop (if negate then tl pattern else pattern) test flags negate False)"

lemma range_loop_shorter: "range_loop p test flags negate ok = Some q \<Longrightarrow> length q < length p"
proof (induction p test flags negate ok rule: range_loop.induct)
  case (1 p test flags negate ok)
  show ?case
  proof (cases "p \<noteq> [] \<and> hd p = 0x5d")
    case True
    then show ?thesis using "1.prems" by (auto simp: range_loop.simps [of p] split: if_splits)
  next
    case False
    then obtain c p1 c2 p2 where e: "range_char flags p = Some (c, p1)" "range_end flags p1 = Some (c2, p2)"
      "range_loop p2 test flags negate (if item_matches flags (c, c2) test then True else ok) = Some q"
      using "1.prems" by (auto simp: range_loop.simps [of p] split: option.splits)
    show ?thesis
      using "1.IH" [OF False e(1) refl e(2) refl e(3)] range_char_shorter [OF e(1)] range_end_shorter [OF e(2)] by simp
  qed
qed

lemma rangematch_shorter: "rangematch p test flags = Some q \<Longrightarrow> length q < length p"
  by (auto simp: rangematch_def Let_def split: if_splits dest!: range_loop_shorter)

section \<open>Patterns\<close>

definition leading_period :: "byte option \<Rightarrow> cstring \<Rightarrow> int \<Rightarrow> bool" where
  "leading_period passed string flags \<longleftrightarrow>
     string \<noteq> [] \<and> hd string = 0x2e \<and> period flags \<and> (passed = None \<or> pathname flags \<and> passed = Some 0x2f)"

text \<open>\<open>string = strchr(string, '/')\<close>\<close>

fun to_slash :: "byte option \<Rightarrow> cstring \<Rightarrow> (byte option \<times> cstring) option" where
  "to_slash passed [] = None"
| "to_slash passed (ch # string) = (if ch = 0x2f then Some (passed, ch # string) else to_slash (Some ch) string)"

text \<open>An ordinary character of the pattern, with its backslash; at the end of the pattern the backslash is ordinary.\<close>

definition quoted :: "int \<Rightarrow> byte \<Rightarrow> cstring \<Rightarrow> byte \<times> cstring" where
  "quoted flags c pattern =
     (if c = 0x5c \<and> escapes flags then (case pattern of [] \<Rightarrow> (0x5c, []) | c' # p \<Rightarrow> (c', p)) else (c, pattern))"

lemma quoted_shorter: "quoted flags c p = (c', q) \<Longrightarrow> length q \<le> length p"
  by (auto simp: quoted_def split: if_splits list.splits)

definition differ :: "int \<Rightarrow> byte \<Rightarrow> byte \<Rightarrow> bool" where
  "differ flags c ch = (if case_blind flags then tolower c \<noteq> tolower ch else c \<noteq> ch)"

lemma dropWhile_shorter: "length (dropWhile P p) \<le> length p"
  by (induction p) auto

function fnmatch_from :: "cstring \<Rightarrow> byte option \<Rightarrow> cstring \<Rightarrow> int \<Rightarrow> int"
  and star_loop :: "cstring \<Rightarrow> cstring \<Rightarrow> int \<Rightarrow> int"
where
  "fnmatch_from [] passed string flags = (if string = [] then 0 else APR_FNM_NOMATCH)"
| "fnmatch_from (c # pattern) passed string flags =
     (if c = 0x3f then
        (case string of [] \<Rightarrow> APR_FNM_NOMATCH
         | ch # rest \<Rightarrow>
             if ch = 0x2f \<and> pathname flags then APR_FNM_NOMATCH
             else if leading_period passed string flags then APR_FNM_NOMATCH
             else fnmatch_from pattern (Some ch) rest flags)
      else if c = 0x2a then
        (let p = dropWhile (\<lambda>c. c = 0x2a) pattern
         in if leading_period passed string flags then APR_FNM_NOMATCH
            else if p = [] then
              (if pathname flags then (if to_slash passed string = None then 0 else APR_FNM_NOMATCH) else 0)
            else if hd p = 0x2f \<and> pathname flags then
              (case to_slash passed string of None \<Rightarrow> APR_FNM_NOMATCH
               | Some (passed', string') \<Rightarrow> fnmatch_from p passed' string' flags)
            else star_loop p string flags)
      else if c = 0x5b then
        (case string of [] \<Rightarrow> APR_FNM_NOMATCH
         | ch # rest \<Rightarrow>
             if ch = 0x2f \<and> pathname flags then APR_FNM_NOMATCH
             else if leading_period passed string flags then APR_FNM_NOMATCH
             else (case rangematch pattern ch flags of None \<Rightarrow> APR_FNM_NOMATCH
                   | Some p \<Rightarrow> fnmatch_from p (Some ch) rest flags))
      else
        (case quoted flags c pattern of (c', p) \<Rightarrow>
           (case string of [] \<Rightarrow> APR_FNM_NOMATCH
            | ch # rest \<Rightarrow>
                if differ flags c' ch then APR_FNM_NOMATCH else fnmatch_from p (Some ch) rest flags)))"
| "star_loop p [] flags = APR_FNM_NOMATCH"
| "star_loop p (test # string) flags =
     (if fnmatch_from p None (test # string) (flags AND NOT APR_FNM_PERIOD) = 0 then 0
      else if test = 0x2f \<and> pathname flags then APR_FNM_NOMATCH
      else star_loop p string flags)"
  by pat_completeness auto
termination
proof (relation "measures [
    \<lambda>x. case x of Inl (p, passed, string, flags) \<Rightarrow> length p | Inr (p, string, flags) \<Rightarrow> length p,
    \<lambda>x. case x of Inl _ \<Rightarrow> 0 | Inr _ \<Rightarrow> 1,
    \<lambda>x. case x of Inl _ \<Rightarrow> 0 | Inr (p, string, flags) \<Rightarrow> length string]", goal_cases)
qed (auto simp: less_Suc_eq_le dropWhile_shorter dest!: rangematch_shorter quoted_shorter [OF sym])

declare fnmatch_from.simps(2) [simp del]

definition apr_fnmatch :: "cstring \<Rightarrow> cstring \<Rightarrow> int \<Rightarrow> int" where
  "apr_fnmatch pattern string flags = fnmatch_from pattern None string flags"

fun test_loop :: "cstring \<Rightarrow> int \<Rightarrow> int" where
  "test_loop [] nesting = 0"
| "test_loop (c # pattern) nesting =
     (if c = 0x3f \<or> c = 0x2a then 1
      else if c = 0x5c then (case pattern of [] \<Rightarrow> 0 | _ # p \<Rightarrow> test_loop p nesting)
      else if c = 0x5b then test_loop pattern (nesting + 1)
      else if c = 0x5d \<and> nesting \<noteq> 0 then 1
      else test_loop pattern nesting)"

definition apr_fnmatch_test :: "cstring \<Rightarrow> int" where
  "apr_fnmatch_test pattern = test_loop pattern 0"

section \<open>Directories\<close>

text \<open>The directory is an argument: what \<open>apr_dir_open\<close> returns, and the names \<open>apr_dir_read\<close> gives until it fails.\<close>

definition glob_path :: "cstring \<Rightarrow> cstring \<times> cstring" where
  "glob_path pattern =
     (let idx = (case strrchr pattern 0x2f of None \<Rightarrow> strrchr pattern 0x5c | Some i \<Rightarrow> Some i)
      in case idx of None \<Rightarrow> (cstr ''.'', pattern)
         | Some i \<Rightarrow> (blk_str (the (the (apr_pstrndup (Some (pattern @ [0])) i))), drop (i + 1) pattern))"

definition push_name :: "cstring option apr_array_header \<Rightarrow> cstring \<Rightarrow> cstring option apr_array_header" where
  "push_name result name =
     (case apr_array_push None result of (a, i) \<Rightarrow> a\<lparr>elts := (elts a)[i := Some (apr_pstrdup (Some name))]\<rparr>)"

definition apr_match_glob :: "(cstring \<Rightarrow> int + cstring list) \<Rightarrow> cstring \<Rightarrow> int \<times> cstring option apr_array_header" where
  "apr_match_glob dir pattern =
     (let (path, pattern') = glob_path pattern; result = apr_array_make None 0
      in case dir path of Inl rv \<Rightarrow> (rv, result)
         | Inr names \<Rightarrow>
             (0, foldl (\<lambda>r name. if apr_fnmatch pattern' name 0 = 0 then push_name r name else r) result names))"

section \<open>The strings a pattern stands for\<close>

datatype glob = Any_char | Any_string | One_of bool "(byte \<times> byte option) list" | Only byte | Nothing_at_all

text \<open>The items of a class up to its \<open>]\<close>, and the rest of the pattern.\<close>

function class_items :: "int \<Rightarrow> cstring \<Rightarrow> ((byte \<times> byte option) list \<times> cstring) option" where
  "class_items flags p =
     (if p \<noteq> [] \<and> hd p = 0x5d then Some ([], tl p)
      else case range_char flags p of None \<Rightarrow> None
        | Some (c, p1) \<Rightarrow>
            (case range_end flags p1 of None \<Rightarrow> None
             | Some (c2, p2) \<Rightarrow> map_option (\<lambda>(items, q). ((c, c2) # items, q)) (class_items flags p2)))"
  by pat_completeness auto
termination
  by (relation "measure (\<lambda>(flags, p). length p)") (auto dest!: range_char_shorter range_end_shorter)

declare class_items.simps [simp del]

definition bracket :: "int \<Rightarrow> cstring \<Rightarrow> (bool \<times> (byte \<times> byte option) list \<times> cstring) option" where
  "bracket flags p =
     (let negate = (p \<noteq> [] \<and> (hd p = 0x21 \<or> hd p = 0x5e))
      in map_option (Pair negate) (class_items flags (if negate then tl p else p)))"

lemma range_loop_items:
  "range_loop p test flags negate ok =
     (case class_items flags p of None \<Rightarrow> None
      | Some (items, q) \<Rightarrow> if (ok \<or> (\<exists>i \<in> set items. item_matches flags i test)) = negate then None else Some q)"
proof (induction p test flags negate ok rule: range_loop.induct)
  case (1 p test flags negate ok)
  show ?case
  proof (cases "p \<noteq> [] \<and> hd p = 0x5d")
    case True
    then show ?thesis by (simp add: range_loop.simps [of p] class_items.simps [of flags p])
  next
    case False
    show ?thesis
      using "1.IH" [OF False]
      by (auto simp: range_loop.simps [of p] class_items.simps [of flags p] False split: option.splits)
  qed
qed

lemma rangematch_bracket:
  "rangematch p test flags =
     (case bracket flags p of None \<Rightarrow> None
      | Some (negate, items, q) \<Rightarrow> if (\<exists>i \<in> set items. item_matches flags i test) = negate then None else Some q)"
  by (auto simp: rangematch_def bracket_def range_loop_items Let_def split: option.split)

lemma class_items_shorter: "class_items flags p = Some (items, q) \<Longrightarrow> length q < length p"
proof (induction flags p arbitrary: items rule: class_items.induct)
  case (1 flags p)
  show ?case
  proof (cases "p \<noteq> [] \<and> hd p = 0x5d")
    case True
    then show ?thesis using "1.prems" by (auto simp: class_items.simps [of flags p])
  next
    case False
    then obtain c p1 c2 p2 items' where e: "range_char flags p = Some (c, p1)" "range_end flags p1 = Some (c2, p2)"
      "class_items flags p2 = Some (items', q)"
      using "1.prems" by (auto simp: class_items.simps [of flags p] split: option.splits)
    show ?thesis
      using "1.IH" [OF False e(1) refl e(2) refl e(3)] range_char_shorter [OF e(1)] range_end_shorter [OF e(2)] by simp
  qed
qed

lemma bracket_shorter: "bracket flags p = Some (negate, items, q) \<Longrightarrow> length q < length p"
  by (auto simp: bracket_def Let_def split: if_splits dest!: class_items_shorter)

function glob_tokens :: "int \<Rightarrow> cstring \<Rightarrow> glob list" where
  "glob_tokens flags [] = []"
| "glob_tokens flags (c # p) =
     (if c = 0x3f then Any_char # glob_tokens flags p
      else if c = 0x2a then Any_string # glob_tokens flags p
      else if c = 0x5b then
        (case bracket flags p of None \<Rightarrow> [Nothing_at_all]
         | Some (negate, items, q) \<Rightarrow> One_of negate items # glob_tokens flags q)
      else (case quoted flags c p of (c', q) \<Rightarrow> Only c' # glob_tokens flags q))"
  by pat_completeness auto
termination
  by (relation "measure (\<lambda>(flags, p). length p)")
    (auto simp: less_Suc_eq_le dest!: bracket_shorter quoted_shorter [OF sym])

fun token_lang :: "int \<Rightarrow> glob \<Rightarrow> cstring set" where
  "token_lang flags Any_char = {[x] | x. \<not> (pathname flags \<and> x = 0x2f)}"
| "token_lang flags Any_string = {w. pathname flags \<longrightarrow> 0x2f \<notin> set w}"
| "token_lang flags (One_of negate items) =
     {[x] | x. \<not> (pathname flags \<and> x = 0x2f) \<and> (\<exists>i \<in> set items. item_matches flags i x) \<noteq> negate}"
| "token_lang flags (Only c) = {[x] | x. \<not> differ flags c x}"
| "token_lang flags Nothing_at_all = {}"

fun glob_lang :: "int \<Rightarrow> glob list \<Rightarrow> cstring set" where
  "glob_lang flags [] = {[]}"
| "glob_lang flags (t # ts) = {u @ v | u v. u \<in> token_lang flags t \<and> v \<in> glob_lang flags ts}"

lemma lang_append: "u \<in> token_lang flags t \<Longrightarrow> v \<in> glob_lang flags ts \<Longrightarrow> u @ v \<in> glob_lang flags (t # ts)"
  by auto

lemma token_single: "t \<noteq> Any_string \<Longrightarrow> u \<in> token_lang flags t \<Longrightarrow> \<exists>x. u = [x]"
  by (cases t) auto

lemma lang_char: "t \<noteq> Any_string \<Longrightarrow>
  s \<in> glob_lang flags (t # ts) \<longleftrightarrow> (case s of [] \<Rightarrow> False | x # r \<Rightarrow> [x] \<in> token_lang flags t \<and> r \<in> glob_lang flags ts)"
proof
  assume t: "t \<noteq> Any_string"
  assume "s \<in> glob_lang flags (t # ts)"
  then obtain u v where "s = u @ v" "u \<in> token_lang flags t" "v \<in> glob_lang flags ts" by auto
  moreover from this obtain x where "u = [x]" using token_single [OF t] by blast
  ultimately show "case s of [] \<Rightarrow> False | x # r \<Rightarrow> [x] \<in> token_lang flags t \<and> r \<in> glob_lang flags ts" by simp
next
  assume "case s of [] \<Rightarrow> False | x # r \<Rightarrow> [x] \<in> token_lang flags t \<and> r \<in> glob_lang flags ts"
  then show "s \<in> glob_lang flags (t # ts)"
    using lang_append [of "[hd s]" flags t "tl s" ts] by (cases s) simp_all
qed

lemma lang_string:
  "[] \<in> glob_lang flags (Any_string # ts) \<longleftrightarrow> [] \<in> glob_lang flags ts"
  "x # r \<in> glob_lang flags (Any_string # ts) \<longleftrightarrow>
     x # r \<in> glob_lang flags ts \<or> \<not> (x = 0x2f \<and> pathname flags) \<and> r \<in> glob_lang flags (Any_string # ts)"
proof -
  show "[] \<in> glob_lang flags (Any_string # ts) \<longleftrightarrow> [] \<in> glob_lang flags ts" by simp
  show "x # r \<in> glob_lang flags (Any_string # ts) \<longleftrightarrow>
     x # r \<in> glob_lang flags ts \<or> \<not> (x = 0x2f \<and> pathname flags) \<and> r \<in> glob_lang flags (Any_string # ts)"
    (is "?l \<longleftrightarrow> ?r")
  proof
    assume ?l
    then obtain u v where "x # r = u @ v" "pathname flags \<longrightarrow> 0x2f \<notin> set u" "v \<in> glob_lang flags ts" by auto
    then show ?r by (cases u) auto
  next
    assume ?r
    then consider "x # r \<in> glob_lang flags ts"
      | u v where "\<not> (x = 0x2f \<and> pathname flags)" "r = u @ v" "pathname flags \<longrightarrow> 0x2f \<notin> set u" "v \<in> glob_lang flags ts"
      by auto
    then show ?l
    proof cases
      case 1
      then show ?thesis using lang_append [of "[]" flags Any_string "x # r" ts] by simp
    next
      case (2 u v)
      then show ?thesis using lang_append [of "x # u" flags Any_string v ts] by auto
    qed
  qed
qed

declare glob_lang.simps(2) [simp del]

lemma lang_stars: "glob_lang flags (Any_string # Any_string # ts) = glob_lang flags (Any_string # ts)"
proof -
  have "s \<in> glob_lang flags (Any_string # Any_string # ts) \<longleftrightarrow> s \<in> glob_lang flags (Any_string # ts)" for s
    by (induction s) (auto simp: lang_string)
  then show ?thesis by blast
qed

lemma tokens_stars:
  "glob_lang flags (Any_string # glob_tokens flags p) = glob_lang flags (Any_string # glob_tokens flags (dropWhile (\<lambda>c. c = 0x2a) p))"
  by (induction p) (simp_all add: lang_stars)

lemma lang_star_end: "s \<in> glob_lang flags [Any_string] \<longleftrightarrow> (pathname flags \<longrightarrow> 0x2f \<notin> set s)"
  by (simp add: glob_lang.simps(2))

lemma to_slash_None: "to_slash passed s = None \<longleftrightarrow> 0x2f \<notin> set s"
  by (induction passed s rule: to_slash.induct) auto

lemma tolower_slash: "tolower x = 0x2f \<longleftrightarrow> x = 0x2f"
  by (auto simp: tolower_def word_le_nat_alt word_unat_eq_iff unat_plus_if' split: if_splits)

lemma differ_slash: "differ flags 0x2f x \<longleftrightarrow> x \<noteq> 0x2f"
  using tolower_slash [of x] by (auto simp: differ_def tolower_def [of "0x2f"])

lemma lang_to_slash:
  "pathname flags \<Longrightarrow> s \<in> glob_lang flags (Any_string # Only 0x2f # ts) \<longleftrightarrow>
     (case to_slash passed s of None \<Rightarrow> False | Some (_, s') \<Rightarrow> s' \<in> glob_lang flags (Only 0x2f # ts))"
  by (induction passed s rule: to_slash.induct) (simp_all add: lang_string lang_char differ_slash)

lemma lang_nonempty: "p \<noteq> [] \<Longrightarrow> hd p \<noteq> 0x2a \<Longrightarrow> [] \<notin> glob_lang flags (glob_tokens flags p)"
  by (cases p) (auto simp: lang_char split: option.splits prod.splits)

lemma tokens_slash: "hd p = 0x2f \<Longrightarrow> p \<noteq> [] \<Longrightarrow> glob_tokens flags p = Only 0x2f # glob_tokens flags (tl p)"
  by (cases p) (simp_all add: quoted_def)


section \<open>Matching is membership\<close>

lemma no_period:
  "period (flags AND NOT APR_FNM_PERIOD) = False" "pathname (flags AND NOT APR_FNM_PERIOD) = pathname flags"
  "escapes (flags AND NOT APR_FNM_PERIOD) = escapes flags" "case_blind (flags AND NOT APR_FNM_PERIOD) = case_blind flags"
  by (simp_all add: period_def pathname_def escapes_def case_blind_def and.assoc)

text \<open>The language depends on the other three flags only.\<close>

definition same_flags :: "int \<Rightarrow> int \<Rightarrow> bool" where
  "same_flags f g \<longleftrightarrow> pathname f = pathname g \<and> escapes f = escapes g \<and> case_blind f = case_blind g"

lemma same_flags_parts:
  assumes "same_flags f g"
  shows "range_char f = range_char g" "range_end f = range_end g" "quoted f = quoted g" "differ f = differ g"
    "item_matches f = item_matches g"
proof -
  have e: "pathname f = pathname g" "escapes f = escapes g" "case_blind f = case_blind g"
    using assms by (simp_all add: same_flags_def)
  show c: "range_char f = range_char g" unfolding range_char_def e ..
  show "range_end f = range_end g" unfolding range_end_def c ..
  show "quoted f = quoted g" "differ f = differ g" unfolding quoted_def differ_def e by (rule refl)+
  have "item_matches f (c, h) t = item_matches g (c, h) t" for c h t
    using assms by (cases h) (simp_all add: same_flags_def)
  then show "item_matches f = item_matches g" by (simp add: fun_eq_iff)
qed

lemma same_class_items: "same_flags f g \<Longrightarrow> class_items f p = class_items g p"
proof (induction f p rule: class_items.induct)
  case (1 f p)
  show ?case
  proof (cases "p \<noteq> [] \<and> hd p = 0x5d")
    case True
    then show ?thesis by (simp add: class_items.simps [of f p] class_items.simps [of g p])
  next
    case False
    show ?thesis
      using "1.IH" [OF False] same_flags_parts [OF "1.prems"] "1.prems"
      by (auto simp: class_items.simps [of f p] class_items.simps [of g p] False split: option.splits)
  qed
qed

lemma same_tokens: "same_flags f g \<Longrightarrow> glob_tokens f p = glob_tokens g p"
proof (induction f p rule: glob_tokens.induct)
  case (2 f c p)
  have "bracket f p = bracket g p" by (simp add: bracket_def same_class_items [OF "2.prems"] Let_def)
  with 2 show ?case by (auto simp: same_flags_parts [OF "2.prems"] split: option.splits prod.splits)
qed simp

lemma same_lang: "same_flags f g \<Longrightarrow> glob_lang f ts = glob_lang g ts"
proof (induction ts)
  case (Cons t ts)
  then have "token_lang f t = token_lang g t" by (cases t) (simp_all add: same_flags_parts, simp_all add: same_flags_def)
  with Cons show ?case by (simp add: glob_lang.simps(2))
qed simp

lemma same_no_period: "same_flags (flags AND NOT APR_FNM_PERIOD) flags"
  unfolding same_flags_def by (intro conjI no_period)


text \<open>A period is special only at the start, or after a slash when the path is matched.\<close>

definition plain_at :: "byte option \<Rightarrow> int \<Rightarrow> bool" where
  "plain_at passed flags \<longleftrightarrow> \<not> period flags \<or> \<not> pathname flags \<and> passed \<noteq> None"

lemma plain_at_leading: "plain_at passed flags \<Longrightarrow> \<not> leading_period passed s flags"
  by (auto simp: plain_at_def leading_period_def)

lemma plain_at_Some: "plain_at passed flags \<Longrightarrow> plain_at (Some c) flags"
  by (simp add: plain_at_def)

lemma plain_at_slash: "plain_at passed flags \<Longrightarrow> pathname flags \<Longrightarrow> plain_at passed' flags"
  by (simp add: plain_at_def)

lemma fnmatch_lang:
  shows "plain_at passed flags \<Longrightarrow> fnmatch_from p passed s flags = 0 \<longleftrightarrow> s \<in> glob_lang flags (glob_tokens flags p)"
    and "q \<noteq> [] \<Longrightarrow> hd q \<noteq> 0x2a \<Longrightarrow> star_loop q s flags = 0 \<longleftrightarrow> s \<in> glob_lang flags (Any_string # glob_tokens flags q)"
proof (induction p passed s flags and q s flags rule: fnmatch_from_star_loop.induct)
  case (1 passed string flags)
  then show ?case by simp
next
  case (2 c pattern passed string flags)
  note plain = plain_at_leading [OF "2.prems"]
  consider (any) "c = 0x3f" | (star) "c = 0x2a" | (brackets) "c = 0x5b" | (char) "c \<noteq> 0x3f" "c \<noteq> 0x2a" "c \<noteq> 0x5b"
    by blast
  then show ?case
  proof cases
    case any
    then show ?thesis
      using 2 plain by (auto simp: fnmatch_from.simps(2) lang_char plain_at_Some split: list.split)
  next
    case star
    define p where "p = dropWhile (\<lambda>c. c = 0x2a) pattern"
    have h: "p \<noteq> [] \<Longrightarrow> hd p \<noteq> 0x2a" using hd_dropWhile [of "\<lambda>c. c = 0x2a" pattern] by (auto simp: p_def)
    have l: "glob_lang flags (glob_tokens flags (c # pattern)) = glob_lang flags (Any_string # glob_tokens flags p)"
      unfolding p_def tokens_stars [symmetric] by (simp add: star)
    have f: "fnmatch_from (c # pattern) passed string flags =
        (if p = [] then (if pathname flags then (if to_slash passed string = None then 0 else APR_FNM_NOMATCH) else 0)
         else if hd p = 0x2f \<and> pathname flags then
           (case to_slash passed string of None \<Rightarrow> APR_FNM_NOMATCH
            | Some (passed', string') \<Rightarrow> fnmatch_from p passed' string' flags)
         else star_loop p string flags)"
      unfolding fnmatch_from.simps(2) using star plain by (simp add: p_def [symmetric])
    consider (last) "p = []" | (slash) "p \<noteq> []" "hd p = 0x2f" "pathname flags" | (general) "p \<noteq> []" "\<not> (hd p = 0x2f \<and> pathname flags)"
      by blast
    then show ?thesis
    proof cases
      case last
      then show ?thesis unfolding f l by (simp add: lang_star_end to_slash_None)
    next
      case slash
      have "fnmatch_from p passed' string' flags = 0 \<longleftrightarrow> string' \<in> glob_lang flags (glob_tokens flags p)"
        if "to_slash passed string = Some (passed', string')" for passed' string'
        using "2.IH"(2) [OF _ star p_def plain _ _ that refl] slash star plain_at_slash [OF "2.prems"] by simp
      then show ?thesis
        using slash lang_to_slash [OF slash(3), of string _ passed]
        unfolding f l by (auto simp: tokens_slash split: option.split)
    next
      case general
      then show ?thesis using "2.IH"(3) [OF _ star p_def plain] h star unfolding f l by auto
    qed
  next
    case brackets
    have "rangematch pattern ch flags = Some p \<Longrightarrow> ch \<noteq> 0x2f \<or> \<not> pathname flags \<Longrightarrow> string = ch # rest \<Longrightarrow>
        fnmatch_from p (Some ch) rest flags = 0 \<longleftrightarrow> rest \<in> glob_lang flags (glob_tokens flags p)" for ch rest p
      using "2.IH"(4) [of ch rest p] brackets plain "2.prems" plain_at_Some by simp
    then show ?thesis
      using brackets plain
      by (auto simp: fnmatch_from.simps(2) rangematch_bracket lang_char split: list.split option.splits prod.splits)
  next
    case char
    obtain c' p where q: "quoted flags c pattern = (c', p)" by fastforce
    have "\<not> differ flags c' ch \<Longrightarrow> string = ch # rest \<Longrightarrow>
        fnmatch_from p (Some ch) rest flags = 0 \<longleftrightarrow> rest \<in> glob_lang flags (glob_tokens flags p)" for ch rest
      using "2.IH"(5) [OF char q [symmetric]] "2.prems" plain_at_Some by simp
    then show ?thesis
      using char q by (auto simp: fnmatch_from.simps(2) lang_char split: list.split)
  qed
next
  case (3 p flags)
  then show ?case by (simp add: lang_string lang_nonempty)
next
  case (4 p test string flags)
  have "fnmatch_from p None (test # string) (flags AND NOT APR_FNM_PERIOD) = 0 \<longleftrightarrow>
      test # string \<in> glob_lang flags (glob_tokens flags p)"
    using "4.IH"(1) no_period(1) [of flags] same_lang [OF same_no_period] same_tokens [OF same_no_period]
    by (simp add: plain_at_def)
  then show ?case using 4 by (simp add: lang_string)
qed


section \<open>Patterns without wild cards\<close>

fun unquote :: "cstring \<Rightarrow> cstring" where
  "unquote [] = []"
| "unquote (c # p) = (if c = 0x5c then (case p of [] \<Rightarrow> [c] | c' # p' \<Rightarrow> c' # unquote p') else c # unquote p)"

text \<open>Inside a bracket the scan of \<open>apr_fnmatch_test\<close> sees a \<open>]\<close> at the latest where the class ends.\<close>

lemma test_range_char:
  assumes "range_char flags p = Some (c, q)" "escapes flags" "0 < n" "hd p \<noteq> 0x5d" "test_loop p n = 0"
  obtains m where "0 < m" "test_loop q m = 0"
proof -
  have "\<exists>m > 0. test_loop q m = 0"
    using assms by (cases p) (auto simp: range_char_def split: if_splits list.splits intro: exI [of _ n] exI [of _ "n + 1"])
  then show thesis using that by blast
qed

lemma test_range_end:
  assumes "range_end flags p = Some (h, q)" "escapes flags" "0 < n" "test_loop p n = 0"
  obtains m where "0 < m" "test_loop q m = 0"
proof (cases "q = p")
  case True
  then show thesis using assms that by blast
next
  case False
  then obtain c2 p' c where e: "p = 0x2d # c2 # p'" "c2 \<noteq> 0x5d" "range_char flags (c2 # p') = Some (c, q)"
    using assms(1) by (auto simp: range_end_def split: list.splits if_splits)
  have "test_loop (c2 # p') n = 0" using assms(4) e(1) by simp
  then show thesis using test_range_char [OF e(3) assms(2,3)] e(2) that by auto
qed

lemma test_class_items:
  "escapes flags \<Longrightarrow> 0 < n \<Longrightarrow> test_loop p n = 0 \<Longrightarrow> class_items flags p = None"
proof (induction flags p arbitrary: n rule: class_items.induct)
  case (1 flags p)
  show ?case
  proof (cases "p \<noteq> [] \<and> hd p = 0x5d")
    case True
    then show ?thesis using "1.prems" by (cases p) auto
  next
    case False
    show ?thesis
    proof (cases "range_char flags p")
      case None
      then show ?thesis using False by (simp add: class_items.simps [of flags p])
    next
      case (Some cp)
      then obtain c p1 where c: "range_char flags p = Some (c, p1)" by (cases cp) auto
      have h: "hd p \<noteq> 0x5d" using False c by (auto simp: range_char_def)
      obtain m where m: "0 < m" "test_loop p1 m = 0"
        using test_range_char [OF c "1.prems"(1,2) _ "1.prems"(3)] h by blast
      show ?thesis
      proof (cases "range_end flags p1")
        case None
        then show ?thesis using False c by (simp add: class_items.simps [of flags p])
      next
        case (Some hp)
        then obtain h p2 where h: "range_end flags p1 = Some (h, p2)" by (cases hp) auto
        obtain k where "0 < k" "test_loop p2 k = 0" using test_range_end [OF h "1.prems"(1) m] by blast
        then have "class_items flags p2 = None" using "1.IH" [OF False c refl h refl] "1.prems"(1) by blast
        then show ?thesis using False c h by (simp add: class_items.simps [of flags p])
      qed
    qed
  qed
qed

lemma test_bracket: "escapes flags \<Longrightarrow> 0 < n \<Longrightarrow> test_loop p n = 0 \<Longrightarrow> bracket flags p = None"
  using test_class_items [of flags n] by (cases p) (auto simp: bracket_def Let_def)

lemma test_lang:
  "escapes flags \<Longrightarrow> \<not> case_blind flags \<Longrightarrow> 0 \<le> n \<Longrightarrow> test_loop p n = 0 \<Longrightarrow>
   s \<in> glob_lang flags (glob_tokens flags p) \<Longrightarrow> s = unquote p"
proof (induction flags p arbitrary: n s rule: glob_tokens.induct)
  case (2 flags c p)
  have q: "c \<noteq> 0x3f" "c \<noteq> 0x2a" using "2.prems"(4) by (auto split: if_splits)
  have b: "c \<noteq> 0x5b"
  proof
    assume c: "c = 0x5b"
    then have "bracket flags p = None" using "2.prems" test_bracket [of flags "n + 1" p] by simp
    with "2.prems"(5) c show False by (simp add: lang_char split: list.splits)
  qed
  obtain c' r where e: "quoted flags c p = (c', r)" by fastforce
  have t: "test_loop r n = 0" "unquote (c # p) = c' # unquote r"
    using "2.prems" q b e by (auto simp: quoted_def split: if_splits list.splits)
  from "2.prems"(2,5) q b e obtain x s' where "s = x # s'" "x = c'" "s' \<in> glob_lang flags (glob_tokens flags r)"
    by (auto simp: lang_char differ_def split: list.splits)
  with t "2.IH"(4) [OF q b e [symmetric], of n s'] "2.prems" show ?case by simp
qed simp

lemma fnmatch_start:
  assumes "period flags" "\<not> pathname flags"
  shows "fnmatch_from pattern None string flags = 0 \<longleftrightarrow> fnmatch_from pattern (Some 0) string flags = 0 \<and>
    \<not> (string \<noteq> [] \<and> hd string = 0x2e \<and> pattern \<noteq> [] \<and> hd pattern \<in> {0x3f, 0x2a, 0x5b})"
proof (cases pattern)
  case (Cons c p)
  have l: "leading_period None string flags \<longleftrightarrow> string \<noteq> [] \<and> hd string = 0x2e" "\<not> leading_period (Some 0) string flags"
    using assms by (auto simp: leading_period_def)
  show ?thesis
    unfolding Cons fnmatch_from.simps(2) l(1) using l(2) assms(2) by (auto simp: Let_def split: list.split)
qed simp

section \<open>Directories and their names\<close>

lemma pushed_slot:
  assumes "arr_wf a" and "apr_array_push z a = (a', i)"
  shows "i = nelts a" "nelts a' = nelts a + 1" "nelts a < nalloc a'" "nalloc a' \<le> length (elts a')"
    "take (nelts a) (elts a') = take (nelts a) (elts a)"
  using assms by (auto simp: apr_array_push_def Let_def arr_wf_def split: if_splits)

lemma push_name_wf:
  assumes "arr_wf a"
  shows "arr_wf (push_name a x)" and "arr_list (push_name a x) = arr_list a @ [Some x]"
proof -
  obtain a' i where p: "apr_array_push None a = (a', i)" by fastforce
  note s = pushed_slot [OF assms p]
  let ?es = "(elts a')[nelts a := Some (Some x)]"
  have "take (nelts a') ?es = map Some (arr_list a @ [Some x])"
    using s arr_wf_slots [OF assms] by (simp add: take_Suc_conv_app_nth)
  moreover have "push_name a x = \<lparr>elts = ?es, nelts = nelts a', nalloc = nalloc a'\<rparr>"
    using s(1) by (cases a') (simp add: push_name_def p)
  ultimately have "arr_wf (push_name a x) \<and> arr_list (push_name a x) = arr_list a @ [Some x]"
    using arr_wfI [of "nelts a'" ?es "arr_list a @ [Some x]" "nalloc a'"] s assms by simp
  then show "arr_wf (push_name a x)" and "arr_list (push_name a x) = arr_list a @ [Some x]" by simp_all
qed

lemma push_names:
  "arr_wf a \<Longrightarrow> arr_wf (foldl (\<lambda>r name. if P name then push_name r name else r) a names) \<and>
   arr_list (foldl (\<lambda>r name. if P name then push_name r name else r) a names) = arr_list a @ map Some (filter P names)"
  by (induction names arbitrary: a) (simp_all add: push_name_wf)

lemma strrchr_last:
  assumes "c \<notin> set file"
  shows "strrchr (dir @ c # file) c = Some (length dir)"
proof -
  have u: "[0..<length (dir @ c # file)] = [0..<length dir] @ [length dir] @ [Suc (length dir)..<length (dir @ c # file)]"
    using upt_split [of 0 "length dir" "length (dir @ c # file)"] upt_conv_Cons [of "length dir" "length (dir @ c # file)"]
    by (simp del: upt_Suc)
  have "List.find (\<lambda>i. (dir @ c # file) ! i = c) (rev [Suc (length dir)..<length (dir @ c # file)]) = None"
    using assms by (auto simp: find_None_iff nth_append nth_Cons split: nat.splits)
  then show ?thesis by (simp add: strrchr_def u find_append del: upt_Suc length_append)
qed

lemma strrchr_none: "c \<notin> set s \<Longrightarrow> strrchr s c = None"
  by (auto simp: strrchr_def find_None_iff)

lemma pstrndup_take:
  assumes "0 \<notin> set s"
  shows "blk_str (the (the (apr_pstrndup (Some (s @ r)) (length s)))) = s"
proof -
  have "memchr (s @ r) 0 (length s) = None"
    using assms by (auto simp: memchr_def find_None_iff nth_append dest!: nth_mem)
  then show ?thesis
    by (simp add: apr_pstrndup_def mem_write_def blk_str_def palloc_def butlast_append comp_def)
qed

lemma glob_path_slash:
  assumes "0 \<notin> set path" "0x2f \<notin> set file"
  shows "glob_path (path @ 0x2f # file) = (path, file)"
proof -
  let ?s = "path @ 0x2f # file"
  have "blk_str (the (the (apr_pstrndup (Some (?s @ [0])) (length path)))) = path"
    using pstrndup_take [of path "0x2f # file @ [0]"] assms(1) by simp
  then show ?thesis by (simp add: glob_path_def strrchr_last [OF assms(2)])
qed

lemma glob_path_plain: "0x2f \<notin> set file \<Longrightarrow> 0x5c \<notin> set file \<Longrightarrow> glob_path file = (cstr ''.'', file)"
  by (simp add: glob_path_def strrchr_none)

section \<open>The patterns of the header file\<close>

text \<open>What \<open>include/apr_fnmatch.h\<close> describes. A character may be written with a backslash before it, which the first component
  says. A class has a list of characters and ranges and may be reversed by \<open>!\<close> or \<open>^\<close>; a class without its \<open>]\<close> is the end of the pattern.\<close>

datatype fn_item = Single bool byte | Range bool byte bool byte

datatype fn_part = Question | Star | Letter bool byte | Class "byte option" "fn_item list" | Unclosed cstring

definition written_char :: "bool \<Rightarrow> byte \<Rightarrow> cstring" where
  "written_char q c = (if q then [0x5c, c] else [c])"

fun written_item :: "fn_item \<Rightarrow> cstring" where
  "written_item (Single q c) = written_char q c"
| "written_item (Range q c q' d) = written_char q c @ 0x2d # written_char q' d"

fun written_part :: "fn_part \<Rightarrow> cstring" where
  "written_part Question = [0x3f]"
| "written_part Star = [0x2a]"
| "written_part (Letter q c) = written_char q c"
| "written_part (Class sense items) =
     0x5b # (case sense of None \<Rightarrow> [] | Some c \<Rightarrow> [c]) @ concat (map written_item items) @ [0x5d]"
| "written_part (Unclosed text) = 0x5b # text"

abbreviation written :: "fn_part list \<Rightarrow> cstring" where
  "written ps \<equiv> concat (map written_part ps)"

text \<open>Which of them can be written, with (\<open>esc\<close>) or without backslashes. In a class a plain \<open>]\<close> would close it, and a plain \<open>-\<close> behind a
  single character would make a range, unless the class ends there. A class that is reversed is not empty: the header
  describes \<open>[!]\<close> and \<open>[^]\<close> as matching without a character, which the code does not do.\<close>

definition item_char_ok :: "bool \<Rightarrow> bool \<Rightarrow> byte \<Rightarrow> bool" where
  "item_char_ok esc q c = (if q then esc else c \<noteq> 0x5d \<and> \<not> (esc \<and> c = 0x5c))"

fun item_ok :: "bool \<Rightarrow> fn_item \<Rightarrow> bool" where
  "item_ok esc (Single q c) = item_char_ok esc q c"
| "item_ok esc (Range q c q' d) = (item_char_ok esc q c \<and> item_char_ok esc q' d)"

text \<open>The characters an item begins with, unless it has a backslash.\<close>

fun begins :: "byte \<Rightarrow> fn_item \<Rightarrow> bool" where
  "begins b (Single q c) = (\<not> q \<and> c = b)"
| "begins b (Range q c q' d) = (\<not> q \<and> c = b)"

fun items_ok :: "bool \<Rightarrow> bool \<Rightarrow> fn_item list \<Rightarrow> bool" where
  "items_ok esc single [] = True"
| "items_ok esc single (i # ks) = (item_ok esc i \<and> (begins 0x2d i \<longrightarrow> \<not> single \<or> i = Single False 0x2d \<and> ks = []) \<and>
     items_ok esc (case i of Single _ _ \<Rightarrow> True | Range _ _ _ _ \<Rightarrow> False) ks)"

fun never_closed :: "bool \<Rightarrow> cstring \<Rightarrow> bool" where
  "never_closed esc [] = True"
| "never_closed esc (c # p) =
     (if esc \<and> c = 0x5c then (case p of [] \<Rightarrow> True | _ # p' \<Rightarrow> never_closed esc p') else c \<noteq> 0x5d \<and> never_closed esc p)"

fun part_ok :: "bool \<Rightarrow> fn_part \<Rightarrow> bool" where
  "part_ok esc (Letter q c) = (if q then esc else c \<noteq> 0x3f \<and> c \<noteq> 0x2a \<and> c \<noteq> 0x5b \<and> \<not> (esc \<and> c = 0x5c))"
| "part_ok esc (Class None items) = (items_ok esc False items \<and> (items \<noteq> [] \<longrightarrow> \<not> begins 0x21 (hd items) \<and> \<not> begins 0x5e (hd items)))"
| "part_ok esc (Class (Some c) items) = (items_ok esc False items \<and> (c = 0x21 \<or> c = 0x5e) \<and> items \<noteq> [])"
| "part_ok esc (Unclosed text) = False"
| "part_ok esc _ = True"

text \<open>At the end of the pattern a class may be left open, and a backslash stands for itself.\<close>

fun parts_ok :: "bool \<Rightarrow> fn_part list \<Rightarrow> bool" where
  "parts_ok esc [] = True"
| "parts_ok esc (p # ps) = (part_ok esc p \<and> parts_ok esc ps \<or>
     ps = [] \<and> (case p of Unclosed text \<Rightarrow> never_closed esc text | Letter q c \<Rightarrow> \<not> q \<and> c = 0x5c | _ \<Rightarrow> False))"

text \<open>What they stand for, with \<open>nocase\<close> and \<open>path\<close> for the two flags that matter. Characters are ordered as \<open>char\<close>, or, without regard
  to case, by their small letters.\<close>

fun item_chars :: "bool \<Rightarrow> fn_item \<Rightarrow> byte set" where
  "item_chars nocase (Single q c) = {x. x = c \<or> nocase \<and> tolower x = tolower c}"
| "item_chars nocase (Range q c q' d) =
     {x. sint x \<in> {sint c..sint d}} \<union> (if nocase then {x. tolower x \<in> {tolower c..tolower d}} else {})"

fun part_strings :: "bool \<Rightarrow> bool \<Rightarrow> fn_part \<Rightarrow> cstring set" where
  "part_strings nocase path Question = {[x] | x. path \<longrightarrow> x \<noteq> 0x2f}"
| "part_strings nocase path Star = {w. path \<longrightarrow> 0x2f \<notin> set w}"
| "part_strings nocase path (Letter q c) = {[x] | x. x = c \<or> nocase \<and> tolower x = tolower c}"
| "part_strings nocase path (Class sense items) =
     {[x] | x. (path \<longrightarrow> x \<noteq> 0x2f) \<and> (sense = None \<longleftrightarrow> x \<in> \<Union> (item_chars nocase ` set items))}"
| "part_strings nocase path (Unclosed text) = {}"

fun strings :: "bool \<Rightarrow> bool \<Rightarrow> fn_part list \<Rightarrow> cstring set" where
  "strings nocase path [] = {[]}"
| "strings nocase path (p # ps) = {u @ v | u v. u \<in> part_strings nocase path p \<and> v \<in> strings nocase path ps}"

section \<open>Reading a written pattern\<close>

fun item_pair :: "fn_item \<Rightarrow> byte \<times> byte option" where
  "item_pair (Single q c) = (c, None)"
| "item_pair (Range q c q' d) = (c, Some d)"

fun part_token :: "fn_part \<Rightarrow> glob" where
  "part_token Question = Any_char"
| "part_token Star = Any_string"
| "part_token (Letter q c) = Only c"
| "part_token (Class sense items) = One_of (sense \<noteq> None) (map item_pair items)"
| "part_token (Unclosed text) = Nothing_at_all"

lemma range_char_written: "item_char_ok (escapes flags) q c \<Longrightarrow> range_char flags (written_char q c @ r) = Some (c, r)"
  by (auto simp: range_char_def item_char_ok_def written_char_def)

lemma range_end_written: "item_char_ok (escapes flags) q d \<Longrightarrow> range_end flags (0x2d # written_char q d @ r) = Some (Some d, r)"
  using range_char_written [of flags q d r] by (auto simp: range_end_def item_char_ok_def written_char_def)

lemma range_end_none: "r \<noteq> [] \<Longrightarrow> hd r \<noteq> 0x2d \<or> (tl r \<noteq> [] \<and> hd (tl r) = 0x5d) \<Longrightarrow> range_end flags r = Some (None, r)"
  by (auto simp: range_end_def split: list.split)

lemma written_item_Cons: "item_ok esc i \<Longrightarrow> \<exists>b t. written_item i = b # t \<and> b \<noteq> 0x5d \<and> (b = x \<and> x \<noteq> 0x5c \<longleftrightarrow> begins x i \<and> x \<noteq> 0x5c)"
  by (cases i) (auto simp: item_char_ok_def written_char_def)

lemma class_items_written:
  "items_ok (escapes flags) single items \<Longrightarrow>
   class_items flags (concat (map written_item items) @ 0x5d # rest) = Some (map item_pair items, rest)"
proof (induction items arbitrary: single)
  case Nil
  then show ?case by (simp add: class_items.simps [of flags "0x5d # rest"])
next
  case (Cons i ks)
  let ?tail = "concat (map written_item ks) @ 0x5d # rest"
  have IH: "class_items flags ?tail = Some (map item_pair ks, rest)" and i: "item_ok (escapes flags) i"
    using Cons by auto
  obtain b t where b: "written_item i = b # t" "b \<noteq> 0x5d" using written_item_Cons [OF i] by blast
  have open_class: "class_items flags (written_item i @ ?tail) = (case range_char flags (written_item i @ ?tail) of None \<Rightarrow> None
      | Some (c, p1) \<Rightarrow> (case range_end flags p1 of None \<Rightarrow> None
         | Some (c2, p2) \<Rightarrow> map_option (\<lambda>(items, q). ((c, c2) # items, q)) (class_items flags p2)))"
    using b by (simp add: class_items.simps [of flags "b # t @ ?tail"])
  show ?case
  proof (cases i)
    case (Single q c)
    have "range_end flags ?tail = Some (None, ?tail)"
    proof (cases ks)
      case Nil
      then show ?thesis by (intro range_end_none) simp_all
    next
      case j: (Cons j js)
      have jo: "item_ok (escapes flags) j" "begins 0x2d j \<longrightarrow> j = Single False 0x2d \<and> js = []"
        using Cons.prems by (simp_all add: Single j)
      obtain b' t' where b': "written_item j = b' # t'" "b' = 0x2d \<longleftrightarrow> begins 0x2d j"
        using written_item_Cons [OF jo(1), of "0x2d"] by auto
      show ?thesis
      proof (cases "begins 0x2d j")
        case True
        then show ?thesis using jo(2) j by (intro range_end_none) (simp_all add: written_char_def)
      next
        case False
        then show ?thesis using b' j by (intro range_end_none) simp_all
      qed
    qed
    then show ?thesis using open_class range_char_written [of flags q c ?tail] i IH by (simp add: Single)
  next
    case (Range q c q' d)
    then show ?thesis
      using open_class range_char_written [of flags q c "0x2d # written_char q' d @ ?tail"] range_end_written [of flags q' d ?tail] i IH
      by simp
  qed
qed

lemma bracket_written:
  assumes "part_ok (escapes flags) (Class sense items)"
  shows "bracket flags (tl (written_part (Class sense items)) @ rest) = Some (sense \<noteq> None, map item_pair items, rest)"
proof -
  have c: "class_items flags (concat (map written_item items) @ 0x5d # rest) = Some (map item_pair items, rest)"
    using assms class_items_written [of flags False items rest] by (cases sense) auto
  show ?thesis
  proof (cases sense)
    case None
    have "hd (concat (map written_item items) @ 0x5d # rest) \<notin> {0x21, 0x5e}"
    proof (cases items)
      case (Cons i ks)
      have i: "item_ok (escapes flags) i" "\<not> begins 0x21 i" "\<not> begins 0x5e i" using assms None Cons by auto
      obtain b t where b: "written_item i = b # t" "b \<noteq> 0x21" using written_item_Cons [OF i(1), of "0x21"] i(2) by auto
      moreover have "b \<noteq> 0x5e" using written_item_Cons [OF i(1), of "0x5e"] i(3) b(1) by auto
      ultimately show ?thesis using Cons by simp
    qed simp
    then show ?thesis using c None by (simp add: bracket_def Let_def)
  next
    case (Some b)
    then show ?thesis using c assms by (auto simp: bracket_def Let_def)
  qed
qed

lemma never_closed_char: "never_closed (escapes flags) p \<Longrightarrow> range_char flags p = Some (c, q) \<Longrightarrow> never_closed (escapes flags) q"
proof -
  assume p: "never_closed (escapes flags) p" "range_char flags p = Some (c, q)"
  then obtain a p' where a: "p = a # p'" by (cases p) (auto simp: range_char_def)
  show "never_closed (escapes flags) q"
  proof (cases "a = 0x5c \<and> escapes flags")
    case True
    then obtain c' where "p' = c' # q" using p(2) a by (cases p') (auto simp: range_char_def)
    then show ?thesis using p(1) a True by simp
  next
    case False
    then have "q = p'" using p(2) a by (auto simp: range_char_def split: if_splits)
    then show ?thesis using p(1) a False by (simp split: if_splits)
  qed
qed

lemma never_closed_end: "never_closed (escapes flags) p \<Longrightarrow> range_end flags p = Some (h, q) \<Longrightarrow> never_closed (escapes flags) q"
proof -
  assume p: "never_closed (escapes flags) p" "range_end flags p = Some (h, q)"
  show "never_closed (escapes flags) q"
  proof (cases "q = p")
    case False
    then obtain c2 p' c where "p = 0x2d # c2 # p'" "range_char flags (c2 # p') = Some (c, q)"
      using p(2) by (auto simp: range_end_def split: list.splits if_splits)
    then show ?thesis using p(1) never_closed_char [of flags "c2 # p'" c q] by simp
  qed (use p in simp)
qed

lemma class_items_never: "never_closed (escapes flags) p \<Longrightarrow> class_items flags p = None"
proof (induction flags p rule: class_items.induct)
  case (1 flags p)
  have h: "\<not> (p \<noteq> [] \<and> hd p = 0x5d)" using "1.prems" by (cases p) auto
  have "class_items flags p2 = None" if "range_char flags p = Some (c, p1)" "range_end flags p1 = Some (c2, p2)" for c p1 c2 p2
    using "1.IH" [OF h that(1) refl that(2) refl] never_closed_end [OF never_closed_char [OF "1.prems" that(1)] that(2)] by blast
  then show ?case using h by (auto simp: class_items.simps [of flags p] split: option.split)
qed

lemma bracket_never: "never_closed (escapes flags) p \<Longrightarrow> bracket flags p = None"
  using class_items_never [of flags p] class_items_never [of flags "tl p"] by (cases p) (auto simp: bracket_def Let_def)

lemma tokens_written: "parts_ok (escapes flags) ps \<Longrightarrow> glob_tokens flags (written ps) = map part_token ps"
proof (induction ps)
  case (Cons p ps)
  show ?case
  proof (cases "part_ok (escapes flags) p \<and> parts_ok (escapes flags) ps")
    case True
    then have IH: "glob_tokens flags (written ps) = map part_token ps" using Cons.IH by blast
    show ?thesis
    proof (cases p)
      case (Letter q c)
      then show ?thesis using True IH by (cases q) (auto simp: written_char_def quoted_def)
    next
      case (Class sense items)
      have "bracket flags (tl (written_part p) @ written ps) = Some (sense \<noteq> None, map item_pair items, written ps)"
        using bracket_written [of flags sense items "written ps"] True Class by simp
      moreover have "written_part p = 0x5b # tl (written_part p)" by (simp add: Class)
      then have w: "written (p # ps) = 0x5b # (tl (written_part p) @ written ps)"
        by (metis append_Cons concat.simps(2) list.map(2))
      ultimately show ?thesis unfolding w using IH by (simp add: Class del: written_part.simps)
    qed (use True IH in auto)
  next
    case False
    then have ps: "ps = []" and p: "case p of Unclosed text \<Rightarrow> never_closed (escapes flags) text | Letter q c \<Rightarrow> \<not> q \<and> c = 0x5c | _ \<Rightarrow> False"
      using Cons.prems by auto
    show ?thesis
      using p bracket_never [of flags] by (cases p) (auto simp: ps written_char_def quoted_def)
  qed
qed simp

lemma item_chars: "x \<in> item_chars (case_blind flags) i \<longleftrightarrow> item_matches flags (item_pair i) x"
  by (cases i) auto

lemma part_strings: "part_strings (case_blind flags) (pathname flags) p = token_lang flags (part_token p)"
proof (cases p)
  case (Class sense items)
  have "x \<in> \<Union> (item_chars (case_blind flags) ` set items) \<longleftrightarrow> (\<exists>i \<in> set (map item_pair items). item_matches flags i x)" for x
    using item_chars [of x flags] by auto
  then show ?thesis by (auto simp: Class)
next
  case (Letter q c)
  have "(x = c \<or> case_blind flags \<and> tolower x = tolower c) \<longleftrightarrow> \<not> differ flags c x" for x by (auto simp: differ_def)
  then show ?thesis by (simp add: Letter)
qed auto

lemma strings_lang: "strings (case_blind flags) (pathname flags) ps = glob_lang flags (map part_token ps)"
  by (induction ps) (simp_all add: part_strings glob_lang.simps(2))

text \<open>Every pattern is written by some list of parts.\<close>

lemma char_exists:
  assumes "\<not> never_closed esc p" "hd p \<noteq> 0x5d"
  obtains q c r where "p = written_char q c @ r" "item_char_ok esc q c" "\<not> never_closed esc r" "length r < length p"
proof -
  obtain a p' where p: "p = a # p'" using assms(1) by (cases p) auto
  show thesis
  proof (cases "esc \<and> a = 0x5c")
    case True
    then obtain c r where "p' = c # r" "\<not> never_closed esc r" using assms(1) p by (cases p') auto
    then show thesis using that [of True c r] True p by (simp add: written_char_def item_char_ok_def)
  next
    case False
    then have "\<not> never_closed esc p'" using assms p by auto
    then show thesis using that [of False a p'] False assms(2) p by (auto simp: written_char_def item_char_ok_def)
  qed
qed

definition range_follows :: "cstring \<Rightarrow> bool" where
  "range_follows p \<longleftrightarrow> (\<exists>c p'. p = 0x2d # c # p' \<and> c \<noteq> 0x5d)"

lemma items_exist:
  assumes "\<not> never_closed esc p" "single \<longrightarrow> \<not> range_follows p"
  shows "\<exists>items rest. p = concat (map written_item items) @ 0x5d # rest \<and> items_ok esc single items"
  using assms
proof (induction "length p" arbitrary: p single rule: less_induct)
  case less
  show ?case
  proof (cases "hd p = 0x5d")
    case True
    then obtain r where "p = 0x5d # r" using less.prems(1) by (cases p) auto
    then show ?thesis by (intro exI [of _ "[]"] exI [of _ r]) simp
  next
    case False
    obtain q c r where c: "p = written_char q c @ r" "item_char_ok esc q c" "\<not> never_closed esc r" "length r < length p"
      using char_exists [OF less.prems(1) False] .
    show ?thesis
    proof (cases "range_follows r")
      case True
      then obtain c2 r2 where r: "r = 0x2d # c2 # r2" "c2 \<noteq> 0x5d" by (auto simp: range_follows_def)
      have "\<not> never_closed esc (c2 # r2)" using c(3) r(1) by simp
      then obtain q' d r3 where d: "c2 # r2 = written_char q' d @ r3" "item_char_ok esc q' d" "\<not> never_closed esc r3" "length r3 < length (c2 # r2)"
        using char_exists [of esc "c2 # r2"] r(2) by auto
      obtain ks rest where ks: "r3 = concat (map written_item ks) @ 0x5d # rest" "items_ok esc False ks"
        using less.hyps [of r3 False] d(3,4) c(4) r(1) by auto
      have "begins 0x2d (Range q c q' d) \<longrightarrow> \<not> single"
        using less.prems(2) c(1) r(1) by (auto simp: range_follows_def written_char_def)
      then have "items_ok esc single (Range q c q' d # ks)" using c(2) d(2) ks(2) by simp
      moreover have "p = concat (map written_item (Range q c q' d # ks)) @ 0x5d # rest" using c(1) d(1) ks(1) r(1) by simp
      ultimately show ?thesis by blast
    next
      case no: False
      obtain ks rest where ks: "r = concat (map written_item ks) @ 0x5d # rest" "items_ok esc True ks"
        using less.hyps [of r True] c(3,4) no by auto
      have "begins 0x2d (Single q c) \<longrightarrow> \<not> single \<or> Single q c = Single False 0x2d \<and> ks = []"
      proof (intro impI disjCI)
        assume b: "begins 0x2d (Single q c)" and s: "\<not> (Single q c = Single False 0x2d \<and> ks = [])"
        show "\<not> single"
        proof
          assume "single"
          then have "\<not> range_follows p" using less.prems(2) by blast
          moreover have "p = 0x2d # r" "r \<noteq> []" using b c(1) ks(1) by (auto simp: written_char_def)
          ultimately have "hd r = 0x5d" by (cases r) (auto simp: range_follows_def)
          then have "ks = []" using ks written_item_Cons [of esc "hd ks" 0] by (cases ks) auto
          then show False using b s by simp
        qed
      qed
      then have "items_ok esc single (Single q c # ks)" using c(2) ks(2) by auto
      moreover have "p = concat (map written_item (Single q c # ks)) @ 0x5d # rest" using c(1) ks(1) by simp
      ultimately show ?thesis by blast
    qed
  qed
qed

text \<open>Unless there is an empty reversed class among them, the parts are as the header file describes.\<close>

definition describable :: "bool \<Rightarrow> fn_part list \<Rightarrow> bool" where
  "describable esc ps \<longleftrightarrow> parts_ok esc ps \<or> (\<exists>c \<in> {0x21, 0x5e}. Class (Some c) [] \<in> set ps)"

lemma describable_Cons: "part_ok esc p \<or> (\<exists>c \<in> {0x21, 0x5e}. p = Class (Some c) []) \<Longrightarrow> describable esc ps \<Longrightarrow> describable esc (p # ps)"
  by (auto simp: describable_def)

lemma parts_exist: "\<exists>ps. written ps = pattern \<and> describable esc ps"
proof (induction "length pattern" arbitrary: pattern rule: less_induct)
  case less
  have step: "\<exists>ps. written ps = pattern \<and> describable esc ps"
    if s: "pattern = written_part p @ r" "written_part p \<noteq> []" "part_ok esc p \<or> (\<exists>c \<in> {0x21, 0x5e}. p = Class (Some c) [])" for p r
  proof -
    obtain ps where "written ps = r" "describable esc ps" using less [of r] s(1,2) by auto
    then show ?thesis using s(1) describable_Cons [OF s(3)] by (intro exI [of _ "p # ps"]) simp
  qed
  have last: "\<exists>ps. written ps = pattern \<and> describable esc ps" if "pattern = written_part p" "parts_ok esc [p]" for p
    using that by (intro exI [of _ "[p]"]) (simp add: describable_def)
  show ?case
  proof (cases pattern)
    case Nil
    then show ?thesis by (intro exI [of _ "[]"]) (simp add: describable_def)
  next
    case (Cons c r)
    consider (question) "c = 0x3f" | (star) "c = 0x2a" | (bracket) "c = 0x5b" | (escaped) "c = 0x5c" "esc"
      | (letter) "c \<notin> {0x3f, 0x2a, 0x5b}" "\<not> (esc \<and> c = 0x5c)" by auto
    then show ?thesis
    proof cases
      case question
      then show ?thesis using step [of Question r] Cons by simp
    next
      case star
      then show ?thesis using step [of Star r] Cons by simp
    next
      case letter
      then show ?thesis using step [of "Letter False c" r] Cons by (simp add: written_char_def)
    next
      case escaped
      then show ?thesis using step [of "Letter True (hd r)" "tl r"] last [of "Letter False 0x5c"] Cons
        by (cases r) (simp_all add: written_char_def)
    next
      case bracket
      show ?thesis
      proof (cases "never_closed esc r")
        case True
        then show ?thesis using last [of "Unclosed r"] Cons bracket by simp
      next
        case open_r: False
        show ?thesis
        proof (cases "hd r \<in> {0x21, 0x5e}")
          case True
          then obtain t where t: "r = hd r # t" "\<not> never_closed esc t" using open_r by (cases r) auto
          obtain items rest where i: "t = concat (map written_item items) @ 0x5d # rest" "items_ok esc False items"
            using items_exist [OF t(2), of False] by auto
          have "pattern = written_part (Class (Some (hd r)) items) @ rest" using Cons bracket t(1) i(1) by simp
          then show ?thesis using step [of "Class (Some (hd r)) items" rest] i(2) True by auto
        next
          case False
          obtain items rest where i: "r = concat (map written_item items) @ 0x5d # rest" "items_ok esc False items"
            using items_exist [OF open_r, of False] by auto
          have "\<not> begins 0x21 (hd items) \<and> \<not> begins 0x5e (hd items)" if ne: "items \<noteq> []"
          proof -
            obtain j ks where j: "items = j # ks" "item_ok esc j" using ne i(2) by (cases items) auto
            then show ?thesis
              using written_item_Cons [OF j(2), of "0x21"] written_item_Cons [OF j(2), of "0x5e"] False i(1) by auto
          qed
          then show ?thesis using step [of "Class None items" rest] i Cons bracket by simp
        qed
      qed
    qed
  qed
qed

section \<open>Properties\<close>

text \<open>C39: on every pattern that the header file describes, and every string, without \<open>APR_FNM_PERIOD\<close>, \<open>apr_fnmatch\<close> succeeds exactly if the
  string is one that the pattern stands for by that description. So backslashes, classes and ranges are read as they are
  written, and the special cases for a star at the end or before a slash, and the restart of the search at each position, are exact.
  Every pattern at all is described in this way, unless it has a class \<open>[!]\<close> or \<open>[^]\<close>.\<close>

theorem fnmatch_glob:
  assumes "flags AND APR_FNM_PERIOD = 0" "parts_ok (flags AND APR_FNM_NOESCAPE = 0) ps"
  shows "(apr_fnmatch (written ps) string flags = 0 \<longleftrightarrow>
      string \<in> strings (flags AND APR_FNM_CASE_BLIND \<noteq> 0) (flags AND APR_FNM_PATHNAME \<noteq> 0) ps) \<and>
    (\<exists>qs. written qs = pattern \<and>
      (parts_ok (flags AND APR_FNM_NOESCAPE = 0) qs \<or> (\<exists>c \<in> {0x21, 0x5e}. Class (Some c) [] \<in> set qs)))"
proof -
  have "apr_fnmatch (written ps) string flags = 0 \<longleftrightarrow> string \<in> glob_lang flags (glob_tokens flags (written ps))"
    unfolding apr_fnmatch_def using assms(1) by (intro fnmatch_lang(1)) (simp add: plain_at_def period_def)
  then show ?thesis
    using tokens_written [of flags ps] strings_lang [of flags ps] assms(2) parts_exist [of pattern "flags AND APR_FNM_NOESCAPE = 0"]
    by (simp add: escapes_def case_blind_def pathname_def describable_def)
qed

theorem fnmatch_glob_witness:
  "cstr ''a/b.c'' \<in> strings False True [Letter False 0x61, Letter False 0x2f, Star, Letter True 0x2e, Class (Some 0x21) [Range False 0x61 False 0x62]] \<and>
   cstr ''a/b.a'' \<notin> strings False True [Letter False 0x61, Letter False 0x2f, Star, Letter True 0x2e, Class (Some 0x21) [Range False 0x61 False 0x62]]"
proof -
  let ?ps = "[Letter False 0x61, Letter False 0x2f, Star, Letter True 0x2e, Class (Some 0x21) [Range False 0x61 False 0x62]]"
  have w: "written ?ps = cstr ''a/*'' @ 0x5c # cstr ''.[!a-b]''" by (simp add: written_char_def)
  have "apr_fnmatch (cstr ''a/*'' @ 0x5c # cstr ''.[!a-b]'') (cstr ''a/b.c'') APR_FNM_PATHNAME = 0"
    "apr_fnmatch (cstr ''a/*'' @ 0x5c # cstr ''.[!a-b]'') (cstr ''a/b.a'') APR_FNM_PATHNAME = 1"
    by code_simp+
  then show ?thesis
    using fnmatch_glob [of APR_FNM_PATHNAME ?ps "cstr ''a/b.c''"] fnmatch_glob [of APR_FNM_PATHNAME ?ps "cstr ''a/b.a''"]
    unfolding w by (simp add: item_char_ok_def)
qed

text \<open>with \<open>APR_FNM_PERIOD\<close> and without \<open>APR_FNM_PATHNAME\<close>, the strings that match are those that match
  without \<open>APR_FNM_PERIOD\<close>, less those that begin with a period when the pattern begins with \<open>?\<close>, \<open>*\<close> or a class.\<close>

theorem fnmatch_period:
  assumes "flags AND APR_FNM_PERIOD \<noteq> 0" and "flags AND APR_FNM_PATHNAME = 0"
  shows "apr_fnmatch pattern string flags = 0 \<longleftrightarrow>
    apr_fnmatch pattern string (flags AND NOT APR_FNM_PERIOD) = 0 \<and>
    \<not> (string \<noteq> [] \<and> hd string = 0x2e \<and> pattern \<noteq> [] \<and> hd pattern \<in> {0x3f, 0x2a, 0x5b})"
proof -
  have f: "period flags" "\<not> pathname flags" using assms by (simp_all add: period_def pathname_def)
  have "apr_fnmatch pattern string (flags AND NOT APR_FNM_PERIOD) = 0 \<longleftrightarrow> string \<in> glob_lang flags (glob_tokens flags pattern)"
    using fnmatch_lang(1) [of None "flags AND NOT APR_FNM_PERIOD" pattern string] same_tokens [OF same_no_period, of flags pattern]
      same_lang [OF same_no_period] no_period(1) by (simp only: apr_fnmatch_def plain_at_def simp_thms)
  moreover have "fnmatch_from pattern (Some 0) string flags = 0 \<longleftrightarrow> string \<in> glob_lang flags (glob_tokens flags pattern)"
    using fnmatch_lang(1) [of "Some 0" flags pattern string] f by (simp add: plain_at_def)
  ultimately show ?thesis
    using fnmatch_start [OF f, of pattern string] by (simp add: apr_fnmatch_def)
qed

theorem fnmatch_period_witness:
  "apr_fnmatch (cstr ''*.c'') (cstr ''.x.c'') APR_FNM_PERIOD = APR_FNM_NOMATCH \<and> apr_fnmatch (cstr ''*.c'') (cstr ''x.c'') APR_FNM_PERIOD = 0"
proof -
  have "apr_fnmatch (cstr ''*.c'') (cstr ''x.c'') 0 = 0" "apr_fnmatch (cstr ''*.c'') (cstr ''.x.c'') APR_FNM_PERIOD = APR_FNM_NOMATCH"
    by code_simp+
  then show ?thesis
    using fnmatch_period [of APR_FNM_PERIOD "cstr ''*.c''" "cstr ''x.c''"] by simp
qed

text \<open>with both flags a period after a slash is not protected behind a star: the recursion drops \<open>APR_FNM_PERIOD\<close>.\<close>

theorem fnmatch_period_after_star:
  "apr_fnmatch (cstr ''xa/?b'') (cstr ''xa/.b'') (APR_FNM_PATHNAME OR APR_FNM_PERIOD) = APR_FNM_NOMATCH \<and>
   apr_fnmatch (cstr ''*a/?b'') (cstr ''xa/.b'') (APR_FNM_PATHNAME OR APR_FNM_PERIOD) = 0"
  by code_simp

text \<open>a pattern in which \<open>apr_fnmatch_test\<close> finds no wild card matches one string at most: itself without its
  backslashes.\<close>

theorem fnmatch_test_literal:
  assumes "apr_fnmatch_test pattern = 0" and "apr_fnmatch pattern string 0 = 0"
  shows "string = unquote pattern"
proof -
  have "string \<in> glob_lang 0 (glob_tokens 0 pattern)"
    using assms(2) fnmatch_lang(1) [of None 0 pattern string] by (simp add: apr_fnmatch_def plain_at_def period_def)
  then show ?thesis
    using test_lang [of 0 0 pattern string] assms(1) by (simp add: escapes_def case_blind_def apr_fnmatch_test_def)
qed

theorem fnmatch_test_literal_witness:
  "apr_fnmatch_test (cstr ''a'' @ 0x5c # cstr ''*b'') = 0 \<and> apr_fnmatch (cstr ''a'' @ 0x5c # cstr ''*b'') (cstr ''a*b'') 0 = 0 \<and>
   cstr ''a*b'' = unquote (cstr ''a'' @ 0x5c # cstr ''*b'')"
proof -
  have "apr_fnmatch_test (cstr ''a'' @ 0x5c # cstr ''*b'') = 0" "apr_fnmatch (cstr ''a'' @ 0x5c # cstr ''*b'') (cstr ''a*b'') 0 = 0" by code_simp+
  then show ?thesis using fnmatch_test_literal by blast
qed


text \<open>\<open>apr_match_glob\<close> returns, in the order of the directory, exactly the names that belong to the language of what
  follows the last slash of the pattern, in the directory before it, or in the current one if there is neither a slash nor a
  backslash; if the directory cannot be opened it returns that error and no names.\<close>

theorem match_glob_names:
  assumes "0 \<notin> set path" and "0x2f \<notin> set file"
  shows "(dir path = Inr names \<longrightarrow> (\<exists>r. apr_match_glob dir (path @ 0x2f # file) = (0, r) \<and> arr_wf r \<and>
      arr_list r = map Some (filter (\<lambda>name. name \<in> glob_lang 0 (glob_tokens 0 file)) names))) \<and>
    (0x5c \<notin> set file \<longrightarrow> dir (cstr ''.'') = Inr names \<longrightarrow> (\<exists>r. apr_match_glob dir file = (0, r) \<and> arr_wf r \<and>
      arr_list r = map Some (filter (\<lambda>name. name \<in> glob_lang 0 (glob_tokens 0 file)) names))) \<and>
    (dir path = Inl rv \<longrightarrow> (\<exists>r. apr_match_glob dir (path @ 0x2f # file) = (rv, r) \<and> arr_list r = []))"
proof -
  have m: "apr_fnmatch file name 0 = 0 \<longleftrightarrow> name \<in> glob_lang 0 (glob_tokens 0 file)" for name
    using fnmatch_lang(1) [of None 0 "file" "name"] by (simp add: apr_fnmatch_def plain_at_def period_def)
  have "arr_wf (apr_array_make None 0 :: cstring option apr_array_header)"
    "arr_list (apr_array_make None 0 :: cstring option apr_array_header) = []"
    by (simp_all add: apr_array_make_def make_array_core_wf)
  then show ?thesis
    using glob_path_slash [OF assms] glob_path_plain [OF assms(2)] push_names
    by (simp add: apr_match_glob_def m)
qed

theorem match_glob_names_witness:
  "\<exists>r. apr_match_glob (\<lambda>path. if path = cstr ''src'' then Inr [cstr ''a.c'', cstr ''a.h''] else Inl 2) (cstr ''src/*.c'') = (0, r) \<and>
     arr_list r = [Some (cstr ''a.c'')]"
proof -
  let ?dir = "\<lambda>path. if path = cstr ''src'' then Inr [cstr ''a.c'', cstr ''a.h''] else Inl 2"
  have "cstr ''src/*.c'' = cstr ''src'' @ 0x2f # cstr ''*.c''" by simp
  moreover have "cstr ''a.c'' \<in> glob_lang 0 (glob_tokens 0 (cstr ''*.c''))" "cstr ''a.h'' \<notin> glob_lang 0 (glob_tokens 0 (cstr ''*.c''))"
    by (simp_all add: lang_string lang_char glob_tokens.simps quoted_def differ_def pathname_def case_blind_def)
  ultimately show ?thesis
    using match_glob_names [of "cstr ''src''" "cstr ''*.c''" ?dir "[cstr ''a.c'', cstr ''a.h'']" 2] by auto
qed

end
