(* ===== verification/AprBase64.thy ===== *)
theory AprBase64
  imports Prelude "HOL-Library.Signed_Division"
begin

text \<open>
  Base 64: \<open>apr-util-1.3.9/encoding/apr_base64.c\<close> on a machine with an ASCII character set, where the
  plain functions are the binary ones.

  The caller's buffers are memory blocks; a read or a write outside its block makes the whole call \<open>None\<close>.
  The \<open>*p++ = ...\<close> of one step are one block write. Lengths of type \<open>int\<close> wrap around
  at 32 bits (\<open>int32\<close>); lengths of type \<open>apr_size_t\<close> are natural numbers. A coded text is a NUL-terminated string.
\<close>

section \<open>The model\<close>

definition pr2six :: "byte list" where
  "pr2six =
     [
      64, 64, 64, 64, 64, 64, 64, 64, 64, 64, 64, 64, 64, 64, 64, 64,
      64, 64, 64, 64, 64, 64, 64, 64, 64, 64, 64, 64, 64, 64, 64, 64,
      64, 64, 64, 64, 64, 64, 64, 64, 64, 64, 64, 62, 64, 64, 64, 63,
      52, 53, 54, 55, 56, 57, 58, 59, 60, 61, 64, 64, 64, 64, 64, 64,
      64, 0, 1, 2, 3, 4, 5, 6, 7, 8, 9, 10, 11, 12, 13, 14,
      15, 16, 17, 18, 19, 20, 21, 22, 23, 24, 25, 64, 64, 64, 64, 64,
      64, 26, 27, 28, 29, 30, 31, 32, 33, 34, 35, 36, 37, 38, 39, 40,
      41, 42, 43, 44, 45, 46, 47, 48, 49, 50, 51, 64, 64, 64, 64, 64,
      64, 64, 64, 64, 64, 64, 64, 64, 64, 64, 64, 64, 64, 64, 64, 64,
      64, 64, 64, 64, 64, 64, 64, 64, 64, 64, 64, 64, 64, 64, 64, 64,
      64, 64, 64, 64, 64, 64, 64, 64, 64, 64, 64, 64, 64, 64, 64, 64,
      64, 64, 64, 64, 64, 64, 64, 64, 64, 64, 64, 64, 64, 64, 64, 64,
      64, 64, 64, 64, 64, 64, 64, 64, 64, 64, 64, 64, 64, 64, 64, 64,
      64, 64, 64, 64, 64, 64, 64, 64, 64, 64, 64, 64, 64, 64, 64, 64,
      64, 64, 64, 64, 64, 64, 64, 64, 64, 64, 64, 64, 64, 64, 64, 64,
      64, 64, 64, 64, 64, 64, 64, 64, 64, 64, 64, 64, 64, 64, 64, 64]"

definition basis_64 :: cstring where
  "basis_64 = cstr ''ABCDEFGHIJKLMNOPQRSTUVWXYZabcdefghijklmnopqrstuvwxyz0123456789+/''"

abbreviation int32 :: "int \<Rightarrow> int" where
  "int32 \<equiv> swrap 32"

definition six :: "byte \<Rightarrow> byte" where
  "six c = pr2six ! unat c"

text \<open>\<open>while (pr2six[*(bufin++)] <= 63);\<close>: the number of characters before the first that is none of the 64.\<close>

function nprbytes :: "cstring \<Rightarrow> nat \<Rightarrow> nat" where
  "nprbytes bufcoded i = (if six (cget bufcoded i) \<le> 63 then nprbytes bufcoded (i + 1) else i)"
  by pat_completeness auto
termination
  by (relation "measure (\<lambda>(s, i). length s - i)") (auto simp: cget_def six_def pr2six_def split: if_splits)

declare nprbytes.simps [simp del]

definition decoded_bytes :: "nat \<Rightarrow> int" where
  "decoded_bytes n = int32 (int32 (int32 (int n) + 3) sdiv 4 * 3)"

definition apr_base64_decode_len :: "cstring \<Rightarrow> int" where
  "apr_base64_decode_len bufcoded = int32 (decoded_bytes (nprbytes bufcoded 0) + 1)"

definition dec1 :: "byte \<Rightarrow> byte \<Rightarrow> byte" where
  "dec1 a b = push_bit 2 (six a) OR drop_bit 4 (six b)"

definition dec2 :: "byte \<Rightarrow> byte \<Rightarrow> byte" where
  "dec2 b c = push_bit 4 (six b) OR drop_bit 2 (six c)"

definition dec3 :: "byte \<Rightarrow> byte \<Rightarrow> byte" where
  "dec3 c d = push_bit 6 (six c) OR six d"

text \<open>The loop for groups of four characters. The result is the block, the position \<open>bufout\<close>, the
  position \<open>bufin\<close> and what is left of \<open>nprbytes\<close>.\<close>

function decode_loop :: "cstring \<Rightarrow> byte mem \<Rightarrow> nat \<Rightarrow> nat \<Rightarrow> nat \<Rightarrow> (byte mem \<times> nat \<times> nat \<times> nat) option" where
  "decode_loop s m bufout bufin n =
     (if n > 4 then
        Option.bind (mem_write m bufout
            [dec1 (cget s bufin) (cget s (bufin + 1)), dec2 (cget s (bufin + 1)) (cget s (bufin + 2)),
             dec3 (cget s (bufin + 2)) (cget s (bufin + 3))])
          (\<lambda>m'. decode_loop s m' (bufout + 3) (bufin + 4) (n - 4))
      else Some (m, bufout, bufin, n))"
  by pat_completeness auto
termination
  by (relation "measure (\<lambda>(s, m, bufout, bufin, n). n)") auto

declare decode_loop.simps [simp del]

definition decode_tail :: "cstring \<Rightarrow> byte mem \<Rightarrow> nat \<Rightarrow> nat \<Rightarrow> nat \<Rightarrow> byte mem option" where
  "decode_tail s m bufout bufin n =
     mem_write m bufout
       ((if n > 1 then [dec1 (cget s bufin) (cget s (bufin + 1))] else []) @
        (if n > 2 then [dec2 (cget s (bufin + 1)) (cget s (bufin + 2))] else []) @
        (if n > 3 then [dec3 (cget s (bufin + 2)) (cget s (bufin + 3))] else []))"

definition apr_base64_decode_binary :: "byte mem \<Rightarrow> cstring \<Rightarrow> (byte mem \<times> int) option" where
  "apr_base64_decode_binary bufplain bufcoded =
     (let n = nprbytes bufcoded 0 in
      Option.bind (decode_loop bufcoded bufplain 0 0 n)
        (\<lambda>(m, bufout, bufin, n'). map_option
           (\<lambda>m'. (m', decoded_bytes n - ((4 - int n') AND 3))) (decode_tail bufcoded m bufout bufin n')))"

definition apr_base64_decode :: "byte mem \<Rightarrow> cstring \<Rightarrow> (byte mem \<times> int) option" where
  "apr_base64_decode bufplain bufcoded =
     Option.bind (apr_base64_decode_binary bufplain bufcoded)
       (\<lambda>(m, len). if len < 0 then None else map_option (\<lambda>m'. (m', len)) (mem_write m (nat len) [0]))"

definition apr_base64_encode_len :: "int \<Rightarrow> int" where
  "apr_base64_encode_len len = int32 (int32 (int32 (len + 2) sdiv 3 * 4) + 1)"

definition enc1 :: "byte \<Rightarrow> byte" where
  "enc1 a = basis_64 ! unat (drop_bit 2 a AND 0x3F)"

definition enc2 :: "byte \<Rightarrow> byte \<Rightarrow> byte" where
  "enc2 a b = basis_64 ! unat (push_bit 4 (a AND 0x3) OR drop_bit 4 (b AND 0xF0))"

definition enc3 :: "byte \<Rightarrow> byte \<Rightarrow> byte" where
  "enc3 b c = basis_64 ! unat (push_bit 2 (b AND 0xF) OR drop_bit 6 (c AND 0xC0))"

definition enc4 :: "byte \<Rightarrow> byte" where
  "enc4 c = basis_64 ! unat (c AND 0x3F)"

definition enc2_last :: "byte \<Rightarrow> byte" where
  "enc2_last a = basis_64 ! unat (push_bit 4 (a AND 0x3))"

definition enc3_last :: "byte \<Rightarrow> byte" where
  "enc3_last b = basis_64 ! unat (push_bit 2 (b AND 0xF))"

function encode_loop :: "byte list \<Rightarrow> int \<Rightarrow> byte mem \<Rightarrow> nat \<Rightarrow> nat \<Rightarrow> (byte mem \<times> nat \<times> nat) option" where
  "encode_loop s len m p i =
     (if int i < len - 2 then
        if i + 2 < length s then
          Option.bind (mem_write m p [enc1 (s ! i), enc2 (s ! i) (s ! (i + 1)), enc3 (s ! (i + 1)) (s ! (i + 2)), enc4 (s ! (i + 2))])
            (\<lambda>m'. encode_loop s len m' (p + 4) (i + 3))
        else None
      else Some (m, p, i))"
  by pat_completeness auto
termination
  by (relation "measure (\<lambda>(s, len, m, p, i). nat (len - int i))") auto

declare encode_loop.simps [simp del]

definition encode_tail :: "byte list \<Rightarrow> int \<Rightarrow> byte mem \<Rightarrow> nat \<Rightarrow> nat \<Rightarrow> (byte mem \<times> nat) option" where
  "encode_tail s len m p i =
     (if int i < len then
        if int (length s) < len then None
        else
          map_option (\<lambda>m'. (m', p + 4))
            (mem_write m p ((if int i = len - 1 then [enc1 (s ! i), enc2_last (s ! i), 0x3d]
               else [enc1 (s ! i), enc2 (s ! i) (s ! (i + 1)), enc3_last (s ! (i + 1))]) @ [0x3d]))
      else Some (m, p))"

definition apr_base64_encode_binary :: "byte mem \<Rightarrow> byte list \<Rightarrow> int \<Rightarrow> (byte mem \<times> int) option" where
  "apr_base64_encode_binary encoded string len =
     Option.bind (encode_loop string len encoded 0 0)
       (\<lambda>(m, p, i). Option.bind (encode_tail string len m p i)
          (\<lambda>(m', p'). map_option (\<lambda>m''. (m'', int32 (int p' + 1))) (mem_write m' p' [0])))"

definition apr_base64_encode :: "byte mem \<Rightarrow> byte list \<Rightarrow> int \<Rightarrow> (byte mem \<times> int) option" where
  "apr_base64_encode encoded string len = apr_base64_encode_binary encoded string len"

section \<open>The code\<close>

text \<open>The code as a function on lists: the values of the characters without the padding.\<close>

fun six_values :: "byte list \<Rightarrow> byte list" where
  "six_values (a # b # c # r) =
     [drop_bit 2 a AND 0x3F, push_bit 4 (a AND 0x3) OR drop_bit 4 (b AND 0xF0),
      push_bit 2 (b AND 0xF) OR drop_bit 6 (c AND 0xC0), c AND 0x3F] @ six_values r"
| "six_values [a, b] =
     [drop_bit 2 a AND 0x3F, push_bit 4 (a AND 0x3) OR drop_bit 4 (b AND 0xF0), push_bit 2 (b AND 0xF)]"
| "six_values [a] = [drop_bit 2 a AND 0x3F, push_bit 4 (a AND 0x3)]"
| "six_values [] = []"

fun base64 :: "byte list \<Rightarrow> cstring" where
  "base64 (a # b # c # r) = [enc1 a, enc2 a b, enc3 b c, enc4 c] @ base64 r"
| "base64 [a, b] = [enc1 a, enc2 a b, enc3_last b, 0x3d]"
| "base64 [a] = [enc1 a, enc2_last a, 0x3d, 0x3d]"
| "base64 [] = []"

text \<open>The bytes of a list of six bit values.\<close>

fun unsix :: "byte list \<Rightarrow> byte list" where
  "unsix (a # b # c # d # r) =
     [push_bit 2 a OR drop_bit 4 b, push_bit 4 b OR drop_bit 2 c, push_bit 6 c OR d] @ unsix r"
| "unsix [a, b, c] = [push_bit 2 a OR drop_bit 4 b, push_bit 4 b OR drop_bit 2 c]"
| "unsix [a, b] = [push_bit 2 a OR drop_bit 4 b]"
| "unsix [a] = []"
| "unsix [] = []"

lemma byte_bits:
  fixes x y :: byte
  assumes "\<And>n. n \<in> {0, 1, 2, 3, 4, 5, 6, 7} \<Longrightarrow> bit x n = bit y n"
  shows "x = y"
proof (rule bit_word_eqI)
  fix n assume "n < LENGTH(8)"
  then have "n \<in> {0, 1, 2, 3, 4, 5, 6, 7}" by auto
  then show "bit x n = bit y n" by (rule assms)
qed

lemma unsix_bits:
  fixes a b c :: byte
  shows "push_bit 2 (drop_bit 2 a AND 0x3F) OR drop_bit 4 (push_bit 4 (a AND 0x3) OR drop_bit 4 (b AND 0xF0)) = a"
    and "push_bit 4 (push_bit 4 (a AND 0x3) OR drop_bit 4 (b AND 0xF0)) OR drop_bit 2 (push_bit 2 (b AND 0xF) OR drop_bit 6 (c AND 0xC0)) = b"
    and "push_bit 6 (push_bit 2 (b AND 0xF) OR drop_bit 6 (c AND 0xC0)) OR (c AND 0x3F) = c"
    and "push_bit 2 (drop_bit 2 a AND 0x3F) OR drop_bit 4 (push_bit 4 (a AND 0x3)) = a"
    and "push_bit 4 (push_bit 4 (a AND 0x3) OR drop_bit 4 (b AND 0xF0)) OR drop_bit 2 (push_bit 2 (b AND 0xF)) = b"
  by (rule byte_bits, (auto simp: bit_simps; simp only: numeral_2_eq_2 numeral_3_eq_3))+

lemma unsix_six_values: "unsix (six_values s) = s"
  by (induction s rule: six_values.induct) 
    (simp_all only: six_values.simps unsix.simps append.simps unsix_bits)

lemma six_range:
  fixes a b c :: byte
  shows "unat (drop_bit 2 a AND 0x3F) < 64" "unat (push_bit 4 (a AND 0x3) OR drop_bit 4 (b AND 0xF0)) < 64"
    "unat (push_bit 2 (b AND 0xF) OR drop_bit 6 (c AND 0xC0)) < 64" "unat (c AND 0x3F) < 64"
    "unat (push_bit 4 (a AND 0x3)) < 64" "unat (push_bit 2 (b AND 0xF)) < 64"
proof -
  have m: "unat (x AND 0x3F) < 64" for x :: byte
    using word_and_le1 [of x "0x3F"] by (simp add: word_le_nat_alt)
  have e: "unat x < 64" if "x AND 0x3F = x" for x :: byte using m [of x] that by simp
  show "unat (drop_bit 2 a AND 0x3F) < 64" "unat (c AND 0x3F) < 64" by (rule m)+
  show "unat (push_bit 4 (a AND 0x3) OR drop_bit 4 (b AND 0xF0)) < 64"
    "unat (push_bit 2 (b AND 0xF) OR drop_bit 6 (c AND 0xC0)) < 64"
    "unat (push_bit 4 (a AND 0x3)) < 64" "unat (push_bit 2 (b AND 0xF)) < 64"
    by (rule e, rule byte_bits; auto simp: bit_simps numeral_2_eq_2 numeral_3_eq_3)+
qed

lemma six_basis: "unat v < 64 \<Longrightarrow> six (basis_64 ! unat v) = v"
proof -
  have "\<forall>n \<in> set [0..<64]. six (basis_64 ! n) = of_nat n"
    by (simp add: upt_rec six_def basis_64_def pr2six_def)
  then show "unat v < 64 \<Longrightarrow> six (basis_64 ! unat v) = v" by simp
qed

section \<open>Encoding\<close>

lemma four_more: "Suc (Suc (Suc (Suc p))) = p + 4"
  by simp

lemma base64_length: "length (base64 s) = (length s + 2) div 3 * 4"
proof (induction s rule: base64.induct)
  case (1 a b c r)
  have "(length (a # b # c # r) + 2) div 3 = (length r + 2) div 3 + 1" by simp
  then show ?case using 1 by simp
qed simp_all

lemma take_drop_nth: "i < n \<Longrightarrow> n \<le> length s \<Longrightarrow> drop i (take n s) = s ! i # drop (Suc i) (take n s)"
  by (simp add: Cons_nth_drop_Suc [symmetric])

lemma encode_step: "i + 2 < n \<Longrightarrow> n \<le> length s \<Longrightarrow> base64 (drop i (take n s)) =
    [enc1 (s ! i), enc2 (s ! i) (s ! (i + 1)), enc3 (s ! (i + 1)) (s ! (i + 2)), enc4 (s ! (i + 2))] @
    base64 (drop (i + 3) (take n s))"
  using take_drop_nth [of i n s] take_drop_nth [of "i + 1" n s] take_drop_nth [of "i + 2" n s]
  by (simp add: numeral_3_eq_3)

lemma encode_last:
  "i + 2 = n \<Longrightarrow> n \<le> length s \<Longrightarrow> base64 (drop i (take n s)) = [enc1 (s ! i), enc2 (s ! i) (s ! (i + 1)), enc3_last (s ! (i + 1)), 0x3d]"
  "i + 1 = n \<Longrightarrow> n \<le> length s \<Longrightarrow> base64 (drop i (take n s)) = [enc1 (s ! i), enc2_last (s ! i), 0x3d, 0x3d]"
  using take_drop_nth [of i n s] take_drop_nth [of "i + 1" n s] by auto

definition finish_encode :: "byte list \<Rightarrow> int \<Rightarrow> byte mem \<times> nat \<times> nat \<Rightarrow> (byte mem \<times> int) option" where
  "finish_encode s len = (\<lambda>(m, p, i). Option.bind (encode_tail s len m p i)
     (\<lambda>(m', p'). map_option (\<lambda>m''. (m'', int32 (int p' + 1))) (mem_write m' p' [0])))"

lemma finish_encode:
  assumes "i \<le> n" and "n < i + 3" and "n \<le> length s"
  shows "finish_encode s (int n) (m, p, i) = map_option (\<lambda>m'. (m', int32 (int (p + length (base64 (drop i (take n s)))) + 1)))
    (mem_write m p (base64 (drop i (take n s)) @ [0]))"
proof -
  consider "i = n" | "i + 1 = n" | "i + 2 = n" using assms by linarith
  then show ?thesis
  proof cases
    case 1
    then show ?thesis by (simp add: finish_encode_def encode_tail_def)
  next
    case 2
    then show ?thesis using assms(3) encode_last(2) [OF 2 assms(3)]
      by (simp only: mem_write_cat) (auto simp: finish_encode_def encode_tail_def four_more split: Option.bind_split)
  next
    case 3
    then show ?thesis using assms(3) encode_last(1) [OF 3 assms(3)]
      by (simp only: mem_write_cat) (auto simp: finish_encode_def encode_tail_def four_more split: Option.bind_split)
  qed
qed

lemma encode_from:
  "i \<le> n \<Longrightarrow> n \<le> length s \<Longrightarrow> Option.bind (encode_loop s (int n) m p i) (finish_encode s (int n)) =
   map_option (\<lambda>m'. (m', int32 (int (p + length (base64 (drop i (take n s)))) + 1))) (mem_write m p (base64 (drop i (take n s)) @ [0]))"
proof (induction "n - i" arbitrary: i m p rule: less_induct)
  case less
  show ?case
  proof (cases "i + 2 < n")
    case True
    let ?w = "[enc1 (s ! i), enc2 (s ! i) (s ! (i + 1)), enc3 (s ! (i + 1)) (s ! (i + 2)), enc4 (s ! (i + 2))]"
    have l: "encode_loop s (int n) m p i = Option.bind (mem_write m p ?w) (\<lambda>m'. encode_loop s (int n) m' (p + 4) (i + 3))"
      using True less.prems by (subst encode_loop.simps) simp
    have IH: "Option.bind (encode_loop s (int n) m' (p + 4) (i + 3)) (finish_encode s (int n)) =
        map_option (\<lambda>m''. (m'', int32 (int (p + 4 + length (base64 (drop (i + 3) (take n s)))) + 1)))
          (mem_write m' (p + 4) (base64 (drop (i + 3) (take n s)) @ [0]))" for m'
      using less.hyps [of "i + 3" m' "p + 4"] True less.prems by simp
    show ?thesis
      unfolding l encode_step [OF True less.prems(2)] append_assoc mem_write_cat [of m p ?w]
      by (cases "mem_write m p ?w") (simp_all add: IH four_more del: append.simps)
  next
    case False
    then have "encode_loop s (int n) m p i = Some (m, p, i)" by (subst encode_loop.simps) simp
    then show ?thesis using False less.prems by (simp add: finish_encode del: of_nat_add)
  qed
qed

lemma encode_binary:
  "n \<le> length s \<Longrightarrow> apr_base64_encode_binary m s (int n) =
   map_option (\<lambda>m'. (m', int32 (int (length (base64 (take n s))) + 1))) (mem_write m 0 (base64 (take n s) @ [0]))"
  using encode_from [of 0 n s m 0] by (simp add: apr_base64_encode_binary_def finish_encode_def)

section \<open>Decoding\<close>

definition coded :: "cstring \<Rightarrow> cstring" where
  "coded s = takeWhile (\<lambda>c. six c \<le> 63) s"

definition plain_of :: "cstring \<Rightarrow> byte list" where
  "plain_of s = unsix (map six (coded s))"

lemma six_NUL: "\<not> six 0 \<le> 63"
  by (simp add: six_def pr2six_def)

lemma nprbytes_from: "i \<le> length s \<Longrightarrow> nprbytes s i = i + length (coded (drop i s))"
proof (induction "length s - i" arbitrary: i)
  case 0
  then show ?case by (subst nprbytes.simps) (simp add: cget_def six_NUL coded_def)
next
  case (Suc k)
  then have i: "i < length s" by simp
  then have "drop i s = s ! i # drop (Suc i) s" by (simp add: Cons_nth_drop_Suc)
  then show ?case using Suc i by (subst nprbytes.simps) (simp add: cget_def coded_def)
qed

lemma nprbytes_coded: "nprbytes s 0 = length (coded s)"
  using nprbytes_from [of 0 s] by simp

text \<open>The values of \<open>n\<close> characters from a position.\<close>

definition vals :: "cstring \<Rightarrow> nat \<Rightarrow> nat \<Rightarrow> byte list" where
  "vals s bufin n = map (\<lambda>j. six (cget s (bufin + j))) [0..<n]"

lemma vals_Suc: "vals s i (Suc n) = six (cget s i) # vals s (Suc i) n"
  by (simp add: vals_def upt_conv_Cons map_Suc_upt [symmetric] comp_def del: upt_Suc)

lemma vals_coded: "vals s 0 (length (coded s)) = map six (coded s)"
proof (rule nth_equalityI)
  fix j assume j: "j < length (vals s 0 (length (coded s)))"
  then have "j < length (coded s)" by (simp add: vals_def)
  then show "vals s 0 (length (coded s)) ! j = map six (coded s) ! j"
    using length_takeWhile_le [of "\<lambda>c. six c \<le> 63" s] takeWhile_nth [of j "\<lambda>c. six c \<le> 63" s]
    by (simp add: vals_def cget_def coded_def)
qed (simp add: vals_def)

lemma decode_tail_vals: "n \<le> 4 \<Longrightarrow> decode_tail s m bufout bufin n = mem_write m bufout (unsix (vals s bufin n))"
proof -
  assume "n \<le> 4"
  then consider "n = 0" | "n = 1" | "n = 2" | "n = 3" | "n = 4" by linarith
  then show ?thesis
    by cases (simp_all add: decode_tail_def vals_Suc [unfolded One_nat_def] numeral_eq_Suc dec1_def dec2_def dec3_def vals_def [of s _ 0])
qed

definition rest4 :: "nat \<Rightarrow> nat" where
  "rest4 n = (if n = 0 then 0 else (n - 1) mod 4 + 1)"

lemma decode_all:
  "Option.bind (decode_loop s m bufout bufin n)
     (\<lambda>(m, bufout, bufin, n'). map_option (\<lambda>m'. (m', n')) (decode_tail s m bufout bufin n')) =
   map_option (\<lambda>m'. (m', rest4 n)) (mem_write m bufout (unsix (vals s bufin n)))"
proof (induction n arbitrary: m bufout bufin rule: less_induct)
  case (less n)
  show ?case
  proof (cases "n > 4")
    case True
    let ?w = "[dec1 (cget s bufin) (cget s (bufin + 1)), dec2 (cget s (bufin + 1)) (cget s (bufin + 2)),
             dec3 (cget s (bufin + 2)) (cget s (bufin + 3))]"
    have l: "decode_loop s m bufout bufin n = Option.bind (mem_write m bufout ?w) (\<lambda>m'. decode_loop s m' (bufout + 3) (bufin + 4) (n - 4))"
      using True by (subst decode_loop.simps) simp
    obtain k where k: "n = Suc (Suc (Suc (Suc k)))" "n - 4 = k" "0 < k" using True
      by (intro that [of "n - 4"]) auto
    have v: "unsix (vals s bufin n) = ?w @ unsix (vals s (bufin + 4) (n - 4))"
      unfolding k by (simp add: vals_Suc dec1_def dec2_def dec3_def numeral_eq_Suc)
    have r: "rest4 (n - 4) = rest4 n" using k by (cases k) (simp_all add: rest4_def)
    show ?thesis
      unfolding l v mem_write_cat
      by (cases "mem_write m bufout ?w") (use less.IH [of "n - 4"] True r in \<open>simp_all add: numeral_3_eq_3 del: append.simps\<close>)
  next
    case False
    then have "decode_loop s m bufout bufin n = Some (m, bufout, bufin, n)" by (subst decode_loop.simps) simp
    moreover have "rest4 n = n" using False by (auto simp: rest4_def)
    ultimately show ?thesis using False by (simp add: decode_tail_vals)
  qed
qed

lemma int32_id: "- (2 ^ 31) \<le> x \<Longrightarrow> x < 2 ^ 31 \<Longrightarrow> int32 x = x"
  by (simp add: swrap_id)

lemma unsix_length: "length (unsix vs) = length vs div 4 * 3 + (length vs mod 4 - 1)"
proof (induction vs rule: unsix.induct)
  case (1 a b c d r)
  have "length (a # b # c # d # r) div 4 = length r div 4 + 1" by simp
  then show ?case using 1 by simp
qed simp_all

lemma div4_up: "(n + 3) div 4 = (if n mod 4 = 0 then n div 4 else n div 4 + 1)" for n :: nat
proof -
  define q r where "q = n div 4" and "r = n mod 4"
  have n: "n = 4 * q + r" "r < 4" by (simp_all add: q_def r_def)
  then have "(n + 3) div 4 = (if r = 0 then q else q + 1)" by (auto intro!: div_nat_eqI)
  then show ?thesis by (simp only: q_def r_def)
qed

lemma div4_bound: "(n + 3) div 4 * 3 \<le> n + 2" "n div 4 * 3 + (n mod 4 - 1) \<le> (n + 3) div 4 * 3" for n :: nat
proof -
  define q r where "q = n div 4" and "r = n mod 4"
  have n: "n = 4 * q + r" "r < 4" by (simp_all add: q_def r_def)
  show "(n + 3) div 4 * 3 \<le> n + 2" "n div 4 * 3 + (n mod 4 - 1) \<le> (n + 3) div 4 * 3"
    unfolding div4_up q_def [symmetric] r_def [symmetric] using n by auto
qed

lemma decoded_bytes: "n + 3 < 2 ^ 31 \<Longrightarrow> decoded_bytes n = int ((n + 3) div 4 * 3)"
proof -
  assume n: "n + 3 < 2 ^ 31"
  have "int32 (int n) = int n" "int32 (int n + 3) = int n + 3" using n by (simp_all add: int32_id)
  moreover have "(int n + 3) sdiv 4 = int ((n + 3) div 4)" by (simp add: signed_divide_int_eq_divide_int zdiv_int)
  moreover have "int32 (int ((n + 3) div 4) * 3) = int ((n + 3) div 4) * 3" 
  proof (rule int32_id)
    have "int k * 3 \<le> int n + 2" if "k * 3 \<le> n + 2" for k using that by linarith
    then have "int ((n + 3) div 4) * 3 \<le> int n + 2" using div4_bound(1) [of n] by blast
    then show "int ((n + 3) div 4) * 3 < 2 ^ 31" using n by simp
  qed simp
  ultimately show ?thesis by (simp add: decoded_bytes_def)
qed

lemma decoded_count:
  assumes "n + 3 < 2 ^ 31"
  shows "decoded_bytes n - ((4 - int (rest4 n)) AND 3) = int (n div 4 * 3 + (n mod 4 - 1))"
proof -
  define q r where "q = n div 4" and "r = n mod 4"
  have n: "n = 4 * q + r" "r < 4" by (simp_all add: q_def r_def)
  have d: "decoded_bytes n = int ((n + 3) div 4 * 3)" using assms by (rule decoded_bytes)
  have m4: "(4 * a + b) mod 4 = b" if "b < 4" for a b :: nat using that by simp
  have e: "(n + 3) div 4 = (if r = 0 then q else q + 1)" by (simp only: div4_up q_def r_def)
  have f: "rest4 n = (if n = 0 then 0 else if r = 0 then 4 else r)"
  proof (cases "r = 0")
    case True
    then show ?thesis using n m4 [of 3 "q - 1"] by (cases q) (simp_all add: rest4_def)
  next
    case False
    then have "n - 1 = 4 * q + (r - 1)" using n by simp
    then show ?thesis using m4 [of "r - 1" q] n False by (simp add: rest4_def)
  qed
  consider "r = 0" "n = 0" | "r = 0" "n \<noteq> 0" | "r = 1" | "r = 2" | "r = 3" using n(2) by linarith
  then show ?thesis unfolding d e f q_def [symmetric] r_def [symmetric] by cases (use n(1) in simp_all)
qed

lemma decode_binary:
  assumes "length (coded s) + 3 < 2 ^ 31"
  shows "apr_base64_decode_binary m s = map_option (\<lambda>m'. (m', int (length (plain_of s)))) (mem_write m 0 (plain_of s))"
proof -
  let ?n = "length (coded s)"
  have f: "(\<lambda>(m, bufout, bufin, n'). map_option (\<lambda>m'. (m', decoded_bytes ?n - ((4 - int n') AND 3))) (decode_tail s m bufout bufin n')) =
      (\<lambda>x. map_option (\<lambda>(m', n'). (m', decoded_bytes ?n - ((4 - int n') AND 3)))
        ((\<lambda>(m, bufout, bufin, n'). map_option (\<lambda>m'. (m', n')) (decode_tail s m bufout bufin n')) x))"
    by (auto simp: option.map_comp comp_def fun_eq_iff)
  have "apr_base64_decode_binary m s = map_option (\<lambda>(m', n'). (m', decoded_bytes ?n - ((4 - int n') AND 3)))
      (Option.bind (decode_loop s m 0 0 ?n) (\<lambda>(m, bufout, bufin, n'). map_option (\<lambda>m'. (m', n')) (decode_tail s m bufout bufin n')))"
    unfolding apr_base64_decode_binary_def nprbytes_coded Let_def f by (cases "decode_loop s m 0 0 ?n") simp_all
  also have "\<dots> = map_option (\<lambda>m'. (m', int (length (plain_of s)))) (mem_write m 0 (plain_of s))"
    unfolding decode_all vals_coded
    by (simp add: option.map_comp comp_def plain_of_def unsix_length decoded_count [OF assms, simplified])
  finally show ?thesis .
qed

section \<open>Round trip\<close>

lemma six_le_63: "unat v < 64 \<Longrightarrow> v \<le> (63 :: byte)"
  by (simp add: word_le_nat_alt)

lemma six_pad: "\<not> six 0x3d \<le> 63"
  by (simp add: six_def pr2six_def)

lemmas enc_defs = enc1_def enc2_def enc3_def enc4_def enc2_last_def enc3_last_def

lemma six_enc:
  "six (enc1 a) = drop_bit 2 a AND 0x3F" "six (enc2 a b) = push_bit 4 (a AND 0x3) OR drop_bit 4 (b AND 0xF0)"
  "six (enc3 b c) = push_bit 2 (b AND 0xF) OR drop_bit 6 (c AND 0xC0)" "six (enc4 c) = c AND 0x3F"
  "six (enc2_last a) = push_bit 4 (a AND 0x3)" "six (enc3_last b) = push_bit 2 (b AND 0xF)"
  unfolding enc_defs by (intro six_basis six_range)+

lemma enc_le:
  "six (enc1 a) \<le> 63" "six (enc2 a b) \<le> 63" "six (enc3 b c) \<le> 63" "six (enc4 c) \<le> 63" "six (enc2_last a) \<le> 63" "six (enc3_last b) \<le> 63"
  unfolding six_enc by (intro six_le_63 six_range)+

lemmas enc_le_value = enc_le [unfolded six_enc]

lemma coded_base64: "map six (coded (base64 s)) = six_values s"
  unfolding coded_def
  by (induction s rule: base64.induct)
    (simp_all only: base64.simps six_values.simps append.simps takeWhile.simps enc_le enc_le_value six_pad if_True if_False list.map six_enc)

lemma plain_base64: "plain_of (base64 s) = s"
  by (simp only: plain_of_def coded_base64 unsix_six_values)

lemma coded_length: "length (coded s) \<le> length s"
  by (simp add: coded_def length_takeWhile_le)

text \<open>The two length functions and the space the calls need.\<close>

lemma encode_len:
  assumes "length s \<le> 1610612733"
  shows "apr_base64_encode_len (int (length s)) = int (length (base64 s)) + 1"
proof -
  have le: "(length s + 2) div 3 * 4 < 2 ^ 31 - 1"
  proof -
    have "(length s + 2) div 3 \<le> 1610612735 div 3" using assms by (intro div_le_mono) simp
    then show ?thesis by simp
  qed
  then have "int ((length s + 2) div 3 * 4) < int (2 ^ 31 - 1)" by (simp only: of_nat_less_iff)
  then have "int32 (int ((length s + 2) div 3) * 4) = int ((length s + 2) div 3) * 4"
    "int32 (int ((length s + 2) div 3) * 4 + 1) = int ((length s + 2) div 3) * 4 + 1"
    by (intro int32_id; simp)+
  moreover have "int32 (int (length s) + 2) = int (length s + 2)" using assms by (subst int32_id) simp_all
  moreover have "int (length s + 2) sdiv 3 = int ((length s + 2) div 3)"
    by (simp add: signed_divide_int_eq_divide_int zdiv_int)
  ultimately show ?thesis by (simp add: apr_base64_encode_len_def base64_length del: of_nat_add)
qed

lemma decode_len:
  assumes "length (coded s) + 3 < 2 ^ 31"
  shows "apr_base64_decode_len s = int ((length (coded s) + 3) div 4 * 3) + 1"
proof -
  have "int ((length (coded s) + 3) div 4 * 3) \<le> int (length (coded s) + 2)"
    using div4_bound(1) [of "length (coded s)"] by (simp only: of_nat_le_iff)
  then have "int ((length (coded s) + 3) div 4 * 3) < 2 ^ 31 - 1" using assms by simp
  then show ?thesis using decoded_bytes [OF assms]
    by (simp add: apr_base64_decode_len_def nprbytes_coded int32_id)
qed

lemma plain_fits: "length (plain_of s) \<le> (length (coded s) + 3) div 4 * 3"
  using div4_bound(2) [of "length (coded s)"] by (simp add: plain_of_def unsix_length)

lemma base64_bound: "length s \<le> 1610612733 \<Longrightarrow> length (base64 s) + 3 < 2 ^ 31"
proof -
  assume "length s \<le> 1610612733"
  then have "(length s + 2) div 3 \<le> 1610612735 div 3" by (intro div_le_mono) simp
  then show ?thesis by (simp add: base64_length)
qed

lemma base64_alphabet: "set (base64 s) \<subseteq> set basis_64 \<union> {0x3d}"
proof -
  have b: "length basis_64 = 64" by (simp add: basis_64_def)
  have "{enc1 a, enc2 a b, enc3 b c, enc4 c, enc2_last a, enc3_last b} \<subseteq> set basis_64" for a b c
    unfolding enc_defs insert_subset by (intro conjI nth_mem empty_subsetI; simp only: b six_range)
  then show ?thesis by (induction s rule: base64.induct) auto
qed

lemma mem_write_all: "length xs = n \<Longrightarrow> mem_write (palloc n) 0 xs = Some (map Some xs)"
  by (simp add: mem_write_def palloc_def)

lemma decode_fits:
  assumes "length (coded s) + 3 < 2 ^ 31"
  shows "\<exists>m. apr_base64_decode (palloc (nat (apr_base64_decode_len s))) s = Some (m, int (length (plain_of s))) \<and>
    length m = nat (apr_base64_decode_len s) \<and>
    take (length (plain_of s)) m = map Some (plain_of s) \<and> m ! length (plain_of s) = Some 0"
proof -
  define k where "k = nat (apr_base64_decode_len s)"
  have k: "length (plain_of s) + 1 \<le> k" using plain_fits [of s] by (simp add: k_def decode_len [OF assms])
  let ?m = "map Some (plain_of s) @ palloc (k - length (plain_of s))"
  have "mem_write (palloc k) 0 (plain_of s) = Some ?m" using k mem_write_append [of 0 "[]" "plain_of s" k] by simp
  moreover have "mem_write ?m (length (plain_of s)) [0] = Some (map Some (plain_of s @ [0]) @ palloc (k - length (plain_of s @ [0])))"
    using k by (intro mem_write_append) simp_all
  ultimately have "apr_base64_decode (palloc k) s =
      Some (map Some (plain_of s @ [0]) @ palloc (k - length (plain_of s @ [0])), int (length (plain_of s)))"
    by (simp add: apr_base64_decode_def decode_binary [OF assms])
  then show ?thesis using k by (simp add: k_def [symmetric] nth_append)
qed

text \<open>One byte more than the bound of the round trip, and the length overflows.\<close>

lemma encode_len_overflow: "apr_base64_encode_len 1610612734 < 0"
  by (simp add: apr_base64_encode_len_def swrap_def)

section \<open>Properties\<close>

text \<open>C40: base 64 round trip. Encoding fills a block of the size \<open>apr_base64_encode_len\<close> gives exactly, with a text
  of the base 64 alphabet and its NUL, and decoding that text into a block of the size \<open>apr_base64_decode_len\<close> gives
  returns the length and the bytes again, followed by a NUL. The bound on the length is the one below which the
  \<open>int\<close> lengths do not overflow.\<close>

theorem base64_roundtrip:
  assumes "length s \<le> 1610612733"
  shows "\<exists>t m. apr_base64_encode (palloc (nat (apr_base64_encode_len (int (length s))))) s (int (length s)) =
      Some (map Some (t @ [0]), apr_base64_encode_len (int (length s))) \<and>
    set t \<subseteq> set basis_64 \<union> {0x3d} \<and>
    apr_base64_decode (palloc (nat (apr_base64_decode_len t))) t = Some (m, int (length s)) \<and>
    take (length s) m = map Some s \<and> m ! length s = Some 0"
proof -
  have l: "int32 (int (length (base64 s)) + 1) = int (length (base64 s)) + 1"
    using base64_bound [OF assms] by (intro int32_id) simp_all
  have "apr_base64_encode (palloc (nat (apr_base64_encode_len (int (length s))))) s (int (length s)) =
      Some (map Some (base64 s @ [0]), apr_base64_encode_len (int (length s)))"
    by (simp add: apr_base64_encode_def encode_binary encode_len [OF assms] l mem_write_all nat_add_distrib)
  moreover have "length (coded (base64 s)) + 3 < 2 ^ 31"
    using base64_bound [OF assms] coded_length [of "base64 s"] by simp
  ultimately show ?thesis using decode_fits [of "base64 s"] base64_alphabet [of s] unfolding plain_base64 by blast
qed

theorem base64_roundtrip_witness:
  "\<exists>t. apr_base64_encode (palloc (nat (apr_base64_encode_len 4))) (cstr ''jBPM'') 4 =
     Some (map Some (t @ [0]), apr_base64_encode_len 4)"
  using base64_roundtrip [of "cstr ''jBPM''"] by auto

text \<open>decoding is safe for every text. A block of \<open>apr_base64_decode_len\<close> bytes is never overrun, whatever
  characters the text has, and the result is what the characters before the first one outside the alphabet stand
  for, with a NUL behind it.\<close>

theorem base64_decode_safe:
  assumes "length s + 3 < 2 ^ 31"
  shows "\<exists>m. apr_base64_decode (palloc (nat (apr_base64_decode_len s))) s = Some (m, int (length (plain_of s))) \<and>
    length m = nat (apr_base64_decode_len s) \<and>
    take (length (plain_of s)) m = map Some (plain_of s) \<and> m ! length (plain_of s) = Some 0"
  using assms coded_length [of s] by (intro decode_fits) simp

theorem base64_decode_safe_witness:
  "\<exists>m. apr_base64_decode (palloc (nat (apr_base64_decode_len (cstr ''QUJ!'')))) (cstr ''QUJ!'') = Some (m, 2)"
proof -
  have "plain_of (cstr ''QUJ!'') = cstr ''AB''" by (simp add: plain_of_def coded_def six_def pr2six_def)
  then show ?thesis using base64_decode_safe [of "cstr ''QUJ!''"] by auto
qed

end
