(* ===== verification/AprQueue.thy ===== *)
theory AprQueue
  imports Interfaces
begin

text \<open>
  The bounded queue of \<open>apr-util-1.3.9/misc/apr_queue.c\<close>, used by any number of threads.

  \<open>apr_queue\<close> is the structure without its mutex and its two condition variables. Between \<open>apr_thread_mutex_lock\<close>
  and the next \<open>apr_thread_mutex_unlock\<close> or \<open>apr_thread_cond_wait\<close> a thread is alone, so each such section is
  one step: the functions \<open>..._crit\<close> (from the lock) and \<open>..._woken\<close> (from the return of the wait) take the queue and
  return the queue and how the section ends. What a thread reads outside the mutex (\<open>terminated\<close>, on entry and after
  an interruption) is a step of its own. The calls of the thread library behave as POSIX says: a lock, a wait or a
  signal may fail, with a status other than \<open>APR_SUCCESS\<close>; a wait may return without a signal; a signal wakes one
  waiting thread if there is one; unlocking a mutex the thread holds succeeds.
\<close>

section \<open>The queue\<close>

datatype status = APR_SUCCESS | APR_EOF | APR_EINTR | APR_EAGAIN | APR_OTHER int

record 'a apr_queue =
  qdata :: "'a option list"
  qnelts :: u32
  qin :: u32
  qout :: u32
  qbounds :: u32
  full_waiters :: u32
  empty_waiters :: u32
  terminated :: bool

definition apr_queue_full :: "'a apr_queue \<Rightarrow> bool" where
  "apr_queue_full q \<longleftrightarrow> qnelts q = qbounds q"

definition apr_queue_empty :: "'a apr_queue \<Rightarrow> bool" where
  "apr_queue_empty q \<longleftrightarrow> qnelts q = 0"

text \<open>The arguments of \<open>apr_queue_create\<close> are the statuses of the creation of the mutex and of the two condition
  variables, and the capacity.\<close>

definition apr_queue_create :: "status \<Rightarrow> status \<Rightarrow> status \<Rightarrow> u32 \<Rightarrow> status + 'a apr_queue" where
  "apr_queue_create one_big_mutex not_empty not_full queue_capacity =
     (if one_big_mutex \<noteq> APR_SUCCESS then Inl one_big_mutex
      else if not_empty \<noteq> APR_SUCCESS then Inl not_empty
      else if not_full \<noteq> APR_SUCCESS then Inl not_full
      else Inr \<lparr>qdata = replicate (unat queue_capacity) None, qnelts = 0, qin = 0, qout = 0, qbounds = queue_capacity,
                full_waiters = 0, empty_waiters = 0, terminated = False\<rparr>)"

definition apr_queue_size :: "'a apr_queue \<Rightarrow> u32" where
  "apr_queue_size q = qnelts q"

text \<open>How a critical section ends: the thread waits on the condition variable of its call; it unlocks and returns a
  status and, for the pops, the element, having signalled a condition variable or not; it unlocks and then looks at
  \<open>terminated\<close>; it unlocks having woken all waiting threads; it unlocks and goes on with \<open>apr_queue_interrupt_all\<close>.\<close>

datatype cond = Not_empty | Not_full

datatype 'a outcome =
    Blocks
  | Leaves status "'a option" "cond option"
  | Retests
  | Broadcasts
  | Interrupts

section \<open>Critical sections\<close>

definition push_store :: "'a apr_queue \<Rightarrow> 'a \<Rightarrow> 'a apr_queue" where
  "push_store q x =
     q\<lparr>qdata := (qdata q)[unat (qin q) := Some x], qin := (qin q + 1) mod qbounds q, qnelts := qnelts q + 1\<rparr>"

definition push_leave :: "'a apr_queue \<Rightarrow> 'a \<Rightarrow> 'a apr_queue \<times> 'a outcome" where
  "push_leave q x =
     (let q' = push_store q x
      in (q', Leaves APR_SUCCESS None (if empty_waiters q' \<noteq> 0 then Some Not_empty else None)))"

definition push_recheck :: "'a apr_queue \<Rightarrow> 'a \<Rightarrow> 'a apr_queue \<times> 'a outcome" where
  "push_recheck q x = (if apr_queue_full q then (q, Retests) else push_leave q x)"

definition push_crit :: "'a apr_queue \<Rightarrow> 'a \<Rightarrow> 'a apr_queue \<times> 'a outcome" where
  "push_crit q x =
     (if apr_queue_full q then
        if \<not> terminated q then (q\<lparr>full_waiters := full_waiters q + 1\<rparr>, Blocks)
        else push_recheck q x
      else push_leave q x)"

definition push_woken :: "'a apr_queue \<Rightarrow> 'a \<Rightarrow> status \<Rightarrow> 'a apr_queue \<times> 'a outcome" where
  "push_woken q x rv =
     (let q' = q\<lparr>full_waiters := full_waiters q - 1\<rparr>
      in if rv \<noteq> APR_SUCCESS then (q', Leaves rv None None) else push_recheck q' x)"

definition trypush_crit :: "'a apr_queue \<Rightarrow> 'a \<Rightarrow> 'a apr_queue \<times> 'a outcome" where
  "trypush_crit q x = (if apr_queue_full q then (q, Leaves APR_EAGAIN None None) else push_leave q x)"

definition pop_take :: "'a apr_queue \<Rightarrow> 'a option \<times> 'a apr_queue" where
  "pop_take q =
     (qdata q ! unat (qout q), q\<lparr>qnelts := qnelts q - 1, qout := (qout q + 1) mod qbounds q\<rparr>)"

definition pop_leave :: "'a apr_queue \<Rightarrow> 'a apr_queue \<times> 'a outcome" where
  "pop_leave q =
     (let (x, q') = pop_take q
      in (q', Leaves APR_SUCCESS x (if full_waiters q' \<noteq> 0 then Some Not_full else None)))"

definition pop_recheck :: "'a apr_queue \<Rightarrow> 'a apr_queue \<times> 'a outcome" where
  "pop_recheck q = (if apr_queue_empty q then (q, Retests) else pop_leave q)"

definition pop_crit :: "'a apr_queue \<Rightarrow> 'a apr_queue \<times> 'a outcome" where
  "pop_crit q =
     (if apr_queue_empty q then
        if \<not> terminated q then (q\<lparr>empty_waiters := empty_waiters q + 1\<rparr>, Blocks)
        else pop_recheck q
      else pop_leave q)"

definition pop_woken :: "'a apr_queue \<Rightarrow> status \<Rightarrow> 'a apr_queue \<times> 'a outcome" where
  "pop_woken q rv =
     (let q' = q\<lparr>empty_waiters := empty_waiters q - 1\<rparr>
      in if rv \<noteq> APR_SUCCESS then (q', Leaves rv None None) else pop_recheck q')"

definition trypop_crit :: "'a apr_queue \<Rightarrow> 'a apr_queue \<times> 'a outcome" where
  "trypop_crit q = (if apr_queue_empty q then (q, Leaves APR_EAGAIN None None) else pop_leave q)"

definition interrupt_crit :: "'a apr_queue \<Rightarrow> 'a apr_queue \<times> 'a outcome" where
  "interrupt_crit q = (q, Broadcasts)"

definition term_crit :: "'a apr_queue \<Rightarrow> 'a apr_queue \<times> 'a outcome" where
  "term_crit q = (q\<lparr>terminated := True\<rparr>, Interrupts)"

section \<open>Threads\<close>

datatype 'a call = Push 'a | Trypush 'a | Pop | Trypop | Interrupt_all | Term

text \<open>Where a thread is: between calls (with the status and the element of the last one), before the first test of
  \<open>terminated\<close>, before taking the mutex, waiting (and unblocked or not: an unblocked thread has yet to take the mutex
  again), before the last test of \<open>terminated\<close>.\<close>

datatype 'a pc =
    Ready status "'a option"
  | Entry "'a call"
  | Locking "'a call"
  | Waiting "'a call" bool
  | Testing "'a call"

record 'a system =
  sq :: "'a apr_queue"
  pcs :: "'a pc list"

fun tests_first :: "'a call \<Rightarrow> bool" where
  "tests_first Interrupt_all = False"
| "tests_first Term = False"
| "tests_first _ = True"

fun crit :: "'a call \<Rightarrow> 'a apr_queue \<Rightarrow> 'a apr_queue \<times> 'a outcome" where
  "crit (Push x) q = push_crit q x"
| "crit (Trypush x) q = trypush_crit q x"
| "crit Pop q = pop_crit q"
| "crit Trypop q = trypop_crit q"
| "crit Interrupt_all q = interrupt_crit q"
| "crit Term q = term_crit q"

fun woken :: "'a call \<Rightarrow> 'a apr_queue \<Rightarrow> status \<Rightarrow> 'a apr_queue \<times> 'a outcome" where
  "woken (Push x) q rv = push_woken q x rv"
| "woken Pop q rv = pop_woken q rv"
| "woken c q rv = (q, Leaves rv None None)"

text \<open>The condition variable a call waits on.\<close>

fun waits_on :: "'a call \<Rightarrow> cond \<Rightarrow> bool" where
  "waits_on (Push x) Not_full = True"
| "waits_on Pop Not_empty = True"
| "waits_on _ _ = False"

fun asleep :: "cond \<Rightarrow> 'a pc \<Rightarrow> bool" where
  "asleep v (Waiting c b) = (waits_on c v \<and> \<not> b)"
| "asleep v _ = False"

fun wake :: "'a pc \<Rightarrow> 'a pc" where
  "wake (Waiting c b) = Waiting c True"
| "wake p = p"

text \<open>A signal wakes one of the threads asleep on the variable, if there is one.\<close>

inductive signals :: "cond option \<Rightarrow> 'a pc list \<Rightarrow> 'a pc list \<Rightarrow> bool" where
  no_signal: "signals None ps ps"
| nobody: "\<forall>p \<in> set ps. \<not> asleep v p \<Longrightarrow> signals (Some v) ps ps"
| somebody: "j < length ps \<Longrightarrow> asleep v (ps ! j) \<Longrightarrow> signals (Some v) ps (ps[j := wake (ps ! j)])"

text \<open>The end of a critical section of thread \<open>i\<close>; \<open>fault\<close> is a failure of the signal.\<close>

inductive finishes :: "nat \<Rightarrow> 'a call \<Rightarrow> 'a outcome \<Rightarrow> bool \<Rightarrow> 'a pc list \<Rightarrow> 'a pc list \<Rightarrow> bool" where
  blocks: "finishes i c Blocks False ps (ps[i := Waiting c False])"
| leaves: "signals v (ps[i := Ready st x]) ps' \<Longrightarrow> finishes i c (Leaves st x v) False ps ps'"
| signal_fails: "rv \<noteq> APR_SUCCESS \<Longrightarrow> finishes i c (Leaves st x (Some v)) True ps (ps[i := Ready rv x])"
| retests: "finishes i c Retests False ps (ps[i := Testing c])"
| broadcasts: "finishes i c Broadcasts False ps ((map wake ps)[i := Ready APR_SUCCESS None])"
| interrupts: "finishes i c Interrupts False ps (ps[i := Locking Interrupt_all])"

text \<open>What a step does to the elements: it stores one, it takes one, or neither; a fault of the thread library is marked.\<close>

datatype 'a effect = Stores 'a | Takes 'a | Nothing

fun section_effect :: "'a call \<Rightarrow> 'a apr_queue \<Rightarrow> 'a apr_queue \<Rightarrow> 'a effect" where
  "section_effect (Push x) q q' = (if qnelts q' \<noteq> qnelts q then Stores x else Nothing)"
| "section_effect (Trypush x) q q' = (if qnelts q' \<noteq> qnelts q then Stores x else Nothing)"
| "section_effect Pop q q' = (if qnelts q' \<noteq> qnelts q then Takes (the (fst (pop_take q))) else Nothing)"
| "section_effect Trypop q q' = (if qnelts q' \<noteq> qnelts q then Takes (the (fst (pop_take q))) else Nothing)"
| "section_effect _ q q' = Nothing"

inductive step :: "'a system \<Rightarrow> 'a effect \<times> bool \<Rightarrow> 'a system \<Rightarrow> bool" where
  start: "i < length (pcs s) \<Longrightarrow> pcs s ! i = Ready st x \<Longrightarrow>
    step s (Nothing, False) (s\<lparr>pcs := (pcs s)[i := Entry c]\<rparr>)"
| entry_eof: "i < length (pcs s) \<Longrightarrow> pcs s ! i = Entry c \<Longrightarrow> tests_first c \<Longrightarrow> terminated (sq s) \<Longrightarrow>
    step s (Nothing, False) (s\<lparr>pcs := (pcs s)[i := Ready APR_EOF None]\<rparr>)"
| entry_go: "i < length (pcs s) \<Longrightarrow> pcs s ! i = Entry c \<Longrightarrow> \<not> (tests_first c \<and> terminated (sq s)) \<Longrightarrow>
    step s (Nothing, False) (s\<lparr>pcs := (pcs s)[i := Locking c]\<rparr>)"
| lock_fails: "i < length (pcs s) \<Longrightarrow> pcs s ! i = Locking c \<Longrightarrow> rv \<noteq> APR_SUCCESS \<Longrightarrow>
    step s (Nothing, True) (s\<lparr>pcs := (pcs s)[i := Ready rv None]\<rparr>)"
| critical: "i < length (pcs s) \<Longrightarrow> pcs s ! i = Locking c \<Longrightarrow> crit c (sq s) = (q', out) \<Longrightarrow>
    finishes i c out fault (pcs s) ps' \<Longrightarrow>
    step s (section_effect c (sq s) q', fault) \<lparr>sq = q', pcs = ps'\<rparr>"
| spurious: "i < length (pcs s) \<Longrightarrow> pcs s ! i = Waiting c False \<Longrightarrow>
    step s (Nothing, False) (s\<lparr>pcs := (pcs s)[i := Waiting c True]\<rparr>)"
| wakes: "i < length (pcs s) \<Longrightarrow> pcs s ! i = Waiting c True \<Longrightarrow> woken c (sq s) rv = (q', out) \<Longrightarrow>
    finishes i c out fault (pcs s) ps' \<Longrightarrow>
    step s (section_effect c (sq s) q', fault \<or> rv \<noteq> APR_SUCCESS) \<lparr>sq = q', pcs = ps'\<rparr>"
| retest: "i < length (pcs s) \<Longrightarrow> pcs s ! i = Testing c \<Longrightarrow>
    step s (Nothing, False) (s\<lparr>pcs := (pcs s)[i := Ready (if terminated (sq s) then APR_EOF else APR_EINTR) None]\<rparr>)"

inductive runs :: "'a system \<Rightarrow> ('a effect \<times> bool) list \<Rightarrow> 'a system \<Rightarrow> bool" where
  runs_Nil: "runs s [] s"
| runs_snoc: "runs s es s' \<Longrightarrow> step s' e s'' \<Longrightarrow> runs s (es @ [e]) s''"

text \<open>A new queue that \<open>threads\<close> threads are about to use.\<close>

definition initial :: "'a apr_queue \<Rightarrow> nat \<Rightarrow> 'a system" where
  "initial q threads = \<lparr>sq = q, pcs = replicate threads (Ready APR_SUCCESS None)\<rparr>"

definition stored :: "('a effect \<times> bool) list \<Rightarrow> 'a list" where
  "stored es = List.map_filter (\<lambda>e. case fst e of Stores x \<Rightarrow> Some x | _ \<Rightarrow> None) es"

definition taken :: "('a effect \<times> bool) list \<Rightarrow> 'a list" where
  "taken es = List.map_filter (\<lambda>e. case fst e of Takes x \<Rightarrow> Some x | _ \<Rightarrow> None) es"

definition fault_free :: "('a effect \<times> bool) list \<Rightarrow> bool" where
  "fault_free es \<longleftrightarrow> (\<forall>e \<in> set es. \<not> snd e)"

end
