(* ===== verification/AprQueueCorrect.thy ===== *)
theory AprQueueCorrect
  imports AprQueue
begin

text \<open>
  The bounded queue of \<open>apr_queue.c\<close>: the ring buffer is a bounded first-in first-out queue, the waiter counters are
  exact, no wake-up is lost and \<open>apr_queue_term\<close> reaches every waiting thread. All of it holds for any number of threads
  and any interleaving of their critical sections.
\<close>

section \<open>The ring buffer is a bounded queue\<close>

definition slot :: "'a apr_queue \<Rightarrow> nat \<Rightarrow> nat" where
  "slot q k = (unat (qout q) + k) mod unat (qbounds q)"

definition contents :: "'a apr_queue \<Rightarrow> 'a list" where
  "contents q = map (\<lambda>k. the (qdata q ! slot q k)) [0..<unat (qnelts q)]"

definition capacity :: "'a apr_queue \<Rightarrow> nat" where
  "capacity q = unat (qbounds q)"

definition ring_inv :: "'a apr_queue \<Rightarrow> bool" where
  "ring_inv q \<longleftrightarrow>
     length (qdata q) = capacity q \<and> unat (qnelts q) \<le> capacity q \<and>
     (0 < capacity q \<longrightarrow> unat (qout q) < capacity q \<and> unat (qin q) = slot q (unat (qnelts q))) \<and>
     (\<forall>k < unat (qnelts q). qdata q ! slot q k \<noteq> None)"

lemma contents_length [simp]: "length (contents q) = unat (qnelts q)"
  by (simp add: contents_def)

lemma contents_nonempty: "0 < unat (qnelts q) \<Longrightarrow> contents q \<noteq> []"
  by (metis contents_length length_greater_0_conv)

lemma unat_u32: "unat w < 4294967296" for w :: u32
  using unsigned_less [of w, where 'a = nat] by simp

lemma unat_next: "unat i < unat b \<Longrightarrow> unat ((i + 1) mod b) = (unat i + 1) mod unat b" for i b :: u32
  using unat_u32 [of b] by (simp add: unat_mod_distrib unat_plus_if')

lemma slot_inj:
  assumes "k < l" "l < unat (qbounds q)"
  shows "slot q k \<noteq> slot q l"
proof
  assume "slot q k = slot q l"
  then have "(l - k) mod unat (qbounds q) = 0"
    using assms by (metis slot_def mod_eq_dvd_iff_nat less_imp_le add_diff_cancel_left add_left_mono mod_eq_0_iff_dvd)
  with assms show False by simp
qed

lemma push_store_ring:
  assumes "ring_inv q" "unat (qnelts q) < capacity q"
  shows push_store_inv: "ring_inv (push_store q x)"
    and push_store_contents: "contents (push_store q x) = contents q @ [x]"
proof -
  let ?n = "unat (qnelts q)"
  have l: "length (qdata q) = capacity q" "unat (qout q) < capacity q" "unat (qin q) = slot q ?n"
    and f: "\<forall>k < ?n. qdata q ! slot q k \<noteq> None"
    using assms by (auto simp: ring_inv_def)
  have b: "unat (qin q) < unat (qbounds q)"
    using l by (simp add: slot_def capacity_def)
  have n: "unat (qnelts q + 1) = ?n + 1"
    using assms(2) unat_u32 [of "qbounds q"] by (simp add: unat_plus_if' capacity_def)
  have s: "slot (push_store q x) k = slot q k" for k
    by (simp add: slot_def push_store_def)
  have old: "qdata (push_store q x) ! slot q k = qdata q ! slot q k" if "k < ?n" for k
    using slot_inj [of k ?n q] that assms(2) l(3) by (simp add: push_store_def capacity_def)
  have new: "qdata (push_store q x) ! slot q ?n = Some x"
    using b l by (simp add: push_store_def capacity_def)
  have nx: "unat ((qin q + 1) mod qbounds q) = slot q (?n + 1)"
    using unat_next [OF b] l(3) by (simp add: slot_def mod_Suc_eq)
  show "ring_inv (push_store q x)"
    using l f n nx old new assms(2) unfolding ring_inv_def s
    by (auto simp: push_store_def capacity_def less_Suc_eq)
  have "qnelts (push_store q x) = qnelts q + 1" by (simp add: push_store_def)
  then show "contents (push_store q x) = contents q @ [x]"
    by (simp add: contents_def s n new old cong: map_cong)
qed

lemma slot_take: "ring_inv q \<Longrightarrow> 0 < unat (qnelts q) \<Longrightarrow> slot (snd (pop_take q)) k = slot q (Suc k)"
  using unat_next [of "qout q" "qbounds q"]
  by (simp add: ring_inv_def slot_def pop_take_def capacity_def mod_add_left_eq mod_simps)

lemma pop_take_ring:
  assumes "ring_inv q" "0 < unat (qnelts q)"
  shows pop_take_inv: "ring_inv (snd (pop_take q))"
    and pop_take_first: "fst (pop_take q) = Some (hd (contents q))"
    and pop_take_contents: "contents (snd (pop_take q)) = tl (contents q)"
proof -
  obtain n where n: "unat (qnelts q) = Suc n" using assms(2) by (cases "unat (qnelts q)") auto
  have m: "unat (qnelts q - 1) = n"
    using n by (simp add: unat_sub_if')
  have c: "0 < capacity q" "unat (qout q) < capacity q" "slot q 0 = unat (qout q)"
    using assms n by (auto simp: ring_inv_def slot_def capacity_def)
  have f: "qdata q ! slot q k \<noteq> None" if "k \<le> n" for k
    using assms(1) that by (simp add: ring_inv_def n)
  have d: "qdata (snd (pop_take q)) = qdata q" "qbounds (snd (pop_take q)) = qbounds q"
    "qnelts (snd (pop_take q)) = qnelts q - 1" "qin (snd (pop_take q)) = qin q"
    "capacity (snd (pop_take q)) = capacity q"
    by (simp_all add: pop_take_def capacity_def)
  have o: "unat (qout (snd (pop_take q))) < capacity q"
    using c by (simp add: pop_take_def capacity_def unat_mod_distrib)
  show "ring_inv (snd (pop_take q))"
    using assms o f unfolding ring_inv_def slot_take [OF assms] d m n by auto
  have u: "[0..<Suc n] = 0 # map Suc [0..<n]" by (simp add: upt_conv_Cons map_Suc_upt del: upt_Suc)
  show "fst (pop_take q) = Some (hd (contents q))"
    using f [of 0] by (simp add: contents_def n u pop_take_def c del: upt_Suc)
  show "contents (snd (pop_take q)) = tl (contents q)"
    by (simp add: contents_def n m d u slot_take [OF assms] del: upt_Suc)
qed

interpretation qf: bounded_fifo ring_inv contents capacity push_store pop_take
proof
  fix q :: "'a apr_queue" and x
  show "ring_inv q \<Longrightarrow> length (contents q) \<le> capacity q" by (simp add: ring_inv_def)
  assume i: "ring_inv q"
  show "length (contents q) < capacity q \<Longrightarrow> ring_inv (push_store q x)"
    and "length (contents q) < capacity q \<Longrightarrow> contents (push_store q x) = contents q @ [x]"
    using push_store_inv [OF i] push_store_contents [OF i] by simp_all
  assume "contents q \<noteq> []"
  then have "0 < unat (qnelts q)" by (metis contents_length length_greater_0_conv)
  then show "ring_inv (snd (pop_take q))" "fst (pop_take q) = Some (hd (contents q))"
    "contents (snd (pop_take q)) = tl (contents q)"
    using pop_take_inv [OF i] pop_take_first [OF i] pop_take_contents [OF i] by simp_all
qed


section \<open>What a critical section does\<close>

text \<open>The elements a pop may take, or the free places a push may fill.\<close>

fun available :: "cond \<Rightarrow> 'a apr_queue \<Rightarrow> nat" where
  "available Not_empty q = unat (qnelts q)"
| "available Not_full q = capacity q - unat (qnelts q)"

fun waiters :: "cond \<Rightarrow> 'a apr_queue \<Rightarrow> u32" where
  "waiters Not_empty q = empty_waiters q"
| "waiters Not_full q = full_waiters q"

definition signal_to :: "cond \<Rightarrow> 'a apr_queue \<Rightarrow> cond option" where
  "signal_to v q = (if waiters v q \<noteq> 0 then Some v else None)"

text \<open>The waiting thread is counted before it waits, and no longer when it has the mutex again.\<close>

fun count_in :: "cond \<Rightarrow> 'a apr_queue \<Rightarrow> 'a apr_queue" where
  "count_in Not_empty q = q\<lparr>empty_waiters := empty_waiters q + 1\<rparr>"
| "count_in Not_full q = q\<lparr>full_waiters := full_waiters q + 1\<rparr>"

fun count_out :: "'a call \<Rightarrow> 'a apr_queue \<Rightarrow> 'a apr_queue" where
  "count_out (Push x) q = q\<lparr>full_waiters := full_waiters q - 1\<rparr>"
| "count_out Pop q = q\<lparr>empty_waiters := empty_waiters q - 1\<rparr>"
| "count_out c q = q"

inductive section_does :: "'a call \<Rightarrow> 'a apr_queue \<Rightarrow> 'a effect \<Rightarrow> 'a apr_queue \<Rightarrow> 'a outcome \<Rightarrow> bool" where
  does_store: "c = Push x \<or> c = Trypush x \<Longrightarrow> 0 < available Not_full q \<Longrightarrow>
    section_does c q (Stores x) (push_store q x) (Leaves APR_SUCCESS None (signal_to Not_empty q))"
| does_take: "c = Pop \<or> c = Trypop \<Longrightarrow> 0 < available Not_empty q \<Longrightarrow>
    section_does c q (Takes (the (fst (pop_take q)))) (snd (pop_take q))
      (Leaves APR_SUCCESS (fst (pop_take q)) (signal_to Not_full q))"
| does_refuse: "c = Trypush x \<and> available Not_full q = 0 \<or> c = Trypop \<and> available Not_empty q = 0 \<Longrightarrow>
    section_does c q Nothing q (Leaves APR_EAGAIN None None)"
| does_block: "waits_on c v \<Longrightarrow> available v q = 0 \<Longrightarrow> \<not> terminated q \<Longrightarrow>
    section_does c q Nothing (count_in v q) Blocks"
| does_retest: "waits_on c v \<Longrightarrow> available v q = 0 \<Longrightarrow> section_does c q Nothing q Retests"
| does_broadcast: "section_does Interrupt_all q Nothing q Broadcasts"
| does_term: "section_does Term q Nothing (q\<lparr>terminated := True\<rparr>) Interrupts"

lemma full_available: "apr_queue_full q \<longleftrightarrow> available Not_full q = 0" if "ring_inv q"
  using that by (auto simp: apr_queue_full_def ring_inv_def capacity_def word_unat_eq_iff)

lemma empty_available: "apr_queue_empty q \<longleftrightarrow> available Not_empty q = 0"
  by (simp add: apr_queue_empty_def unat_eq_0)

lemma waits_only: "waits_on c v \<Longrightarrow> waits_on c w \<Longrightarrow> v = w"
  by (cases c; cases v; cases w) simp_all

lemma push_leave_does:
  "c = Push x \<or> c = Trypush x \<Longrightarrow> ring_inv q \<Longrightarrow> \<not> apr_queue_full q \<Longrightarrow>
   push_leave q x = (q', out) \<Longrightarrow> section_does c q (Stores x) q' out"
  using does_store [of c x q] by (auto simp: push_leave_def full_available Let_def signal_to_def push_store_def)

lemma pop_leave_does:
  "c = Pop \<or> c = Trypop \<Longrightarrow> \<not> apr_queue_empty q \<Longrightarrow>
   pop_leave q = (q', out) \<Longrightarrow> section_does c q (Takes (the (fst (pop_take q)))) q' out"
  using does_take [of c q] by (auto simp: pop_leave_def empty_available signal_to_def pop_take_def)

lemma leave_changes:
  "qnelts (fst (push_leave q x)) \<noteq> qnelts q" "qnelts (fst (pop_leave q)) \<noteq> qnelts q"
  by (simp_all add: push_leave_def push_store_def pop_leave_def pop_take_def Let_def)

lemma push_recheck_does:
  assumes "ring_inv q" "push_recheck q x = (q', out)"
  shows "section_does (Push x) q (section_effect (Push x) q q') q' out"
proof (cases "apr_queue_full q")
  case True
  with assms show ?thesis by (auto simp: push_recheck_def full_available intro: does_retest [of _ Not_full])
next
  case False
  with assms leave_changes(1) [of q x] show ?thesis
    by (auto simp: push_recheck_def intro: push_leave_does)
qed

lemma pop_recheck_does:
  assumes "pop_recheck q = (q', out)"
  shows "section_does Pop q (section_effect Pop q q') q' out"
proof (cases "apr_queue_empty q")
  case True
  with assms show ?thesis by (auto simp: pop_recheck_def empty_available intro: does_retest [of _ Not_empty])
next
  case False
  with assms leave_changes(2) [of q] show ?thesis
    by (auto simp: pop_recheck_def intro: pop_leave_does)
qed

lemma push_crit_recheck:
  "push_crit q x = (if apr_queue_full q \<and> \<not> terminated q then (count_in Not_full q, Blocks) else push_recheck q x)"
  by (simp add: push_crit_def push_recheck_def)

lemma pop_crit_recheck:
  "pop_crit q = (if apr_queue_empty q \<and> \<not> terminated q then (count_in Not_empty q, Blocks) else pop_recheck q)"
  by (simp add: pop_crit_def pop_recheck_def)

lemma crit_does:
  assumes "ring_inv q" "crit c q = (q', out)"
  shows "section_does c q (section_effect c q q') q' out"
proof (cases c)
  case (Push x)
  with assms show ?thesis
    using push_recheck_does [OF assms(1), of x q' out] does_block [of c Not_full q]
    by (auto simp: push_crit_recheck full_available split: if_splits)
next
  case (Trypush x)
  with assms leave_changes(1) [of q x] show ?thesis
    using push_leave_does [of c x q q' out]
    by (auto simp: trypush_crit_def full_available split: if_splits intro: does_refuse)
next
  case Pop
  with assms show ?thesis
    using pop_recheck_does [of q q' out] does_block [of c Not_empty q]
    by (auto simp: pop_crit_recheck empty_available split: if_splits)
next
  case Trypop
  with assms leave_changes(2) [of q] show ?thesis
    using pop_leave_does [of c q q' out]
    by (auto simp: trypop_crit_def empty_available split: if_splits intro: does_refuse)
qed (use assms in \<open>auto simp: interrupt_crit_def term_crit_def intro: does_broadcast does_term\<close>)


text \<open>A thread that has waited goes on from the recheck, no longer counted; if its wait failed it returns.\<close>

lemma woken_does:
  assumes "ring_inv q" "waits_on c v" "woken c q APR_SUCCESS = (q', out)"
  shows "section_does c (count_out c q) (section_effect c q q') q' out"
proof (cases c)
  case (Push x)
  have "ring_inv (count_out c q)" using assms(1) Push by (simp add: ring_inv_def capacity_def slot_def)
  then show ?thesis
    using push_recheck_does [of "count_out c q" x q' out] assms Push by (simp add: push_woken_def)
next
  case Pop
  then show ?thesis
    using pop_recheck_does [of "count_out c q" q' out] assms by (auto simp: pop_woken_def pop_take_def split: if_splits)
qed (use assms(2) in \<open>cases v; simp\<close>)+

lemma count_out_effect: "section_effect c q (count_out c q) = Nothing"
  by (cases c) simp_all

lemma woken_fails:
  "rv \<noteq> APR_SUCCESS \<or> (\<forall>v. \<not> waits_on c v) \<Longrightarrow> woken c q rv = (count_out c q, Leaves rv None None)"
  using waits_on.simps by (cases c) (fastforce simp: push_woken_def pop_woken_def)+

section \<open>Counting threads\<close>

definition number :: "('a \<Rightarrow> bool) \<Rightarrow> 'a list \<Rightarrow> nat" where
  "number P ps = length (filter P ps)"

lemma number_zero: "number P ps = 0 \<longleftrightarrow> (\<forall>p \<in> set ps. \<not> P p)"
  by (simp add: number_def filter_empty_conv)

lemma number_le: "number P ps \<le> length ps"
  by (simp add: number_def)

lemma number_mono: "(\<And>p. P p \<Longrightarrow> Q p) \<Longrightarrow> number P ps \<le> number Q ps"
  unfolding number_def by (induction ps) auto

lemma number_cong: "(\<And>p. p \<in> set ps \<Longrightarrow> P (f p) = P p) \<Longrightarrow> number P (map f ps) = number P ps"
  unfolding number_def by (induction ps) auto

lemma number_update:
  "i < length ps \<Longrightarrow> number P (ps[i := p]) + of_bool (P (ps ! i)) = number P ps + of_bool (P p)"
proof (induction ps arbitrary: i)
  case (Cons a ps)
  then show ?case by (cases i) (force simp: number_def)+
qed simp

lemma number_same: "i < length ps \<Longrightarrow> P (ps ! i) = P p \<Longrightarrow> number P (ps[i := p]) = number P ps"
  using number_update [of i ps P p] by simp

fun waiting :: "cond \<Rightarrow> 'a pc \<Rightarrow> bool" where
  "waiting v (Waiting c b) = waits_on c v"
| "waiting v _ = False"

fun unblocked :: "cond \<Rightarrow> 'a pc \<Rightarrow> bool" where
  "unblocked v (Waiting c b) = (waits_on c v \<and> b)"
| "unblocked v _ = False"

lemma waiting_wake [simp]: "waiting v (wake p) = waiting v p"
  by (cases p) simp_all

lemma asleep_wake [simp]: "\<not> asleep v (wake p)"
  by (cases p) simp_all

lemma unblocked_wake: "asleep v p \<Longrightarrow> unblocked w (wake p) \<longleftrightarrow> v = w"
  by (cases p) (auto dest: waits_only)

lemma asleep_facts: "asleep v p \<Longrightarrow> waiting v p" "asleep v p \<Longrightarrow> \<not> unblocked w p"
  by (cases p; simp)+

lemma asleep_only: "asleep v p \<Longrightarrow> asleep w p \<Longrightarrow> v = w"
  by (cases p) (auto dest: waits_only)

lemma signals_length: "signals v ps ps' \<Longrightarrow> length ps' = length ps"
  by (induction rule: signals.induct) simp_all

lemma signals_waiting: "signals v ps ps' \<Longrightarrow> number (waiting w) ps' = number (waiting w) ps"
  by (induction rule: signals.induct) (simp_all add: number_same)

lemma signals_other:
  assumes "signals v ps ps'" "v \<noteq> Some w"
  shows "number (asleep w) ps' = number (asleep w) ps" "number (unblocked w) ps' = number (unblocked w) ps"
  using assms
  by (induction rule: signals.induct) (auto simp: asleep_facts unblocked_wake dest: asleep_only intro!: number_same)

lemma signals_this:
  assumes "signals (Some v) ps ps'"
  shows "number (asleep v) ps' = 0 \<or> number (unblocked v) ps' = Suc (number (unblocked v) ps)"
  using assms
proof (cases rule: signals.cases)
  case nobody
  then show ?thesis by (simp add: number_zero)
next
  case (somebody j)
  then show ?thesis
    using number_update [of j ps "unblocked v" "wake (ps ! j)"] asleep_facts(2) [of v "ps ! j" v]
    by (simp add: unblocked_wake)
qed

lemma signals_asleep: "signals v ps ps' \<Longrightarrow> p \<in> set ps' \<Longrightarrow> asleep w p \<Longrightarrow> p \<in> set ps"
  by (induction rule: signals.induct) (auto dest!: set_update_subset_insert [THEN subsetD])


section \<open>One section, seen by all threads\<close>

text \<open>Where thread \<open>i\<close> was does not matter for where the threads are at the end of its section.\<close>

lemma finishes_from: "finishes i c out f ps ps' \<Longrightarrow> finishes i c out f (ps[i := p]) ps'"
proof (induction rule: finishes.induct)
  case (leaves v ps i st x ps' c)
  then show ?case by (intro finishes.leaves) simp
next
  case (signal_fails rv i c st x v ps)
  then show ?case using finishes.signal_fails [of rv i c st x v "ps[i := p]"] by simp
next
  case (blocks i c ps)
  then show ?case using finishes.blocks [of i c "ps[i := p]"] by simp
next
  case (retests i c ps)
  then show ?case using finishes.retests [of i c "ps[i := p]"] by simp
next
  case (broadcasts i c ps)
  then show ?case using finishes.broadcasts [of i c "ps[i := p]"] by (simp add: map_update)
next
  case (interrupts i c ps)
  then show ?case using finishes.interrupts [of i c "ps[i := p]"] by simp
qed

lemma finishes_length: "finishes i c out f ps ps' \<Longrightarrow> length ps' = length ps"
  by (induction rule: finishes.induct) (auto dest: signals_length)

definition counted :: "'a apr_queue \<Rightarrow> 'a pc list \<Rightarrow> bool" where
  "counted q ps \<longleftrightarrow> length ps < 2 ^ 32 \<and> (\<forall>v. unat (waiters v q) = number (waiting v) ps)"

lemma waiters_kept:
  "waiters v (push_store q x) = waiters v q" "waiters v (snd (pop_take q)) = waiters v q"
  "waiters v (q\<lparr>terminated := t\<rparr>) = waiters v q"
  by (cases v; simp add: push_store_def pop_take_def)+

lemma waiters_count_in: "waiters w (count_in v q) = (if v = w then waiters w q + 1 else waiters w q)"
  by (cases v; cases w) simp_all

lemma waiters_count_out: "waiters w (count_out c q) = (if waits_on c w then waiters w q - 1 else waiters w q)"
  by (cases c; cases w) simp_all

lemma unat_add_one: "unat w + 1 < 2 ^ 32 \<Longrightarrow> unat (w + 1) = unat w + 1" for w :: u32
  by (simp add: unat_plus_if')

lemma unat_minus_one: "0 < unat w \<Longrightarrow> unat (w - 1) = unat w - 1" for w :: u32
  by (simp add: unat_sub_if')

lemma number_waiting_lt:
  "i < length ps \<Longrightarrow> \<not> waiting v (ps ! i) \<Longrightarrow> number (waiting v) ps < length ps"
  using number_update [of i ps "waiting v" "Waiting Pop True"] number_update [of i ps "waiting v" "Waiting (Push undefined) True"]
    number_le [of "waiting v" "ps[i := Waiting Pop True]"] number_le [of "waiting v" "ps[i := Waiting (Push undefined) True]"]
  by (cases v) simp_all

lemma counted_update: "counted q ps \<Longrightarrow> i < length ps \<Longrightarrow> (\<And>v. waiting v (ps ! i) = waiting v p) \<Longrightarrow> counted q (ps[i := p])"
  by (simp add: counted_def number_same)

lemma counted_section:
  assumes "section_does c q e q' out" "finishes i c out f ps ps'" "counted q ps" "i < length ps" "ps ! i = Locking c"
  shows "counted q' ps'"
  using assms(2,1,3-)
proof (cases rule: finishes.cases)
  case blocks
  then obtain v where v: "waits_on c v" "q' = count_in v q"
    using assms(1) by (auto elim: section_does.cases)
  have "unat (waiters v q) + 1 < 2 ^ 32"
    using assms(3-) number_waiting_lt [of i ps v] by (auto simp: counted_def)
  then have "unat (waiters w q') = number (waiting w) ps'" for w
    using assms(3-) v blocks number_update [of i ps "waiting w" "Waiting c False"] unat_add_one [of "waiters v q"]
    by (auto simp: counted_def waiters_count_in dest: waits_only)
  then show ?thesis using assms(3) blocks by (simp add: counted_def)
next
  case (leaves v st x)
  have "counted q (ps[i := Ready st x])" using assms by (intro counted_update) simp_all
  then have "counted q ps'"
    using signals_waiting [OF leaves(3)] signals_length [OF leaves(3)] by (simp add: counted_def)
  then show ?thesis
    using assms(1) leaves by (auto simp: counted_def waiters_kept elim!: section_does.cases)
next
  case (signal_fails rv st x v)
  have "counted q ps'" unfolding signal_fails using assms by (intro counted_update) simp_all
  then show ?thesis
    using assms(1) signal_fails by (auto simp: counted_def waiters_kept elim!: section_does.cases)
next
  case retests
  have "counted q ps'" unfolding retests using assms by (intro counted_update) simp_all
  then show ?thesis
    using assms(1) retests by (auto elim: section_does.cases)
next
  case broadcasts
  have "counted q (map wake ps)" using assms(3) by (simp add: counted_def number_cong)
  then have "counted q ps'" unfolding broadcasts using assms by (intro counted_update) simp_all
  then show ?thesis
    using assms(1) broadcasts by (auto elim: section_does.cases)
next
  case interrupts
  have "counted q ps'" unfolding interrupts using assms by (intro counted_update) simp_all
  then show ?thesis
    using assms(1) interrupts by (auto simp: counted_def waiters_kept elim: section_does.cases)
qed

text \<open>A thread that has the mutex again after its wait is counted out.\<close>

lemma counted_resume:
  assumes "counted q ps" "i < length ps" "ps ! i = Waiting c b" "\<And>v. \<not> waiting v p"
  shows "counted (count_out c q) (ps[i := p])"
proof -
  have "unat (waiters w (count_out c q)) = number (waiting w) (ps[i := p])" for w
  proof -
    have u: "number (waiting w) (ps[i := p]) + of_bool (waits_on c w) = unat (waiters w q)"
      using assms number_update [of i ps "waiting w" p] by (simp add: counted_def)
    then show ?thesis
      using unat_minus_one [of "waiters w q"] by (auto simp: waiters_count_out split: if_splits)
  qed
  then show ?thesis using assms(1) by (simp add: counted_def)
qed


text \<open>No wake-up is lost: as long as a thread sleeps, the threads that are unblocked are enough for what is available.
  A thread that has just taken the mutex again after its wait is still to be reckoned with: this is the \<open>d\<close>.\<close>

definition enough :: "nat \<Rightarrow> cond \<Rightarrow> 'a apr_queue \<Rightarrow> 'a pc list \<Rightarrow> bool" where
  "enough d v q ps \<longleftrightarrow> number (asleep v) ps = 0 \<or> available v q \<le> number (unblocked v) ps + d"

lemma available_store:
  assumes "0 < available Not_full q"
  shows "available Not_empty (push_store q x) = available Not_empty q + 1"
    "available Not_full (push_store q x) = available Not_full q - 1"
  using assms unat_u32 [of "qbounds q"]
  by (simp_all add: push_store_def capacity_def unat_plus_if')

lemma available_take:
  assumes "0 < available Not_empty q"
  shows "available Not_empty (snd (pop_take q)) = available Not_empty q - 1"
    "available Not_full (snd (pop_take q)) \<le> available Not_full q + 1"
  using assms by (simp_all add: pop_take_def capacity_def unat_minus_one)

lemma available_kept:
  "available v (count_in w q) = available v q" "available v (count_out c q) = available v q"
  "available v (q\<lparr>terminated := t\<rparr>) = available v q"
  by (cases v; cases w; cases c; simp add: capacity_def)+

lemma number_still:
  assumes "i < length ps" "\<And>v. \<not> waiting v (ps ! i)" "\<And>v. \<not> waiting v p"
  shows "number (asleep v) (ps[i := p]) = number (asleep v) ps"
    "number (unblocked v) (ps[i := p]) = number (unblocked v) ps"
proof -
  have "\<not> asleep v (ps ! i)" "\<not> unblocked v (ps ! i)" "\<not> asleep v p" "\<not> unblocked v p"
    using assms(2,3) [of v] by (cases "ps ! i"; cases p; simp)+
  with assms(1) show "number (asleep v) (ps[i := p]) = number (asleep v) ps"
    "number (unblocked v) (ps[i := p]) = number (unblocked v) ps"
    by (simp_all add: number_same)
qed

text \<open>What is given, on the condition variable \<open>v\<close>, is signalled if a thread waits.\<close>

lemma enough_given:
  assumes s: "signals (signal_to v q) ps ps'" and c: "counted q ps" and e: "enough 0 v q ps"
    and a: "available v q' \<le> available v q + 1"
  shows "enough 0 v q' ps'"
proof (cases "waiters v q = 0")
  case True
  then have "number (waiting v) ps = 0" using c by (metis counted_def unat_0)
  then have "number (asleep v) ps = 0" by (auto simp: number_zero dest: asleep_facts(1))
  then show ?thesis using signals_other(1) [OF s, of v] True by (simp add: enough_def signal_to_def)
next
  case False
  then show ?thesis
    using s signals_this [of v ps ps'] e a signals_asleep [of "Some v" ps ps'] 
    by (fastforce simp: enough_def signal_to_def number_zero)
qed

text \<open>What is used up by a thread that waits or has waited makes up for that thread.\<close>

lemma enough_used:
  assumes "signals (signal_to w q) ps ps'" "v \<noteq> w" "enough d v q ps" "d \<le> 1" "available v q' = available v q - 1"
  shows "enough 0 v q' ps'"
  using assms signals_other [OF assms(1), of v] by (auto simp: enough_def signal_to_def split: if_splits)

lemma enough_still:
  "i < length ps \<Longrightarrow> ps ! i = Locking c \<Longrightarrow> (\<And>v. \<not> waiting v p) \<Longrightarrow> enough k v q (ps[i := p]) = enough k v q ps"
  using number_still [of i ps p] by (simp add: enough_def)

lemma enough_moved:
  assumes s: "signals (signal_to g q) (ps[i := Ready st x]) ps'" and cnt: "counted q ps"
    and i: "i < length ps" "ps ! i = Locking c"
    and g: "\<not> waits_on c g" "available g q' \<le> available g q + 1"
    and u: "\<And>v. v \<noteq> g \<Longrightarrow> available v q' = available v q - 1"
    and en: "enough (if waits_on c v then d else 0) v q ps" and d: "d \<le> 1"
  shows "enough 0 v q' ps'"
proof (cases "v = g")
  case True
  have "counted q (ps[i := Ready st x])" using cnt i by (intro counted_update) simp_all
  from s this show ?thesis unfolding True
    by (rule enough_given) (use True g en i in \<open>simp_all add: enough_still [OF i]\<close>)
next
  case False
  show ?thesis
    by (rule enough_used [OF s False, where d = "if waits_on c v then d else 0"])
      (use False en d u in \<open>simp_all add: enough_still [OF i]\<close>)
qed

lemma enough_waits:
  assumes w: "waits_on c w" "available w q = 0" and i: "i < length ps" "ps ! i = Locking c"
    and en: "enough (if waits_on c v then d else 0) v q ps" and p: "p = Waiting c False \<or> p = Testing c"
  shows "enough 0 v q (ps[i := p])"
proof (cases "v = w")
  case True
  with w show ?thesis by (simp add: enough_def)
next
  case False
  then have "\<not> waits_on c v" using w by (auto dest: waits_only)
  with en i p show ?thesis by (auto simp: enough_def number_same)
qed

inductive_cases finishes_leaves: "finishes i c (Leaves st x v) False ps ps'"
inductive_cases finishes_blocks: "finishes i c Blocks f ps ps'"
inductive_cases finishes_retests: "finishes i c Retests f ps ps'"
inductive_cases finishes_broadcasts: "finishes i c Broadcasts f ps ps'"
inductive_cases finishes_interrupts: "finishes i c Interrupts f ps ps'"
inductive_cases signals_None: "signals None ps ps'"

lemma enough_section:
  assumes "section_does c q e q' out" and fin: "finishes i c out False ps ps'" and cnt: "counted q ps"
    and i: "i < length ps" "ps ! i = Locking c"
    and en: "enough (if waits_on c v then d else 0) v q ps" and d: "d \<le> 1" and ring: "ring_inv q"
  shows "enough 0 v q' ps'"
  using assms(1)
proof (cases rule: section_does.cases)
  case (does_store x)
  have u: "available v q' = available v q - 1" if "v \<noteq> Not_empty" for v
    using that does_store available_store by (cases v) simp_all
  have "signals (signal_to Not_empty q) (ps[i := Ready APR_SUCCESS None]) ps'"
    using fin does_store by (auto elim: finishes_leaves)
  then show ?thesis
    by (rule enough_moved [OF _ cnt i _ _ u en d]) (use does_store available_store(1) [of q x] in auto)
next
  case does_take
  have u: "available v q' = available v q - 1" if "v \<noteq> Not_full" for v
    using that does_take available_take by (cases v) simp_all
  have "signals (signal_to Not_full q) (ps[i := Ready APR_SUCCESS (fst (pop_take q))]) ps'"
    using fin does_take by (auto elim: finishes_leaves)
  then show ?thesis
    by (rule enough_moved [OF _ cnt i _ _ u en d]) (use does_take available_take in auto)
next
  case (does_refuse x)
  then have "ps' = ps[i := Ready APR_EAGAIN None]" "\<not> waits_on c v"
    using fin by (auto elim: finishes_leaves signals_None)
  then show ?thesis using en does_refuse by (simp add: enough_still [OF i])
next
  case (does_block w)
  then have "enough 0 v q ps'"
    using fin enough_waits [OF _ _ i en] by (auto elim: finishes_blocks)
  then show ?thesis using does_block by (simp add: enough_def available_kept)
next
  case (does_retest w)
  then show ?thesis using fin enough_waits [OF _ _ i en] by (auto elim: finishes_retests)
next
  case does_broadcast
  then have "number (asleep v) ps' = 0"
    using fin by (auto simp: number_zero elim!: finishes_broadcasts dest!: set_update_subset_insert [THEN subsetD])
  then show ?thesis by (simp add: enough_def)
next
  case does_term
  then have "enough 0 v q ps'"
    using fin en by (auto simp: enough_still [OF i] elim!: finishes_interrupts)
  then show ?thesis using does_term by (simp add: enough_def available_kept)
qed

lemma terminated_count [simp]: "terminated (count_in v q) = terminated q" "terminated (count_out c q) = terminated q"
  by (cases v; cases c; simp)+

section \<open>Termination reaches every waiting thread\<close>

definition all_told :: "'a apr_queue \<Rightarrow> 'a pc list \<Rightarrow> bool" where
  "all_told q ps \<longleftrightarrow>
     (terminated q \<longrightarrow> (\<forall>v. \<forall>p \<in> set ps. \<not> asleep v p) \<or> Locking Interrupt_all \<in> set ps)"

lemma in_update: "p \<in> set ps \<Longrightarrow> ps ! i \<noteq> p \<Longrightarrow> p \<in> set (ps[i := p'])"
  by (metis in_set_conv_nth length_list_update nth_list_update_neq)

lemma signals_in: "signals v ps ps' \<Longrightarrow> Locking c \<in> set ps \<Longrightarrow> Locking c \<in> set ps'"
  by (induction rule: signals.induct) (auto intro!: in_update)

lemma finishes_in:
  "finishes i c out f ps ps' \<Longrightarrow> Locking c' \<in> set ps \<Longrightarrow> ps ! i \<noteq> Locking c' \<Longrightarrow> i < length ps \<Longrightarrow> Locking c' \<in> set ps'"
proof (induction rule: finishes.induct)
  case (leaves v ps i st x ps' c)
  then show ?case by (blast intro: signals_in in_update)
next
  case (broadcasts i c ps)
  then have "Locking c' \<in> set (map wake ps)" by (force intro: image_eqI [of _ _ "Locking c'"])
  moreover have "map wake ps ! i \<noteq> Locking c'" using broadcasts by (cases "ps ! i") auto
  ultimately show ?case by (rule in_update)
qed (auto intro: in_update)

lemma finishes_asleep:
  "finishes i c out f ps ps' \<Longrightarrow> out \<noteq> Blocks \<Longrightarrow> p \<in> set ps' \<Longrightarrow> asleep v p \<Longrightarrow> p \<in> set ps"
proof (induction rule: finishes.induct)
  case (leaves v ps i st x ps' c)
  then show ?case by (auto dest!: signals_asleep set_update_subset_insert [THEN subsetD])
qed (auto dest!: set_update_subset_insert [THEN subsetD])

lemma all_told_section:
  assumes does: "section_does c q e q' out" and fin: "finishes i c out f ps ps'" and told: "all_told q ps"
    and i: "i < length ps" "ps ! i = Locking c"
  shows "all_told q' ps'"
proof (cases "out = Broadcasts \<or> out = Interrupts \<or> out = Blocks")
  case True
  with does fin i show ?thesis
    by (auto simp: all_told_def elim!: section_does.cases finishes_broadcasts finishes_interrupts finishes_blocks
        dest!: set_update_subset_insert [THEN subsetD] intro: set_update_memI)
next
  case False
  with does have "c \<noteq> Interrupt_all" "terminated q' = terminated q"
    by (auto elim!: section_does.cases simp: push_store_def pop_take_def)
  with told False fin i show ?thesis
    by (auto simp: all_told_def dest: finishes_in finishes_asleep)
qed


section \<open>Runs\<close>

text \<open>A step leaves the waiting threads alone, or unblocks one, or is a critical section, from the lock or from a wait.\<close>

lemma step_elim:
  assumes "step s (e, f) s'" "ring_inv (sq s)"
  obtains
    (quiet) i p where "sq s' = sq s" "e = Nothing" "pcs s' = (pcs s)[i := p]" "i < length (pcs s)"
      "\<And>v. \<not> waiting v (pcs s ! i)" "\<And>v. \<not> waiting v p" "f \<or> (\<forall>c. pcs s ! i \<noteq> Locking c)"
  | (unblock) i c where "sq s' = sq s" "e = Nothing" "i < length (pcs s)" "pcs s ! i = Waiting c False"
      "pcs s' = (pcs s)[i := Waiting c True]"
  | (lock) i c out where "section_does c (sq s) e (sq s') out" "i < length (pcs s)" "pcs s ! i = Locking c"
      "finishes i c out f (pcs s) (pcs s')"
  | (resume) i c out where "section_does c (count_out c (sq s)) e (sq s') out" "i < length (pcs s)"
      "pcs s ! i = Waiting c True" "finishes i c out f ((pcs s)[i := Locking c]) (pcs s')"
  | (wait_fails) i c rv where "sq s' = count_out c (sq s)" "e = Nothing" "i < length (pcs s)"
      "pcs s ! i = Waiting c True" "pcs s' = (pcs s)[i := Ready rv None]" "f \<or> (\<forall>v. \<not> waits_on c v)"
  using assms(1)
proof (cases rule: step.cases)
  case (critical i c q' out ps')
  then show thesis by (intro lock [of c out i]) (auto dest: crit_does [OF assms(2)])
next
  case (wakes i c rv q' out fault ps')
  show thesis
  proof (cases "rv \<noteq> APR_SUCCESS \<or> (\<forall>v. \<not> waits_on c v)")
    case True
    then show thesis
      using wakes woken_fails [OF True, of "sq s"]
      by (intro wait_fails [of c i rv]) (auto simp: count_out_effect elim: finishes.cases signals_None)
  next
    case False
    then show thesis
      using wakes woken_does [OF assms(2), of c] by (intro resume [of c out i]) (auto intro: finishes_from)
  qed
next
  case (spurious i c)
  then show thesis by (intro unblock [of i c]) simp_all
next
  case (start i st x c)
  then show thesis by (intro quiet [of i "Entry c"]) simp_all
next
  case (entry_eof i c)
  then show thesis by (intro quiet [of i "Ready APR_EOF None"]) simp_all
next
  case (entry_go i c)
  then show thesis by (intro quiet [of i "Locking c"]) simp_all
next
  case (lock_fails i c rv)
  then show thesis by (intro quiet [of i "Ready rv None"]) simp_all
next
  case (retest i c)
  then show thesis by (intro quiet [of i "Ready (if terminated (sq s) then APR_EOF else APR_EINTR) None"]) simp_all
qed

lemma ring_count_out: "ring_inv (count_out c q) = ring_inv q" "contents (count_out c q) = contents q"
  "capacity (count_out c q) = capacity q"
  by (cases c; simp add: ring_inv_def contents_def slot_def capacity_def)+

lemma stored_snoc: "stored (es @ [(e, f)]) = stored es @ (case e of Stores x \<Rightarrow> [x] | _ \<Rightarrow> [])"
  by (cases e) (simp_all add: stored_def map_filter_def)

lemma taken_snoc: "taken (es @ [(e, f)]) = taken es @ (case e of Takes x \<Rightarrow> [x] | _ \<Rightarrow> [])"
  by (cases e) (simp_all add: taken_def map_filter_def)

lemma ring_section:
  assumes "section_does c q e q' out" "ring_inv q" "stored es = taken es @ contents q"
  shows "ring_inv q'" "capacity q' = capacity q" "stored (es @ [(e, f)]) = taken (es @ [(e, f)]) @ contents q'"
proof -
  have "ring_inv q' \<and> capacity q' = capacity q \<and> stored (es @ [(e, f)]) = taken (es @ [(e, f)]) @ contents q'"
    using assms(1)
  proof (cases rule: section_does.cases)
    case (does_store x)
    then have "length (contents q) < capacity q" by simp
    with does_store show ?thesis
      using qf.put_history [OF assms(2) _ assms(3), of x] qf.invar_put [OF assms(2), of x]
      by (simp add: stored_snoc taken_snoc) (simp add: push_store_def capacity_def)
  next
    case does_take
    then have "contents q \<noteq> []" by (simp add: contents_nonempty)
    with does_take show ?thesis
      using qf.get_history [OF assms(2) _ assms(3)] qf.invar_get [OF assms(2)]
      by (simp add: stored_snoc taken_snoc) (simp add: pop_take_def capacity_def)
  next
    case (does_block v)
    with assms show ?thesis
      by (cases v) (simp_all add: stored_snoc taken_snoc ring_inv_def contents_def slot_def capacity_def)
  qed (use assms in \<open>simp_all add: stored_snoc taken_snoc ring_inv_def contents_def slot_def capacity_def\<close>)
  then show "ring_inv q'" "capacity q' = capacity q" "stored (es @ [(e, f)]) = taken (es @ [(e, f)]) @ contents q'"
    by simp_all
qed


lemma ring_step:
  assumes "step s (e, f) s'" "ring_inv (sq s)" "stored es = taken es @ contents (sq s)"
  shows "ring_inv (sq s') \<and> capacity (sq s') = capacity (sq s) \<and>
    stored (es @ [(e, f)]) = taken (es @ [(e, f)]) @ contents (sq s')"
  using assms(1,2)
proof (cases rule: step_elim)
  case (lock i c out)
  then show ?thesis using ring_section [OF _ assms(2,3)] by simp
next
  case (resume i c out)
  have "ring_inv (count_out c (sq s))" "stored es = taken es @ contents (count_out c (sq s))"
    using assms by (simp_all add: ring_count_out)
  then show ?thesis using ring_section [OF resume(1)] by (simp add: ring_count_out)
qed (use assms in \<open>simp_all add: stored_snoc taken_snoc ring_count_out\<close>)

lemma ring_runs:
  assumes "runs s es s'" "ring_inv (sq s)" "contents (sq s) = []"
  shows "ring_inv (sq s') \<and> capacity (sq s') = capacity (sq s) \<and> stored es = taken es @ contents (sq s')"
  using assms
proof (induction rule: runs.induct)
  case (runs_Nil s)
  then show ?case by (simp add: stored_def taken_def map_filter_def)
next
  case (runs_snoc s es s' e s'')
  then show ?case using ring_step [of s' "fst e" "snd e" s'' es] by simp
qed

lemma counted_step:
  assumes "step s (e, f) s'" "ring_inv (sq s)" "counted (sq s) (pcs s)"
  shows "counted (sq s') (pcs s')"
  using assms(1,2)
proof (cases rule: step_elim)
  case (quiet i p)
  then show ?thesis using assms(3) by (simp add: counted_update)
next
  case (unblock i c)
  then show ?thesis using assms(3) by (simp add: counted_update)
next
  case (lock i c out)
  then show ?thesis using counted_section assms(3) by blast
next
  case (resume i c out)
  then show ?thesis
    using counted_section [OF resume(1,4)] counted_resume [OF assms(3) resume(2,3), of "Locking c"] by simp
next
  case (wait_fails i c rv)
  then show ?thesis using counted_resume [OF assms(3) wait_fails(3,4), of "Ready rv None"] by simp
qed

lemma enough_step:
  assumes "step s (e, False) s'" "ring_inv (sq s)" "counted (sq s) (pcs s)" "enough 0 v (sq s) (pcs s)"
  shows "enough 0 v (sq s') (pcs s')"
  using assms(1,2)
proof (cases rule: step_elim)
  case (quiet i p)
  then show ?thesis using assms(4) number_still [of i "pcs s" p v] by (simp add: enough_def)
next
  case (unblock i c)
  then show ?thesis
    using assms(4) number_update [of i "pcs s" "asleep v" "Waiting c True"]
      number_update [of i "pcs s" "unblocked v" "Waiting c True"]
    by (auto simp: enough_def split: if_splits)
next
  case (lock i c out)
  show ?thesis
    by (rule enough_section [OF lock(1,4) assms(3) lock(2,3), where d = 0]) (use assms in simp_all)
next
  case (resume i c out)
  let ?ps = "(pcs s)[i := Locking c]" and ?q = "count_out c (sq s)"
  have "counted ?q ?ps" by (rule counted_resume [OF assms(3) resume(2,3)]) simp
  moreover have "enough (if waits_on c v then 1 else 0) v ?q ?ps"
    using assms(4) resume number_update [of i "pcs s" "asleep v" "Locking c"]
      number_update [of i "pcs s" "unblocked v" "Locking c"]
    by (auto simp: enough_def available_kept split: if_splits)
  ultimately show ?thesis
    using enough_section [OF resume(1,4), of v 1] resume(2) assms(2) by (simp add: ring_count_out)
next
  case (wait_fails i c rv)
  then show ?thesis
    using assms(4) number_same [of i "pcs s" "asleep v" "Ready rv None"]
      number_same [of i "pcs s" "unblocked v" "Ready rv None"]
    by (simp add: enough_def available_kept)
qed

lemma all_told_update:
  assumes "all_told q ps" "\<And>v. asleep v p \<Longrightarrow> asleep v (ps ! i)" "i < length ps" "ps ! i \<noteq> Locking Interrupt_all"
  shows "all_told q (ps[i := p])"
proof (cases "terminated q \<and> Locking Interrupt_all \<notin> set ps")
  case True
  with assms have "\<not> asleep v p'" if "p' \<in> set ps" for v p'
    using that by (auto simp: all_told_def)
  with assms(2,3) show ?thesis
    by (auto simp: all_told_def dest!: set_update_subset_insert [THEN subsetD])
next
  case False
  with assms(4) show ?thesis using in_update [of "Locking Interrupt_all" ps i p] by (auto simp: all_told_def)
qed

lemma all_told_count_out: "all_told (count_out c q) ps = all_told q ps"
  by (simp add: all_told_def)

lemma not_waiting_asleep: "\<not> waiting v p \<Longrightarrow> \<not> asleep v p"
  using asleep_facts(1) by blast

lemma all_told_step:
  assumes "step s (e, False) s'" "ring_inv (sq s)" "all_told (sq s) (pcs s)"
  shows "all_told (sq s') (pcs s')"
  using assms(1,2)
proof (cases rule: step_elim)
  case (quiet i p)
  then show ?thesis using all_told_update [OF assms(3), of p i] by (simp add: not_waiting_asleep)
next
  case (unblock i c)
  then show ?thesis using all_told_update [OF assms(3), of "Waiting c True" i] by simp
next
  case (lock i c out)
  then show ?thesis using all_told_section assms(3) by blast
next
  case (resume i c out)
  then have "all_told (count_out c (sq s)) ((pcs s)[i := Locking c])"
    using all_told_update [OF assms(3), of "Locking c" i] by (simp add: all_told_count_out)
  then show ?thesis using all_told_section [OF resume(1,4)] resume(2) by simp
next
  case (wait_fails i c rv)
  then show ?thesis
    using all_told_update [OF assms(3), of "Ready rv None" i] by (simp add: all_told_count_out)
qed


lemma waits_runs:
  assumes "runs s es s'" "ring_inv (sq s)" "counted (sq s) (pcs s)" "contents (sq s) = []" "fault_free es"
    "all_told (sq s) (pcs s)" "\<forall>v. enough 0 v (sq s) (pcs s)"
  shows "counted (sq s') (pcs s') \<and> all_told (sq s') (pcs s') \<and> (\<forall>v. enough 0 v (sq s') (pcs s'))"
  using assms
proof (induction rule: runs.induct)
  case (runs_snoc s es s' e s'')
  then have "snd e = False" "fault_free es" by (auto simp: fault_free_def)
  moreover from this have "counted (sq s') (pcs s')" "all_told (sq s') (pcs s')" "\<forall>v. enough 0 v (sq s') (pcs s')"
    using runs_snoc by auto
  moreover have "ring_inv (sq s')" using ring_runs [OF runs_snoc(1)] runs_snoc.prems by simp
  ultimately show ?case
    using runs_snoc(2) counted_step [of s' "fst e" "snd e" s''] enough_step [of s' "fst e" s'']
      all_told_step [of s' "fst e" s'']
    by (cases e) auto
qed simp

lemma create_initial:
  assumes "apr_queue_create rv1 rv2 rv3 n = Inr q"
  shows "ring_inv q" "contents q = []" "capacity q = unat n" "terminated q = False" "\<And>v. waiters v q = 0"
    "rv1 = APR_SUCCESS \<and> rv2 = APR_SUCCESS \<and> rv3 = APR_SUCCESS"
proof -
  show r: "rv1 = APR_SUCCESS \<and> rv2 = APR_SUCCESS \<and> rv3 = APR_SUCCESS"
    using assms by (auto simp: apr_queue_create_def split: if_splits)
  with assms show "ring_inv q" "contents q = []" "capacity q = unat n" "terminated q = False"
    by (auto simp: apr_queue_create_def ring_inv_def capacity_def slot_def contents_def)
  show "waiters v q = 0" for v using assms r by (cases v) (auto simp: apr_queue_create_def)
qed

lemma initial_waits:
  assumes "apr_queue_create rv1 rv2 rv3 n = Inr q" "threads < 2 ^ 32"
  shows "counted q (pcs (initial q threads))" "all_told q (pcs (initial q threads))"
    "enough 0 v q (pcs (initial q threads))"
  using create_initial [OF assms(1)] assms(2)
  by (auto simp: counted_def all_told_def enough_def initial_def number_def)

section \<open>What the queue promises\<close>

text \<open>The sections as operations of a bounded list: what becomes of the elements, and how the section ends. A push or a
  pop that cannot go on waits, or, once the queue is terminated, looks at \<open>terminated\<close> again, which makes it \<open>APR_EOF\<close>.\<close>

datatype 'a ending = Waits | Returns status "'a option" | Tests_again | Wakes_all | Then_interrupts

fun ended :: "'a outcome \<Rightarrow> 'a ending" where
  "ended Blocks = Waits"
| "ended (Leaves st x v) = Returns st x"
| "ended Retests = Tests_again"
| "ended Broadcasts = Wakes_all"
| "ended Interrupts = Then_interrupts"

fun promised :: "'a call \<Rightarrow> nat \<Rightarrow> bool \<Rightarrow> 'a list \<Rightarrow> 'a list \<times> bool \<times> 'a ending" where
  "promised (Push x) n t xs =
     (if length xs < n then (xs @ [x], t, Returns APR_SUCCESS None) else (xs, t, if t then Tests_again else Waits))"
| "promised (Trypush x) n t xs =
     (if length xs < n then (xs @ [x], t, Returns APR_SUCCESS None) else (xs, t, Returns APR_EAGAIN None))"
| "promised Pop n t xs =
     (case xs of y # ys \<Rightarrow> (ys, t, Returns APR_SUCCESS (Some y)) | [] \<Rightarrow> (xs, t, if t then Tests_again else Waits))"
| "promised Trypop n t xs =
     (case xs of y # ys \<Rightarrow> (ys, t, Returns APR_SUCCESS (Some y)) | [] \<Rightarrow> (xs, t, Returns APR_EAGAIN None))"
| "promised Interrupt_all n t xs = (xs, t, Wakes_all)"
| "promised Term n t xs = (xs, True, Then_interrupts)"

definition abstracted :: "'a apr_queue \<times> 'a outcome \<Rightarrow> 'a list \<times> bool \<times> 'a ending" where
  "abstracted r = (contents (fst r), terminated (fst r), ended (snd r))"

lemma push_leave_promise:
  assumes "ring_inv q" "\<not> apr_queue_full q"
  shows "abstracted (push_leave q x) = (contents q @ [x], terminated q, Returns APR_SUCCESS None)"
    "length (contents q) < capacity q"
proof -
  show "length (contents q) < capacity q" using assms by (simp add: full_available)
  then show "abstracted (push_leave q x) = (contents q @ [x], terminated q, Returns APR_SUCCESS None)"
    using qf.contents_put [OF assms(1)] by (simp add: abstracted_def push_leave_def Let_def) (simp add: push_store_def)
qed

lemma pop_leave_promise:
  assumes "ring_inv q" "\<not> apr_queue_empty q"
  shows "abstracted (pop_leave q) = (tl (contents q), terminated q, Returns APR_SUCCESS (Some (hd (contents q))))"
    "contents q = hd (contents q) # tl (contents q)"
proof -
  have ne: "contents q \<noteq> []" using assms by (simp add: empty_available contents_nonempty)
  then show "contents q = hd (contents q) # tl (contents q)" by simp
  show "abstracted (pop_leave q) = (tl (contents q), terminated q, Returns APR_SUCCESS (Some (hd (contents q))))"
    using qf.contents_get [OF assms(1) ne] qf.get_first [OF assms(1) ne]
    by (simp add: abstracted_def pop_leave_def split_beta) (simp add: pop_take_def)
qed

lemma full_promise: "ring_inv q \<Longrightarrow> apr_queue_full q \<Longrightarrow> \<not> length (contents q) < capacity q"
  by (simp add: full_available)

lemma empty_promise: "apr_queue_empty q \<Longrightarrow> contents q = []"
  by (simp add: empty_available contents_def)

lemma contents_count_in [simp]: "contents (count_in v q) = contents q"
  by (cases v) (simp_all add: contents_def slot_def)

lemma crit_promised:
  assumes "ring_inv q"
  shows "abstracted (crit c q) = promised c (capacity q) (terminated q) (contents q)"
proof (cases c)
  case (Push x)
  with assms show ?thesis
    using push_leave_promise(1) [of q x] push_leave_promise(2) [of q] full_promise [of q]
    by (auto simp: push_crit_recheck push_recheck_def abstracted_def simp del: count_in.simps contents_length)
next
  case (Trypush x)
  with assms show ?thesis
    using push_leave_promise(1) [of q x] push_leave_promise(2) [of q] full_promise [of q]
    by (auto simp: trypush_crit_def abstracted_def simp del: contents_length)
next
  case Pop
  then show ?thesis
    using pop_leave_promise [OF assms] empty_promise [of q]
    by (cases "apr_queue_empty q")
      (auto simp: pop_crit_recheck pop_recheck_def abstracted_def simp del: count_in.simps split: list.split)
next
  case Trypop
  then show ?thesis
    using pop_leave_promise [OF assms] empty_promise [of q]
    by (cases "apr_queue_empty q") (auto simp: trypop_crit_def abstracted_def split: list.split)
qed (simp_all add: interrupt_crit_def term_crit_def abstracted_def contents_def slot_def)


lemma abstracted_count_out: "abstracted (count_out c q, Leaves rv None None) = (contents q, terminated q, Returns rv None)"
  by (cases c) (simp_all add: abstracted_def contents_def slot_def)

text \<open>The counters of the waiting threads.\<close>

lemmas section_defs = push_crit_def push_woken_def pop_crit_def pop_woken_def trypush_crit_def trypop_crit_def interrupt_crit_def term_crit_def
  push_recheck_def pop_recheck_def push_leave_def pop_leave_def push_store_def pop_take_def Let_def

lemma waiters_crit: "waiters w (fst (crit c q)) = waiters w q + of_bool (waits_on c w \<and> ended (snd (crit c q)) = Waits)"
  by (cases c; cases w) (auto simp: section_defs)

lemma waiters_woken: "waits_on c v \<Longrightarrow> waiters w (fst (woken c q rv)) = waiters w q - of_bool (v = w)"
  by (cases c; cases v; cases w) (auto simp: section_defs)

lemma woken_promised:
  assumes "ring_inv q" "waits_on c v"
  shows "abstracted (woken c q APR_SUCCESS) =
    (fst (promised c (capacity q) True (contents q)), terminated q, snd (snd (promised c (capacity q) True (contents q))))"
proof -
  let ?q = "(count_out c q)\<lparr>terminated := True\<rparr>"
  have q: "ring_inv ?q" "contents ?q = contents q" "capacity ?q = capacity q" "terminated ?q"
    using assms(1) by (cases c; simp add: ring_inv_def contents_def slot_def capacity_def)+
  have "crit c ?q = (fst (woken c q APR_SUCCESS)\<lparr>terminated := True\<rparr>, snd (woken c q APR_SUCCESS))"
    using assms(2)
    by (cases c; cases v)
      (auto simp: push_woken_def pop_woken_def push_crit_recheck pop_crit_recheck push_recheck_def pop_recheck_def
        push_leave_def pop_leave_def apr_queue_full_def apr_queue_empty_def push_store_def pop_take_def Let_def)
  moreover have "terminated (fst (woken c q APR_SUCCESS)) = terminated q"
    using assms(2)
    by (cases c; cases v)
      (auto simp: push_woken_def pop_woken_def push_recheck_def pop_recheck_def push_leave_def pop_leave_def
        push_store_def pop_take_def Let_def)
  moreover have "contents (q\<lparr>terminated := True\<rparr>) = contents q" for q :: "'a apr_queue"
    by (simp add: contents_def slot_def)
  ultimately show ?thesis
    using crit_promised [OF q(1), of c] q by (simp add: abstracted_def prod_eq_iff)
qed

text \<open>A run in which one thread waits in \<open>apr_queue_pop\<close> for what another one pushes.\<close>

definition queue4 :: "nat apr_queue" where
  "queue4 = \<lparr>qdata = [None, None, None, None], qnelts = 0, qin = 0, qout = 0, qbounds = 4,
     full_waiters = 0, empty_waiters = 0, terminated = False\<rparr>"

lemma replicate_few: "replicate 2 x = [x, x]" "replicate 4 x = [x, x, x, x]"
  by (simp_all add: eval_nat_numeral)

lemma queue4_created: "apr_queue_create APR_SUCCESS APR_SUCCESS APR_SUCCESS 4 = Inr queue4"
  by (simp add: apr_queue_create_def queue4_def replicate_few)

definition waits_run :: "(nat effect \<times> bool) list" where
  "waits_run = [(Nothing, False), (Nothing, False), (Nothing, False)]"

definition waits_state :: "nat system" where
  "waits_state = \<lparr>sq = queue4\<lparr>empty_waiters := 1\<rparr>, pcs = [Waiting Pop False, Ready APR_SUCCESS None]\<rparr>"

lemma runs_snoc3:
  "step s e1 s1 \<Longrightarrow> step s1 e2 s2 \<Longrightarrow> step s2 e3 s3 \<Longrightarrow> runs s [e1, e2, e3] s3"
  using runs_snoc [OF runs_snoc [OF runs_snoc [OF runs_Nil]], of s e1 s1 e2 s2 e3 s3] by simp

lemma runs_trans: "runs t fs u \<Longrightarrow> runs s es t \<Longrightarrow> runs s (es @ fs) u"
  by (induction rule: runs.induct) (simp, metis append_assoc runs_snoc)

lemma call_runs:
  assumes "i < length ps" "ps ! i = Ready st x" "\<not> (tests_first c \<and> terminated q)" "crit c q = (q', out)"
    "finishes i c out f ps ps'"
  shows "runs \<lparr>sq = q, pcs = ps\<rparr> [(Nothing, False), (Nothing, False), (section_effect c q q', f)] \<lparr>sq = q', pcs = ps'\<rparr>"
proof (rule runs_snoc3)
  let ?s = "\<lambda>p. \<lparr>sq = q, pcs = ps[i := p]\<rparr>"
  show "step \<lparr>sq = q, pcs = ps\<rparr> (Nothing, False) (?s (Entry c))"
    using step.start [of i "\<lparr>sq = q, pcs = ps\<rparr>" st x c] assms by simp
  show "step (?s (Entry c)) (Nothing, False) (?s (Locking c))"
    using step.entry_go [of i "?s (Entry c)" c] assms by simp
  show "step (?s (Locking c)) (section_effect c q q', f) \<lparr>sq = q', pcs = ps'\<rparr>"
    using step.critical [of i "?s (Locking c)" c q' out f ps'] assms finishes_from [OF assms(5)] by simp
qed

lemma waits_run: "runs (initial queue4 2) waits_run waits_state"
  using call_runs [of 0 "[Ready APR_SUCCESS None, Ready APR_SUCCESS None]" APR_SUCCESS None Pop queue4
      "queue4\<lparr>empty_waiters := 1\<rparr>" Blocks False] finishes.blocks [of 0 Pop "[Ready APR_SUCCESS None, Ready APR_SUCCESS None]"]
  by (simp add: initial_def waits_run_def waits_state_def queue4_def pop_crit_def apr_queue_empty_def replicate_few)

lemma waits_then_push:
  "runs waits_state [(Nothing, False), (Nothing, False), (Stores 7, False)]
     \<lparr>sq = push_store (queue4\<lparr>empty_waiters := 1\<rparr>) 7, pcs = [Waiting Pop True, Ready APR_SUCCESS None]\<rparr>"
proof -
  let ?q = "queue4\<lparr>empty_waiters := 1\<rparr>" and ?ps = "[Waiting Pop False, Ready APR_SUCCESS None] :: nat pc list"
  have "signals (Some Not_empty) ?ps [Waiting Pop True, Ready APR_SUCCESS None]"
    using somebody [of 0 ?ps Not_empty] by simp
  then have "finishes 1 (Push 7) (Leaves APR_SUCCESS None (Some Not_empty)) False ?ps
    [Waiting Pop True, Ready APR_SUCCESS None]"
    by (intro finishes.leaves) simp
  moreover have "crit (Push 7) ?q = (push_store ?q 7, Leaves APR_SUCCESS None (Some Not_empty))"
    by (simp add: push_crit_def push_leave_def apr_queue_full_def queue4_def push_store_def)
  ultimately show ?thesis
    using call_runs [of 1 ?ps APR_SUCCESS None "Push 7" ?q "push_store ?q 7" "Leaves APR_SUCCESS None (Some Not_empty)"
        False "[Waiting Pop True, Ready APR_SUCCESS None]"]
    by (simp add: waits_state_def queue4_def push_store_def)
qed

section \<open>Properties\<close>

text \<open>C35: whatever the threads do, and whichever calls of the thread library fail, the elements taken from the queue
  are, in this order, the first of the elements stored in it; the others are in the queue, \<open>apr_queue_size\<close> is their
  number, and never more than the capacity the queue was created with.\<close>

theorem queue_fifo:
  assumes "apr_queue_create rv1 rv2 rv3 queue_capacity = Inr q"
    and "runs (initial q threads) es s"
  shows "\<exists>rest. stored es = taken es @ rest \<and> length rest = unat (apr_queue_size (sq s)) \<and>
    length rest \<le> unat queue_capacity"
proof -
  have "ring_inv (sq s) \<and> capacity (sq s) = capacity q \<and> stored es = taken es @ contents (sq s)"
    using ring_runs [OF assms(2)] create_initial [OF assms(1)] by (simp add: initial_def)
  then show ?thesis
    using create_initial(3) [OF assms(1)] qf.within [of "sq s"] by (auto simp: apr_queue_size_def)
qed

theorem queue_fifo_witness:
  "\<exists>s rest. runs (initial queue4 2) (waits_run @ [(Nothing, False), (Nothing, False), (Stores 7, False)]) s \<and>
     rest = [7] \<and> length rest = unat (apr_queue_size (sq s))"
  using queue_fifo [OF queue4_created runs_trans [OF waits_then_push waits_run]]
    runs_trans [OF waits_then_push waits_run]
  by (fastforce simp: stored_def taken_def map_filter_def waits_run_def)

text \<open>C36: on the queues that the threads can bring about, each critical section is the operation of a bounded list: a
  push appends its element if there is room, a pop takes the first element if there is one; otherwise the \<open>try\<close> calls
  return \<open>APR_EAGAIN\<close> and change nothing, and the others wait, or test \<open>terminated\<close> again if they have waited or the
  queue is terminated. A thread whose wait fails returns the status of the wait and leaves the list as it is. The counter of the waiting
  threads goes up when a thread begins to wait and down when its wait ends, well or badly.\<close>

theorem queue_sections:
  assumes "apr_queue_create rv1 rv2 rv3 queue_capacity = Inr q"
    and "runs (initial q threads) es s"
  shows "abstracted (crit c (sq s)) = promised c (unat queue_capacity) (terminated (sq s)) (contents (sq s)) \<and>
    (waits_on c v \<longrightarrow> abstracted (woken c (sq s) rv) =
      (if rv = APR_SUCCESS
       then (fst (promised c (unat queue_capacity) True (contents (sq s))), terminated (sq s),
         snd (snd (promised c (unat queue_capacity) True (contents (sq s)))))
       else (contents (sq s), terminated (sq s), Returns rv None))) \<and>
    waiters w (fst (crit c (sq s))) = waiters w (sq s) + of_bool (waits_on c w \<and> ended (snd (crit c (sq s))) = Waits) \<and>
    (waits_on c v \<longrightarrow> waiters w (fst (woken c (sq s) rv)) = waiters w (sq s) - of_bool (v = w))"
proof -
  have "ring_inv (sq s)" "capacity (sq s) = unat queue_capacity"
    using ring_runs [OF assms(2)] create_initial [OF assms(1)] by (simp_all add: initial_def)
  then show ?thesis
    using crit_promised [of "sq s" c] woken_promised [of "sq s" c v] woken_fails [of rv c "sq s"] abstracted_count_out [of c "sq s" rv]
      waiters_crit [of w c "sq s"] waiters_woken [of c v w "sq s" rv] by simp
qed

theorem queue_sections_witness:
  "abstracted (crit (Push 7) (sq waits_state)) = ([7], False, Returns APR_SUCCESS None) \<and>
   abstracted (woken Pop (sq waits_state) APR_SUCCESS) = ([], False, Tests_again)"
  using queue_sections [OF queue4_created waits_run, of "Push 7"]
    queue_sections [OF queue4_created waits_run, of Pop Not_empty APR_SUCCESS]
  by (simp add: waits_state_def queue4_def contents_def)

text \<open>C37: no wake-up is lost. As long as no call of the thread library fails, whenever a thread sleeps in
  \<open>apr_queue_pop\<close> there are at least as many unblocked threads in \<open>apr_queue_pop\<close> as there are elements in the queue,
  and whenever a thread sleeps in \<open>apr_queue_push\<close> there are at least as many unblocked ones as free places. (A
  condition variable that is signalled for every element while \<open>empty_waiters\<close> is not zero suffices for this.)\<close>

theorem queue_no_lost_wakeup:
  assumes "apr_queue_create rv1 rv2 rv3 queue_capacity = Inr q"
    and "runs (initial q threads) es s" and "threads < 2 ^ 32" and "fault_free es"
    and "p \<in> set (pcs s)" and "asleep v p"
  shows "available v (sq s) \<le> number (unblocked v) (pcs s)"
proof -
  have "enough 0 v (sq s) (pcs s)"
    using waits_runs [OF assms(2)] create_initial [OF assms(1)] initial_waits [OF assms(1,3)] assms(4)
    by (simp add: initial_def)
  moreover have "number (asleep v) (pcs s) \<noteq> 0" using assms(5,6) by (auto simp: number_zero)
  ultimately show ?thesis by (simp add: enough_def)
qed

theorem queue_no_lost_wakeup_witness:
  "asleep Not_empty (Waiting (Pop :: nat call) False) \<and>
   available Not_empty (sq waits_state) \<le> number (unblocked Not_empty) (pcs waits_state)"
  using queue_no_lost_wakeup [OF queue4_created waits_run, of "Waiting Pop False" Not_empty]
  by (simp add: fault_free_def waits_run_def waits_state_def)

text \<open>C38: \<open>apr_queue_term\<close> leaves no thread behind. As long as no call of the thread library fails, once the queue is
  terminated either no thread sleeps on a condition variable or a thread is about to run \<open>apr_queue_interrupt_all\<close>,
  and the section of \<open>apr_queue_interrupt_all\<close> leaves no thread asleep.\<close>

theorem queue_term_wakes_all:
  assumes "apr_queue_create rv1 rv2 rv3 queue_capacity = Inr q"
    and "runs (initial q threads) es s" and "threads < 2 ^ 32" and "fault_free es" and "terminated (sq s)"
    and "p \<in> set (pcs s)" and "asleep v p"
  shows "Locking Interrupt_all \<in> set (pcs s) \<and>
    (finishes i c (snd (crit Interrupt_all (sq s))) f (pcs s) ps' \<longrightarrow> (\<forall>p' \<in> set ps'. \<not> asleep w p'))"
proof -
  have "all_told (sq s) (pcs s)"
    using waits_runs [OF assms(2)] create_initial [OF assms(1)] initial_waits [OF assms(1,3)] assms(4)
    by (simp add: initial_def)
  with assms(5-) show ?thesis
    by (auto simp: all_told_def interrupt_crit_def elim!: finishes_broadcasts
        dest!: set_update_subset_insert [THEN subsetD])
qed

lemma waits_then_term:
  "runs waits_state [(Nothing, False), (Nothing, False), (Nothing, False)]
     \<lparr>sq = queue4\<lparr>empty_waiters := 1, terminated := True\<rparr>, pcs = [Waiting Pop False, Locking Interrupt_all]\<rparr>"
  using call_runs [of 1 "[Waiting Pop False, Ready APR_SUCCESS None]" APR_SUCCESS None Term "queue4\<lparr>empty_waiters := 1\<rparr>"
      "queue4\<lparr>empty_waiters := 1, terminated := True\<rparr>" Interrupts False "[Waiting Pop False, Locking Interrupt_all]"] finishes.interrupts [of 1 Term "[Waiting Pop False, Ready APR_SUCCESS None]"]
  by (simp add: waits_state_def term_crit_def)

theorem queue_term_wakes_all_witness:
  "\<exists>s ps'. runs (initial queue4 2) (waits_run @ [(Nothing, False), (Nothing, False), (Nothing, False)]) s \<and>
     terminated (sq s) \<and> asleep Not_empty (pcs s ! 0) \<and> Locking Interrupt_all \<in> set (pcs s) \<and>
     finishes 1 Interrupt_all Broadcasts False (pcs s) ps' \<and> \<not> asleep Not_empty (ps' ! 0)"
proof -
  let ?s = "\<lparr>sq = queue4\<lparr>empty_waiters := 1, terminated := True\<rparr>, pcs = [Waiting Pop False, Locking Interrupt_all]\<rparr>"
  let ?ps = "[Waiting Pop True, Ready APR_SUCCESS None] :: nat pc list"
  have r: "runs (initial queue4 2) (waits_run @ [(Nothing, False), (Nothing, False), (Nothing, False)]) ?s"
    by (rule runs_trans [OF waits_then_term waits_run])
  have f: "finishes 1 Interrupt_all Broadcasts False (pcs ?s) ?ps"
    using finishes.broadcasts [of 1 Interrupt_all "pcs ?s"] by simp
  have "Locking Interrupt_all \<in> set (pcs ?s)" "\<not> asleep Not_empty (Waiting (Pop :: nat call) True)"
    using queue_term_wakes_all [OF queue4_created r, of "Waiting Pop False" Not_empty 1 Interrupt_all False ?ps Not_empty] f
    by (simp_all add: fault_free_def waits_run_def interrupt_crit_def)
  with r f show ?thesis by (intro exI [of _ ?s] exI [of _ ?ps]) simp
qed

end
