(* ===== verification/ExpatRole.thy ===== *)
theory ExpatRole
  imports Prelude
begin

text \<open>
  The prolog state machine of expat: \<open>apr-util-1.3.9/xml/expat/lib/xmlrole.c\<close> (with \<open>XML_DTD\<close>, which
  \<open>config.h.in\<close> defines), and the comparison of names with keywords from \<open>xmltok_impl.c\<close>.

  A token is its code and its text, the bytes from \<open>ptr\<close> to \<open>end\<close>. The function pointer in
  \<open>PROLOG_STATE\<close> is the name of a handler (\<open>H_prolog0\<close>, ...), and \<open>XmlTokenRole\<close>, a call through that
  pointer, is a case distinction. Each handler returns the state after the token and the role of the
  token. The \<open>switch\<close> of a handler is a chain of tests with the labels in the order of the source; a \<open>break\<close>
  leads to \<open>common\<close>, as does every token without a label.
\<close>

section \<open>Tokens, roles and handlers\<close>

text \<open>The codes of \<open>xmltok.h\<close> and the values of the enumeration in \<open>xmlrole.h\<close>; both are of type \<open>int\<close>.\<close>

abbreviation (input) XML_TOK_TRAILING_RSQB :: int where "XML_TOK_TRAILING_RSQB \<equiv> -5"
abbreviation (input) XML_TOK_NONE :: int where "XML_TOK_NONE \<equiv> -4"
abbreviation (input) XML_TOK_TRAILING_CR :: int where "XML_TOK_TRAILING_CR \<equiv> -3"
abbreviation (input) XML_TOK_PARTIAL_CHAR :: int where "XML_TOK_PARTIAL_CHAR \<equiv> -2"
abbreviation (input) XML_TOK_PARTIAL :: int where "XML_TOK_PARTIAL \<equiv> -1"
abbreviation (input) XML_TOK_INVALID :: int where "XML_TOK_INVALID \<equiv> 0"
abbreviation (input) XML_TOK_START_TAG_WITH_ATTS :: int where "XML_TOK_START_TAG_WITH_ATTS \<equiv> 1"
abbreviation (input) XML_TOK_START_TAG_NO_ATTS :: int where "XML_TOK_START_TAG_NO_ATTS \<equiv> 2"
abbreviation (input) XML_TOK_EMPTY_ELEMENT_WITH_ATTS :: int where "XML_TOK_EMPTY_ELEMENT_WITH_ATTS \<equiv> 3"
abbreviation (input) XML_TOK_EMPTY_ELEMENT_NO_ATTS :: int where "XML_TOK_EMPTY_ELEMENT_NO_ATTS \<equiv> 4"
abbreviation (input) XML_TOK_END_TAG :: int where "XML_TOK_END_TAG \<equiv> 5"
abbreviation (input) XML_TOK_DATA_CHARS :: int where "XML_TOK_DATA_CHARS \<equiv> 6"
abbreviation (input) XML_TOK_DATA_NEWLINE :: int where "XML_TOK_DATA_NEWLINE \<equiv> 7"
abbreviation (input) XML_TOK_CDATA_SECT_OPEN :: int where "XML_TOK_CDATA_SECT_OPEN \<equiv> 8"
abbreviation (input) XML_TOK_ENTITY_REF :: int where "XML_TOK_ENTITY_REF \<equiv> 9"
abbreviation (input) XML_TOK_CHAR_REF :: int where "XML_TOK_CHAR_REF \<equiv> 10"
abbreviation (input) XML_TOK_PI :: int where "XML_TOK_PI \<equiv> 11"
abbreviation (input) XML_TOK_XML_DECL :: int where "XML_TOK_XML_DECL \<equiv> 12"
abbreviation (input) XML_TOK_COMMENT :: int where "XML_TOK_COMMENT \<equiv> 13"
abbreviation (input) XML_TOK_BOM :: int where "XML_TOK_BOM \<equiv> 14"
abbreviation (input) XML_TOK_PROLOG_S :: int where "XML_TOK_PROLOG_S \<equiv> 15"
abbreviation (input) XML_TOK_DECL_OPEN :: int where "XML_TOK_DECL_OPEN \<equiv> 16"
abbreviation (input) XML_TOK_DECL_CLOSE :: int where "XML_TOK_DECL_CLOSE \<equiv> 17"
abbreviation (input) XML_TOK_NAME :: int where "XML_TOK_NAME \<equiv> 18"
abbreviation (input) XML_TOK_NMTOKEN :: int where "XML_TOK_NMTOKEN \<equiv> 19"
abbreviation (input) XML_TOK_POUND_NAME :: int where "XML_TOK_POUND_NAME \<equiv> 20"
abbreviation (input) XML_TOK_OR :: int where "XML_TOK_OR \<equiv> 21"
abbreviation (input) XML_TOK_PERCENT :: int where "XML_TOK_PERCENT \<equiv> 22"
abbreviation (input) XML_TOK_OPEN_PAREN :: int where "XML_TOK_OPEN_PAREN \<equiv> 23"
abbreviation (input) XML_TOK_CLOSE_PAREN :: int where "XML_TOK_CLOSE_PAREN \<equiv> 24"
abbreviation (input) XML_TOK_OPEN_BRACKET :: int where "XML_TOK_OPEN_BRACKET \<equiv> 25"
abbreviation (input) XML_TOK_CLOSE_BRACKET :: int where "XML_TOK_CLOSE_BRACKET \<equiv> 26"
abbreviation (input) XML_TOK_LITERAL :: int where "XML_TOK_LITERAL \<equiv> 27"
abbreviation (input) XML_TOK_PARAM_ENTITY_REF :: int where "XML_TOK_PARAM_ENTITY_REF \<equiv> 28"
abbreviation (input) XML_TOK_INSTANCE_START :: int where "XML_TOK_INSTANCE_START \<equiv> 29"
abbreviation (input) XML_TOK_NAME_QUESTION :: int where "XML_TOK_NAME_QUESTION \<equiv> 30"
abbreviation (input) XML_TOK_NAME_ASTERISK :: int where "XML_TOK_NAME_ASTERISK \<equiv> 31"
abbreviation (input) XML_TOK_NAME_PLUS :: int where "XML_TOK_NAME_PLUS \<equiv> 32"
abbreviation (input) XML_TOK_COND_SECT_OPEN :: int where "XML_TOK_COND_SECT_OPEN \<equiv> 33"
abbreviation (input) XML_TOK_COND_SECT_CLOSE :: int where "XML_TOK_COND_SECT_CLOSE \<equiv> 34"
abbreviation (input) XML_TOK_CLOSE_PAREN_QUESTION :: int where "XML_TOK_CLOSE_PAREN_QUESTION \<equiv> 35"
abbreviation (input) XML_TOK_CLOSE_PAREN_ASTERISK :: int where "XML_TOK_CLOSE_PAREN_ASTERISK \<equiv> 36"
abbreviation (input) XML_TOK_CLOSE_PAREN_PLUS :: int where "XML_TOK_CLOSE_PAREN_PLUS \<equiv> 37"
abbreviation (input) XML_TOK_COMMA :: int where "XML_TOK_COMMA \<equiv> 38"
abbreviation (input) XML_TOK_ATTRIBUTE_VALUE_S :: int where "XML_TOK_ATTRIBUTE_VALUE_S \<equiv> 39"
abbreviation (input) XML_TOK_CDATA_SECT_CLOSE :: int where "XML_TOK_CDATA_SECT_CLOSE \<equiv> 40"
abbreviation (input) XML_TOK_PREFIXED_NAME :: int where "XML_TOK_PREFIXED_NAME \<equiv> 41"
abbreviation (input) XML_TOK_IGNORE_SECT :: int where "XML_TOK_IGNORE_SECT \<equiv> 42"

abbreviation (input) XML_ROLE_ERROR :: int where "XML_ROLE_ERROR \<equiv> -1"
abbreviation (input) XML_ROLE_NONE :: int where "XML_ROLE_NONE \<equiv> 0"
abbreviation (input) XML_ROLE_XML_DECL :: int where "XML_ROLE_XML_DECL \<equiv> 1"
abbreviation (input) XML_ROLE_INSTANCE_START :: int where "XML_ROLE_INSTANCE_START \<equiv> 2"
abbreviation (input) XML_ROLE_DOCTYPE_NAME :: int where "XML_ROLE_DOCTYPE_NAME \<equiv> 3"
abbreviation (input) XML_ROLE_DOCTYPE_SYSTEM_ID :: int where "XML_ROLE_DOCTYPE_SYSTEM_ID \<equiv> 4"
abbreviation (input) XML_ROLE_DOCTYPE_PUBLIC_ID :: int where "XML_ROLE_DOCTYPE_PUBLIC_ID \<equiv> 5"
abbreviation (input) XML_ROLE_DOCTYPE_INTERNAL_SUBSET :: int where "XML_ROLE_DOCTYPE_INTERNAL_SUBSET \<equiv> 6"
abbreviation (input) XML_ROLE_DOCTYPE_CLOSE :: int where "XML_ROLE_DOCTYPE_CLOSE \<equiv> 7"
abbreviation (input) XML_ROLE_GENERAL_ENTITY_NAME :: int where "XML_ROLE_GENERAL_ENTITY_NAME \<equiv> 8"
abbreviation (input) XML_ROLE_PARAM_ENTITY_NAME :: int where "XML_ROLE_PARAM_ENTITY_NAME \<equiv> 9"
abbreviation (input) XML_ROLE_ENTITY_VALUE :: int where "XML_ROLE_ENTITY_VALUE \<equiv> 10"
abbreviation (input) XML_ROLE_ENTITY_SYSTEM_ID :: int where "XML_ROLE_ENTITY_SYSTEM_ID \<equiv> 11"
abbreviation (input) XML_ROLE_ENTITY_PUBLIC_ID :: int where "XML_ROLE_ENTITY_PUBLIC_ID \<equiv> 12"
abbreviation (input) XML_ROLE_ENTITY_COMPLETE :: int where "XML_ROLE_ENTITY_COMPLETE \<equiv> 13"
abbreviation (input) XML_ROLE_ENTITY_NOTATION_NAME :: int where "XML_ROLE_ENTITY_NOTATION_NAME \<equiv> 14"
abbreviation (input) XML_ROLE_NOTATION_NAME :: int where "XML_ROLE_NOTATION_NAME \<equiv> 15"
abbreviation (input) XML_ROLE_NOTATION_SYSTEM_ID :: int where "XML_ROLE_NOTATION_SYSTEM_ID \<equiv> 16"
abbreviation (input) XML_ROLE_NOTATION_NO_SYSTEM_ID :: int where "XML_ROLE_NOTATION_NO_SYSTEM_ID \<equiv> 17"
abbreviation (input) XML_ROLE_NOTATION_PUBLIC_ID :: int where "XML_ROLE_NOTATION_PUBLIC_ID \<equiv> 18"
abbreviation (input) XML_ROLE_ATTRIBUTE_NAME :: int where "XML_ROLE_ATTRIBUTE_NAME \<equiv> 19"
abbreviation (input) XML_ROLE_ATTRIBUTE_TYPE_CDATA :: int where "XML_ROLE_ATTRIBUTE_TYPE_CDATA \<equiv> 20"
abbreviation (input) XML_ROLE_ATTRIBUTE_TYPE_ID :: int where "XML_ROLE_ATTRIBUTE_TYPE_ID \<equiv> 21"
abbreviation (input) XML_ROLE_ATTRIBUTE_TYPE_IDREF :: int where "XML_ROLE_ATTRIBUTE_TYPE_IDREF \<equiv> 22"
abbreviation (input) XML_ROLE_ATTRIBUTE_TYPE_IDREFS :: int where "XML_ROLE_ATTRIBUTE_TYPE_IDREFS \<equiv> 23"
abbreviation (input) XML_ROLE_ATTRIBUTE_TYPE_ENTITY :: int where "XML_ROLE_ATTRIBUTE_TYPE_ENTITY \<equiv> 24"
abbreviation (input) XML_ROLE_ATTRIBUTE_TYPE_ENTITIES :: int where "XML_ROLE_ATTRIBUTE_TYPE_ENTITIES \<equiv> 25"
abbreviation (input) XML_ROLE_ATTRIBUTE_TYPE_NMTOKEN :: int where "XML_ROLE_ATTRIBUTE_TYPE_NMTOKEN \<equiv> 26"
abbreviation (input) XML_ROLE_ATTRIBUTE_TYPE_NMTOKENS :: int where "XML_ROLE_ATTRIBUTE_TYPE_NMTOKENS \<equiv> 27"
abbreviation (input) XML_ROLE_ATTRIBUTE_ENUM_VALUE :: int where "XML_ROLE_ATTRIBUTE_ENUM_VALUE \<equiv> 28"
abbreviation (input) XML_ROLE_ATTRIBUTE_NOTATION_VALUE :: int where "XML_ROLE_ATTRIBUTE_NOTATION_VALUE \<equiv> 29"
abbreviation (input) XML_ROLE_ATTLIST_ELEMENT_NAME :: int where "XML_ROLE_ATTLIST_ELEMENT_NAME \<equiv> 30"
abbreviation (input) XML_ROLE_IMPLIED_ATTRIBUTE_VALUE :: int where "XML_ROLE_IMPLIED_ATTRIBUTE_VALUE \<equiv> 31"
abbreviation (input) XML_ROLE_REQUIRED_ATTRIBUTE_VALUE :: int where "XML_ROLE_REQUIRED_ATTRIBUTE_VALUE \<equiv> 32"
abbreviation (input) XML_ROLE_DEFAULT_ATTRIBUTE_VALUE :: int where "XML_ROLE_DEFAULT_ATTRIBUTE_VALUE \<equiv> 33"
abbreviation (input) XML_ROLE_FIXED_ATTRIBUTE_VALUE :: int where "XML_ROLE_FIXED_ATTRIBUTE_VALUE \<equiv> 34"
abbreviation (input) XML_ROLE_ELEMENT_NAME :: int where "XML_ROLE_ELEMENT_NAME \<equiv> 35"
abbreviation (input) XML_ROLE_CONTENT_ANY :: int where "XML_ROLE_CONTENT_ANY \<equiv> 36"
abbreviation (input) XML_ROLE_CONTENT_EMPTY :: int where "XML_ROLE_CONTENT_EMPTY \<equiv> 37"
abbreviation (input) XML_ROLE_CONTENT_PCDATA :: int where "XML_ROLE_CONTENT_PCDATA \<equiv> 38"
abbreviation (input) XML_ROLE_GROUP_OPEN :: int where "XML_ROLE_GROUP_OPEN \<equiv> 39"
abbreviation (input) XML_ROLE_GROUP_CLOSE :: int where "XML_ROLE_GROUP_CLOSE \<equiv> 40"
abbreviation (input) XML_ROLE_GROUP_CLOSE_REP :: int where "XML_ROLE_GROUP_CLOSE_REP \<equiv> 41"
abbreviation (input) XML_ROLE_GROUP_CLOSE_OPT :: int where "XML_ROLE_GROUP_CLOSE_OPT \<equiv> 42"
abbreviation (input) XML_ROLE_GROUP_CLOSE_PLUS :: int where "XML_ROLE_GROUP_CLOSE_PLUS \<equiv> 43"
abbreviation (input) XML_ROLE_GROUP_CHOICE :: int where "XML_ROLE_GROUP_CHOICE \<equiv> 44"
abbreviation (input) XML_ROLE_GROUP_SEQUENCE :: int where "XML_ROLE_GROUP_SEQUENCE \<equiv> 45"
abbreviation (input) XML_ROLE_CONTENT_ELEMENT :: int where "XML_ROLE_CONTENT_ELEMENT \<equiv> 46"
abbreviation (input) XML_ROLE_CONTENT_ELEMENT_REP :: int where "XML_ROLE_CONTENT_ELEMENT_REP \<equiv> 47"
abbreviation (input) XML_ROLE_CONTENT_ELEMENT_OPT :: int where "XML_ROLE_CONTENT_ELEMENT_OPT \<equiv> 48"
abbreviation (input) XML_ROLE_CONTENT_ELEMENT_PLUS :: int where "XML_ROLE_CONTENT_ELEMENT_PLUS \<equiv> 49"
abbreviation (input) XML_ROLE_TEXT_DECL :: int where "XML_ROLE_TEXT_DECL \<equiv> 50"
abbreviation (input) XML_ROLE_IGNORE_SECT :: int where "XML_ROLE_IGNORE_SECT \<equiv> 51"
abbreviation (input) XML_ROLE_INNER_PARAM_ENTITY_REF :: int where "XML_ROLE_INNER_PARAM_ENTITY_REF \<equiv> 52"
abbreviation (input) XML_ROLE_PARAM_ENTITY_REF :: int where "XML_ROLE_PARAM_ENTITY_REF \<equiv> 53"

datatype prolog_handler_name = H_prolog0 | H_prolog1 | H_prolog2 | H_doctype0 | H_doctype1
  | H_doctype2 | H_doctype3 | H_doctype4 | H_doctype5 | H_internalSubset | H_externalSubset0
  | H_externalSubset1 | H_entity0 | H_entity1 | H_entity2 | H_entity3 | H_entity4 | H_entity5
  | H_entity6 | H_entity7 | H_entity8 | H_entity9 | H_notation0 | H_notation1 | H_notation2
  | H_notation3 | H_notation4 | H_attlist0 | H_attlist1 | H_attlist2 | H_attlist3 | H_attlist4
  | H_attlist5 | H_attlist6 | H_attlist7 | H_attlist8 | H_attlist9 | H_element0 | H_element1
  | H_element2 | H_element3 | H_element4 | H_element5 | H_element6 | H_element7 | H_condSect0
  | H_condSect1 | H_condSect2 | H_declClose | H_error

section \<open>Names in an encoding\<close>

text \<open>
  \<open>nameMatchesAscii\<close> is compiled once for each kind of encoding, with its own \<open>MINBPC\<close> and \<open>CHAR_MATCHES\<close>.
  The text of a token consists of whole characters; where fewer bytes than a character are left the
  comparison is false.
\<close>

record encoding =
  minBytesPerChar :: nat
  nameMatchesAscii :: "byte list \<Rightarrow> cstring \<Rightarrow> bool"

fun name_matches :: "nat \<Rightarrow> (byte list \<Rightarrow> byte \<Rightarrow> bool) \<Rightarrow> byte list \<Rightarrow> cstring \<Rightarrow> bool" where
  "name_matches minbpc char_matches ptr1 [] = (ptr1 = [])"
| "name_matches minbpc char_matches ptr1 (c # ptr2) =
     (if ptr1 = [] then False
      else if \<not> char_matches ptr1 c then False
      else name_matches minbpc char_matches (drop minbpc ptr1) ptr2)"

definition CHAR_MATCHES :: "byte list \<Rightarrow> byte \<Rightarrow> bool" where
  "CHAR_MATCHES p c = (p \<noteq> [] \<and> p ! 0 = c)"

definition LITTLE2_CHAR_MATCHES :: "byte list \<Rightarrow> byte \<Rightarrow> bool" where
  "LITTLE2_CHAR_MATCHES p c = (length p \<ge> 2 \<and> p ! 1 = 0 \<and> p ! 0 = c)"

definition BIG2_CHAR_MATCHES :: "byte list \<Rightarrow> byte \<Rightarrow> bool" where
  "BIG2_CHAR_MATCHES p c = (length p \<ge> 2 \<and> p ! 0 = 0 \<and> p ! 1 = c)"

datatype encoding_kind = Normal | Little2 | Big2

definition expat_encoding :: "encoding_kind \<Rightarrow> encoding" where
  "expat_encoding k = (case k of
     Normal \<Rightarrow> \<lparr>minBytesPerChar = 1, nameMatchesAscii = name_matches 1 CHAR_MATCHES\<rparr>
   | Little2 \<Rightarrow> \<lparr>minBytesPerChar = 2, nameMatchesAscii = name_matches 2 LITTLE2_CHAR_MATCHES\<rparr>
   | Big2 \<Rightarrow> \<lparr>minBytesPerChar = 2, nameMatchesAscii = name_matches 2 BIG2_CHAR_MATCHES\<rparr>)"

definition XmlNameMatchesAscii :: "encoding \<Rightarrow> byte list \<Rightarrow> cstring \<Rightarrow> bool" where
  "XmlNameMatchesAscii enc ptr1 ptr2 = nameMatchesAscii enc ptr1 ptr2"

section \<open>Keywords\<close>

definition KW_ANY :: cstring where "KW_ANY = cstr ''ANY''"
definition KW_ATTLIST :: cstring where "KW_ATTLIST = cstr ''ATTLIST''"
definition KW_CDATA :: cstring where "KW_CDATA = cstr ''CDATA''"
definition KW_DOCTYPE :: cstring where "KW_DOCTYPE = cstr ''DOCTYPE''"
definition KW_ELEMENT :: cstring where "KW_ELEMENT = cstr ''ELEMENT''"
definition KW_EMPTY :: cstring where "KW_EMPTY = cstr ''EMPTY''"
definition KW_ENTITIES :: cstring where "KW_ENTITIES = cstr ''ENTITIES''"
definition KW_ENTITY :: cstring where "KW_ENTITY = cstr ''ENTITY''"
definition KW_FIXED :: cstring where "KW_FIXED = cstr ''FIXED''"
definition KW_ID :: cstring where "KW_ID = cstr ''ID''"
definition KW_IDREF :: cstring where "KW_IDREF = cstr ''IDREF''"
definition KW_IDREFS :: cstring where "KW_IDREFS = cstr ''IDREFS''"
definition KW_IGNORE :: cstring where "KW_IGNORE = cstr ''IGNORE''"
definition KW_IMPLIED :: cstring where "KW_IMPLIED = cstr ''IMPLIED''"
definition KW_INCLUDE :: cstring where "KW_INCLUDE = cstr ''INCLUDE''"
definition KW_NDATA :: cstring where "KW_NDATA = cstr ''NDATA''"
definition KW_NMTOKEN :: cstring where "KW_NMTOKEN = cstr ''NMTOKEN''"
definition KW_NMTOKENS :: cstring where "KW_NMTOKENS = cstr ''NMTOKENS''"
definition KW_NOTATION :: cstring where "KW_NOTATION = cstr ''NOTATION''"
definition KW_PCDATA :: cstring where "KW_PCDATA = cstr ''PCDATA''"
definition KW_PUBLIC :: cstring where "KW_PUBLIC = cstr ''PUBLIC''"
definition KW_REQUIRED :: cstring where "KW_REQUIRED = cstr ''REQUIRED''"
definition KW_SYSTEM :: cstring where "KW_SYSTEM = cstr ''SYSTEM''"

section \<open>The state\<close>

record prolog_state =
  handler :: prolog_handler_name
  level :: "32 word"
  includeLevel :: "32 word"
  documentEntity :: bool

type_synonym prolog_handler = "encoding \<Rightarrow> prolog_state \<Rightarrow> int \<Rightarrow> byte list \<Rightarrow> prolog_state \<times> int"

definition setTopLevel :: "prolog_state \<Rightarrow> prolog_state" where
  "setTopLevel state =
     state\<lparr>handler := if documentEntity state then H_internalSubset else H_externalSubset1\<rparr>"

definition common :: "prolog_state \<Rightarrow> int \<Rightarrow> prolog_state \<times> int" where
  "common state tok =
     (if \<not> documentEntity state \<and> tok = XML_TOK_PARAM_ENTITY_REF then (state, XML_ROLE_INNER_PARAM_ENTITY_REF)
      else (state\<lparr>handler := H_error\<rparr>, XML_ROLE_ERROR))"

section \<open>Handlers\<close>

definition prolog0 :: prolog_handler where
  "prolog0 enc state tok ptr =
     (if tok = XML_TOK_PROLOG_S then (state\<lparr>handler := H_prolog1\<rparr>, XML_ROLE_NONE)
      else if tok = XML_TOK_XML_DECL then (state\<lparr>handler := H_prolog1\<rparr>, XML_ROLE_XML_DECL)
      else if tok = XML_TOK_PI \<or> tok = XML_TOK_COMMENT then
        (state\<lparr>handler := H_prolog1\<rparr>, XML_ROLE_NONE)
      else if tok = XML_TOK_BOM then (state, XML_ROLE_NONE)
      else if tok = XML_TOK_DECL_OPEN then
       (if \<not> XmlNameMatchesAscii enc (drop (2 * minBytesPerChar enc) ptr) KW_DOCTYPE then
         common state tok
        else (state\<lparr>handler := H_doctype0\<rparr>, XML_ROLE_NONE))
      else if tok = XML_TOK_INSTANCE_START then
        (state\<lparr>handler := H_error\<rparr>, XML_ROLE_INSTANCE_START)
      else common state tok)"

definition prolog1 :: prolog_handler where
  "prolog1 enc state tok ptr =
     (if tok = XML_TOK_PROLOG_S \<or> tok = XML_TOK_PI \<or> tok = XML_TOK_COMMENT \<or> tok = XML_TOK_BOM then
       (state, XML_ROLE_NONE)
      else if tok = XML_TOK_DECL_OPEN then
       (if \<not> XmlNameMatchesAscii enc (drop (2 * minBytesPerChar enc) ptr) KW_DOCTYPE then
         common state tok
        else (state\<lparr>handler := H_doctype0\<rparr>, XML_ROLE_NONE))
      else if tok = XML_TOK_INSTANCE_START then
        (state\<lparr>handler := H_error\<rparr>, XML_ROLE_INSTANCE_START)
      else common state tok)"

definition prolog2 :: prolog_handler where
  "prolog2 enc state tok ptr =
     (if tok = XML_TOK_PROLOG_S \<or> tok = XML_TOK_PI \<or> tok = XML_TOK_COMMENT then
       (state, XML_ROLE_NONE)
      else if tok = XML_TOK_INSTANCE_START then
        (state\<lparr>handler := H_error\<rparr>, XML_ROLE_INSTANCE_START)
      else common state tok)"

definition doctype0 :: prolog_handler where
  "doctype0 enc state tok ptr =
     (if tok = XML_TOK_PROLOG_S then (state, XML_ROLE_NONE)
      else if tok = XML_TOK_NAME \<or> tok = XML_TOK_PREFIXED_NAME then
        (state\<lparr>handler := H_doctype1\<rparr>, XML_ROLE_DOCTYPE_NAME)
      else common state tok)"

definition doctype1 :: prolog_handler where
  "doctype1 enc state tok ptr =
     (if tok = XML_TOK_PROLOG_S then (state, XML_ROLE_NONE)
      else if tok = XML_TOK_OPEN_BRACKET then
        (state\<lparr>handler := H_internalSubset\<rparr>, XML_ROLE_DOCTYPE_INTERNAL_SUBSET)
      else if tok = XML_TOK_DECL_CLOSE then
        (state\<lparr>handler := H_prolog2\<rparr>, XML_ROLE_DOCTYPE_CLOSE)
      else if tok = XML_TOK_NAME then
       (if XmlNameMatchesAscii enc ptr KW_SYSTEM then
         (state\<lparr>handler := H_doctype3\<rparr>, XML_ROLE_NONE)
        else if XmlNameMatchesAscii enc ptr KW_PUBLIC then
          (state\<lparr>handler := H_doctype2\<rparr>, XML_ROLE_NONE)
        else common state tok)
      else common state tok)"

definition doctype2 :: prolog_handler where
  "doctype2 enc state tok ptr =
     (if tok = XML_TOK_PROLOG_S then (state, XML_ROLE_NONE)
      else if tok = XML_TOK_LITERAL then
        (state\<lparr>handler := H_doctype3\<rparr>, XML_ROLE_DOCTYPE_PUBLIC_ID)
      else common state tok)"

definition doctype3 :: prolog_handler where
  "doctype3 enc state tok ptr =
     (if tok = XML_TOK_PROLOG_S then (state, XML_ROLE_NONE)
      else if tok = XML_TOK_LITERAL then
        (state\<lparr>handler := H_doctype4\<rparr>, XML_ROLE_DOCTYPE_SYSTEM_ID)
      else common state tok)"

definition doctype4 :: prolog_handler where
  "doctype4 enc state tok ptr =
     (if tok = XML_TOK_PROLOG_S then (state, XML_ROLE_NONE)
      else if tok = XML_TOK_OPEN_BRACKET then
        (state\<lparr>handler := H_internalSubset\<rparr>, XML_ROLE_DOCTYPE_INTERNAL_SUBSET)
      else if tok = XML_TOK_DECL_CLOSE then
        (state\<lparr>handler := H_prolog2\<rparr>, XML_ROLE_DOCTYPE_CLOSE)
      else common state tok)"

definition doctype5 :: prolog_handler where
  "doctype5 enc state tok ptr =
     (if tok = XML_TOK_PROLOG_S then (state, XML_ROLE_NONE)
      else if tok = XML_TOK_DECL_CLOSE then
        (state\<lparr>handler := H_prolog2\<rparr>, XML_ROLE_DOCTYPE_CLOSE)
      else common state tok)"

definition internalSubset :: prolog_handler where
  "internalSubset enc state tok ptr =
     (if tok = XML_TOK_PROLOG_S then (state, XML_ROLE_NONE)
      else if tok = XML_TOK_DECL_OPEN then
       (if XmlNameMatchesAscii enc (drop (2 * minBytesPerChar enc) ptr) KW_ENTITY then
         (state\<lparr>handler := H_entity0\<rparr>, XML_ROLE_NONE)
        else if XmlNameMatchesAscii enc (drop (2 * minBytesPerChar enc) ptr) KW_ATTLIST then
          (state\<lparr>handler := H_attlist0\<rparr>, XML_ROLE_NONE)
        else if XmlNameMatchesAscii enc (drop (2 * minBytesPerChar enc) ptr) KW_ELEMENT then
          (state\<lparr>handler := H_element0\<rparr>, XML_ROLE_NONE)
        else if XmlNameMatchesAscii enc (drop (2 * minBytesPerChar enc) ptr) KW_NOTATION then
          (state\<lparr>handler := H_notation0\<rparr>, XML_ROLE_NONE)
        else common state tok)
      else if tok = XML_TOK_PI \<or> tok = XML_TOK_COMMENT then (state, XML_ROLE_NONE)
      else if tok = XML_TOK_PARAM_ENTITY_REF then (state, XML_ROLE_PARAM_ENTITY_REF)
      else if tok = XML_TOK_CLOSE_BRACKET then
        (state\<lparr>handler := H_doctype5\<rparr>, XML_ROLE_NONE)
      else common state tok)"

definition externalSubset1 :: prolog_handler where
  "externalSubset1 enc state tok ptr =
     (if tok = XML_TOK_COND_SECT_OPEN then (state\<lparr>handler := H_condSect0\<rparr>, XML_ROLE_NONE)
      else if tok = XML_TOK_COND_SECT_CLOSE then
       (if includeLevel state = 0 then common state tok
        else (state\<lparr>includeLevel := includeLevel state - 1\<rparr>, XML_ROLE_NONE))
      else if tok = XML_TOK_PROLOG_S then (state, XML_ROLE_NONE)
      else if tok = XML_TOK_CLOSE_BRACKET then common state tok
      else if tok = XML_TOK_NONE then
       (if includeLevel state \<noteq> 0 then common state tok
        else (state, XML_ROLE_NONE))
      else internalSubset enc state tok ptr)"

definition externalSubset0 :: prolog_handler where
  "externalSubset0 enc state tok ptr =
     (let state1 = state\<lparr>handler := H_externalSubset1\<rparr> in
      if tok = XML_TOK_XML_DECL then (state1, XML_ROLE_TEXT_DECL)
      else externalSubset1 enc state1 tok ptr)"

definition entity0 :: prolog_handler where
  "entity0 enc state tok ptr =
     (if tok = XML_TOK_PROLOG_S then (state, XML_ROLE_NONE)
      else if tok = XML_TOK_PERCENT then (state\<lparr>handler := H_entity1\<rparr>, XML_ROLE_NONE)
      else if tok = XML_TOK_NAME then
        (state\<lparr>handler := H_entity2\<rparr>, XML_ROLE_GENERAL_ENTITY_NAME)
      else common state tok)"

definition entity1 :: prolog_handler where
  "entity1 enc state tok ptr =
     (if tok = XML_TOK_PROLOG_S then (state, XML_ROLE_NONE)
      else if tok = XML_TOK_NAME then
        (state\<lparr>handler := H_entity7\<rparr>, XML_ROLE_PARAM_ENTITY_NAME)
      else common state tok)"

definition entity2 :: prolog_handler where
  "entity2 enc state tok ptr =
     (if tok = XML_TOK_PROLOG_S then (state, XML_ROLE_NONE)
      else if tok = XML_TOK_NAME then
       (if XmlNameMatchesAscii enc ptr KW_SYSTEM then
         (state\<lparr>handler := H_entity4\<rparr>, XML_ROLE_NONE)
        else if XmlNameMatchesAscii enc ptr KW_PUBLIC then
          (state\<lparr>handler := H_entity3\<rparr>, XML_ROLE_NONE)
        else common state tok)
      else if tok = XML_TOK_LITERAL then
        (state\<lparr>handler := H_declClose\<rparr>, XML_ROLE_ENTITY_VALUE)
      else common state tok)"

definition entity3 :: prolog_handler where
  "entity3 enc state tok ptr =
     (if tok = XML_TOK_PROLOG_S then (state, XML_ROLE_NONE)
      else if tok = XML_TOK_LITERAL then
        (state\<lparr>handler := H_entity4\<rparr>, XML_ROLE_ENTITY_PUBLIC_ID)
      else common state tok)"

definition entity4 :: prolog_handler where
  "entity4 enc state tok ptr =
     (if tok = XML_TOK_PROLOG_S then (state, XML_ROLE_NONE)
      else if tok = XML_TOK_LITERAL then
        (state\<lparr>handler := H_entity5\<rparr>, XML_ROLE_ENTITY_SYSTEM_ID)
      else common state tok)"

definition entity5 :: prolog_handler where
  "entity5 enc state tok ptr =
     (if tok = XML_TOK_PROLOG_S then (state, XML_ROLE_NONE)
      else if tok = XML_TOK_DECL_CLOSE then (setTopLevel state, XML_ROLE_ENTITY_COMPLETE)
      else if tok = XML_TOK_NAME then
       (if XmlNameMatchesAscii enc ptr KW_NDATA then
         (state\<lparr>handler := H_entity6\<rparr>, XML_ROLE_NONE)
        else common state tok)
      else common state tok)"

definition entity6 :: prolog_handler where
  "entity6 enc state tok ptr =
     (if tok = XML_TOK_PROLOG_S then (state, XML_ROLE_NONE)
      else if tok = XML_TOK_NAME then
        (state\<lparr>handler := H_declClose\<rparr>, XML_ROLE_ENTITY_NOTATION_NAME)
      else common state tok)"

definition entity7 :: prolog_handler where
  "entity7 enc state tok ptr =
     (if tok = XML_TOK_PROLOG_S then (state, XML_ROLE_NONE)
      else if tok = XML_TOK_NAME then
       (if XmlNameMatchesAscii enc ptr KW_SYSTEM then
         (state\<lparr>handler := H_entity9\<rparr>, XML_ROLE_NONE)
        else if XmlNameMatchesAscii enc ptr KW_PUBLIC then
          (state\<lparr>handler := H_entity8\<rparr>, XML_ROLE_NONE)
        else common state tok)
      else if tok = XML_TOK_LITERAL then
        (state\<lparr>handler := H_declClose\<rparr>, XML_ROLE_ENTITY_VALUE)
      else common state tok)"

definition entity8 :: prolog_handler where
  "entity8 enc state tok ptr =
     (if tok = XML_TOK_PROLOG_S then (state, XML_ROLE_NONE)
      else if tok = XML_TOK_LITERAL then
        (state\<lparr>handler := H_entity9\<rparr>, XML_ROLE_ENTITY_PUBLIC_ID)
      else common state tok)"

definition entity9 :: prolog_handler where
  "entity9 enc state tok ptr =
     (if tok = XML_TOK_PROLOG_S then (state, XML_ROLE_NONE)
      else if tok = XML_TOK_LITERAL then
        (state\<lparr>handler := H_declClose\<rparr>, XML_ROLE_ENTITY_SYSTEM_ID)
      else common state tok)"

definition notation0 :: prolog_handler where
  "notation0 enc state tok ptr =
     (if tok = XML_TOK_PROLOG_S then (state, XML_ROLE_NONE)
      else if tok = XML_TOK_NAME then
        (state\<lparr>handler := H_notation1\<rparr>, XML_ROLE_NOTATION_NAME)
      else common state tok)"

definition notation1 :: prolog_handler where
  "notation1 enc state tok ptr =
     (if tok = XML_TOK_PROLOG_S then (state, XML_ROLE_NONE)
      else if tok = XML_TOK_NAME then
       (if XmlNameMatchesAscii enc ptr KW_SYSTEM then
         (state\<lparr>handler := H_notation3\<rparr>, XML_ROLE_NONE)
        else if XmlNameMatchesAscii enc ptr KW_PUBLIC then
          (state\<lparr>handler := H_notation2\<rparr>, XML_ROLE_NONE)
        else common state tok)
      else common state tok)"

definition notation2 :: prolog_handler where
  "notation2 enc state tok ptr =
     (if tok = XML_TOK_PROLOG_S then (state, XML_ROLE_NONE)
      else if tok = XML_TOK_LITERAL then
        (state\<lparr>handler := H_notation4\<rparr>, XML_ROLE_NOTATION_PUBLIC_ID)
      else common state tok)"

definition notation3 :: prolog_handler where
  "notation3 enc state tok ptr =
     (if tok = XML_TOK_PROLOG_S then (state, XML_ROLE_NONE)
      else if tok = XML_TOK_LITERAL then
        (state\<lparr>handler := H_declClose\<rparr>, XML_ROLE_NOTATION_SYSTEM_ID)
      else common state tok)"

definition notation4 :: prolog_handler where
  "notation4 enc state tok ptr =
     (if tok = XML_TOK_PROLOG_S then (state, XML_ROLE_NONE)
      else if tok = XML_TOK_LITERAL then
        (state\<lparr>handler := H_declClose\<rparr>, XML_ROLE_NOTATION_SYSTEM_ID)
      else if tok = XML_TOK_DECL_CLOSE then (setTopLevel state, XML_ROLE_NOTATION_NO_SYSTEM_ID)
      else common state tok)"

definition attlist0 :: prolog_handler where
  "attlist0 enc state tok ptr =
     (if tok = XML_TOK_PROLOG_S then (state, XML_ROLE_NONE)
      else if tok = XML_TOK_NAME \<or> tok = XML_TOK_PREFIXED_NAME then
        (state\<lparr>handler := H_attlist1\<rparr>, XML_ROLE_ATTLIST_ELEMENT_NAME)
      else common state tok)"

definition attlist1 :: prolog_handler where
  "attlist1 enc state tok ptr =
     (if tok = XML_TOK_PROLOG_S then (state, XML_ROLE_NONE)
      else if tok = XML_TOK_DECL_CLOSE then (setTopLevel state, XML_ROLE_NONE)
      else if tok = XML_TOK_NAME \<or> tok = XML_TOK_PREFIXED_NAME then
        (state\<lparr>handler := H_attlist2\<rparr>, XML_ROLE_ATTRIBUTE_NAME)
      else common state tok)"

definition types :: "cstring list" where
  "types = [KW_CDATA, KW_ID, KW_IDREF, KW_IDREFS, KW_ENTITY, KW_ENTITIES, KW_NMTOKEN, KW_NMTOKENS]"

fun att_types_loop :: "encoding \<Rightarrow> byte list \<Rightarrow> cstring list \<Rightarrow> nat \<Rightarrow> nat option" where
  "att_types_loop enc ptr [] i = None"
| "att_types_loop enc ptr (t # ts) i =
     (if XmlNameMatchesAscii enc ptr t then Some i else att_types_loop enc ptr ts (i + 1))"

definition attlist2 :: prolog_handler where
  "attlist2 enc state tok ptr =
     (if tok = XML_TOK_PROLOG_S then (state, XML_ROLE_NONE)
      else if tok = XML_TOK_NAME then
       (case att_types_loop enc ptr types 0 of
        Some i \<Rightarrow> (state\<lparr>handler := H_attlist8\<rparr>, XML_ROLE_ATTRIBUTE_TYPE_CDATA + int i)
      | None \<Rightarrow>
          if XmlNameMatchesAscii enc ptr KW_NOTATION then
            (state\<lparr>handler := H_attlist5\<rparr>, XML_ROLE_NONE)
          else common state tok)
      else if tok = XML_TOK_OPEN_PAREN then (state\<lparr>handler := H_attlist3\<rparr>, XML_ROLE_NONE)
      else common state tok)"

definition attlist3 :: prolog_handler where
  "attlist3 enc state tok ptr =
     (if tok = XML_TOK_PROLOG_S then (state, XML_ROLE_NONE)
      else if tok = XML_TOK_NMTOKEN \<or> tok = XML_TOK_NAME \<or> tok = XML_TOK_PREFIXED_NAME then
        (state\<lparr>handler := H_attlist4\<rparr>, XML_ROLE_ATTRIBUTE_ENUM_VALUE)
      else common state tok)"

definition attlist4 :: prolog_handler where
  "attlist4 enc state tok ptr =
     (if tok = XML_TOK_PROLOG_S then (state, XML_ROLE_NONE)
      else if tok = XML_TOK_CLOSE_PAREN then (state\<lparr>handler := H_attlist8\<rparr>, XML_ROLE_NONE)
      else if tok = XML_TOK_OR then (state\<lparr>handler := H_attlist3\<rparr>, XML_ROLE_NONE)
      else common state tok)"

definition attlist5 :: prolog_handler where
  "attlist5 enc state tok ptr =
     (if tok = XML_TOK_PROLOG_S then (state, XML_ROLE_NONE)
      else if tok = XML_TOK_OPEN_PAREN then (state\<lparr>handler := H_attlist6\<rparr>, XML_ROLE_NONE)
      else common state tok)"

definition attlist6 :: prolog_handler where
  "attlist6 enc state tok ptr =
     (if tok = XML_TOK_PROLOG_S then (state, XML_ROLE_NONE)
      else if tok = XML_TOK_NAME then
        (state\<lparr>handler := H_attlist7\<rparr>, XML_ROLE_ATTRIBUTE_NOTATION_VALUE)
      else common state tok)"

definition attlist7 :: prolog_handler where
  "attlist7 enc state tok ptr =
     (if tok = XML_TOK_PROLOG_S then (state, XML_ROLE_NONE)
      else if tok = XML_TOK_CLOSE_PAREN then (state\<lparr>handler := H_attlist8\<rparr>, XML_ROLE_NONE)
      else if tok = XML_TOK_OR then (state\<lparr>handler := H_attlist6\<rparr>, XML_ROLE_NONE)
      else common state tok)"

definition attlist8 :: prolog_handler where
  "attlist8 enc state tok ptr =
     (if tok = XML_TOK_PROLOG_S then (state, XML_ROLE_NONE)
      else if tok = XML_TOK_POUND_NAME then
       (if XmlNameMatchesAscii enc (drop (minBytesPerChar enc) ptr) KW_IMPLIED then
         (state\<lparr>handler := H_attlist1\<rparr>, XML_ROLE_IMPLIED_ATTRIBUTE_VALUE)
        else if XmlNameMatchesAscii enc (drop (minBytesPerChar enc) ptr) KW_REQUIRED then
          (state\<lparr>handler := H_attlist1\<rparr>, XML_ROLE_REQUIRED_ATTRIBUTE_VALUE)
        else if XmlNameMatchesAscii enc (drop (minBytesPerChar enc) ptr) KW_FIXED then
          (state\<lparr>handler := H_attlist9\<rparr>, XML_ROLE_NONE)
        else common state tok)
      else if tok = XML_TOK_LITERAL then
        (state\<lparr>handler := H_attlist1\<rparr>, XML_ROLE_DEFAULT_ATTRIBUTE_VALUE)
      else common state tok)"

definition attlist9 :: prolog_handler where
  "attlist9 enc state tok ptr =
     (if tok = XML_TOK_PROLOG_S then (state, XML_ROLE_NONE)
      else if tok = XML_TOK_LITERAL then
        (state\<lparr>handler := H_attlist1\<rparr>, XML_ROLE_FIXED_ATTRIBUTE_VALUE)
      else common state tok)"

definition element0 :: prolog_handler where
  "element0 enc state tok ptr =
     (if tok = XML_TOK_PROLOG_S then (state, XML_ROLE_NONE)
      else if tok = XML_TOK_NAME \<or> tok = XML_TOK_PREFIXED_NAME then
        (state\<lparr>handler := H_element1\<rparr>, XML_ROLE_ELEMENT_NAME)
      else common state tok)"

definition element1 :: prolog_handler where
  "element1 enc state tok ptr =
     (if tok = XML_TOK_PROLOG_S then (state, XML_ROLE_NONE)
      else if tok = XML_TOK_NAME then
       (if XmlNameMatchesAscii enc ptr KW_EMPTY then
         (state\<lparr>handler := H_declClose\<rparr>, XML_ROLE_CONTENT_EMPTY)
        else if XmlNameMatchesAscii enc ptr KW_ANY then
          (state\<lparr>handler := H_declClose\<rparr>, XML_ROLE_CONTENT_ANY)
        else common state tok)
      else if tok = XML_TOK_OPEN_PAREN then
        (state\<lparr>handler := H_element2, level := 1\<rparr>, XML_ROLE_GROUP_OPEN)
      else common state tok)"

definition element2 :: prolog_handler where
  "element2 enc state tok ptr =
     (if tok = XML_TOK_PROLOG_S then (state, XML_ROLE_NONE)
      else if tok = XML_TOK_POUND_NAME then
       (if XmlNameMatchesAscii enc (drop (minBytesPerChar enc) ptr) KW_PCDATA then
         (state\<lparr>handler := H_element3\<rparr>, XML_ROLE_CONTENT_PCDATA)
        else common state tok)
      else if tok = XML_TOK_OPEN_PAREN then
        (state\<lparr>level := 2, handler := H_element6\<rparr>, XML_ROLE_GROUP_OPEN)
      else if tok = XML_TOK_NAME \<or> tok = XML_TOK_PREFIXED_NAME then
        (state\<lparr>handler := H_element7\<rparr>, XML_ROLE_CONTENT_ELEMENT)
      else if tok = XML_TOK_NAME_QUESTION then
        (state\<lparr>handler := H_element7\<rparr>, XML_ROLE_CONTENT_ELEMENT_OPT)
      else if tok = XML_TOK_NAME_ASTERISK then
        (state\<lparr>handler := H_element7\<rparr>, XML_ROLE_CONTENT_ELEMENT_REP)
      else if tok = XML_TOK_NAME_PLUS then
        (state\<lparr>handler := H_element7\<rparr>, XML_ROLE_CONTENT_ELEMENT_PLUS)
      else common state tok)"

definition element3 :: prolog_handler where
  "element3 enc state tok ptr =
     (if tok = XML_TOK_PROLOG_S then (state, XML_ROLE_NONE)
      else if tok = XML_TOK_CLOSE_PAREN then
        (state\<lparr>handler := H_declClose\<rparr>, XML_ROLE_GROUP_CLOSE)
      else if tok = XML_TOK_CLOSE_PAREN_ASTERISK then
        (state\<lparr>handler := H_declClose\<rparr>, XML_ROLE_GROUP_CLOSE_REP)
      else if tok = XML_TOK_OR then (state\<lparr>handler := H_element4\<rparr>, XML_ROLE_NONE)
      else common state tok)"

definition element4 :: prolog_handler where
  "element4 enc state tok ptr =
     (if tok = XML_TOK_PROLOG_S then (state, XML_ROLE_NONE)
      else if tok = XML_TOK_NAME \<or> tok = XML_TOK_PREFIXED_NAME then
        (state\<lparr>handler := H_element5\<rparr>, XML_ROLE_CONTENT_ELEMENT)
      else common state tok)"

definition element5 :: prolog_handler where
  "element5 enc state tok ptr =
     (if tok = XML_TOK_PROLOG_S then (state, XML_ROLE_NONE)
      else if tok = XML_TOK_CLOSE_PAREN_ASTERISK then
        (state\<lparr>handler := H_declClose\<rparr>, XML_ROLE_GROUP_CLOSE_REP)
      else if tok = XML_TOK_OR then (state\<lparr>handler := H_element4\<rparr>, XML_ROLE_NONE)
      else common state tok)"

definition element6 :: prolog_handler where
  "element6 enc state tok ptr =
     (if tok = XML_TOK_PROLOG_S then (state, XML_ROLE_NONE)
      else if tok = XML_TOK_OPEN_PAREN then
        (state\<lparr>level := level state + 1\<rparr>, XML_ROLE_GROUP_OPEN)
      else if tok = XML_TOK_NAME \<or> tok = XML_TOK_PREFIXED_NAME then
        (state\<lparr>handler := H_element7\<rparr>, XML_ROLE_CONTENT_ELEMENT)
      else if tok = XML_TOK_NAME_QUESTION then
        (state\<lparr>handler := H_element7\<rparr>, XML_ROLE_CONTENT_ELEMENT_OPT)
      else if tok = XML_TOK_NAME_ASTERISK then
        (state\<lparr>handler := H_element7\<rparr>, XML_ROLE_CONTENT_ELEMENT_REP)
      else if tok = XML_TOK_NAME_PLUS then
        (state\<lparr>handler := H_element7\<rparr>, XML_ROLE_CONTENT_ELEMENT_PLUS)
      else common state tok)"

definition element7 :: prolog_handler where
  "element7 enc state tok ptr =
     (if tok = XML_TOK_PROLOG_S then (state, XML_ROLE_NONE)
      else if tok = XML_TOK_CLOSE_PAREN then
       (if level state - 1 = 0 then
         state\<lparr>level := level state - 1, handler := H_declClose\<rparr>
       else state\<lparr>level := level state - 1\<rparr>, XML_ROLE_GROUP_CLOSE)
      else if tok = XML_TOK_CLOSE_PAREN_ASTERISK then
       (if level state - 1 = 0 then
         state\<lparr>level := level state - 1, handler := H_declClose\<rparr>
       else state\<lparr>level := level state - 1\<rparr>, XML_ROLE_GROUP_CLOSE_REP)
      else if tok = XML_TOK_CLOSE_PAREN_QUESTION then
       (if level state - 1 = 0 then
         state\<lparr>level := level state - 1, handler := H_declClose\<rparr>
       else state\<lparr>level := level state - 1\<rparr>, XML_ROLE_GROUP_CLOSE_OPT)
      else if tok = XML_TOK_CLOSE_PAREN_PLUS then
       (if level state - 1 = 0 then
         state\<lparr>level := level state - 1, handler := H_declClose\<rparr>
       else state\<lparr>level := level state - 1\<rparr>, XML_ROLE_GROUP_CLOSE_PLUS)
      else if tok = XML_TOK_COMMA then
        (state\<lparr>handler := H_element6\<rparr>, XML_ROLE_GROUP_SEQUENCE)
      else if tok = XML_TOK_OR then (state\<lparr>handler := H_element6\<rparr>, XML_ROLE_GROUP_CHOICE)
      else common state tok)"

definition condSect0 :: prolog_handler where
  "condSect0 enc state tok ptr =
     (if tok = XML_TOK_PROLOG_S then (state, XML_ROLE_NONE)
      else if tok = XML_TOK_NAME then
       (if XmlNameMatchesAscii enc ptr KW_INCLUDE then
         (state\<lparr>handler := H_condSect1\<rparr>, XML_ROLE_NONE)
        else if XmlNameMatchesAscii enc ptr KW_IGNORE then
          (state\<lparr>handler := H_condSect2\<rparr>, XML_ROLE_NONE)
        else common state tok)
      else common state tok)"

definition condSect1 :: prolog_handler where
  "condSect1 enc state tok ptr =
     (if tok = XML_TOK_PROLOG_S then (state, XML_ROLE_NONE)
      else if tok = XML_TOK_OPEN_BRACKET then
        (state\<lparr>handler := H_externalSubset1, includeLevel := includeLevel state + 1\<rparr>, XML_ROLE_NONE)
      else common state tok)"

definition condSect2 :: prolog_handler where
  "condSect2 enc state tok ptr =
     (if tok = XML_TOK_PROLOG_S then (state, XML_ROLE_NONE)
      else if tok = XML_TOK_OPEN_BRACKET then
        (state\<lparr>handler := H_externalSubset1\<rparr>, XML_ROLE_IGNORE_SECT)
      else common state tok)"

definition declClose :: prolog_handler where
  "declClose enc state tok ptr =
     (if tok = XML_TOK_PROLOG_S then (state, XML_ROLE_NONE)
      else if tok = XML_TOK_DECL_CLOSE then (setTopLevel state, XML_ROLE_NONE)
      else common state tok)"

definition error :: prolog_handler where
  "error enc state tok ptr = (state, XML_ROLE_NONE)"

section \<open>Dispatch and initialisation\<close>

definition XmlTokenRole :: prolog_handler where
  "XmlTokenRole enc state tok ptr = (case handler state of
     H_prolog0 \<Rightarrow> prolog0 enc state tok ptr
   | H_prolog1 \<Rightarrow> prolog1 enc state tok ptr
   | H_prolog2 \<Rightarrow> prolog2 enc state tok ptr
   | H_doctype0 \<Rightarrow> doctype0 enc state tok ptr
   | H_doctype1 \<Rightarrow> doctype1 enc state tok ptr
   | H_doctype2 \<Rightarrow> doctype2 enc state tok ptr
   | H_doctype3 \<Rightarrow> doctype3 enc state tok ptr
   | H_doctype4 \<Rightarrow> doctype4 enc state tok ptr
   | H_doctype5 \<Rightarrow> doctype5 enc state tok ptr
   | H_internalSubset \<Rightarrow> internalSubset enc state tok ptr
   | H_externalSubset0 \<Rightarrow> externalSubset0 enc state tok ptr
   | H_externalSubset1 \<Rightarrow> externalSubset1 enc state tok ptr
   | H_entity0 \<Rightarrow> entity0 enc state tok ptr
   | H_entity1 \<Rightarrow> entity1 enc state tok ptr
   | H_entity2 \<Rightarrow> entity2 enc state tok ptr
   | H_entity3 \<Rightarrow> entity3 enc state tok ptr
   | H_entity4 \<Rightarrow> entity4 enc state tok ptr
   | H_entity5 \<Rightarrow> entity5 enc state tok ptr
   | H_entity6 \<Rightarrow> entity6 enc state tok ptr
   | H_entity7 \<Rightarrow> entity7 enc state tok ptr
   | H_entity8 \<Rightarrow> entity8 enc state tok ptr
   | H_entity9 \<Rightarrow> entity9 enc state tok ptr
   | H_notation0 \<Rightarrow> notation0 enc state tok ptr
   | H_notation1 \<Rightarrow> notation1 enc state tok ptr
   | H_notation2 \<Rightarrow> notation2 enc state tok ptr
   | H_notation3 \<Rightarrow> notation3 enc state tok ptr
   | H_notation4 \<Rightarrow> notation4 enc state tok ptr
   | H_attlist0 \<Rightarrow> attlist0 enc state tok ptr
   | H_attlist1 \<Rightarrow> attlist1 enc state tok ptr
   | H_attlist2 \<Rightarrow> attlist2 enc state tok ptr
   | H_attlist3 \<Rightarrow> attlist3 enc state tok ptr
   | H_attlist4 \<Rightarrow> attlist4 enc state tok ptr
   | H_attlist5 \<Rightarrow> attlist5 enc state tok ptr
   | H_attlist6 \<Rightarrow> attlist6 enc state tok ptr
   | H_attlist7 \<Rightarrow> attlist7 enc state tok ptr
   | H_attlist8 \<Rightarrow> attlist8 enc state tok ptr
   | H_attlist9 \<Rightarrow> attlist9 enc state tok ptr
   | H_element0 \<Rightarrow> element0 enc state tok ptr
   | H_element1 \<Rightarrow> element1 enc state tok ptr
   | H_element2 \<Rightarrow> element2 enc state tok ptr
   | H_element3 \<Rightarrow> element3 enc state tok ptr
   | H_element4 \<Rightarrow> element4 enc state tok ptr
   | H_element5 \<Rightarrow> element5 enc state tok ptr
   | H_element6 \<Rightarrow> element6 enc state tok ptr
   | H_element7 \<Rightarrow> element7 enc state tok ptr
   | H_condSect0 \<Rightarrow> condSect0 enc state tok ptr
   | H_condSect1 \<Rightarrow> condSect1 enc state tok ptr
   | H_condSect2 \<Rightarrow> condSect2 enc state tok ptr
   | H_declClose \<Rightarrow> declClose enc state tok ptr
   | H_error \<Rightarrow> error enc state tok ptr)"

definition XmlPrologStateInit :: "prolog_state \<Rightarrow> prolog_state" where
  "XmlPrologStateInit state = state\<lparr>handler := H_prolog0, documentEntity := True, includeLevel := 0\<rparr>"

definition XmlPrologStateInitExternalEntity :: "prolog_state \<Rightarrow> prolog_state" where
  "XmlPrologStateInitExternalEntity state =
     state\<lparr>handler := H_externalSubset0, documentEntity := False, includeLevel := 0\<rparr>"

text \<open>The calls of \<open>doProlog\<close>, one for each token.\<close>

fun role_run :: "encoding \<Rightarrow> prolog_state \<Rightarrow> (int \<times> byte list) list \<Rightarrow> prolog_state \<times> int list" where
  "role_run enc state [] = (state, [])"
| "role_run enc state ((tok, ptr) # ts) =
     (let (state1, role) = XmlTokenRole enc state tok ptr; (state2, roles) = role_run enc state1 ts
      in (state2, role # roles))"

end
