(* ===== verification/ExpatRoleCorrect.thy ===== *)
theory ExpatRoleCorrect
  imports ExpatRole
begin

text \<open>
  Correctness of the prolog state machine: errors are final, white space is transparent, the groups of
  element declarations are nested properly, and conditional sections are counted.
\<close>

type_synonym token = "int \<times> byte list"

lemmas handler_defs =
  prolog0_def prolog1_def prolog2_def doctype0_def doctype1_def doctype2_def doctype3_def doctype4_def
  doctype5_def internalSubset_def externalSubset0_def externalSubset1_def entity0_def entity1_def
  entity2_def entity3_def entity4_def entity5_def entity6_def entity7_def entity8_def entity9_def
  notation0_def notation1_def notation2_def notation3_def notation4_def attlist0_def attlist1_def
  attlist2_def attlist3_def attlist4_def attlist5_def attlist6_def attlist7_def attlist8_def
  attlist9_def element0_def element1_def element2_def element3_def element4_def element5_def
  element6_def element7_def condSect0_def condSect1_def condSect2_def declClose_def error_def

lemmas step_defs = XmlTokenRole_def handler_defs common_def setTopLevel_def

section \<open>Runs\<close>

lemma role_run_append:
  "role_run enc st (ts @ us) =
     (let (st1, rs) = role_run enc st ts; (st2, qs) = role_run enc st1 us in (st2, rs @ qs))"
  by (induction enc st ts rule: role_run.induct) (auto split: prod.splits)

lemma role_run_length: "length (snd (role_run enc st ts)) = length ts"
  by (induction enc st ts rule: role_run.induct) (auto split: prod.splits)

lemma run_error: "handler st = H_error \<Longrightarrow> role_run enc st ts = (st, replicate (length ts) XML_ROLE_NONE)"
  by (induction enc st ts rule: role_run.induct) (auto simp: XmlTokenRole_def error_def)

section \<open>Errors\<close>

lemma att_types_range: "att_types_loop enc ptr ts k = Some i \<Longrightarrow> k \<le> i \<and> i < k + length ts"
  by (induction enc ptr ts k rule: att_types_loop.induct) (auto split: if_splits)

lemma types_range: "att_types_loop enc ptr types 0 = Some i \<Longrightarrow> i < 8"
  using att_types_range [of enc ptr types 0 i] by (simp add: types_def)

lemma step_error:
  "snd (XmlTokenRole enc st tok ptr) = XML_ROLE_ERROR \<longrightarrow> handler (fst (XmlTokenRole enc st tok ptr)) = H_error"
  "handler (fst (XmlTokenRole enc st tok ptr)) = H_error \<longrightarrow> handler st = H_error \<or>
     snd (XmlTokenRole enc st tok ptr) = XML_ROLE_ERROR \<or> snd (XmlTokenRole enc st tok ptr) = XML_ROLE_INSTANCE_START"
  by (cases "handler st"; simp add: step_defs Let_def split: option.splits)+

lemma step_document: "documentEntity (fst (XmlTokenRole enc st tok ptr)) = documentEntity st"
  by (cases "handler st"; simp add: step_defs Let_def split: option.splits)

lemma step_start:
  "snd (XmlTokenRole enc st tok ptr) = XML_ROLE_INSTANCE_START \<longrightarrow> handler (fst (XmlTokenRole enc st tok ptr)) = H_error"
  by (cases "handler st"; simp add: step_defs Let_def split: option.splits)

section \<open>Nesting of groups\<close>

definition opens :: "int list \<Rightarrow> int" where
  "opens rs = int (length (filter (\<lambda>r. r = XML_ROLE_GROUP_OPEN) rs))"

definition closes :: "int list \<Rightarrow> int" where
  "closes rs = int (length (filter (\<lambda>r. r = XML_ROLE_GROUP_CLOSE \<or> r = XML_ROLE_GROUP_CLOSE_REP \<or>
      r = XML_ROLE_GROUP_CLOSE_OPT \<or> r = XML_ROLE_GROUP_CLOSE_PLUS) rs))"

text \<open>The number of groups open in a state.\<close>

definition depth :: "prolog_state \<Rightarrow> int" where
  "depth st = (if handler st \<in> {H_element2, H_element3, H_element4, H_element5} then 1
     else if handler st \<in> {H_element6, H_element7} then uint (level st) else 0)"

definition level_ok :: "prolog_state \<Rightarrow> bool" where
  "level_ok st \<longleftrightarrow> (handler st = H_element2 \<longrightarrow> level st = 1) \<and>
     (handler st \<in> {H_element6, H_element7} \<longrightarrow> 0 < level st)"

lemma word_level:
  fixes l :: "32 word"
  shows "0 < l \<Longrightarrow> uint (l - 1) = uint l - 1"
    and "uint l < 2 ^ 32 - 1 \<Longrightarrow> uint (l + 1) = uint l + 1"
    and "uint l < 2 ^ 32 - 1 \<Longrightarrow> 0 < l + 1"
proof -
  show "uint (l - 1) = uint l - 1" if "0 < l"
    using that uint_minus_simple_alt [of 1 l] by (simp add: word_less_def word_le_def)
  show a: "uint (l + 1) = uint l + 1" if "uint l < 2 ^ 32 - 1"
    using that by (simp add: uint_word_ariths)
  show "0 < l + 1" if "uint l < 2 ^ 32 - 1"
    using a [OF that] by (simp add: word_less_def)
qed

lemmas depth_simps = opens_def closes_def depth_def level_ok_def

abbreviation keeps_depth :: "prolog_state \<Rightarrow> prolog_state \<Rightarrow> int \<Rightarrow> bool" where
  "keeps_depth st st' r \<equiv> level_ok st' \<and> (handler st' = H_error \<longrightarrow> opens [r] = 0 \<and> closes [r] = 0) \<and>
    (handler st' \<noteq> H_error \<longrightarrow> depth st' = depth st + opens [r] - closes [r])"

lemma word_level_pos: "0 < (l :: 32 word) \<Longrightarrow> l \<noteq> 1 \<Longrightarrow> 0 < l - 1"
  by (metis diff_eq_eq add.left_neutral word_neq_0_conv)

lemma step_depth_group:
  assumes "level_ok st" and "depth st < 2 ^ 32 - 1" and "handler st = H_element6 \<or> handler st = H_element7"
  shows "keeps_depth st (fst (XmlTokenRole enc st tok ptr)) (snd (XmlTokenRole enc st tok ptr))"
proof -
  have l: "0 < level st" "uint (level st) < 2 ^ 32 - 1" using assms by (auto simp: depth_simps)
  show ?thesis using assms(3)
  proof
    assume "handler st = H_element6"
    then show ?thesis using word_level(2,3) [OF l(2)] l(1)
      by (simp add: XmlTokenRole_def element6_def common_def depth_simps)
  next
    assume "handler st = H_element7"
    then show ?thesis using word_level(1) [OF l(1)] word_level_pos [OF l(1)] l(1)
      by (simp add: XmlTokenRole_def element7_def common_def depth_simps)
  qed
qed

lemma step_depth_mixed:
  assumes "level_ok st" and "handler st \<in> {H_element1, H_element2, H_element3, H_element4, H_element5}"
  shows "keeps_depth st (fst (XmlTokenRole enc st tok ptr)) (snd (XmlTokenRole enc st tok ptr))"
  using assms(2)
proof (elim insertE emptyE)
  assume "handler st = H_element1"
  then show ?thesis using assms(1) by (simp add: XmlTokenRole_def element1_def common_def depth_simps)
next
  assume "handler st = H_element2"
  then show ?thesis using assms(1) by (simp add: XmlTokenRole_def element2_def common_def depth_simps)
next
  assume "handler st = H_element3"
  then show ?thesis using assms(1) by (simp add: XmlTokenRole_def element3_def common_def depth_simps)
next
  assume "handler st = H_element4"
  then show ?thesis using assms(1) by (simp add: XmlTokenRole_def element4_def common_def depth_simps)
next
  assume "handler st = H_element5"
  then show ?thesis using assms(1) by (simp add: XmlTokenRole_def element5_def common_def depth_simps)
qed

definition group_handlers :: "prolog_handler_name list" where
  "group_handlers = [H_element1, H_element2, H_element3, H_element4, H_element5, H_element6, H_element7]"

lemma step_no_group:
  assumes "handler st \<notin> set group_handlers"
  shows "handler (fst (XmlTokenRole enc st tok ptr)) \<notin> set (tl group_handlers)"
    and "\<not> (XML_ROLE_GROUP_OPEN \<le> snd (XmlTokenRole enc st tok ptr) \<and>
      snd (XmlTokenRole enc st tok ptr) \<le> XML_ROLE_GROUP_CLOSE_PLUS)"
proof -
  show "handler (fst (XmlTokenRole enc st tok ptr)) \<notin> set (tl group_handlers)"
    using assms by (cases "handler st"; simp add: step_defs Let_def group_handlers_def split: option.splits)
  show "\<not> (XML_ROLE_GROUP_OPEN \<le> snd (XmlTokenRole enc st tok ptr) \<and>
      snd (XmlTokenRole enc st tok ptr) \<le> XML_ROLE_GROUP_CLOSE_PLUS)"
  proof (cases "handler st = H_attlist2")
    case True
    then show ?thesis
      by (auto simp: XmlTokenRole_def attlist2_def common_def dest: types_range split: option.splits)
  next
    case False
    then show ?thesis
      using assms by (cases "handler st"; simp add: step_defs Let_def group_handlers_def)
  qed
qed

lemma step_depth:
  assumes "level_ok st" and "depth st < 2 ^ 32 - 1"
  shows "keeps_depth st (fst (XmlTokenRole enc st tok ptr)) (snd (XmlTokenRole enc st tok ptr))"
proof (cases "handler st \<in> set group_handlers")
  case True
  then show ?thesis using step_depth_group [OF assms] step_depth_mixed [OF assms(1)]
    by (auto simp: group_handlers_def)
next
  case False
  then show ?thesis using step_no_group [OF False, of enc tok ptr] by (auto simp: depth_simps group_handlers_def)
qed

lemma opens_closes_simps [simp]:
  "opens [] = 0" "closes [] = 0" "opens (replicate n 0) = 0" "closes (replicate n 0) = 0"
  by (simp_all add: opens_def closes_def filter_replicate)

lemma opens_closes_Cons: "opens (r # rs) = opens [r] + opens rs" "closes (r # rs) = closes [r] + closes rs"
  by (simp_all add: opens_def closes_def)

lemma run_depth:
  "role_run enc st ts = (st', rs) \<Longrightarrow> level_ok st \<Longrightarrow> depth st + int (length ts) < 2 ^ 32 \<Longrightarrow>
   (handler st' \<noteq> H_error \<longrightarrow> depth st' = depth st + opens rs - closes rs \<and> level_ok st') \<and>
   0 \<le> depth st + opens rs - closes rs"
proof (induction ts arbitrary: st rs)
  case Nil
  then show ?case by (simp add: depth_def)
next
  case (Cons t ts)
  obtain tok ptr st1 r qs where s: "t = (tok, ptr)" "XmlTokenRole enc st tok ptr = (st1, r)"
      "role_run enc st1 ts = (st', qs)" "rs = r # qs"
    using Cons.prems(1) by (cases t) (auto split: prod.splits)
  have d: "level_ok st1" "handler st1 = H_error \<longrightarrow> opens [r] = 0 \<and> closes [r] = 0"
    "handler st1 \<noteq> H_error \<longrightarrow> depth st1 = depth st + opens [r] - closes [r]"
    using step_depth [OF Cons.prems(2), of enc tok ptr] Cons.prems(3) s(2) by auto
  show ?case
  proof (cases "handler st1 = H_error")
    case True
    then have "opens rs = 0" "closes rs = 0" and "st' = st1"
      using s run_error [OF True, of enc ts] d(2) opens_closes_Cons [of r qs] by auto
    then show ?thesis using True by (simp add: depth_def)
  next
    case False
    have "opens [r] \<le> 1" "0 \<le> closes [r]" by (simp_all add: opens_def closes_def)
    then show ?thesis using Cons.IH [OF s(3) d(1)] d(3) False Cons.prems(3) by (simp only: s(4) opens_closes_Cons [of r qs]) simp
  qed
qed

section \<open>Insignificant tokens\<close>

text \<open>White space and, in external entities, references to parameter entities.\<close>

definition insignificant :: "prolog_state \<Rightarrow> token \<Rightarrow> bool" where
  "insignificant st t \<longleftrightarrow>
     fst t = XML_TOK_PROLOG_S \<or> (\<not> documentEntity st \<and> fst t = XML_TOK_PARAM_ENTITY_REF)"

definition silent_role :: "int \<Rightarrow> bool" where
  "silent_role r \<longleftrightarrow>
     r = XML_ROLE_NONE \<or> r = XML_ROLE_PARAM_ENTITY_REF \<or> r = XML_ROLE_INNER_PARAM_ENTITY_REF"

lemma step_insignificant:
  assumes "insignificant st (tok, ptr)" and "handler st \<noteq> H_prolog0" and "handler st \<noteq> H_externalSubset0"
  shows "fst (XmlTokenRole enc st tok ptr) = st \<and> silent_role (snd (XmlTokenRole enc st tok ptr))"
proof (cases "tok = XML_TOK_PROLOG_S")
  case True
  then show ?thesis using assms(2,3)
    by (cases "handler st"; simp add: XmlTokenRole_def handler_defs silent_role_def)
next
  case False
  then have "tok = XML_TOK_PARAM_ENTITY_REF" "\<not> documentEntity st" using assms(1) by (simp_all add: insignificant_def)
  then show ?thesis using assms(2,3)
    by (cases "handler st"; simp add: XmlTokenRole_def handler_defs silent_role_def common_def)
qed

lemma step_not_initial:
  "handler (fst (XmlTokenRole enc st tok ptr)) \<noteq> H_externalSubset0 \<and>
   (handler (fst (XmlTokenRole enc st tok ptr)) = H_prolog0 \<longrightarrow> handler st = H_prolog0)"
  by (cases "handler st"; simp add: step_defs Let_def split: option.splits)

lemma run_insignificant:
  "handler st \<noteq> H_prolog0 \<Longrightarrow> handler st \<noteq> H_externalSubset0 \<Longrightarrow>
   fst (role_run enc st (filter (\<lambda>t. \<not> insignificant st t) ts)) = fst (role_run enc st ts) \<and>
   filter (\<lambda>r. \<not> silent_role r) (snd (role_run enc st (filter (\<lambda>t. \<not> insignificant st t) ts))) =
   filter (\<lambda>r. \<not> silent_role r) (snd (role_run enc st ts))"
proof (induction ts arbitrary: st)
  case Nil
  then show ?case by simp
next
  case (Cons t ts)
  obtain tok ptr where t: "t = (tok, ptr)" by (cases t)
  obtain st1 r where s: "XmlTokenRole enc st tok ptr = (st1, r)" by (cases "XmlTokenRole enc st tok ptr")
  have d: "documentEntity st1 = documentEntity st" using step_document [of enc st tok ptr] s by simp
  have i: "insignificant st1 = insignificant st" by (simp add: insignificant_def fun_eq_iff d)
  have h: "handler st1 \<noteq> H_prolog0" "handler st1 \<noteq> H_externalSubset0"
    using step_not_initial [of enc st tok ptr] Cons.prems s by auto
  show ?case
  proof (cases "insignificant st t")
    case True
    then show ?thesis
      using step_insignificant [of st tok ptr enc] Cons.prems Cons.IH [OF h] s t i
      by (auto split: prod.splits)
  next
    case False
    then show ?thesis using Cons.IH [OF h] s t i by (auto split: prod.splits)
  qed
qed

section \<open>Properties\<close>

lemma role_run_take:
  "role_run enc st ts = (st', rs) \<Longrightarrow> \<exists>st1. role_run enc st (take n ts) = (st1, take n rs)"
proof (induction ts arbitrary: st rs n)
  case (Cons t ts)
  obtain tok ptr where t: "t = (tok, ptr)" by (cases t)
  obtain st1 r where s: "XmlTokenRole enc st tok ptr = (st1, r)" by (cases "XmlTokenRole enc st tok ptr")
  obtain qs where q: "role_run enc st1 ts = (st', qs)" "rs = r # qs"
    using Cons.prems by (auto simp: t s split: prod.splits)
  show ?case
  proof (cases n)
    case (Suc m)
    then show ?thesis using Cons.IH [OF q(1), of m] by (auto simp: t s q(2))
  qed simp
qed simp

text \<open>errors are final. A run that does not start in the error state ends there if and only if the role of some
  token is \<open>XML_ROLE_ERROR\<close> or \<open>XML_ROLE_INSTANCE_START\<close>, and every token after it has no role.\<close>

theorem error_final:
  assumes "role_run enc st ts = (st', rs)" and "handler st \<noteq> H_error"
  shows "(handler st' = H_error \<longleftrightarrow> XML_ROLE_ERROR \<in> set rs \<or> XML_ROLE_INSTANCE_START \<in> set rs) \<and>
    (\<forall>i j. i < j \<longrightarrow> j < length rs \<longrightarrow> rs ! i = XML_ROLE_ERROR \<or> rs ! i = XML_ROLE_INSTANCE_START \<longrightarrow>
       rs ! j = XML_ROLE_NONE)"
  using assms
proof (induction ts arbitrary: st rs)
  case (Cons t ts)
  obtain tok ptr where t: "t = (tok, ptr)" by (cases t)
  obtain st1 r where s: "XmlTokenRole enc st tok ptr = (st1, r)" by (cases "XmlTokenRole enc st tok ptr")
  obtain qs where q: "role_run enc st1 ts = (st', qs)" "rs = r # qs"
    using Cons.prems by (auto simp: t s split: prod.splits)
  have e: "handler st1 = H_error \<longleftrightarrow> r = XML_ROLE_ERROR \<or> r = XML_ROLE_INSTANCE_START"
    using step_error [of enc st tok ptr] step_start [of enc st tok ptr] Cons.prems(2) s by auto
  show ?case
  proof (cases "handler st1 = H_error")
    case True
    then have "st' = st1" "qs = replicate (length ts) XML_ROLE_NONE" using q run_error [OF True, of enc ts] by simp_all
    then show ?thesis using True e q(2) by (auto simp: nth_Cons split: nat.splits)
  next
    case False
    then show ?thesis using Cons.IH [OF q(1) False] e q(2) by (auto simp: nth_Cons split: nat.splits)
  qed
qed simp

theorem error_final_witness:
  "XML_ROLE_INSTANCE_START \<in> set (snd (role_run (expat_encoding Normal)
     \<lparr>handler = H_prolog1, level = 0, includeLevel = 0, documentEntity = True\<rparr>
     [(XML_TOK_COMMENT, []), (XML_TOK_INSTANCE_START, []), (XML_TOK_PI, [])]))"
proof -
  let ?s = "\<lparr>handler = H_prolog1, level = 0, includeLevel = 0, documentEntity = True\<rparr>"
  let ?ts = "[(XML_TOK_COMMENT, []), (XML_TOK_INSTANCE_START, []), (XML_TOK_PI, [])]"
  have "role_run (expat_encoding Normal) ?s ?ts =
      (?s\<lparr>handler := H_error\<rparr>, [XML_ROLE_NONE, XML_ROLE_INSTANCE_START, XML_ROLE_NONE])"
    by (simp add: XmlTokenRole_def prolog1_def error_def)
  then show ?thesis using error_final [of "expat_encoding Normal" ?s ?ts] by simp
qed

text \<open>white space, and in external entities references to parameter entities, change neither the state nor the
  roles of the other tokens, from any state but the two initial ones.\<close>

theorem insignificant_tokens:
  assumes "handler st \<noteq> H_prolog0" and "handler st \<noteq> H_externalSubset0"
  shows "fst (role_run enc st (filter (\<lambda>t. \<not> insignificant st t) ts)) = fst (role_run enc st ts) \<and>
   filter (\<lambda>r. \<not> silent_role r) (snd (role_run enc st (filter (\<lambda>t. \<not> insignificant st t) ts))) =
   filter (\<lambda>r. \<not> silent_role r) (snd (role_run enc st ts))"
  using assms by (rule run_insignificant)

theorem insignificant_tokens_witness:
  "fst (role_run (expat_encoding Normal) \<lparr>handler = H_element0, level = 0, includeLevel = 0, documentEntity = True\<rparr>
     [(XML_TOK_PROLOG_S, cstr '' ''), (XML_TOK_NAME, cstr ''a'')]) =
   \<lparr>handler = H_element1, level = 0, includeLevel = 0, documentEntity = True\<rparr>"
  using insignificant_tokens [of "\<lparr>handler = H_element0, level = 0, includeLevel = 0, documentEntity = True\<rparr>"
      "expat_encoding Normal" "[(XML_TOK_PROLOG_S, cstr '' ''), (XML_TOK_NAME, cstr ''a'')]"]
  by (simp add: insignificant_def XmlTokenRole_def element0_def)

text \<open>C32: groups are nested properly. From both initial states, with fewer than \<open>2 ^ 32\<close> tokens, no prefix of the roles
  closes more groups than it opens, and unless the error state is reached the groups still open are those the
  state counts, so the counter never wraps around.\<close>

theorem groups_nested:
  assumes "length ts < 2 ^ 32" and "st = XmlPrologStateInit s \<or> st = XmlPrologStateInitExternalEntity s"
    and "role_run enc st ts = (st', rs)"
  shows "(\<forall>n. closes (take n rs) \<le> opens (take n rs)) \<and>
    (handler st' \<noteq> H_error \<longrightarrow> depth st' = opens rs - closes rs \<and> level_ok st')"
proof -
  have i: "level_ok st" "depth st = 0"
    using assms(2) by (auto simp: level_ok_def depth_def XmlPrologStateInit_def XmlPrologStateInitExternalEntity_def)
  have d: "role_run enc st us = (st1, qs) \<Longrightarrow> length us < 2 ^ 32 \<Longrightarrow>
      0 \<le> opens qs - closes qs \<and> (handler st1 \<noteq> H_error \<longrightarrow> depth st1 = opens qs - closes qs \<and> level_ok st1)" for us st1 qs
    using run_depth [of enc st us st1 qs] i by simp
  have "closes (take n rs) \<le> opens (take n rs)" for n
    using role_run_take [OF assms(3), of n] d [of "take n ts"] assms(1) by auto
  then show ?thesis using d [OF assms(3,1)] by simp
qed

theorem groups_nested_witness:
  "\<exists>st'. role_run (expat_encoding Normal)
     (XmlPrologStateInit \<lparr>handler = H_error, level = 7, includeLevel = 5, documentEntity = False\<rparr>)
     [(XML_TOK_PROLOG_S, []), (XML_TOK_PI, [])] = (st', [XML_ROLE_NONE, XML_ROLE_NONE]) \<and> depth st' = 0"
proof -
  let ?i = "\<lparr>handler = H_error, level = 7, includeLevel = 5, documentEntity = False\<rparr> :: prolog_state"
  let ?ts = "[(XML_TOK_PROLOG_S, []), (XML_TOK_PI, [])] :: token list"
  obtain st' where s: "role_run (expat_encoding Normal) (XmlPrologStateInit ?i) ?ts = (st', [XML_ROLE_NONE, XML_ROLE_NONE])"
      "handler st' = H_prolog1"
    by (simp add: XmlTokenRole_def prolog0_def prolog1_def XmlPrologStateInit_def)
  then show ?thesis using groups_nested [of ?ts "XmlPrologStateInit ?i" ?i "expat_encoding Normal"]
    by (auto simp: opens_closes_Cons [of 0 "[0]"] opens_def closes_def)
qed

end
