(* ===== verification/ExpatGrammar.thy ===== *)
theory ExpatGrammar
  imports ExpatRoleCorrect
begin

text \<open>
  The declarations the prolog state machine accepts, against the grammar of XML 1.0, given here as predicates on the significant tokens
  between the opening and the end of a declaration. The machine reads the declarations of the grammar and, as \<open>xmlrole.c\<close> says of
  itself, does not check that the two connectors are not mixed in a group.
\<close>

section \<open>Content models\<close>

definition leaf_tok :: "int \<Rightarrow> bool" where
  "leaf_tok t \<longleftrightarrow> t \<in> {XML_TOK_NAME, XML_TOK_PREFIXED_NAME, XML_TOK_NAME_QUESTION, XML_TOK_NAME_ASTERISK, XML_TOK_NAME_PLUS}"

definition close_tok :: "int \<Rightarrow> bool" where
  "close_tok t \<longleftrightarrow> t \<in> {XML_TOK_CLOSE_PAREN, XML_TOK_CLOSE_PAREN_QUESTION, XML_TOK_CLOSE_PAREN_ASTERISK, XML_TOK_CLOSE_PAREN_PLUS}"

definition sep_tok :: "int \<Rightarrow> bool" where
  "sep_tok t \<longleftrightarrow> t \<in> {XML_TOK_COMMA, XML_TOK_OR}"

text \<open>The grammar of children content (XML 1.0, productions 47 to 50): \<open>xml_content\<close> is a content particle, and \<open>xml_rest s\<close> the rest of
  a group after its first particle, in which every connector is \<open>s\<close>.\<close>

inductive xml_content :: "int list \<Rightarrow> bool" and xml_rest :: "int \<Rightarrow> int list \<Rightarrow> bool" where
  xml_leaf: "leaf_tok t \<Longrightarrow> xml_content [t]"
| xml_group: "xml_content a \<Longrightarrow> sep_tok s \<Longrightarrow> xml_rest s r \<Longrightarrow> close_tok c \<Longrightarrow> xml_content (XML_TOK_OPEN_PAREN # a @ r @ [c])"
| xml_rest_Nil: "xml_rest s []"
| xml_rest_Cons: "xml_content a \<Longrightarrow> xml_rest s r \<Longrightarrow> xml_rest s (s # a @ r)"

text \<open>What the machine reads: groups in which the connectors may be mixed.\<close>

inductive content :: "int list \<Rightarrow> bool" and content_rest :: "int list \<Rightarrow> bool" where
  leaf: "leaf_tok t \<Longrightarrow> content [t]"
| group: "content a \<Longrightarrow> content_rest r \<Longrightarrow> close_tok c \<Longrightarrow> content (XML_TOK_OPEN_PAREN # a @ r @ [c])"
| rest_Nil: "content_rest []"
| rest_Cons: "sep_tok s \<Longrightarrow> content a \<Longrightarrow> content_rest r \<Longrightarrow> content_rest (s # a @ r)"

text \<open>The tokens with every connector read as a comma.\<close>

definition one_sep :: "int \<Rightarrow> int" where
  "one_sep t = (if t = XML_TOK_OR then XML_TOK_COMMA else t)"

text \<open>What the handlers \<open>element6\<close> and \<open>element7\<close> accept inside a group with \<open>n\<close> groups around it.\<close>

fun acc6 :: "nat \<Rightarrow> int list \<Rightarrow> bool" and acc7 :: "nat \<Rightarrow> int list \<Rightarrow> bool" where
  "acc6 n [] = False"
| "acc6 n (t # ts) = (if t = XML_TOK_OPEN_PAREN then acc6 (Suc n) ts else leaf_tok t \<and> acc7 n ts)"
| "acc7 n [] = False"
| "acc7 n (t # ts) =
     (if close_tok t then case n of 0 \<Rightarrow> ts = [] | Suc m \<Rightarrow> acc7 m ts else sep_tok t \<and> acc6 n ts)"

lemmas tok_class = leaf_tok_def close_tok_def sep_tok_def

lemma acc_content:
  "content a \<Longrightarrow> acc6 n (a @ ts) = acc7 n ts"
  "content_rest r \<Longrightarrow> acc7 n (r @ ts) = acc7 n ts"
  by (induction arbitrary: n ts and n ts rule: content_content_rest.inducts) (auto simp: tok_class)

lemma content_acc:
  "(acc6 n ts \<longrightarrow> (\<exists>a us. ts = a @ us \<and> content a \<and> acc7 n us)) \<and>
   (acc7 n ts \<longrightarrow> (\<exists>r c us. ts = r @ c # us \<and> content_rest r \<and> close_tok c \<and>
      (case n of 0 \<Rightarrow> us = [] | Suc m \<Rightarrow> acc7 m us)))"
proof (induction "length ts" arbitrary: n ts rule: less_induct)
  case less
  show ?case
  proof (cases ts)
    case Nil
    then show ?thesis by simp
  next
    case (Cons t ts')
    note IH6 = less [THEN conjunct1, THEN mp] and IH7 = less [THEN conjunct2, THEN mp]
    have "\<exists>a us. ts = a @ us \<and> content a \<and> acc7 n us" if a6: "acc6 n ts"
    proof (cases "t = XML_TOK_OPEN_PAREN")
      case True
      then obtain a us where a: "ts' = a @ us" "content a" "acc7 (Suc n) us" using IH6 [of ts' "Suc n"] a6 Cons by auto
      then obtain r c vs where r: "us = r @ c # vs" "content_rest r" "close_tok c" "acc7 n vs"
        using IH7 [of us "Suc n"] Cons by auto
      then show ?thesis using a True Cons group [OF a(2) r(2,3)]
        by (intro exI [of _ "XML_TOK_OPEN_PAREN # a @ r @ [c]"] exI [of _ vs]) simp
    next
      case False
      then show ?thesis using a6 Cons by (intro exI [of _ "[t]"] exI [of _ ts']) (auto intro: leaf)
    qed
    moreover have "\<exists>r c us. ts = r @ c # us \<and> content_rest r \<and> close_tok c \<and> (case n of 0 \<Rightarrow> us = [] | Suc m \<Rightarrow> acc7 m us)"
      if a7: "acc7 n ts"
    proof (cases "close_tok t")
      case True
      then show ?thesis using a7 Cons by (intro exI [of _ "[]"] exI [of _ t] exI [of _ ts']) (auto intro: rest_Nil)
    next
      case False
      then obtain a us where a: "ts' = a @ us" "content a" "acc7 n us" "sep_tok t" using IH6 [of ts' n] a7 Cons by auto
      then obtain r c vs where r: "us = r @ c # vs" "content_rest r" "close_tok c" "case n of 0 \<Rightarrow> vs = [] | Suc m \<Rightarrow> acc7 m vs"
        using IH7 [of us n] Cons by auto
      then show ?thesis using a Cons rest_Cons [OF a(4,2) r(2)]
        by (intro exI [of _ "t # a @ r"] exI [of _ c] exI [of _ vs]) simp
    qed
    ultimately show ?thesis by blast
  qed
qed

lemma content_group: "content (XML_TOK_OPEN_PAREN # ts) \<longleftrightarrow> acc6 0 ts"
proof
  assume "content (XML_TOK_OPEN_PAREN # ts)"
  then show "acc6 0 ts"
  proof cases
    case (group a r c)
    then show ?thesis by (simp add: acc_content)
  qed (simp add: leaf_tok_def)
next
  assume a6: "acc6 0 ts"
  obtain a us where a: "ts = a @ us" "content a" "acc7 0 us" using content_acc [of 0 ts] a6 by auto
  then show "content (XML_TOK_OPEN_PAREN # ts)" using content_acc [of 0 us] group [OF a(2)] by auto
qed

lemma xml_content_content:
  "xml_content ts \<Longrightarrow> content ts" "xml_rest s ts \<Longrightarrow> sep_tok s \<Longrightarrow> content_rest ts"
  by (induction rule: xml_content_xml_rest.inducts) (auto intro: content_content_rest.intros)

lemma content_xml_content:
  "content ts \<Longrightarrow> XML_TOK_OR \<notin> set ts \<Longrightarrow> xml_content ts" "content_rest ts \<Longrightarrow> XML_TOK_OR \<notin> set ts \<Longrightarrow> xml_rest XML_TOK_COMMA ts"
proof (induction rule: content_content_rest.inducts)
  case (group a r c)
  then show ?case by (intro xml_group [where s = XML_TOK_COMMA]) (simp_all add: sep_tok_def)
next
  case (rest_Cons s a r)
  then have "s = XML_TOK_COMMA" by (simp add: sep_tok_def)
  then show ?case using rest_Cons by (auto intro: xml_rest_Cons)
qed (auto intro: xml_leaf xml_rest_Nil)

lemma acc_one_sep: "acc6 n (map one_sep ts) = acc6 n ts" "acc7 n (map one_sep ts) = acc7 n ts"
  by (induction n ts and n ts rule: acc6_acc7.induct) (auto simp: one_sep_def tok_class split: nat.splits)

text \<open>The groups the machine reads are those of the grammar, but for the kind of their connectors.\<close>

lemma content_one_sep: "content (XML_TOK_OPEN_PAREN # ts) \<longleftrightarrow> xml_content (map one_sep (XML_TOK_OPEN_PAREN # ts))"
proof -
  have o: "one_sep XML_TOK_OPEN_PAREN = XML_TOK_OPEN_PAREN" by (simp add: one_sep_def)
  have "XML_TOK_OR \<notin> set (map one_sep (XML_TOK_OPEN_PAREN # ts))" by (auto simp: one_sep_def)
  then have "xml_content (map one_sep (XML_TOK_OPEN_PAREN # ts)) \<longleftrightarrow> content (map one_sep (XML_TOK_OPEN_PAREN # ts))"
    using content_xml_content(1) xml_content_content(1) by blast
  then show ?thesis by (simp add: o content_group acc_one_sep)
qed


section \<open>Acceptance\<close>

text \<open>\<open>accepts\<close>: the machine reads the tokens and then the end of the declaration without an error.
  \<open>plain\<close> tokens are significant and do not end the declaration.\<close>

definition accepts :: "encoding \<Rightarrow> prolog_state \<Rightarrow> token list \<Rightarrow> bool" where
  "accepts enc st ts \<longleftrightarrow> handler (fst (role_run enc st (ts @ [(XML_TOK_DECL_CLOSE, [])]))) \<noteq> H_error"

definition plain :: "prolog_state \<Rightarrow> token \<Rightarrow> bool" where
  "plain st t \<longleftrightarrow> \<not> insignificant st t \<and> fst t \<noteq> XML_TOK_DECL_CLOSE"

abbreviation acc :: "encoding \<Rightarrow> prolog_state \<Rightarrow> prolog_handler_name \<Rightarrow> token list \<Rightarrow> bool" where
  "acc enc st h ts \<equiv> accepts enc (st\<lparr>handler := h\<rparr>) ts"

lemma accepts_Cons:
  "accepts enc st (t # ts) \<longleftrightarrow> accepts enc (fst (XmlTokenRole enc st (fst t) (snd t))) ts"
  by (cases t) (simp add: accepts_def split: prod.splits)

lemma accepts_error [simp]: "handler st = H_error \<Longrightarrow> \<not> accepts enc st ts"
  by (simp add: accepts_def run_error)

lemma accepts_Nil:
  "accepts enc st [] \<longleftrightarrow> handler (fst (XmlTokenRole enc st XML_TOK_DECL_CLOSE [])) \<noteq> H_error"
  by (simp add: accepts_def split: prod.splits)

lemmas acc_simps =
  accepts_Cons accepts_Nil XmlTokenRole_def common_def setTopLevel_def plain_def insignificant_def

lemma acc_declClose:
  "acc enc st H_declClose []" "plain st t \<Longrightarrow> \<not> acc enc st H_declClose (t # ts)"
  by (auto simp: acc_simps declClose_def)

section \<open>Keywords in an encoding\<close>

text \<open>What the machine relies on: a name matches a keyword if it is the keyword written in the encoding, and
  that is injective and a homomorphism.\<close>

locale ascii_names =
  fixes enc :: encoding and encode :: "cstring \<Rightarrow> byte list"
  assumes name_matches_iff: "XmlNameMatchesAscii enc p k \<longleftrightarrow> p = encode k"
    and encode_append: "encode (a @ b) = encode a @ encode b"
    and encode_length: "length (encode a) = minBytesPerChar enc * length a"
    and encode_inj: "encode a = encode b \<Longrightarrow> a = b"
begin

lemma encode_eq [simp]: "encode a = encode b \<longleftrightarrow> a = b"
  using encode_inj by blast

lemma encode_drop: "drop (length a * minBytesPerChar enc) (encode (a @ b)) = encode b"
  by (simp add: encode_append encode_length mult.commute)

end

definition encode_name :: "encoding_kind \<Rightarrow> cstring \<Rightarrow> byte list" where
  "encode_name k s = (case k of Normal \<Rightarrow> s
     | Little2 \<Rightarrow> concat (map (\<lambda>c. [c, 0]) s) | Big2 \<Rightarrow> concat (map (\<lambda>c. [0, c]) s))"

lemma normal_matches: "name_matches 1 CHAR_MATCHES p k \<longleftrightarrow> p = k"
proof (induction k arbitrary: p)
  case (Cons c k)
  then show ?case by (cases p) (simp_all add: CHAR_MATCHES_def)
qed simp

lemma little2_matches: "name_matches 2 LITTLE2_CHAR_MATCHES p k \<longleftrightarrow> p = concat (map (\<lambda>c. [c, 0]) k)"
proof (induction k arbitrary: p)
  case IH: (Cons c k)
  show ?case
  proof (cases p)
    case (Cons a q)
    then show ?thesis using IH by (cases q) (auto simp: LITTLE2_CHAR_MATCHES_def)
  qed simp
qed simp

lemma big2_matches: "name_matches 2 BIG2_CHAR_MATCHES p k \<longleftrightarrow> p = concat (map (\<lambda>c. [0, c]) k)"
proof (induction k arbitrary: p)
  case IH: (Cons c k)
  show ?case
  proof (cases p)
    case (Cons a q)
    then show ?thesis using IH by (cases q) (auto simp: BIG2_CHAR_MATCHES_def)
  qed simp
qed simp

lemma pairs_inj: "concat (map (\<lambda>c. [c, 0]) a) = concat (map (\<lambda>c. [c, 0 :: byte]) b) \<Longrightarrow> a = b"
  "concat (map (\<lambda>c. [0, c]) a) = concat (map (\<lambda>c. [0 :: byte, c]) b) \<Longrightarrow> a = b"
proof -
  show "concat (map (\<lambda>c. [c, 0]) a) = concat (map (\<lambda>c. [c, 0 :: byte]) b) \<Longrightarrow> a = b"
    by (induction a b rule: list_induct2') auto
  show "concat (map (\<lambda>c. [0, c]) a) = concat (map (\<lambda>c. [0 :: byte, c]) b) \<Longrightarrow> a = b"
    by (induction a b rule: list_induct2') auto
qed

lemma pairs_length: "length (concat (map (\<lambda>c. [c, 0 :: byte]) a)) = 2 * length a"
  "length (concat (map (\<lambda>c. [0 :: byte, c]) a)) = 2 * length a"
  by (induction a) simp_all

interpretation ex: ascii_names "expat_encoding k" "encode_name k" for k
proof
  show "XmlNameMatchesAscii (expat_encoding k) p s \<longleftrightarrow> p = encode_name k s" for p s
    by (cases k) (simp_all only: XmlNameMatchesAscii_def expat_encoding_def encode_name_def encoding_kind.case
        encoding.select_convs normal_matches little2_matches big2_matches)
  show "encode_name k (a @ b) = encode_name k a @ encode_name k b" for a b
    by (cases k) (simp_all add: encode_name_def)
  show "length (encode_name k a) = minBytesPerChar (expat_encoding k) * length a" for a
    by (cases k) (simp_all only: encode_name_def expat_encoding_def encoding_kind.case encoding.select_convs
        pairs_length mult_1)
  show "encode_name k a = encode_name k b \<Longrightarrow> a = b" for a b
    using pairs_inj [of a b] by (cases k) (simp_all only: encode_name_def encoding_kind.case)
qed

section \<open>The grammar of declarations\<close>

definition keyword :: "encoding \<Rightarrow> cstring \<Rightarrow> token \<Rightarrow> bool" where
  "keyword enc k t \<longleftrightarrow> fst t = XML_TOK_NAME \<and> XmlNameMatchesAscii enc (snd t) k"

definition pound_keyword :: "encoding \<Rightarrow> cstring \<Rightarrow> token \<Rightarrow> bool" where
  "pound_keyword enc k t \<longleftrightarrow>
     fst t = XML_TOK_POUND_NAME \<and> XmlNameMatchesAscii enc (drop (minBytesPerChar enc) (snd t)) k"

definition name_tok :: "token \<Rightarrow> bool" where
  "name_tok t \<longleftrightarrow> fst t = XML_TOK_NAME \<or> fst t = XML_TOK_PREFIXED_NAME"

definition is_tok :: "int \<Rightarrow> token \<Rightarrow> bool" where
  "is_tok k t \<longleftrightarrow> fst t = k"

text \<open>Production 75, \<open>ExternalID\<close>.\<close>

fun external_id :: "encoding \<Rightarrow> token list \<Rightarrow> bool" where
  "external_id enc [s, l] = (keyword enc KW_SYSTEM s \<and> is_tok XML_TOK_LITERAL l)"
| "external_id enc [p, l, m] = (keyword enc KW_PUBLIC p \<and> is_tok XML_TOK_LITERAL l \<and> is_tok XML_TOK_LITERAL m)"
| "external_id enc _ = False"

text \<open>Productions 70 to 76, \<open>EntityDecl\<close>: what follows the name of a general entity and of a parameter
  entity, and the whole.\<close>

fun entity_def :: "encoding \<Rightarrow> token list \<Rightarrow> bool" where
  "entity_def enc [l] = is_tok XML_TOK_LITERAL l"
| "entity_def enc [a, b, d, n] = (external_id enc [a, b] \<and> keyword enc KW_NDATA d \<and> is_tok XML_TOK_NAME n)"
| "entity_def enc [a, b, c, d, n] = (external_id enc [a, b, c] \<and> keyword enc KW_NDATA d \<and> is_tok XML_TOK_NAME n)"
| "entity_def enc ts = external_id enc ts"

fun pe_def :: "encoding \<Rightarrow> token list \<Rightarrow> bool" where
  "pe_def enc [l] = is_tok XML_TOK_LITERAL l"
| "pe_def enc ts = external_id enc ts"

fun entity_decl :: "encoding \<Rightarrow> token list \<Rightarrow> bool" where
  "entity_decl enc (t # ts) =
     (is_tok XML_TOK_NAME t \<and> entity_def enc ts \<or>
      is_tok XML_TOK_PERCENT t \<and> ts \<noteq> [] \<and> is_tok XML_TOK_NAME (hd ts) \<and> pe_def enc (tl ts))"
| "entity_decl enc [] = False"

text \<open>Productions 82 and 83, \<open>NotationDecl\<close>.\<close>

fun notation_decl :: "encoding \<Rightarrow> token list \<Rightarrow> bool" where
  "notation_decl enc [n, a, b] = (is_tok XML_TOK_NAME n \<and> (external_id enc [a, b] \<or>
     keyword enc KW_PUBLIC a \<and> is_tok XML_TOK_LITERAL b))"
| "notation_decl enc (n # ts) = (is_tok XML_TOK_NAME n \<and> external_id enc ts)"
| "notation_decl enc [] = False"

text \<open>Productions 52 to 60, \<open>AttlistDecl\<close>.\<close>

inductive alternatives :: "(token \<Rightarrow> bool) \<Rightarrow> token list \<Rightarrow> bool" for P where
  one: "P v \<Longrightarrow> alternatives P [v]"
| more: "P v \<Longrightarrow> is_tok XML_TOK_OR b \<Longrightarrow> alternatives P vs \<Longrightarrow> alternatives P (v # b # vs)"

definition enum_tok :: "token \<Rightarrow> bool" where
  "enum_tok t \<longleftrightarrow> is_tok XML_TOK_NMTOKEN t \<or> name_tok t"

text \<open>Productions 55 and 56, the types that are one keyword.\<close>

definition att_keywords :: "cstring list" where
  "att_keywords = map cstr [''CDATA'', ''ID'', ''IDREF'', ''IDREFS'', ''ENTITY'', ''ENTITIES'', ''NMTOKEN'', ''NMTOKENS'']"

inductive att_type :: "encoding \<Rightarrow> token list \<Rightarrow> bool" for enc where
  att_keyword: "\<exists>k \<in> set att_keywords. keyword enc k t \<Longrightarrow> att_type enc [t]"
| att_enum: "is_tok XML_TOK_OPEN_PAREN b \<Longrightarrow> alternatives enum_tok vs \<Longrightarrow> is_tok XML_TOK_CLOSE_PAREN c \<Longrightarrow>
    att_type enc (b # vs @ [c])"
| att_notation: "keyword enc KW_NOTATION n \<Longrightarrow> is_tok XML_TOK_OPEN_PAREN b \<Longrightarrow>
    alternatives (is_tok XML_TOK_NAME) vs \<Longrightarrow> is_tok XML_TOK_CLOSE_PAREN c \<Longrightarrow> att_type enc (n # b # vs @ [c])"

fun default_decl :: "encoding \<Rightarrow> token list \<Rightarrow> bool" where
  "default_decl enc [t] = (pound_keyword enc KW_IMPLIED t \<or> pound_keyword enc KW_REQUIRED t \<or> is_tok XML_TOK_LITERAL t)"
| "default_decl enc [f, l] = (pound_keyword enc KW_FIXED f \<and> is_tok XML_TOK_LITERAL l)"
| "default_decl enc _ = False"

inductive att_defs :: "encoding \<Rightarrow> token list \<Rightarrow> bool" for enc where
  att_defs_Nil: "att_defs enc []"
| att_defs_Cons: "name_tok n \<Longrightarrow> att_type enc ty \<Longrightarrow> default_decl enc d \<Longrightarrow> att_defs enc r \<Longrightarrow>
    att_defs enc (n # ty @ d @ r)"

definition attlist_decl :: "encoding \<Rightarrow> token list \<Rightarrow> bool" where
  "attlist_decl enc ts \<longleftrightarrow> ts \<noteq> [] \<and> name_tok (hd ts) \<and> att_defs enc (tl ts)"

text \<open>Productions 45, 46 and 51, \<open>elementdecl\<close> with mixed content.\<close>

fun mixed_names :: "token list \<Rightarrow> bool" where
  "mixed_names [c] = is_tok XML_TOK_CLOSE_PAREN_ASTERISK c"
| "mixed_names (b # n # ts) = (is_tok XML_TOK_OR b \<and> name_tok n \<and> mixed_names ts)"
| "mixed_names [] = False"

fun mixed :: "encoding \<Rightarrow> token list \<Rightarrow> bool" where
  "mixed enc (b # p # ts) = (is_tok XML_TOK_OPEN_PAREN b \<and> pound_keyword enc KW_PCDATA p \<and>
     ((\<exists>c. ts = [c] \<and> is_tok XML_TOK_CLOSE_PAREN c) \<or> mixed_names ts))"
| "mixed enc _ = False"

definition element_decl_of :: "(int list \<Rightarrow> bool) \<Rightarrow> encoding \<Rightarrow> token list \<Rightarrow> bool" where
  "element_decl_of children enc ts \<longleftrightarrow> (\<exists>n cs. ts = n # cs \<and> name_tok n \<and>
     ((\<exists>t. cs = [t] \<and> (keyword enc KW_EMPTY t \<or> keyword enc KW_ANY t)) \<or> mixed enc cs \<or>
      (cs \<noteq> [] \<and> is_tok XML_TOK_OPEN_PAREN (hd cs) \<and> children (map fst cs))))"

text \<open>The declarations of the grammar, and those the machine reads: the groups of the latter are groups of the grammar when all their
  connectors are read as commas.\<close>

definition xml_element_decl :: "encoding \<Rightarrow> token list \<Rightarrow> bool" where
  "xml_element_decl enc ts = element_decl_of xml_content enc ts"

definition element_decl :: "encoding \<Rightarrow> token list \<Rightarrow> bool" where
  "element_decl enc ts = element_decl_of (\<lambda>cs. xml_content (map one_sep cs)) enc ts"

lemma element_decl_content: "element_decl enc ts = element_decl_of content enc ts"
proof -
  have "content (map fst cs) \<longleftrightarrow> xml_content (map one_sep (map fst cs))" if "cs \<noteq> []" "is_tok XML_TOK_OPEN_PAREN (hd cs)" for cs
    using that content_one_sep [of "map fst (tl cs)"] by (cases cs) (auto simp: is_tok_def)
  then show ?thesis unfolding element_decl_def element_decl_of_def by blast
qed

lemma xml_element_decl: "xml_element_decl enc ts \<Longrightarrow> element_decl enc ts"
  unfolding element_decl_content xml_element_decl_def element_decl_of_def using xml_content_content(1) by blast

lemmas decl_defs = keyword_def pound_keyword_def name_tok_def is_tok_def

lemmas KW_defs = KW_ANY_def KW_ATTLIST_def KW_CDATA_def KW_DOCTYPE_def KW_ELEMENT_def KW_EMPTY_def
  KW_ENTITIES_def KW_ENTITY_def KW_FIXED_def KW_ID_def KW_IDREF_def KW_IDREFS_def KW_IGNORE_def
  KW_IMPLIED_def KW_INCLUDE_def KW_NDATA_def KW_NMTOKEN_def KW_NMTOKENS_def KW_NOTATION_def
  KW_PCDATA_def KW_PUBLIC_def KW_REQUIRED_def KW_SYSTEM_def

section \<open>Entity and notation declarations\<close>

context ascii_names
begin

lemma kw_excl: "keyword enc k t \<Longrightarrow> keyword enc l t \<longleftrightarrow> k = l"
  by (auto simp: keyword_def name_matches_iff)

lemma acc_entity6:
  "\<not> acc enc st H_entity6 []"
  "plain st t \<Longrightarrow> acc enc st H_entity6 (t # ts) \<longleftrightarrow> is_tok XML_TOK_NAME t \<and> acc enc st H_declClose ts"
  by (auto simp: acc_simps entity6_def decl_defs)

lemma acc_entity5:
  "acc enc st H_entity5 []"
  "plain st t \<Longrightarrow> acc enc st H_entity5 (t # ts) \<longleftrightarrow> keyword enc KW_NDATA t \<and> acc enc st H_entity6 ts"
  by (auto simp: acc_simps entity5_def decl_defs name_matches_iff KW_defs)

lemma acc_entity4:
  "\<not> acc enc st H_entity4 []"
  "plain st t \<Longrightarrow> acc enc st H_entity4 (t # ts) \<longleftrightarrow> is_tok XML_TOK_LITERAL t \<and> acc enc st H_entity5 ts"
  by (auto simp: acc_simps entity4_def decl_defs)

lemma acc_entity3:
  "\<not> acc enc st H_entity3 []"
  "plain st t \<Longrightarrow> acc enc st H_entity3 (t # ts) \<longleftrightarrow> is_tok XML_TOK_LITERAL t \<and> acc enc st H_entity4 ts"
  by (auto simp: acc_simps entity3_def decl_defs)

lemma acc_entity2:
  "\<not> acc enc st H_entity2 []"
  "plain st t \<Longrightarrow> acc enc st H_entity2 (t # ts) \<longleftrightarrow> is_tok XML_TOK_LITERAL t \<and> acc enc st H_declClose ts \<or> keyword enc KW_SYSTEM t \<and> acc enc st H_entity4 ts \<or> keyword enc KW_PUBLIC t \<and> acc enc st H_entity3 ts"
  by (auto simp: acc_simps entity2_def decl_defs name_matches_iff KW_defs)

lemma acc_entity9:
  "\<not> acc enc st H_entity9 []"
  "plain st t \<Longrightarrow> acc enc st H_entity9 (t # ts) \<longleftrightarrow> is_tok XML_TOK_LITERAL t \<and> acc enc st H_declClose ts"
  by (auto simp: acc_simps entity9_def decl_defs)

lemma acc_entity8:
  "\<not> acc enc st H_entity8 []"
  "plain st t \<Longrightarrow> acc enc st H_entity8 (t # ts) \<longleftrightarrow> is_tok XML_TOK_LITERAL t \<and> acc enc st H_entity9 ts"
  by (auto simp: acc_simps entity8_def decl_defs)

lemma acc_entity7:
  "\<not> acc enc st H_entity7 []"
  "plain st t \<Longrightarrow> acc enc st H_entity7 (t # ts) \<longleftrightarrow> is_tok XML_TOK_LITERAL t \<and> acc enc st H_declClose ts \<or> keyword enc KW_SYSTEM t \<and> acc enc st H_entity9 ts \<or> keyword enc KW_PUBLIC t \<and> acc enc st H_entity8 ts"
  by (auto simp: acc_simps entity7_def decl_defs name_matches_iff KW_defs)

lemma acc_entity1:
  "\<not> acc enc st H_entity1 []"
  "plain st t \<Longrightarrow> acc enc st H_entity1 (t # ts) \<longleftrightarrow> is_tok XML_TOK_NAME t \<and> acc enc st H_entity7 ts"
  by (auto simp: acc_simps entity1_def decl_defs)

lemma acc_entity0:
  "\<not> acc enc st H_entity0 []"
  "plain st t \<Longrightarrow> acc enc st H_entity0 (t # ts) \<longleftrightarrow> is_tok XML_TOK_NAME t \<and> acc enc st H_entity2 ts \<or> is_tok XML_TOK_PERCENT t \<and> acc enc st H_entity1 ts"
  by (auto simp: acc_simps entity0_def decl_defs)

lemma acc_notation3:
  "\<not> acc enc st H_notation3 []"
  "plain st t \<Longrightarrow> acc enc st H_notation3 (t # ts) \<longleftrightarrow> is_tok XML_TOK_LITERAL t \<and> acc enc st H_declClose ts"
  by (auto simp: acc_simps notation3_def decl_defs)

lemma acc_notation4:
  "acc enc st H_notation4 []"
  "plain st t \<Longrightarrow> acc enc st H_notation4 (t # ts) \<longleftrightarrow> is_tok XML_TOK_LITERAL t \<and> acc enc st H_declClose ts"
  by (auto simp: acc_simps notation4_def decl_defs)

lemma acc_notation2:
  "\<not> acc enc st H_notation2 []"
  "plain st t \<Longrightarrow> acc enc st H_notation2 (t # ts) \<longleftrightarrow> is_tok XML_TOK_LITERAL t \<and> acc enc st H_notation4 ts"
  by (auto simp: acc_simps notation2_def decl_defs)

lemma acc_notation1:
  "\<not> acc enc st H_notation1 []"
  "plain st t \<Longrightarrow> acc enc st H_notation1 (t # ts) \<longleftrightarrow> keyword enc KW_SYSTEM t \<and> acc enc st H_notation3 ts \<or> keyword enc KW_PUBLIC t \<and> acc enc st H_notation2 ts"
  by (auto simp: acc_simps notation1_def decl_defs name_matches_iff KW_defs)

lemma acc_notation0:
  "\<not> acc enc st H_notation0 []"
  "plain st t \<Longrightarrow> acc enc st H_notation0 (t # ts) \<longleftrightarrow> is_tok XML_TOK_NAME t \<and> acc enc st H_notation1 ts"
  by (auto simp: acc_simps notation0_def decl_defs)

lemma acc_entity_def: "\<forall>t \<in> set ts. plain st t \<Longrightarrow> acc enc st H_entity2 ts \<longleftrightarrow> entity_def enc ts"
  by (cases "(enc, ts)" rule: entity_def.cases)
    (auto simp: acc_entity2 acc_entity3 acc_entity4 acc_entity5 acc_entity6 acc_declClose)

lemma acc_pe_def: "\<forall>t \<in> set ts. plain st t \<Longrightarrow> acc enc st H_entity7 ts \<longleftrightarrow> pe_def enc ts"
  by (cases "(enc, ts)" rule: entity_def.cases)
    (auto simp: acc_entity7 acc_entity8 acc_entity9 acc_declClose)

lemma acc_entity_decl: "\<forall>t \<in> set ts. plain st t \<Longrightarrow> acc enc st H_entity0 ts \<longleftrightarrow> entity_decl enc ts"
  by (cases ts rule: list.exhaust [case_product list.exhaust [of "tl ts"]])
    (auto simp: acc_entity0 acc_entity1 acc_entity_def acc_pe_def)

lemma acc_notation_decl: "\<forall>t \<in> set ts. plain st t \<Longrightarrow> acc enc st H_notation0 ts \<longleftrightarrow> notation_decl enc ts"
  by (cases "(enc, tl ts)" rule: entity_def.cases; cases ts)
    (auto simp: acc_notation0 acc_notation1 acc_notation2 acc_notation3 acc_notation4 acc_declClose)


end

section \<open>Attribute list declarations\<close>

context ascii_names
begin

lemma acc_attlist0:
  "\<not> acc enc st H_attlist0 []"
  "plain st t \<Longrightarrow> acc enc st H_attlist0 (t # ts) \<longleftrightarrow> name_tok t \<and> acc enc st H_attlist1 ts"
  by (auto simp: acc_simps attlist0_def decl_defs)

lemma acc_attlist1:
  "acc enc st H_attlist1 []"
  "plain st t \<Longrightarrow> acc enc st H_attlist1 (t # ts) \<longleftrightarrow> name_tok t \<and> acc enc st H_attlist2 ts"
  by (auto simp: acc_simps attlist1_def decl_defs)

lemma acc_attlist3:
  "\<not> acc enc st H_attlist3 []"
  "plain st t \<Longrightarrow> acc enc st H_attlist3 (t # ts) \<longleftrightarrow> enum_tok t \<and> acc enc st H_attlist4 ts"
  by (auto simp: acc_simps attlist3_def decl_defs enum_tok_def)

lemma acc_attlist4:
  "\<not> acc enc st H_attlist4 []"
  "plain st t \<Longrightarrow> acc enc st H_attlist4 (t # ts) \<longleftrightarrow> is_tok XML_TOK_CLOSE_PAREN t \<and> acc enc st H_attlist8 ts \<or> is_tok XML_TOK_OR t \<and> acc enc st H_attlist3 ts"
  by (auto simp: acc_simps attlist4_def decl_defs)

lemma acc_attlist5:
  "\<not> acc enc st H_attlist5 []"
  "plain st t \<Longrightarrow> acc enc st H_attlist5 (t # ts) \<longleftrightarrow> is_tok XML_TOK_OPEN_PAREN t \<and> acc enc st H_attlist6 ts"
  by (auto simp: acc_simps attlist5_def decl_defs)

lemma acc_attlist6:
  "\<not> acc enc st H_attlist6 []"
  "plain st t \<Longrightarrow> acc enc st H_attlist6 (t # ts) \<longleftrightarrow> is_tok XML_TOK_NAME t \<and> acc enc st H_attlist7 ts"
  by (auto simp: acc_simps attlist6_def decl_defs)

lemma acc_attlist7:
  "\<not> acc enc st H_attlist7 []"
  "plain st t \<Longrightarrow> acc enc st H_attlist7 (t # ts) \<longleftrightarrow> is_tok XML_TOK_CLOSE_PAREN t \<and> acc enc st H_attlist8 ts \<or> is_tok XML_TOK_OR t \<and> acc enc st H_attlist6 ts"
  by (auto simp: acc_simps attlist7_def decl_defs)

lemma acc_attlist8:
  "\<not> acc enc st H_attlist8 []"
  "plain st t \<Longrightarrow> acc enc st H_attlist8 (t # ts) \<longleftrightarrow> pound_keyword enc KW_IMPLIED t \<and> acc enc st H_attlist1 ts \<or> pound_keyword enc KW_REQUIRED t \<and> acc enc st H_attlist1 ts \<or> pound_keyword enc KW_FIXED t \<and> acc enc st H_attlist9 ts \<or> is_tok XML_TOK_LITERAL t \<and> acc enc st H_attlist1 ts"
  by (auto simp: acc_simps attlist8_def decl_defs name_matches_iff KW_defs)

lemma acc_attlist9:
  "\<not> acc enc st H_attlist9 []"
  "plain st t \<Longrightarrow> acc enc st H_attlist9 (t # ts) \<longleftrightarrow> is_tok XML_TOK_LITERAL t \<and> acc enc st H_attlist1 ts"
  by (auto simp: acc_simps attlist9_def decl_defs)

lemma att_types_iff: "att_types_loop enc p ks i \<noteq> None \<longleftrightarrow> (\<exists>k \<in> set ks. p = encode k)"
  by (induction ks arbitrary: i) (auto simp: name_matches_iff)

lemma att_keywords: "set att_keywords = set types"
  by (simp add: att_keywords_def types_def KW_defs)

lemma types_not_notation: "KW_NOTATION \<notin> set types"
  by (simp add: types_def KW_defs)

lemma acc_attlist2:
  "\<not> acc enc st H_attlist2 []"
  "plain st t \<Longrightarrow> acc enc st H_attlist2 (t # ts) \<longleftrightarrow> (\<exists>k \<in> set types. keyword enc k t) \<and> acc enc st H_attlist8 ts \<or>
     keyword enc KW_NOTATION t \<and> acc enc st H_attlist5 ts \<or> is_tok XML_TOK_OPEN_PAREN t \<and> acc enc st H_attlist3 ts"
proof -
  show "\<not> acc enc st H_attlist2 []" by (simp add: acc_simps attlist2_def)
  assume p: "plain st t"
  show "acc enc st H_attlist2 (t # ts) \<longleftrightarrow> (\<exists>k \<in> set types. keyword enc k t) \<and> acc enc st H_attlist8 ts \<or>
     keyword enc KW_NOTATION t \<and> acc enc st H_attlist5 ts \<or> is_tok XML_TOK_OPEN_PAREN t \<and> acc enc st H_attlist3 ts"
  proof (cases "att_types_loop enc (snd t) types 0")
    case None
    then have "\<forall>k \<in> set types. snd t \<noteq> encode k" using att_types_iff [of "snd t" types 0] by blast
    then show ?thesis using None p by (auto simp: acc_simps attlist2_def decl_defs name_matches_iff)
  next
    case (Some j)
    then obtain k where "k \<in> set types" "snd t = encode k" using att_types_iff [of "snd t" types 0] by blast
    then show ?thesis using Some p types_not_notation
      by (auto simp: acc_simps attlist2_def decl_defs name_matches_iff)
  qed
qed

end

lemma alternatives_split:
  assumes "\<not> A []" and "\<And>t ts. Q t \<Longrightarrow> A (t # ts) \<longleftrightarrow> P t \<and> B ts"
    and "\<not> B []"
    and "\<And>t ts. Q t \<Longrightarrow> B (t # ts) \<longleftrightarrow> is_tok XML_TOK_CLOSE_PAREN t \<and> C ts \<or> is_tok XML_TOK_OR t \<and> A ts"
  shows "\<forall>t \<in> set ts. Q t \<Longrightarrow>
    A ts \<longleftrightarrow> (\<exists>vs c us. ts = vs @ c # us \<and> alternatives P vs \<and> is_tok XML_TOK_CLOSE_PAREN c \<and> C us)"
proof (induction ts rule: induct_list012)
  case 1
  then show ?case using assms(1) by simp
next
  case (2 t)
  have "\<not> (\<exists>vs c us. [t] = vs @ c # us \<and> alternatives P vs)" by (auto simp: Cons_eq_append_conv elim: alternatives.cases)
  then show ?case using 2 assms(2,3) by auto
next
  case (3 t b ts)
  have q: "Q t" "Q b" using 3(3) by simp_all
  have "A (t # b # ts) \<longleftrightarrow> P t \<and> (is_tok XML_TOK_CLOSE_PAREN b \<and> C ts \<or> is_tok XML_TOK_OR b \<and> A ts)"
    using assms(2) [OF q(1)] assms(4) [OF q(2)] by simp
  also have "\<dots> \<longleftrightarrow> (\<exists>vs c us. t # b # ts = vs @ c # us \<and> alternatives P vs \<and> is_tok XML_TOK_CLOSE_PAREN c \<and> C us)" (is "_ \<longleftrightarrow> ?R")
  proof
    assume "P t \<and> (is_tok XML_TOK_CLOSE_PAREN b \<and> C ts \<or> is_tok XML_TOK_OR b \<and> A ts)"
    then consider "P t" "is_tok XML_TOK_CLOSE_PAREN b" "C ts" | "P t" "is_tok XML_TOK_OR b" "A ts" by blast
    then show ?R
    proof cases
      case 1
      then show ?thesis by (intro exI [of _ "[t]"] exI [of _ b] exI [of _ ts]) (simp add: one)
    next
      case 2
      then obtain vs c us where "ts = vs @ c # us" "alternatives P vs" "is_tok XML_TOK_CLOSE_PAREN c" "C us"
        using 3(1,3) by auto
      then show ?thesis using more [of P t b vs] 2
        by (intro exI [of _ "t # b # vs"] exI [of _ c] exI [of _ us]) simp
    qed
  next
    assume ?R
    then obtain vs c us where v: "t # b # ts = vs @ c # us" "is_tok XML_TOK_CLOSE_PAREN c" "C us"
      and a: "alternatives P vs" by blast
    from a show "P t \<and> (is_tok XML_TOK_CLOSE_PAREN b \<and> C ts \<or> is_tok XML_TOK_OR b \<and> A ts)"
    proof cases
      case (one v)
      then show ?thesis using v by simp
    next
      case (more v b' vs')
      then have "ts = vs' @ c # us" and b: "P t" "is_tok XML_TOK_OR b" using v(1) by simp_all
      then have "A ts" using more(4) v(2,3) 3(1,3) by (metis list.set_intros(2))
      then show ?thesis using b by simp
    qed
  qed
  finally show ?case .
qed

context ascii_names
begin

lemma acc_attlist3_iff:
  "\<forall>t \<in> set ts. plain st t \<Longrightarrow> acc enc st H_attlist3 ts \<longleftrightarrow>
     (\<exists>vs c us. ts = vs @ c # us \<and> alternatives enum_tok vs \<and> is_tok XML_TOK_CLOSE_PAREN c \<and> acc enc st H_attlist8 us)"
  using alternatives_split [of "acc enc st H_attlist3" "plain st" enum_tok "acc enc st H_attlist4" "acc enc st H_attlist8" ts]
  by (simp only: acc_attlist3 acc_attlist4 simp_thms)

lemma acc_attlist6_iff:
  "\<forall>t \<in> set ts. plain st t \<Longrightarrow> acc enc st H_attlist6 ts \<longleftrightarrow>
     (\<exists>vs c us. ts = vs @ c # us \<and> alternatives (is_tok XML_TOK_NAME) vs \<and> is_tok XML_TOK_CLOSE_PAREN c \<and> acc enc st H_attlist8 us)"
  using alternatives_split [of "acc enc st H_attlist6" "plain st" "is_tok XML_TOK_NAME" "acc enc st H_attlist7" "acc enc st H_attlist8" ts]
  by (simp only: acc_attlist6 acc_attlist7 simp_thms)

lemma acc_attlist8_iff:
  assumes "\<forall>t \<in> set ts. plain st t"
  shows "acc enc st H_attlist8 ts \<longleftrightarrow> (\<exists>d us. ts = d @ us \<and> default_decl enc d \<and> acc enc st H_attlist1 us)"
proof
  assume a: "acc enc st H_attlist8 ts"
  then obtain t ts' where t: "ts = t # ts'" by (cases ts) (auto simp: acc_attlist8)
  then consider "default_decl enc [t]" "acc enc st H_attlist1 ts'"
    | "pound_keyword enc KW_FIXED t" "acc enc st H_attlist9 ts'"
    using a assms by (auto simp: acc_attlist8)
  then show "\<exists>d us. ts = d @ us \<and> default_decl enc d \<and> acc enc st H_attlist1 us"
  proof cases
    case 1
    then show ?thesis using t by (intro exI [of _ "[t]"] exI [of _ ts']) simp
  next
    case 2
    then obtain l us where "ts' = l # us" by (cases ts') (auto simp: acc_attlist9)
    then show ?thesis using 2 t assms by (intro exI [of _ "[t, l]"] exI [of _ us]) (simp add: acc_attlist9)
  qed
next
  assume "\<exists>d us. ts = d @ us \<and> default_decl enc d \<and> acc enc st H_attlist1 us"
  then obtain d us where "ts = d @ us" "default_decl enc d" "acc enc st H_attlist1 us" by blast
  then show "acc enc st H_attlist8 ts"
    using assms by (cases "(enc, d)" rule: default_decl.cases) (auto simp: acc_attlist8 acc_attlist9)
qed

lemma acc_attlist2_iff:
  assumes "\<forall>t \<in> set ts. plain st t"
  shows "acc enc st H_attlist2 ts \<longleftrightarrow> (\<exists>ty us. ts = ty @ us \<and> att_type enc ty \<and> acc enc st H_attlist8 us)"
proof
  assume a: "acc enc st H_attlist2 ts"
  then obtain t ts' where t: "ts = t # ts'" by (cases ts) (auto simp: acc_attlist2)
  then consider "\<exists>k \<in> set types. keyword enc k t" "acc enc st H_attlist8 ts'"
    | "keyword enc KW_NOTATION t" "acc enc st H_attlist5 ts'" | "is_tok XML_TOK_OPEN_PAREN t" "acc enc st H_attlist3 ts'"
    using a assms by (auto simp: acc_attlist2)
  then show "\<exists>ty us. ts = ty @ us \<and> att_type enc ty \<and> acc enc st H_attlist8 us"
  proof cases
    case 1
    then show ?thesis using t att_keyword [of enc t] att_keywords by (intro exI [of _ "[t]"] exI [of _ ts']) simp
  next
    case 2
    then obtain b us where b: "ts' = b # us" by (cases ts') (auto simp: acc_attlist5)
    have p: "\<forall>t \<in> set us. plain st t" and "plain st b" using assms t b by simp_all
    then have o: "is_tok XML_TOK_OPEN_PAREN b" "acc enc st H_attlist6 us" using 2 b by (simp_all add: acc_attlist5)
    then obtain vs c ws where "us = vs @ c # ws" "alternatives (is_tok XML_TOK_NAME) vs" "is_tok XML_TOK_CLOSE_PAREN c"
        "acc enc st H_attlist8 ws" using acc_attlist6_iff [OF p] by blast
    then show ?thesis using t b att_notation [OF 2(1) o(1)]
      by (intro exI [of _ "t # b # vs @ [c]"] exI [of _ ws]) simp
  next
    case 3
    have p: "\<forall>t \<in> set ts'. plain st t" using assms t by simp
    obtain vs c ws where "ts' = vs @ c # ws" "alternatives enum_tok vs" "is_tok XML_TOK_CLOSE_PAREN c"
        "acc enc st H_attlist8 ws" using 3 acc_attlist3_iff [OF p] by blast
    then show ?thesis using t att_enum [OF 3(1)] by (intro exI [of _ "t # vs @ [c]"] exI [of _ ws]) simp
  qed
next
  assume "\<exists>ty us. ts = ty @ us \<and> att_type enc ty \<and> acc enc st H_attlist8 us"
  then obtain ty us where ts: "ts = ty @ us" and ty: "att_type enc ty" and us: "acc enc st H_attlist8 us" by blast
  from ty show "acc enc st H_attlist2 ts"
  proof cases
    case (att_keyword t)
    then show ?thesis using ts us assms by (simp add: acc_attlist2 att_keywords)
  next
    case (att_enum b vs c)
    then have "acc enc st H_attlist3 (vs @ c # us)" using assms us ts
      by (subst acc_attlist3_iff) (auto simp del: split_paired_All split_paired_Ex)
    then show ?thesis using att_enum ts assms by (simp add: acc_attlist2)
  next
    case (att_notation n b vs c)
    then have "acc enc st H_attlist6 (vs @ c # us)" using assms us ts
      by (subst acc_attlist6_iff) (auto simp del: split_paired_All split_paired_Ex)
    then show ?thesis using att_notation ts assms by (simp add: acc_attlist2 acc_attlist5)
  qed
qed

lemma acc_att_defs: "\<forall>t \<in> set ts. plain st t \<Longrightarrow> acc enc st H_attlist1 ts \<Longrightarrow> att_defs enc ts"
proof (induction "length ts" arbitrary: ts rule: less_induct)
  case less
  show ?case
  proof (cases ts)
    case Nil
    then show ?thesis by (simp add: att_defs_Nil)
  next
    case (Cons n us)
    then have n: "name_tok n" "acc enc st H_attlist2 us" and p: "\<forall>t \<in> set us. plain st t"
      using less.prems by (simp_all add: acc_attlist1)
    then obtain ty vs where ty: "us = ty @ vs" "att_type enc ty" "acc enc st H_attlist8 vs"
      using acc_attlist2_iff [OF p] by blast
    then have "\<forall>t \<in> set vs. plain st t" using p by simp
    then obtain d ws where d: "vs = d @ ws" "default_decl enc d" "acc enc st H_attlist1 ws"
      using acc_attlist8_iff [of vs st] ty(3) by blast
    have "att_defs enc ws" using less.hyps [of ws] d ty Cons p by simp
    then show ?thesis using att_defs_Cons [OF n(1) ty(2) d(2)] Cons ty(1) d(1) by simp
  qed
qed

lemma att_defs_acc: "att_defs enc ts \<Longrightarrow> \<forall>t \<in> set ts. plain st t \<Longrightarrow> acc enc st H_attlist1 ts"
proof (induction rule: att_defs.induct)
  case att_defs_Nil
  then show ?case by (simp add: acc_attlist1)
next
  case (att_defs_Cons n ty d r)
  then have "acc enc st H_attlist8 (d @ r)" using acc_attlist8_iff [of "d @ r" st] by auto
  then have "acc enc st H_attlist2 (ty @ d @ r)" using acc_attlist2_iff [of "ty @ d @ r" st] att_defs_Cons by auto
  then show ?case using att_defs_Cons by (simp add: acc_attlist1)
qed

lemma acc_attlist_decl: "\<forall>t \<in> set ts. plain st t \<Longrightarrow> acc enc st H_attlist0 ts \<longleftrightarrow> attlist_decl enc ts"
  using acc_att_defs [of "tl ts" st] att_defs_acc [of "tl ts" st]
  by (cases ts) (auto simp: acc_attlist0 attlist_decl_def)

end

section \<open>Element declarations\<close>

lemma plain_update [simp]: "plain (st\<lparr>handler := h\<rparr>) = plain st" "plain (st\<lparr>level := l\<rparr>) = plain st"
  by (simp_all add: plain_def insignificant_def fun_eq_iff)

lemma accepts_declClose:
  "handler st = H_declClose \<Longrightarrow> \<forall>t \<in> set ts. plain st t \<Longrightarrow> accepts enc st ts \<longleftrightarrow> ts = []"
  by (cases ts) (auto simp: acc_simps declClose_def)

lemma word_suc: "Suc n < 2 ^ 32 \<Longrightarrow> (of_nat (Suc n) :: 32 word) \<noteq> 0"
  by (simp add: of_nat_eq_0_iff [symmetric] word_of_nat_eq_0_iff dvd_imp_le nat_dvd_not_less del: of_nat_Suc)

lemma accepts_group:
  "\<forall>t \<in> set ts. plain st t \<Longrightarrow> n + length ts + 1 < 2 ^ 32 \<Longrightarrow> level st = of_nat (Suc n) \<Longrightarrow>
     (handler st = H_element6 \<longrightarrow> (accepts enc st ts \<longleftrightarrow> acc6 n (map fst ts))) \<and>
     (handler st = H_element7 \<longrightarrow> (accepts enc st ts \<longleftrightarrow> acc7 n (map fst ts)))"
proof (induction ts arbitrary: n st)
  case Nil
  then show ?case by (auto simp: acc_simps element6_def element7_def)
next
  case (Cons t ts)
  have p: "plain st t" "\<forall>t \<in> set ts. plain st t" using Cons.prems by simp_all
  have e6: "accepts enc st (t # ts) \<longleftrightarrow> acc6 n (map fst (t # ts))" if h: "handler st = H_element6"
  proof -
    have "accepts enc (st\<lparr>level := level st + 1\<rparr>) ts \<longleftrightarrow> acc6 (Suc n) (map fst ts)"
      using Cons.IH [of "st\<lparr>level := level st + 1\<rparr>" "Suc n"] Cons.prems h by simp
    moreover have "accepts enc (st\<lparr>handler := H_element7\<rparr>) ts \<longleftrightarrow> acc7 n (map fst ts)"
      using Cons.IH [of "st\<lparr>handler := H_element7\<rparr>" n] Cons.prems by simp
    ultimately show ?thesis
      using h p(1) by (auto simp: acc_simps element6_def leaf_tok_def)
  qed
  have e7: "accepts enc st (t # ts) \<longleftrightarrow> acc7 n (map fst (t # ts))" if h: "handler st = H_element7"
  proof -
    have a: "accepts enc (st\<lparr>handler := H_element6\<rparr>) ts \<longleftrightarrow> acc6 n (map fst ts)"
      using Cons.IH [of "st\<lparr>handler := H_element6\<rparr>" n] Cons.prems by simp
    show ?thesis
    proof (cases n)
      case 0
      have "accepts enc (st\<lparr>level := 0, handler := H_declClose\<rparr>) ts \<longleftrightarrow> ts = []"
        using p(2) by (intro accepts_declClose) simp_all
      then show ?thesis using a h p(1) 0 Cons.prems(3)
        by (auto simp: acc_simps element7_def close_tok_def sep_tok_def)
    next
      case (Suc m)
      then have "level st - 1 = of_nat (Suc m)" using Cons.prems(3) by simp
      moreover have "(of_nat (Suc m) :: 32 word) \<noteq> 0" using Suc Cons.prems(2) by (intro word_suc) simp
      moreover have "accepts enc (st\<lparr>level := of_nat (Suc m)\<rparr>) ts \<longleftrightarrow> acc7 m (map fst ts)"
        using Cons.IH [of "st\<lparr>level := of_nat (Suc m)\<rparr>" m] Cons.prems Suc h by simp
      ultimately show ?thesis using a h p(1) Suc
        by (auto simp: acc_simps element7_def close_tok_def sep_tok_def simp del: of_nat_Suc)
    qed
  qed
  show ?case using e6 e7 by blast
qed

context ascii_names
begin

lemma acc_element0:
  "\<not> acc enc st H_element0 []"
  "plain st t \<Longrightarrow> acc enc st H_element0 (t # ts) \<longleftrightarrow> name_tok t \<and> acc enc st H_element1 ts"
  by (auto simp: acc_simps element0_def decl_defs)

lemma acc_element5:
  "\<not> acc enc st H_element5 []"
  "plain st t \<Longrightarrow> acc enc st H_element5 (t # ts) \<longleftrightarrow> is_tok XML_TOK_CLOSE_PAREN_ASTERISK t \<and> acc enc st H_declClose ts \<or> is_tok XML_TOK_OR t \<and> acc enc st H_element4 ts"
  by (auto simp: acc_simps element5_def decl_defs)

lemma acc_element4:
  "\<not> acc enc st H_element4 []"
  "plain st t \<Longrightarrow> acc enc st H_element4 (t # ts) \<longleftrightarrow> name_tok t \<and> acc enc st H_element5 ts"
  by (auto simp: acc_simps element4_def decl_defs)

lemma acc_element3:
  "\<not> acc enc st H_element3 []"
  "plain st t \<Longrightarrow> acc enc st H_element3 (t # ts) \<longleftrightarrow> is_tok XML_TOK_CLOSE_PAREN t \<and> acc enc st H_declClose ts \<or> is_tok XML_TOK_CLOSE_PAREN_ASTERISK t \<and> acc enc st H_declClose ts \<or> is_tok XML_TOK_OR t \<and> acc enc st H_element4 ts"
  by (auto simp: acc_simps element3_def decl_defs)

lemma acc_mixed5: "\<forall>t \<in> set ts. plain st t \<Longrightarrow> acc enc st H_element5 ts \<longleftrightarrow> mixed_names ts"
  by (induction ts rule: mixed_names.induct) (auto simp: acc_element5 acc_element4 acc_declClose)

lemma acc_mixed3:
  "\<forall>t \<in> set ts. plain st t \<Longrightarrow>
   acc enc st H_element3 ts \<longleftrightarrow> (\<exists>c. ts = [c] \<and> is_tok XML_TOK_CLOSE_PAREN c) \<or> mixed_names ts"
  by (cases ts rule: mixed_names.cases) (auto simp: acc_element3 acc_element4 acc_declClose acc_mixed5)

lemma acc_element2:
  assumes "\<forall>t \<in> set ts. plain st t" and "length ts + 1 < 2 ^ 32"
  shows "accepts enc (st\<lparr>handler := H_element2, level := 1\<rparr>) ts \<longleftrightarrow>
    (\<exists>p us. ts = p # us \<and> pound_keyword enc KW_PCDATA p \<and>
       ((\<exists>c. us = [c] \<and> is_tok XML_TOK_CLOSE_PAREN c) \<or> mixed_names us)) \<or> acc6 0 (map fst ts)"
proof (cases ts)
  case Nil
  then show ?thesis by (simp add: acc_simps element2_def)
next
  case (Cons t us)
  let ?s = "st\<lparr>handler := H_element2, level := 1\<rparr>"
  have p: "plain st t" "\<forall>t \<in> set us. plain st t" using assms Cons by simp_all
  have m: "accepts enc (?s\<lparr>handler := H_element3\<rparr>) us \<longleftrightarrow> (\<exists>c. us = [c] \<and> is_tok XML_TOK_CLOSE_PAREN c) \<or> mixed_names us"
    using acc_mixed3 [of us ?s] p by simp
  have g: "accepts enc (?s\<lparr>handler := H_element7\<rparr>) us \<longleftrightarrow> acc7 0 (map fst us)"
    using accepts_group [of us "?s\<lparr>handler := H_element7\<rparr>" 0 enc] p assms(2) Cons by simp
  have h: "accepts enc (?s\<lparr>level := 2, handler := H_element6\<rparr>) us \<longleftrightarrow> acc6 1 (map fst us)"
    using accepts_group [of us "?s\<lparr>level := 2, handler := H_element6\<rparr>" 1 enc] p assms(2) Cons by simp
  have s: "accepts enc ?s ts \<longleftrightarrow>
      pound_keyword enc KW_PCDATA t \<and> accepts enc (?s\<lparr>handler := H_element3\<rparr>) us \<or>
      is_tok XML_TOK_OPEN_PAREN t \<and> accepts enc (?s\<lparr>level := 2, handler := H_element6\<rparr>) us \<or>
      leaf_tok (fst t) \<and> accepts enc (?s\<lparr>handler := H_element7\<rparr>) us"
    using p(1) by (auto simp: Cons acc_simps element2_def decl_defs leaf_tok_def)
  show ?thesis unfolding s m g h by (auto simp: Cons decl_defs leaf_tok_def)
qed

lemma acc_element1:
  assumes "\<forall>t \<in> set ts. plain st t" and "length ts < 2 ^ 32"
  shows "acc enc st H_element1 ts \<longleftrightarrow> (\<exists>t. ts = [t] \<and> (keyword enc KW_EMPTY t \<or> keyword enc KW_ANY t)) \<or>
    mixed enc ts \<or> (ts \<noteq> [] \<and> is_tok XML_TOK_OPEN_PAREN (hd ts) \<and> content (map fst ts))"
proof (cases ts)
  case Nil
  then show ?thesis by (simp add: acc_simps element1_def)
next
  case (Cons t us)
  have p: "plain st t" "\<forall>t \<in> set us. plain st t" using assms Cons by simp_all
  have s: "acc enc st H_element1 ts \<longleftrightarrow> (keyword enc KW_EMPTY t \<or> keyword enc KW_ANY t) \<and> acc enc st H_declClose us \<or>
      is_tok XML_TOK_OPEN_PAREN t \<and> accepts enc (st\<lparr>handler := H_element2, level := 1\<rparr>) us"
    using p(1) by (auto simp: Cons acc_simps element1_def decl_defs name_matches_iff KW_defs)
  have d: "acc enc st H_declClose us \<longleftrightarrow> us = []" using p(2) by (intro accepts_declClose) simp_all
  have o: "content (map fst ts) \<longleftrightarrow> acc6 0 (map fst us)" if "is_tok XML_TOK_OPEN_PAREN t"
    using that content_group [of "map fst us"] Cons by (simp add: is_tok_def)
  have e: "accepts enc (st\<lparr>handler := H_element2, level := 1\<rparr>) us \<longleftrightarrow>
    (\<exists>p vs. us = p # vs \<and> pound_keyword enc KW_PCDATA p \<and>
       ((\<exists>c. vs = [c] \<and> is_tok XML_TOK_CLOSE_PAREN c) \<or> mixed_names vs)) \<or> acc6 0 (map fst us)"
    using assms(2) Cons p by (intro acc_element2) simp_all
  show ?thesis
  proof (cases "is_tok XML_TOK_OPEN_PAREN t")
    case True
    then show ?thesis unfolding s d e using o [OF True] by (cases us) (auto simp: Cons decl_defs)
  next
    case False
    then show ?thesis unfolding s d by (cases us) (auto simp: Cons)
  qed
qed

lemma acc_element_decl:
  "\<forall>t \<in> set ts. plain st t \<Longrightarrow> length ts \<le> 2 ^ 32 \<Longrightarrow> acc enc st H_element0 ts \<longleftrightarrow> element_decl enc ts"
  by (cases ts) (auto simp: acc_element0 acc_element1 element_decl_content element_decl_of_def)

end

section \<open>Whole declarations\<close>

definition top_handler :: "prolog_state \<Rightarrow> prolog_handler_name" where
  "top_handler st = (if documentEntity st then H_internalSubset else H_externalSubset1)"

definition decl_handlers :: "prolog_handler_name list" where
  "decl_handlers =
     [H_entity0, H_entity1, H_entity2, H_entity3, H_entity4, H_entity5, H_entity6, H_entity7, H_entity8, H_entity9,
      H_notation0, H_notation1, H_notation2, H_notation3, H_notation4,
      H_attlist0, H_attlist1, H_attlist2, H_attlist3, H_attlist4, H_attlist5, H_attlist6, H_attlist7, H_attlist8,
      H_attlist9, H_element0, H_element1, H_element2, H_element3, H_element4, H_element5, H_element6, H_element7,
      H_declClose]"

text \<open>Kept as a constant, so that the conditions of a handler are not split in two places at once.\<close>

definition decl_or_error :: "prolog_handler_name \<Rightarrow> bool" where
  "decl_or_error h \<longleftrightarrow> h \<in> set (H_error # decl_handlers)"

lemma step_in_decl:
  assumes "handler st \<in> set decl_handlers" and "tok \<noteq> XML_TOK_DECL_CLOSE"
  shows "handler (fst (XmlTokenRole enc st tok ptr)) = H_error \<or> handler (fst (XmlTokenRole enc st tok ptr)) \<in> set decl_handlers"
proof -
  have g: "decl_or_error h = True" if "h \<in> set (H_error # decl_handlers)" for h
    using that by (simp add: decl_or_error_def)
  have "decl_or_error (handler (fst (XmlTokenRole enc st tok ptr)))"
    using assms(1) unfolding decl_handlers_def list.set insert_iff empty_iff
    by (elim disjE) (simp_all add: step_defs assms(2) g [unfolded decl_handlers_def] split: option.split)
  then show ?thesis by (simp add: decl_or_error_def)
qed

lemma step_close_decl:
  assumes "handler st \<in> set decl_handlers"
  shows "handler (fst (XmlTokenRole enc st XML_TOK_DECL_CLOSE ptr)) = H_error \<or>
         handler (fst (XmlTokenRole enc st XML_TOK_DECL_CLOSE ptr)) = top_handler st"
    and "XmlTokenRole enc st XML_TOK_DECL_CLOSE ptr = XmlTokenRole enc st XML_TOK_DECL_CLOSE []"
  by (cases "handler st"; use assms in \<open>simp add: step_defs decl_handlers_def top_handler_def split: option.splits\<close>)+

lemma run_decl:
  "handler st \<in> set decl_handlers \<Longrightarrow> \<forall>t \<in> set ts. fst t \<noteq> XML_TOK_DECL_CLOSE \<Longrightarrow>
   handler (fst (role_run enc st (ts @ [(XML_TOK_DECL_CLOSE, x)]))) =
     (if accepts enc st ts then top_handler st else H_error)"
proof (induction ts arbitrary: st)
  case Nil
  then show ?case using step_close_decl [of st enc x] by (auto simp: accepts_Nil split: prod.splits)
next
  case (Cons t ts)
  obtain tok ptr where t: "t = (tok, ptr)" by (cases t)
  let ?s = "fst (XmlTokenRole enc st tok ptr)"
  have top: "top_handler ?s = top_handler st" by (simp add: top_handler_def step_document)
  have r: "fst (role_run enc st (t # us)) = fst (role_run enc ?s us)" for us
    by (simp add: t split: prod.splits)
  consider "handler ?s = H_error" | "handler ?s \<in> set decl_handlers"
    using step_in_decl [of st tok enc ptr] Cons.prems t by auto
  then show ?case
  proof cases
    case 1
    then show ?thesis using r [of "ts @ [(XML_TOK_DECL_CLOSE, x)]"] run_error [OF 1] by (simp add: accepts_Cons t)
  next
    case 2
    then show ?thesis using r [of "ts @ [(XML_TOK_DECL_CLOSE, x)]"] Cons.IH [OF 2] Cons.prems top
      by (simp add: accepts_Cons t)
  qed
qed

definition markup_decl :: "encoding \<Rightarrow> cstring \<Rightarrow> token list \<Rightarrow> bool" where
  "markup_decl enc kw ts =
     (if kw = KW_ENTITY then entity_decl enc ts
      else if kw = KW_NOTATION then notation_decl enc ts
      else if kw = KW_ATTLIST then attlist_decl enc ts
      else kw = KW_ELEMENT \<and> element_decl enc ts)"

context ascii_names
begin

lemma step_top:
  assumes "handler st = top_handler st" and "drop (2 * minBytesPerChar enc) p = encode kw"
  shows "fst (XmlTokenRole enc st XML_TOK_DECL_OPEN p) =
    st\<lparr>handler := if kw = KW_ENTITY then H_entity0 else if kw = KW_ATTLIST then H_attlist0
       else if kw = KW_ELEMENT then H_element0 else if kw = KW_NOTATION then H_notation0 else H_error\<rparr>"
  using assms by (cases "documentEntity st")
    (simp_all add: top_handler_def XmlTokenRole_def internalSubset_def externalSubset1_def common_def name_matches_iff)

lemma open_drop: "drop (2 * minBytesPerChar enc) (encode (cstr ''<!'' @ kw)) = encode kw"
  using encode_drop [of "cstr ''<!''" kw] by (simp add: mult_2)

lemmas step_open = step_top [OF _ open_drop]

lemma declaration_run:
  assumes "handler st = top_handler st" and "\<forall>t \<in> set ts. plain st t" and "length ts \<le> 2 ^ 32"
    and "kw \<in> {KW_ENTITY, KW_NOTATION, KW_ATTLIST, KW_ELEMENT}"
  shows "handler (fst (role_run enc st ((XML_TOK_DECL_OPEN, encode (cstr ''<!'' @ kw)) # ts @ [(XML_TOK_DECL_CLOSE, x)]))) =
    (if markup_decl enc kw ts then top_handler st else H_error)"
proof -
  let ?s = "fst (XmlTokenRole enc st XML_TOK_DECL_OPEN (encode (cstr ''<!'' @ kw)))"
  have r: "fst (role_run enc st ((XML_TOK_DECL_OPEN, encode (cstr ''<!'' @ kw)) # us)) = fst (role_run enc ?s us)" for us
    by (simp split: prod.splits)
  have n: "\<forall>t \<in> set ts. fst t \<noteq> XML_TOK_DECL_CLOSE" using assms(2) by (simp add: plain_def)
  note s = step_open [OF assms(1), of kw]
  have d: "handler ?s \<in> set decl_handlers"
    unfolding s using assms(4) by (auto simp: decl_handlers_def KW_defs)
  have t: "top_handler ?s = top_handler st" by (simp add: top_handler_def step_document)
  have "accepts enc ?s ts \<longleftrightarrow> markup_decl enc kw ts"
    unfolding s using assms(2-4) acc_entity_decl [of ts st] acc_notation_decl [of ts st]
      acc_attlist_decl [of ts st] acc_element_decl [of ts st]
    by (auto simp: markup_decl_def KW_defs)
  then show ?thesis by (simp only: r run_decl [OF d n] t)
qed

end

section \<open>Properties\<close>

text \<open>C30: element declarations. At the top level of a document or an external subset, in each of the three kinds of
  encoding, reading \<open><!ELEMENT\<close>, significant tokens and \<open>>\<close> leads back to the top level if the
  tokens are a name and a content specification (\<open>EMPTY\<close>, \<open>ANY\<close>, mixed content or nested groups that are groups of the
  XML grammar when every connector in them is read as a comma), and to the error state otherwise. So every element declaration of the grammar is
  read, and beyond these only such with \<open>,\<close> and \<open>|\<close> mixed in a group, which the code does not check, as its first lines say.\<close>

theorem element_decl_grammar:
  fixes k :: encoding_kind and x :: "byte list"
  assumes "handler st = top_handler st" and "\<forall>t \<in> set ts. plain st t" and "length ts \<le> 2 ^ 32"
  defines "h \<equiv> handler (fst (role_run (expat_encoding k) st
      ((XML_TOK_DECL_OPEN, encode_name k (cstr ''<!'' @ KW_ELEMENT)) # ts @ [(XML_TOK_DECL_CLOSE, x)])))"
  shows "h = (if element_decl (expat_encoding k) ts then top_handler st else H_error) \<and>
    (xml_element_decl (expat_encoding k) ts \<longrightarrow> h = top_handler st)"
proof -
  have "h = (if element_decl (expat_encoding k) ts then top_handler st else H_error)"
    unfolding h_def using ex.declaration_run [OF assms(1-3), where kw = KW_ELEMENT and x = x and k = k]
    by (simp add: markup_decl_def KW_defs del: role_run.simps)
  then show ?thesis using xml_element_decl [of "expat_encoding k" ts] by simp
qed

theorem element_decl_grammar_witness:
  "handler (fst (role_run (expat_encoding Normal)
     \<lparr>handler = H_internalSubset, level = 0, includeLevel = 0, documentEntity = True\<rparr>
     ((XML_TOK_DECL_OPEN, encode_name Normal (cstr ''<!'' @ KW_ELEMENT)) #
      [(XML_TOK_NAME, cstr ''a''), (XML_TOK_OPEN_PAREN, cstr ''(''), (XML_TOK_NAME, cstr ''b''), (XML_TOK_COMMA, cstr '',''),
       (XML_TOK_OPEN_PAREN, cstr ''(''), (XML_TOK_NAME_PLUS, cstr ''c+''), (XML_TOK_CLOSE_PAREN_ASTERISK, cstr '')*''),
       (XML_TOK_CLOSE_PAREN, cstr '')'')] @ [(XML_TOK_DECL_CLOSE, [])]))) = H_internalSubset"
proof -
  have "acc6 0 [18, 38, 23, 32, 36, 24]" by (simp add: tok_class)
  then have "content [23, 18, 38, 23, 32, 36, 24]" by (simp only: content_group)
  then have x: "xml_content [23, 18, 38, 23, 32, 36, 24]" by (rule content_xml_content(1)) simp
  then show ?thesis
    by (subst element_decl_grammar [THEN conjunct1])
      (simp_all add: top_handler_def plain_def insignificant_def element_decl_def element_decl_of_def one_sep_def decl_defs)
qed

text \<open>C31: entity, notation and attribute list declarations are read in the same way by their grammars.\<close>

theorem declaration_grammar:
  assumes "handler st = top_handler st" and "\<forall>t \<in> set ts. plain st t" and "length ts \<le> 2 ^ 32"
    and "kw \<in> {KW_ENTITY, KW_NOTATION, KW_ATTLIST}"
  shows "handler (fst (role_run (expat_encoding k) st
      ((XML_TOK_DECL_OPEN, encode_name k (cstr ''<!'' @ kw)) # ts @ [(XML_TOK_DECL_CLOSE, x)]))) =
    (if markup_decl (expat_encoding k) kw ts then top_handler st else H_error)"
  using ex.declaration_run [OF assms(1-3), where kw = kw and x = x and k = k] assms(4) by blast

theorem declaration_grammar_witness:
  "handler (fst (role_run (expat_encoding Big2)
     \<lparr>handler = H_externalSubset1, level = 0, includeLevel = 0, documentEntity = False\<rparr>
     ((XML_TOK_DECL_OPEN, encode_name Big2 (cstr ''<!'' @ KW_ENTITY)) #
      [(XML_TOK_NAME, [0, 0x61]), (XML_TOK_NAME, encode_name Big2 KW_SYSTEM), (XML_TOK_LITERAL, [])] @
      [(XML_TOK_DECL_CLOSE, [])]))) = H_externalSubset1"
  by (subst declaration_grammar)
    (simp_all add: top_handler_def plain_def insignificant_def markup_decl_def decl_defs ex.name_matches_iff)

end
