(* ===== verification/AprRmm.thy ===== *)
theory AprRmm
  imports Prelude "HOL-Library.Monad_Syntax"
begin

text \<open>
  Relocatable memory: the allocator of \<open>apr-util-1.3.9/misc/apr_rmm.c\<close>, which keeps its lists inside the region it manages.

  An offset or a size is a natural number below \<open>2 ^ 64\<close>; sums and differences wrap around (\<open>size_t\<close>). The structure at an
  offset is \<open>blocks r off\<close>; it is \<open>None\<close> where the region has never held one. \<open>bytes\<close> is the region as the callers use it. An
  operation is \<open>None\<close> if it follows an offset where there is no structure, reads or writes outside the region, or does not
  return: the loops along a list are \<open>partial_function\<close>s. A structure is three words of eight bytes, on a machine whose default
  alignment is eight. The lock is represented by the statuses of locking and unlocking it, where the code looks at them.
\<close>

section \<open>The region\<close>

record rmm_block =
  bsize :: nat
  bprev :: nat
  bnext :: nat

record rmm =
  rsize :: nat
  abssize :: nat
  firstused :: nat
  firstfree :: nat
  blocks :: "nat \<rightharpoonup> rmm_block"
  bytes :: "byte mem"

definition RMM_HDR_BLOCK_SIZE :: nat where
  "RMM_HDR_BLOCK_SIZE = APR_ALIGN_DEFAULT 24"

definition RMM_BLOCK_SIZE :: nat where
  "RMM_BLOCK_SIZE = APR_ALIGN_DEFAULT 24"

abbreviation (input) APR_EINVAL :: int where "APR_EINVAL \<equiv> 22"

definition put_block :: "rmm \<Rightarrow> nat \<Rightarrow> rmm_block \<Rightarrow> rmm" where
  "put_block r off b = r\<lparr>blocks := (blocks r)(off \<mapsto> b)\<rparr>"

section \<open>Lists\<close>

partial_function (option) find_by_offset :: "rmm \<Rightarrow> nat \<Rightarrow> nat \<Rightarrow> bool \<Rightarrow> nat \<Rightarrow> nat option" where
  "find_by_offset r off target includes prev =
     (if off = 0 then Some (if includes then prev else 0)
      else if target = off then Some off
      else if target < off then Some (if includes then prev else 0)
      else Option.bind (blocks r off) (\<lambda>blk. find_by_offset r (bnext blk) target includes off))"

definition find_block_by_offset :: "rmm \<Rightarrow> nat \<Rightarrow> nat \<Rightarrow> bool \<Rightarrow> nat option" where
  "find_block_by_offset r off target includes = find_by_offset r off target includes 0"

text \<open>The search for a block: \<open>Inl\<close> is the early return for a block of the very size, \<open>Inr\<close> are \<open>best\<close> and \<open>bestsize\<close>.\<close>

partial_function (option) best_loop :: "rmm \<Rightarrow> nat \<Rightarrow> nat \<Rightarrow> nat \<Rightarrow> nat \<Rightarrow> (nat + nat \<times> nat) option" where
  "best_loop r off sz best bestsize =
     (if off = 0 then Some (Inr (best, bestsize))
      else Option.bind (blocks r off) (\<lambda>blk.
        if bsize blk = sz then Some (Inl off)
        else if bsize blk \<ge> sz \<and> (bestsize = 0 \<or> bsize blk < bestsize)
          then best_loop r (bnext blk) sz off (bsize blk)
          else best_loop r (bnext blk) sz best bestsize))"

definition split_block :: "rmm \<Rightarrow> nat \<Rightarrow> nat \<Rightarrow> rmm option" where
  "split_block r best sz = do {
     blk \<leftarrow> blocks r best;
     let new = size_t (best + sz);
     let r1 = put_block r new \<lparr>bsize = size_minus (bsize blk) sz, bprev = best, bnext = bnext blk\<rparr>;
     let r2 = put_block r1 best (blk\<lparr>bsize := sz, bnext := new\<rparr>);
     if bnext blk \<noteq> 0 then do {
       n \<leftarrow> blocks r2 (bnext blk);
       Some (put_block r2 (bnext blk) (n\<lparr>bprev := new\<rparr>))
     } else Some r2
   }"

definition find_block_of_size :: "rmm \<Rightarrow> nat \<Rightarrow> (rmm \<times> nat) option" where
  "find_block_of_size r sz = do {
     found \<leftarrow> best_loop r (firstfree r) sz 0 0;
     (case found of
        Inl off \<Rightarrow> Some (r, off)
      | Inr (best, bestsize) \<Rightarrow>
          if bestsize > size_t (RMM_BLOCK_SIZE + sz)
          then map_option (\<lambda>r'. (r', best)) (split_block r best sz)
          else Some (r, best))
   }"

text \<open>\<open>move_block\<close> in its three steps: close the gap, find the place in the other list, open it up. \<open>free\<close> tells
  where the block goes.\<close>

definition close_gap :: "rmm \<Rightarrow> nat \<Rightarrow> bool \<Rightarrow> rmm option" where
  "close_gap r this free = do {
     blk \<leftarrow> blocks r this;
     r1 \<leftarrow> (if bprev blk \<noteq> 0 then do {
              prev \<leftarrow> blocks r (bprev blk);
              Some (put_block r (bprev blk) (prev\<lparr>bnext := bnext blk\<rparr>))
            }
            else Some (if free then r\<lparr>firstused := bnext blk\<rparr> else r\<lparr>firstfree := bnext blk\<rparr>));
     if bnext blk \<noteq> 0 then do {
       n \<leftarrow> blocks r1 (bnext blk);
       Some (put_block r1 (bnext blk) (n\<lparr>bprev := bprev blk\<rparr>))
     } else Some r1
   }"

definition find_place :: "rmm \<Rightarrow> nat \<Rightarrow> bool \<Rightarrow> rmm option" where
  "find_place r this free = do {
     blk \<leftarrow> blocks r this;
     prev \<leftarrow> find_block_by_offset r (if free then firstfree r else firstused r) this True;
     Some (if prev = 0 then
             (if free then (put_block r this (blk\<lparr>bprev := prev, bnext := firstfree r\<rparr>))\<lparr>firstfree := this\<rparr>
              else (put_block r this (blk\<lparr>bprev := prev, bnext := firstused r\<rparr>))\<lparr>firstused := this\<rparr>)
           else put_block r this (blk\<lparr>bprev := prev\<rparr>))
   }"

text \<open>Joining the predecessor gives the region and the offset that stands for \<open>this\<close> from there on.\<close>

definition link_prev :: "rmm \<Rightarrow> nat \<Rightarrow> bool \<Rightarrow> (rmm \<times> nat) option" where
  "link_prev r this free = do {
     blk \<leftarrow> blocks r this;
     if bprev blk \<noteq> 0 then do {
       prev \<leftarrow> blocks r (bprev blk);
       Some (if free \<and> size_t (bprev blk + bsize prev) = this
             then (put_block r (bprev blk) (prev\<lparr>bsize := size_t (bsize prev + bsize blk)\<rparr>), bprev blk)
             else (put_block (put_block r this (blk\<lparr>bnext := bnext prev\<rparr>)) (bprev blk) (prev\<lparr>bnext := this\<rparr>), this))
     } else Some (r, this)
   }"

definition link_next :: "rmm \<Rightarrow> nat \<Rightarrow> bool \<Rightarrow> rmm option" where
  "link_next r this free = do {
     blk \<leftarrow> blocks r this;
     if bnext blk \<noteq> 0 then do {
       n \<leftarrow> blocks r (bnext blk);
       if free \<and> size_t (this + bsize blk) = bnext blk then do {
         let r1 = put_block r this (blk\<lparr>bsize := size_t (bsize blk + bsize n), bnext := bnext n\<rparr>);
         if bnext n \<noteq> 0 then do {
           n2 \<leftarrow> blocks r1 (bnext n);
           Some (put_block r1 (bnext n) (n2\<lparr>bprev := this\<rparr>))
         } else Some r1
       } else Some (put_block r (bnext blk) (n\<lparr>bprev := this\<rparr>))
     } else Some r
   }"

definition move_block :: "rmm \<Rightarrow> nat \<Rightarrow> bool \<Rightarrow> rmm option" where
  "move_block r this free = do {
     r1 \<leftarrow> close_gap r this free;
     r2 \<leftarrow> find_place r1 this free;
     (r3, this3) \<leftarrow> link_prev r2 this free;
     link_next r3 this3 free
   }"

section \<open>Operations\<close>

text \<open>\<open>region\<close> is the memory at \<open>base\<close>; the header and the first block must fit into it.\<close>

definition apr_rmm_init :: "int \<Rightarrow> int \<Rightarrow> byte mem \<Rightarrow> nat \<Rightarrow> (int \<times> rmm option) option" where
  "apr_rmm_init lock_rv unlock_rv region sz =
     (if lock_rv \<noteq> 0 then Some (lock_rv, None)
      else if length region < RMM_HDR_BLOCK_SIZE + RMM_BLOCK_SIZE then None
      else Some (unlock_rv, Some
        \<lparr>rsize = sz, abssize = sz, firstused = 0, firstfree = RMM_HDR_BLOCK_SIZE,
         blocks = [RMM_HDR_BLOCK_SIZE \<mapsto> \<lparr>bsize = size_minus sz RMM_HDR_BLOCK_SIZE, bprev = 0, bnext = 0\<rparr>],
         bytes = region\<rparr>))"

partial_function (option) destroy_loop :: "rmm \<Rightarrow> nat \<Rightarrow> rmm option" where
  "destroy_loop r this =
     Option.bind (blocks r this) (\<lambda>blk.
       let r1 = put_block r this (blk\<lparr>bprev := 0, bnext := 0\<rparr>)
       in if bnext blk \<noteq> 0 then destroy_loop r1 (bnext blk) else Some r1)"

definition apr_rmm_destroy :: "int \<Rightarrow> int \<Rightarrow> rmm \<Rightarrow> (rmm \<times> int) option" where
  "apr_rmm_destroy lock_rv unlock_rv r =
     (if lock_rv \<noteq> 0 then Some (r, lock_rv)
      else do {
        r1 \<leftarrow> (if firstused r \<noteq> 0 then map_option (\<lambda>r'. r'\<lparr>firstused := 0\<rparr>) (destroy_loop r (firstused r)) else Some r);
        r2 \<leftarrow> (if firstfree r1 \<noteq> 0 then map_option (\<lambda>r'. r'\<lparr>firstfree := 0\<rparr>) (destroy_loop r1 (firstfree r1)) else Some r1);
        Some (r2\<lparr>abssize := 0, rsize := 0\<rparr>, unlock_rv)
      })"

definition apr_rmm_attach :: "rmm \<Rightarrow> rmm" where
  "apr_rmm_attach r = r\<lparr>rsize := abssize r\<rparr>"

definition apr_rmm_detach :: "rmm \<Rightarrow> int" where
  "apr_rmm_detach r = 0"

text \<open>What \<open>apr_rmm_malloc\<close> and \<open>apr_rmm_calloc\<close> ask for.\<close>

definition request_size :: "nat \<Rightarrow> nat" where
  "request_size reqsize = size_t (APR_ALIGN_DEFAULT reqsize + RMM_BLOCK_SIZE)"

definition apr_rmm_malloc :: "rmm \<Rightarrow> nat \<Rightarrow> (rmm \<times> nat) option" where
  "apr_rmm_malloc r reqsize =
     (let sz = request_size reqsize
      in if sz < reqsize then Some (r, 0)
         else do {
           (r1, this) \<leftarrow> find_block_of_size r sz;
           if this \<noteq> 0 then do {
             r2 \<leftarrow> move_block r1 this False;
             Some (r2, size_t (this + RMM_BLOCK_SIZE))
           } else Some (r1, 0)
         })"

definition apr_rmm_calloc :: "rmm \<Rightarrow> nat \<Rightarrow> (rmm \<times> nat) option" where
  "apr_rmm_calloc r reqsize =
     (let sz = request_size reqsize
      in if sz < reqsize then Some (r, 0)
         else do {
           (r1, this) \<leftarrow> find_block_of_size r sz;
           if this \<noteq> 0 then do {
             r2 \<leftarrow> move_block r1 this False;
             m \<leftarrow> mem_write (bytes r2) (size_t (this + RMM_BLOCK_SIZE)) (replicate (size_minus sz RMM_BLOCK_SIZE) 0);
             Some (r2\<lparr>bytes := m\<rparr>, size_t (this + RMM_BLOCK_SIZE))
           } else Some (r1, 0)
         })"

definition apr_rmm_free :: "int \<Rightarrow> int \<Rightarrow> rmm \<Rightarrow> nat \<Rightarrow> (rmm \<times> int) option" where
  "apr_rmm_free lock_rv unlock_rv r off =
     (if off < RMM_HDR_BLOCK_SIZE + RMM_BLOCK_SIZE then Some (r, APR_EINVAL)
      else let this = off - RMM_BLOCK_SIZE in
        if lock_rv \<noteq> 0 then Some (r, lock_rv)
        else do {
          blk \<leftarrow> blocks r this;
          prev_ok \<leftarrow> (if bprev blk \<noteq> 0 then map_option (\<lambda>prev. bnext prev = this) (blocks r (bprev blk))
                      else Some (firstused r = this));
          if \<not> prev_ok then Some (r, APR_EINVAL)
          else do {
            next_ok \<leftarrow> (if bnext blk \<noteq> 0 then map_option (\<lambda>n. bprev n = this) (blocks r (bnext blk)) else Some True);
            if \<not> next_ok then Some (r, APR_EINVAL)
            else map_option (\<lambda>r'. (r', unlock_rv)) (move_block r this True)
          }
        })"

text \<open>Addresses: \<open>base\<close> is the address of the region.\<close>

definition apr_rmm_addr_get :: "nat \<Rightarrow> nat \<Rightarrow> nat" where
  "apr_rmm_addr_get base entity = size_t (base + entity)"

definition apr_rmm_offset_get :: "nat \<Rightarrow> nat \<Rightarrow> nat" where
  "apr_rmm_offset_get base entity = size_minus entity base"

text \<open>\<open>memcpy\<close> inside the region.\<close>

definition mem_copy :: "byte mem \<Rightarrow> nat \<Rightarrow> nat \<Rightarrow> nat \<Rightarrow> byte mem option" where
  "mem_copy m dst src n =
     (if dst + n \<le> length m \<and> src + n \<le> length m
      then Some (take dst m @ take n (drop src m) @ drop (dst + n) m) else None)"

definition apr_rmm_realloc :: "nat \<Rightarrow> int \<Rightarrow> int \<Rightarrow> rmm \<Rightarrow> nat option \<Rightarrow> nat \<Rightarrow> (rmm \<times> nat) option" where
  "apr_rmm_realloc base lock_rv unlock_rv r entity reqsize =
     (case entity of None \<Rightarrow> apr_rmm_malloc r reqsize
      | Some address \<Rightarrow>
          let sz = APR_ALIGN_DEFAULT reqsize
          in if sz < reqsize then Some (r, 0)
             else let old = apr_rmm_offset_get base address
             in do {
               (r1, this) \<leftarrow> apr_rmm_malloc r sz;
               if this = 0 then Some (r1, 0)
               else do {
                 blk \<leftarrow> blocks r1 (size_minus old RMM_BLOCK_SIZE);
                 m \<leftarrow> mem_copy (bytes r1) this old (if bsize blk < sz then bsize blk else sz);
                 (r2, rv) \<leftarrow> apr_rmm_free lock_rv unlock_rv (r1\<lparr>bytes := m\<rparr>) old;
                 Some (r2, this)
               }
             })"

definition apr_rmm_overhead_get :: "nat \<Rightarrow> nat" where
  "apr_rmm_overhead_get n = size_t (RMM_HDR_BLOCK_SIZE + size_t (n * size_t (RMM_BLOCK_SIZE + APR_ALIGN_DEFAULT 1)))"

end
