(* ===== verification/AprRmmLists.thy ===== *)
theory AprRmmLists
  imports AprRmm
begin

text \<open>
  The doubly linked lists of \<open>apr_rmm.c\<close>: the search along a list, the choice of a block, and what moving or splitting a block does
  to the two lists.
\<close>

section \<open>Sizes\<close>

lemma size_t_id [simp]: "x < 2 ^ 64 \<Longrightarrow> size_t x = x"
  by (simp add: size_t_def)

lemma size_minus_id: "y \<le> x \<Longrightarrow> x < 2 ^ 64 \<Longrightarrow> size_minus x y = x - y"
proof -
  assume "y \<le> x" "x < 2 ^ 64"
  then have "x + 2 ^ 64 - y = (x - y) + 2 ^ 64" by simp
  then show ?thesis using \<open>x < 2 ^ 64\<close> by (simp only: size_minus_def size_t_def mod_add_self2) simp
qed

lemma header_sizes [simp]: "RMM_HDR_BLOCK_SIZE = 24" "RMM_BLOCK_SIZE = 24"
  by (simp_all add: RMM_HDR_BLOCK_SIZE_def RMM_BLOCK_SIZE_def APR_ALIGN_DEFAULT_def)

text \<open>A request that does not wrap around is rounded up; one that does is refused.\<close>

lemma align_up: "n + 7 < 2 ^ 64 \<Longrightarrow> n \<le> APR_ALIGN_DEFAULT n \<and> APR_ALIGN_DEFAULT n \<le> n + 7 \<and> APR_ALIGN_DEFAULT n mod 8 = 0"
  unfolding APR_ALIGN_DEFAULT_def by simp

lemma request_size:
  assumes "n < 2 ^ 64" "\<not> request_size n < n"
  shows "n + 24 \<le> request_size n" "request_size n \<le> n + 31" "request_size n mod 8 = 0" "request_size n < 2 ^ 64"
proof -
  have "n + 31 < 2 ^ 64"
  proof (rule ccontr)
    assume n: "\<not> n + 31 < 2 ^ 64"
    show False
    proof (cases "n + 7 < 2 ^ 64")
      case True
      then have a: "n \<le> APR_ALIGN_DEFAULT n" "APR_ALIGN_DEFAULT n \<le> n + 7" "APR_ALIGN_DEFAULT n mod 8 = 0"
        using align_up by blast+
      obtain k where k: "APR_ALIGN_DEFAULT n = 8 * k" using a(3) by (metis dvd_def mod_0_imp_dvd)
      have "2 ^ 64 \<le> 8 * k + 24"
        using a(1) n unfolding k by simp
      then have "2 ^ 64 \<le> APR_ALIGN_DEFAULT n + 24" using k by simp
      then have "request_size n = APR_ALIGN_DEFAULT n + 24 - 2 ^ 64"
        using a(2) True by (simp add: request_size_def size_t_def le_mod_geq)
      then show False using assms a n True by simp
    next
      case False
      then have "size_t (n + 7) < 8" using assms(1) by (simp add: size_t_def le_mod_geq)
      then have "APR_ALIGN_DEFAULT n = 0" by (simp add: APR_ALIGN_DEFAULT_def)
      then have "request_size n = 24" by (simp add: request_size_def)
      then show False using assms(2) n by simp
    qed
  qed
  then have "request_size n = APR_ALIGN_DEFAULT n + 24" "n \<le> APR_ALIGN_DEFAULT n" "APR_ALIGN_DEFAULT n \<le> n + 7"
    "APR_ALIGN_DEFAULT n mod 8 = 0"
    using align_up [of n] by (simp_all add: request_size_def)
  then show "n + 24 \<le> request_size n" "request_size n \<le> n + 31" "request_size n mod 8 = 0" "request_size n < 2 ^ 64"
    using \<open>n + 31 < 2 ^ 64\<close> by (simp_all add: mod_add_eq [symmetric, of _ 24])
qed

section \<open>Doubly linked lists\<close>

text \<open>\<open>seg m p xs q\<close>: the blocks \<open>xs\<close>, offsets and sizes, are linked in \<open>m\<close> between the neighbours \<open>p\<close> and \<open>q\<close>.\<close>

fun first :: "(nat \<times> nat) list \<Rightarrow> nat \<Rightarrow> nat" where
  "first [] q = q"
| "first ((x, s) # xs) q = x"

fun seg :: "(nat \<rightharpoonup> rmm_block) \<Rightarrow> nat \<Rightarrow> (nat \<times> nat) list \<Rightarrow> nat \<Rightarrow> bool" where
  "seg m p [] q = True"
| "seg m p ((x, s) # xs) q = (m x = Some \<lparr>bsize = s, bprev = p, bnext = first xs q\<rparr> \<and> seg m x xs q)"

definition final :: "nat \<Rightarrow> (nat \<times> nat) list \<Rightarrow> nat" where
  "final p xs = (if xs = [] then p else fst (last xs))"

lemma final_simps [simp]: "final p [] = p" "final p (xs @ [e]) = fst e" "final p (e # xs) = final (fst e) xs"
  by (simp_all add: final_def)

lemma final_append: "final p (xs @ ys) = final (final p xs) ys"
  by (simp add: final_def)

lemma first_append: "first (xs @ ys) q = first xs (first ys q)"
  by (cases xs) auto

lemma seg_append: "seg m p (xs @ ys) q \<longleftrightarrow> seg m p xs (first ys q) \<and> seg m (final p xs) ys q"
proof (induction xs arbitrary: p)
  case (Cons e xs)
  then show ?case by (cases e) (simp add: first_append)
qed simp

lemma seg_snoc: "seg m p (xs @ [(x, s)]) q \<longleftrightarrow> seg m p xs x \<and> m x = Some \<lparr>bsize = s, bprev = final p xs, bnext = q\<rparr>"
  by (simp add: seg_append)

lemma seg_upd [simp]: "a \<notin> fst ` set xs \<Longrightarrow> seg (m(a := v)) p xs q = seg m p xs q"
proof (induction xs arbitrary: p)
  case (Cons e xs)
  then show ?case by (cases e) simp
qed simp

lemma seg_cong: "(\<And>a. a \<in> fst ` set xs \<Longrightarrow> m a = m' a) \<Longrightarrow> seg m p xs q = seg m' p xs q"
proof (induction xs arbitrary: p)
  case (Cons e xs)
  then show ?case by (cases e) simp
qed simp

text \<open>A list with its first block detached from the left, or its last block from the right.\<close>

lemma seg_relink_next:
  assumes "seg m p (xs @ [(x, s)]) q" "x \<notin> fst ` set xs"
  shows "seg (m(x \<mapsto> \<lparr>bsize = s', bprev = final p xs, bnext = q'\<rparr>)) p (xs @ [(x, s')]) q'"
  using assms by (simp add: seg_snoc)

lemma seg_relink_prev:
  assumes "seg m p ((x, s) # xs) q" "x \<notin> fst ` set xs"
  shows "seg (m(x \<mapsto> \<lparr>bsize = s, bprev = p', bnext = first xs q\<rparr>)) p' ((x, s) # xs) q"
  using assms by simp

section \<open>The loops\<close>

lemma find_by_offset_seg:
  assumes "seg (blocks r) p xs 0" "\<forall>e \<in> set xs. fst e \<noteq> 0 \<and> fst e \<noteq> a" "sorted (map fst xs)"
  shows "find_by_offset r (first xs 0) a True p = Some (final p (takeWhile (\<lambda>e. fst e < a) xs))"
  using assms
proof (induction xs arbitrary: p)
  case Nil
  then show ?case by (simp add: find_by_offset.simps)
next
  case (Cons e xs)
  obtain x t where e: "e = (x, t)" by fastforce
  with Cons show ?case by (auto simp: find_by_offset.simps [of r x])
qed

text \<open>The best fit among the blocks from \<open>xs\<close> on, after \<open>best\<close> of \<open>bestsize\<close>.\<close>

fun best_fit :: "nat \<Rightarrow> (nat \<times> nat) list \<Rightarrow> nat \<times> nat \<Rightarrow> nat \<times> nat" where
  "best_fit n [] best = best"
| "best_fit n ((x, s) # xs) best =
     (if s = n then (x, s)
      else if s \<ge> n \<and> (snd best = 0 \<or> s < snd best) then best_fit n xs (x, s)
      else best_fit n xs best)"

lemma best_loop_seg:
  assumes "seg (blocks r) p xs 0" "\<forall>e \<in> set xs. fst e \<noteq> 0" "0 < n" "snd best \<noteq> n"
  shows "best_loop r (first xs 0) n (fst best) (snd best) =
    Some (if snd (best_fit n xs best) = n then Inl (fst (best_fit n xs best)) else Inr (best_fit n xs best))"
  using assms
proof (induction xs arbitrary: p best)
  case Nil
  then show ?case by (simp add: best_loop.simps)
next
  case (Cons e xs)
  obtain x s where e: "e = (x, s)" by fastforce
  have b: "blocks r x = Some \<lparr>bsize = s, bprev = p, bnext = first xs 0\<rparr>" "x \<noteq> 0" "seg (blocks r) x xs 0"
    using Cons.prems e by auto
  show ?case
    using Cons.IH [OF b(3), of "(x, s)"] Cons.IH [OF b(3), of best] Cons.prems b(2)
    by (auto simp: e best_loop.simps [of r x] b(1))
qed

lemma best_fit_spec:
  assumes "best_fit n xs best = (x, s)" "0 < n" "snd best = 0 \<or> n < snd best"
  shows "if (\<exists>e \<in> set xs. n \<le> snd e) \<or> snd best \<noteq> 0
    then ((x, s) \<in> set xs \<or> (x, s) = best) \<and> n \<le> s \<and> (\<forall>e \<in> set xs. n \<le> snd e \<longrightarrow> s \<le> snd e) \<and> (snd best \<noteq> 0 \<longrightarrow> s \<le> snd best)
    else (x, s) = best"
  using assms
proof (induction xs arbitrary: best)
  case (Cons e xs)
  obtain y t where e: "e = (y, t)" by fastforce
  show ?case
    using Cons.IH [of "(y, t)"] Cons.IH [of best] Cons.prems unfolding e
    by (auto split: if_splits)
qed (auto split: if_splits)

text \<open>It is the first of the smallest blocks that are large enough.\<close>

lemma best_fit_first:
  assumes "best_fit n xs best = (x, s)" "0 < n" "snd best = 0 \<or> n < snd best"
  shows "(x, s) = best \<and> (\<forall>e \<in> set xs. n \<le> snd e \<longrightarrow> snd best \<noteq> 0 \<and> s \<le> snd e) \<or>
    (\<exists>us vs. xs = us @ (x, s) # vs \<and> n \<le> s \<and> (snd best \<noteq> 0 \<longrightarrow> s < snd best) \<and> (\<forall>e \<in> set us. n \<le> snd e \<longrightarrow> s < snd e) \<and>
      (\<forall>e \<in> set vs. n \<le> snd e \<longrightarrow> s \<le> snd e))"
  using assms
proof (induction xs arbitrary: best)
  case (Cons e xs)
  obtain y t where e: "e = (y, t)" by fastforce
  consider (exact) "t = n" | (better) "t \<noteq> n" "n \<le> t" "snd best = 0 \<or> t < snd best" | (worse) "t \<noteq> n" "n \<le> t \<longrightarrow> snd best \<noteq> 0 \<and> snd best \<le> t"
    by fastforce
  then show ?case
  proof cases
    case exact
    then show ?thesis using Cons.prems by (intro disjI2 exI [of _ "[]"] exI [of _ xs]) (auto simp: e)
  next
    case better
    then have "best_fit n xs (y, t) = (x, s)" using Cons.prems(1) by (simp add: e)
    from Cons.IH [OF this assms(2)] better
    consider "(x, s) = (y, t)" "\<forall>e \<in> set xs. n \<le> snd e \<longrightarrow> s \<le> snd e"
      | us vs where "xs = us @ (x, s) # vs" "n \<le> s" "s < t" "\<forall>e \<in> set us. n \<le> snd e \<longrightarrow> s < snd e" "\<forall>e \<in> set vs. n \<le> snd e \<longrightarrow> s \<le> snd e"
      using assms(2) by auto
    then show ?thesis
    proof cases
      case 1
      then show ?thesis using better by (intro disjI2 exI [of _ "[]"] exI [of _ xs]) (auto simp: e)
    next
      case 2
      then show ?thesis using better by (intro disjI2 exI [of _ "e # us"] exI [of _ vs]) (auto simp: e)
    qed
  next
    case worse
    then have "best_fit n xs best = (x, s)" using Cons.prems(1) by (auto simp: e split: if_splits)
    from Cons.IH [OF this Cons.prems(2,3)]
    show ?thesis
    proof (elim disjE exE conjE)
      fix us vs
      assume a: "xs = us @ (x, s) # vs" "n \<le> s" "snd best \<noteq> 0 \<longrightarrow> s < snd best" "\<forall>e \<in> set us. n \<le> snd e \<longrightarrow> s < snd e"
        "\<forall>e \<in> set vs. n \<le> snd e \<longrightarrow> s \<le> snd e"
      then show ?thesis using worse by (intro disjI2 exI [of _ "e # us"] exI [of _ vs]) (auto simp: e)
    qed (use worse in \<open>auto simp: e\<close>)
  qed
qed (auto split: if_splits)



section \<open>Moving a block\<close>

definition head :: "rmm \<Rightarrow> bool \<Rightarrow> nat" where
  "head r free = (if free then firstfree r else firstused r)"

text \<open>What stays when the lists change: everything but the blocks at \<open>xs\<close> and the head of the list \<open>f\<close>.\<close>

definition keeps :: "rmm \<Rightarrow> rmm \<Rightarrow> bool \<Rightarrow> (nat \<times> nat) list \<Rightarrow> bool" where
  "keeps r r' f xs \<longleftrightarrow> rsize r' = rsize r \<and> abssize r' = abssize r \<and> bytes r' = bytes r \<and> head r' (\<not> f) = head r (\<not> f) \<and>
     (\<forall>a. a \<notin> fst ` set xs \<longrightarrow> blocks r' a = blocks r a)"

lemma put_block_simps [simp]:
  "blocks (put_block r a b) = (blocks r)(a \<mapsto> b)" "head (put_block r a b) f = head r f"
  "rsize (put_block r a b) = rsize r" "abssize (put_block r a b) = abssize r" "bytes (put_block r a b) = bytes r"
  "firstused (put_block r a b) = firstused r" "firstfree (put_block r a b) = firstfree r"
  by (simp_all add: put_block_def head_def)

definition set_head :: "rmm \<Rightarrow> bool \<Rightarrow> nat \<Rightarrow> rmm" where
  "set_head r f x = (if f then r\<lparr>firstfree := x\<rparr> else r\<lparr>firstused := x\<rparr>)"

lemma set_head_simps [simp]:
  "blocks (set_head r f x) = blocks r" "head (set_head r f x) g = (if f = g then x else head r g)"
  "rsize (set_head r f x) = rsize r" "abssize (set_head r f x) = abssize r" "bytes (set_head r f x) = bytes r"
  by (simp_all add: set_head_def head_def)

lemma set_head_not: "(if f then r\<lparr>firstused := x\<rparr> else r\<lparr>firstfree := x\<rparr>) = set_head r (\<not> f) x"
  by (simp add: set_head_def)

lemma close_gap_head:
  "close_gap r this free = do {
     blk \<leftarrow> blocks r this;
     r1 \<leftarrow> (if bprev blk \<noteq> 0 then do {
              prev \<leftarrow> blocks r (bprev blk);
              Some (put_block r (bprev blk) (prev\<lparr>bnext := bnext blk\<rparr>))
            }
            else Some (set_head r (\<not> free) (bnext blk)));
     if bnext blk \<noteq> 0 then do {
       n \<leftarrow> blocks r1 (bnext blk);
       Some (put_block r1 (bnext blk) (n\<lparr>bprev := bprev blk\<rparr>))
     } else Some r1
   }"
  by (simp only: close_gap_def set_head_not)

lemma close_gap_seg:
  assumes "seg (blocks r) 0 (A @ (x, s) # B) 0" "distinct (map fst (A @ (x, s) # B))"
    "0 \<notin> fst ` set (A @ (x, s) # B)" "head r (\<not> free) = first (A @ (x, s) # B) 0"
  shows "\<exists>r'. close_gap r x free = Some r' \<and> seg (blocks r') 0 (A @ B) 0 \<and> head r' (\<not> free) = first (A @ B) 0 \<and>
    keeps r r' (\<not> free) (A @ B)"
proof (cases A rule: rev_cases)
  case Nil
  show ?thesis
  proof (cases B)
    case B: Nil
    show ?thesis using assms by (simp add: Nil B close_gap_head keeps_def)
  next
    case B: (Cons e B')
    obtain z u where "e = (z, u)" by fastforce
    then show ?thesis using assms by (simp add: Nil B close_gap_head keeps_def)
  qed
next
  case (snoc A' e)
  obtain y t where e: "e = (y, t)" by fastforce
  show ?thesis
  proof (cases B)
    case B: Nil
    show ?thesis using assms by (simp add: snoc e B close_gap_head keeps_def seg_append first_append)
  next
    case B: (Cons f B')
    obtain z u where "f = (z, u)" by fastforce
    then show ?thesis using assms by (simp add: snoc e B close_gap_head keeps_def seg_append first_append)
  qed
qed


text \<open>Putting a block between \<open>xs\<close> and \<open>ys\<close>: in the free list it joins the neighbours it touches.\<close>

definition join_prev :: "bool \<Rightarrow> (nat \<times> nat) list \<Rightarrow> nat \<Rightarrow> nat \<Rightarrow> (nat \<times> nat) list \<times> nat \<times> nat" where
  "join_prev f xs x s =
     (if f \<and> xs \<noteq> [] \<and> fst (last xs) + snd (last xs) = x then (butlast xs, fst (last xs), snd (last xs) + s) else (xs, x, s))"

definition join_next :: "bool \<Rightarrow> nat \<Rightarrow> nat \<Rightarrow> (nat \<times> nat) list \<Rightarrow> nat \<times> (nat \<times> nat) list" where
  "join_next f x s ys = (case ys of (z, u) # zs \<Rightarrow> if f \<and> x + s = z then (s + u, zs) else (s, ys) | [] \<Rightarrow> (s, ys))"

definition insert_block :: "bool \<Rightarrow> (nat \<times> nat) list \<Rightarrow> nat \<Rightarrow> nat \<Rightarrow> (nat \<times> nat) list \<Rightarrow> (nat \<times> nat) list" where
  "insert_block f xs x s ys =
     (case join_prev f xs x s of (xs', x', s') \<Rightarrow> case join_next f x' s' ys of (s'', ys') \<Rightarrow> xs' @ (x', s'') # ys')"

lemma find_place_head:
  "find_place r this free = do {
     blk \<leftarrow> blocks r this;
     prev \<leftarrow> find_by_offset r (head r free) this True 0;
     Some (if prev = 0 then set_head (put_block r this (blk\<lparr>bprev := prev, bnext := head r free\<rparr>)) free this
           else put_block r this (blk\<lparr>bprev := prev\<rparr>))
   }"
  by (cases free) (simp_all add: find_place_def find_block_by_offset_def head_def set_head_def cong: if_cong)

lemma takeWhile_below: "\<forall>e \<in> set xs. fst e < x \<Longrightarrow> \<forall>e \<in> set ys. x < fst e \<Longrightarrow> takeWhile (\<lambda>e. fst e < x) (xs @ ys) = xs" for x :: nat
  by (induction xs) (cases ys, auto)

lemma find_place_seg:
  assumes "blocks r x = Some b" "seg (blocks r) 0 (xs @ ys) 0" "head r f = first (xs @ ys) 0"
    "\<forall>e \<in> set xs. 0 < fst e \<and> fst e < x" "\<forall>e \<in> set ys. x < fst e" "sorted (map fst (xs @ ys))"
  shows "find_place r x f = Some (if xs = [] then set_head (put_block r x (b\<lparr>bprev := 0, bnext := first ys 0\<rparr>)) f x
    else put_block r x (b\<lparr>bprev := final 0 xs\<rparr>))"
proof -
  have "find_by_offset r (head r f) x True 0 = Some (final 0 xs)"
    unfolding assms(3) using find_by_offset_seg [OF assms(2) _ assms(6), of x] takeWhile_below [of xs x ys] assms(4,5)
    by fastforce
  moreover have "xs \<noteq> [] \<Longrightarrow> final 0 xs \<noteq> 0" using assms(4) by (cases xs rule: rev_cases) auto
  ultimately show ?thesis using assms(1,3) by (auto simp: find_place_head)
qed

lemma link_prev_seg:
  assumes "blocks r x = Some \<lparr>bsize = s, bprev = final 0 xs, bnext = n\<rparr>" "seg (blocks r) 0 xs (first ys 0)"
    "seg (blocks r) (final 0 xs) ys 0" "head r f = (if xs = [] then x else first xs 0)" "xs = [] \<longrightarrow> n = first ys 0"
    "distinct (map fst (xs @ (x, s) # ys))" "0 \<notin> fst ` set (xs @ (x, s) # ys)" "x + s < 2 ^ 64" "\<forall>e \<in> set xs. fst e + snd e \<le> x"
    "join_prev f xs x s = (xs', x', s')"
  shows "\<exists>r'. link_prev r x f = Some (r', x') \<and> seg (blocks r') 0 (xs' @ [(x', s')]) (first ys 0) \<and>
    seg (blocks r') (final 0 xs) ys 0 \<and> head r' f = first (xs' @ [(x', s')]) 0 \<and> keeps r r' f ((x, s) # xs)"
proof (cases xs rule: rev_cases)
  case Nil
  then show ?thesis using assms by (auto simp: link_prev_def join_prev_def keeps_def)
next
  case (snoc xs0 e)
  obtain y t where e: "e = (y, t)" by fastforce
  have b: "blocks r y = Some \<lparr>bsize = t, bprev = final 0 xs0, bnext = first ys 0\<rparr>" "seg (blocks r) 0 xs0 y" "y \<noteq> 0" "x \<noteq> y"
    "y + t \<le> x" "y + t < 2 ^ 64" "t + s < 2 ^ 64" "head r f = first xs0 y"
    using assms snoc e by (auto simp: seg_append first_append)
  show ?thesis
  proof (cases "f \<and> y + t = x")
    case True
    then have j: "xs' = xs0" "x' = y" "s' = t + s" using assms(10) by (auto simp: join_prev_def snoc e)
    show ?thesis
      using assms(1,3,6) b True
      by (auto simp: link_prev_def snoc e j seg_append first_append keeps_def)
  next
    case False
    then have j: "xs' = xs" "x' = x" "s' = s" using assms(10) by (auto simp: join_prev_def snoc e)
    show ?thesis
      using assms(1,3,6) b False
      by (auto simp: link_prev_def snoc e j seg_append first_append keeps_def)
  qed
qed


lemma link_next_seg:
  assumes "seg (blocks r) 0 (xs @ [(x, s)]) (first ys 0)" "seg (blocks r) p ys 0"
    "distinct (map fst (xs @ (x, s) # ys))" "0 \<notin> fst ` set (xs @ (x, s) # ys)"
    "\<forall>e \<in> set ys. x + s \<le> fst e \<and> fst e + snd e < 2 ^ 64" "join_next f x s ys = (s', ys')" "x + s < 2 ^ 64"
  shows "\<exists>r'. link_next r x f = Some r' \<and> seg (blocks r') 0 (xs @ (x, s') # ys') 0 \<and> head r' f = head r f \<and>
    keeps r r' f ((x, s) # ys)"
proof (cases ys)
  case Nil
  then show ?thesis using assms by (auto simp: link_next_def join_next_def keeps_def seg_append)
next
  case (Cons e zs)
  obtain z u where e: "e = (z, u)" by fastforce
  show ?thesis
  proof (cases "f \<and> x + s = z")
    case True
    then have j: "s' = s + u" "ys' = zs" using assms(6) by (auto simp: join_next_def Cons e)
    have "s + u < 2 ^ 64" using assms(5) True by (auto simp: Cons e)
    then show ?thesis
      using assms(1-5) True
      by (cases zs) (auto simp: link_next_def Cons e j seg_append first_append keeps_def)
  next
    case False
    then have j: "s' = s" "ys' = ys" using assms(6) by (auto simp: join_next_def Cons e)
    show ?thesis
      using assms(1-5,7) False
      by (auto simp: link_next_def Cons e j seg_append first_append keeps_def)
  qed
qed

lemma keeps_seg: "keeps r r' f xs \<Longrightarrow> fst ` set xs \<inter> fst ` set ys = {} \<Longrightarrow> seg (blocks r') p ys q = seg (blocks r) p ys q"
  by (rule seg_cong) (unfold keeps_def disjoint_iff, blast)

lemma join_prev_cases:
  assumes "join_prev f xs x s = (xs', x', s')"
  shows "(xs' = xs \<and> x' = x \<and> s' = s) \<or> (\<exists>t. xs = xs' @ [(x', t)] \<and> f \<and> x' + t = x \<and> s' = t + s)"
  using assms by (cases xs rule: rev_cases) (auto simp: join_prev_def split: if_splits)

lemma fst_set_join: "join_prev f xs x s = (xs', x', s') \<Longrightarrow> fst ` set (xs' @ [(x', s')]) \<subseteq> fst ` set (xs @ [(x, s)])"
  by (cases xs rule: rev_cases) (auto simp: join_prev_def split: if_splits)

lemma move_block_seg:
  assumes A: "seg (blocks r) 0 (A @ (x, s) # B) 0" "head r (\<not> f) = first (A @ (x, s) # B) 0"
    and L: "seg (blocks r) 0 (xs @ ys) 0" "head r f = first (xs @ ys) 0" "sorted (map fst (xs @ ys))"
    and d: "distinct (map fst (A @ B @ xs @ (x, s) # ys))" "0 \<notin> fst ` set (A @ B @ xs @ (x, s) # ys)"
    and b: "\<forall>e \<in> set xs. fst e < x \<and> fst e + snd e \<le> x" "\<forall>e \<in> set ys. x < fst e \<and> x + s \<le> fst e \<and> fst e + snd e < 2 ^ 64"
      "x + s < 2 ^ 64"
  shows "\<exists>r'. move_block r x f = Some r' \<and> seg (blocks r') 0 (A @ B) 0 \<and> head r' (\<not> f) = first (A @ B) 0 \<and>
    seg (blocks r') 0 (insert_block f xs x s ys) 0 \<and> head r' f = first (insert_block f xs x s ys) 0 \<and>
    rsize r' = rsize r \<and> abssize r' = abssize r \<and> bytes r' = bytes r"
proof -
  have dA: "distinct (map fst (A @ (x, s) # B))" "0 \<notin> fst ` set (A @ (x, s) # B)"
    using d by auto
  have x: "x \<notin> fst ` set (A @ B)" "x \<notin> fst ` set (xs @ ys)" "fst ` set (A @ B) \<inter> fst ` set (xs @ ys) = {}"
    using d(1) by auto
  have dL: "distinct (map fst (xs @ (x, s) # ys))" "0 \<notin> fst ` set (xs @ (x, s) # ys)"
    using d by auto
  obtain r1 where r1: "close_gap r x f = Some r1" "seg (blocks r1) 0 (A @ B) 0" "head r1 (\<not> f) = first (A @ B) 0"
    "keeps r r1 (\<not> f) (A @ B)"
    using close_gap_seg [OF A(1) dA A(2)] by blast
  have bx: "blocks r1 x = Some \<lparr>bsize = s, bprev = final 0 A, bnext = first B 0\<rparr>"
    using A(1) r1(4) x(1) by (simp add: seg_append keeps_def)
  have L1: "seg (blocks r1) 0 (xs @ ys) 0" "head r1 f = first (xs @ ys) 0"
    using keeps_seg [OF r1(4) x(3)] L(1,2) r1(4) by (simp_all add: keeps_def)
  have b0: "\<forall>e \<in> set xs. 0 < fst e \<and> fst e < x" "\<forall>e \<in> set ys. x < fst e"
    using b(1,2) dL(2) by (auto intro!: gr0I simp: image_iff)
  define r2 where "r2 = (if xs = [] then set_head (put_block r1 x \<lparr>bsize = s, bprev = 0, bnext = first ys 0\<rparr>) f x
    else put_block r1 x \<lparr>bsize = s, bprev = final 0 xs, bnext = first B 0\<rparr>)"
  have r2: "find_place r1 x f = Some r2"
    using find_place_seg [OF bx L1(1,2) b0(1,2) L(3)] by (simp add: r2_def cong: if_cong)
  have s2: "blocks r2 = (blocks r1)(x \<mapsto> \<lparr>bsize = s, bprev = final 0 xs, bnext = (if xs = [] then first ys 0 else first B 0)\<rparr>)"
    "head r2 f = (if xs = [] then x else first xs 0)" "head r2 (\<not> f) = head r1 (\<not> f)"
    "rsize r2 = rsize r1" "abssize r2 = abssize r1" "bytes r2 = bytes r1"
    using L1(2) by (auto simp: r2_def first_append) (cases xs; auto)
  obtain xs' x' s' where j: "join_prev f xs x s = (xs', x', s')" by (metis prod_cases3)
  obtain s'' ys' where k: "join_next f x' s' ys = (s'', ys')" by fastforce
  have L2: "seg (blocks r2) 0 xs (first ys 0)" "seg (blocks r2) (final 0 xs) ys 0"
    using L1(1) x(2) by (simp_all add: s2 seg_append image_Un)
  obtain r3 where r3: "link_prev r2 x f = Some (r3, x')" "seg (blocks r3) 0 (xs' @ [(x', s')]) (first ys 0)"
    "seg (blocks r3) (final 0 xs) ys 0" "head r3 f = first (xs' @ [(x', s')]) 0" "keeps r2 r3 f ((x, s) # xs)"
    using link_prev_seg [OF _ L2 s2(2) _ dL b(3) _ j, of "if xs = [] then first ys 0 else first B 0"] b(1) s2(1)
    by fastforce
  have x': "x' + s' = x + s" "x' \<le> x" using j b(1) by (auto simp: join_prev_def split: if_splits)
  have sub: "fst ` set (xs' @ [(x', s')]) \<subseteq> fst ` set (xs @ [(x, s)])" using fst_set_join [OF j] .
  have dj: "distinct (map fst (xs' @ (x', s') # ys))"
    using join_prev_cases [OF j] dL(1) by (elim disjE exE conjE) simp_all
  have s3: "seg (blocks r3) (final 0 xs) ys 0" using r3(3) .
  have z: "0 \<notin> fst ` set (xs' @ (x', s') # ys)" 
    using join_prev_cases [OF j] dL(2) by (elim disjE exE conjE) (simp_all add: image_Un)
  have bn: "\<forall>e \<in> set ys. x' + s' \<le> fst e \<and> fst e + snd e < 2 ^ 64" using b(2) x'(1) by simp
  have bx': "x' + s' < 2 ^ 64" using b(3) x'(1) by simp
  obtain r4 where r4: "link_next r3 x' f = Some r4" "seg (blocks r4) 0 (xs' @ (x', s'') # ys') 0" "head r4 f = head r3 f"
    "keeps r3 r4 f ((x', s') # ys)"
    using link_next_seg [OF r3(2) s3 dj z bn k bx'] by blast
  have "seg (blocks r4) 0 (A @ B) 0"
  proof (subst seg_cong)
    show "blocks r4 a = blocks r1 a" if "a \<in> fst ` set (A @ B)" for a
    proof -
      have a: "a \<notin> fst ` set (xs @ (x, s) # ys)" using that x(1,3) by (auto simp: image_Un)
      then have "a \<notin> fst ` set ((x', s') # ys)" using join_prev_cases [OF j] by (elim disjE exE conjE) (simp_all add: image_Un)
      then have "blocks r4 a = blocks r3 a" using r4(4) by (simp add: keeps_def)
      also have "\<dots> = blocks r2 a" using r3(5) a by (simp add: keeps_def image_Un)
      also have "\<dots> = blocks r1 a" using a by (simp add: s2(1))
      finally show ?thesis .
    qed
  qed (rule r1(2))
  moreover have "insert_block f xs x s ys = xs' @ (x', s'') # ys'" by (simp add: insert_block_def j k)
  moreover have "first (xs' @ [(x', s')]) 0 = first (xs' @ (x', s'') # ys') 0" by (simp add: first_append)
  ultimately show ?thesis
    using r1 r2 r3 r4 s2 by (simp add: move_block_def keeps_def)
qed

lemma split_block_seg:
  assumes "seg (blocks r) 0 (xs @ (x, s) # ys) 0" "distinct (map fst (xs @ (x, s) # ys))" "0 \<notin> fst ` set (xs @ (x, s) # ys)"
    "0 < n" "n \<le> s" "x + s < 2 ^ 64" "x + n \<notin> fst ` set (xs @ ys)"
  shows "\<exists>r'. split_block r x n = Some r' \<and> seg (blocks r') 0 (xs @ (x, n) # (x + n, s - n) # ys) 0 \<and>
    head r' True = head r True \<and> keeps r r' True ((x, n) # (x + n, s - n) # ys)"
proof (cases ys)
  case Nil
  then show ?thesis
    using assms by (auto simp: split_block_def Let_def seg_append keeps_def size_minus_id)
next
  case (Cons e zs)
  obtain z u where "e = (z, u)" by fastforce
  then show ?thesis
    using assms by (auto simp: split_block_def Let_def Cons seg_append keeps_def size_minus_id image_Un)
qed

end
