(* ===== verification/AprRmmCorrect.thy ===== *)
theory AprRmmCorrect
  imports AprRmmLists Interfaces "HOL-Library.Multiset"
begin

text \<open>
  The allocator of \<open>apr_rmm.c\<close> refines operations on a row of blocks: it keeps its region tiled by blocks, its lists sorted and linked,
  and no two free blocks side by side. It obeys the contract of an allocator.
\<close>

section \<open>The region as a row of blocks\<close>

text \<open>A row of blocks: offset, size and whether it is in use, one right after the other from \<open>a\<close> up to \<open>e\<close>.\<close>

type_synonym row = "(nat \<times> nat \<times> bool) list"

fun tiles :: "nat \<Rightarrow> row \<Rightarrow> nat \<Rightarrow> bool" where
  "tiles a [] e = (a = e)"
| "tiles a ((x, s, u) # bs) e = (x = a \<and> 24 \<le> s \<and> tiles (a + s) bs e)"

definition part :: "bool \<Rightarrow> row \<Rightarrow> (nat \<times> nat) list" where
  "part u bs = map (\<lambda>(x, s, v). (x, s)) (filter (\<lambda>(x, s, v). v = u) bs)"

text \<open>No two free blocks are neighbours.\<close>

abbreviation coalesced :: "row \<Rightarrow> bool" where
  "coalesced bs \<equiv> successively (\<lambda>(x, s, u) (y, t, v). u \<or> v) bs"

definition tiled :: "rmm \<Rightarrow> row \<Rightarrow> bool" where
  "tiled r bs \<longleftrightarrow> tiles 24 bs (rsize r) \<and> rsize r < 2 ^ 64 \<and> length (bytes r) = rsize r \<and> (\<forall>e \<in> set bs. fst e mod 8 = 0) \<and>
     (\<forall>u. seg (blocks r) 0 (part u bs) 0 \<and> head r (\<not> u) = first (part u bs) 0)"

definition rmm_abs :: "rmm \<Rightarrow> row \<Rightarrow> bool" where
  "rmm_abs r bs \<longleftrightarrow> tiled r bs \<and> coalesced bs"

lemma part_simps [simp]: "part u [] = []" "part u ((x, s, v) # bs) = (if v = u then (x, s) # part u bs else part u bs)"
  "part u (bs @ cs) = part u bs @ part u cs"
  by (simp_all add: part_def)

lemma in_part: "(x, s) \<in> set (part u bs) \<longleftrightarrow> (x, s, u) \<in> set bs"
  by (force simp: part_def)

lemma tiles_append: "tiles a (bs @ cs) e \<longleftrightarrow> (\<exists>x. tiles a bs x \<and> tiles x cs e)"
proof (induction bs arbitrary: a)
  case (Cons b bs)
  then show ?case by (cases b) auto
qed simp

lemma tiles_le: "tiles a bs e \<Longrightarrow> a \<le> e"
proof (induction bs arbitrary: a)
  case (Cons b bs)
  then show ?case by (cases b) fastforce
qed simp

lemma tiles_in: "tiles a bs e \<Longrightarrow> (x, s, u) \<in> set bs \<Longrightarrow> a \<le> x \<and> x + s \<le> e \<and> 24 \<le> s"
proof (induction bs arbitrary: a)
  case (Cons b bs)
  obtain y t v where b: "b = (y, t, v)" by (cases b) auto
  show ?case using Cons.IH [of "a + t"] Cons.prems tiles_le [of "a + t" bs e] by (auto simp: b)
qed simp

lemma part_in: "tiles a bs e \<Longrightarrow> f \<in> set (part u bs) \<Longrightarrow> a \<le> fst f \<and> fst f + snd f \<le> e \<and> 24 \<le> snd f"
  using tiles_in [of a bs e "fst f" "snd f" u] in_part [of "fst f" "snd f" u bs] by simp

lemma part_sorted: "tiles a bs e \<Longrightarrow> sorted (map fst (part u bs))"
proof (induction bs arbitrary: a)
  case (Cons b bs)
  obtain y t v where b: "b = (y, t, v)" by (cases b) auto
  show ?case using Cons.IH [of "a + t"] Cons.prems part_in [of "a + t" bs e] by (fastforce simp: b)
qed simp

lemma tiles_distinct: "tiles a bs e \<Longrightarrow> distinct (map fst bs)"
proof (induction bs arbitrary: a)
  case (Cons b bs)
  obtain y t v where b: "b = (y, t, v)" by (cases b) auto
  show ?case using Cons.IH [of "a + t"] Cons.prems tiles_in [of "a + t" bs e y] by (force simp: b)
qed simp

lemma part_mset: "mset (map fst (part f bs)) + mset (map fst (part (\<not> f) bs)) = mset (map fst bs)"
proof (induction bs)
  case (Cons b bs)
  then show ?case by (cases b) (auto simp del: mset_map)
qed simp

lemma part_fresh:
  assumes "tiles 24 (P @ (x, s, u) # Q) e"
  shows "distinct (map fst (part (\<not> f) P @ part (\<not> f) Q @ part f P @ (x, s) # part f Q))"
    "0 \<notin> fst ` set (part (\<not> f) P @ part (\<not> f) Q @ part f P @ (x, s) # part f Q)"
    "\<forall>y \<in> set (part f P). fst y < x \<and> fst y + snd y \<le> x" "\<forall>y \<in> set (part f Q). x < fst y \<and> x + s \<le> fst y \<and> fst y + snd y \<le> e"
proof -
  obtain t: "tiles 24 P x" "tiles (x + s) Q e" "24 \<le> s" "24 \<le> x" "x + s \<le> e"
    using assms tiles_le by (fastforce simp: tiles_append)
  show "\<forall>y \<in> set (part f P). fst y < x \<and> fst y + snd y \<le> x" using part_in [OF t(1)] by fastforce
  show "\<forall>y \<in> set (part f Q). x < fst y \<and> x + s \<le> fst y \<and> fst y + snd y \<le> e" using part_in [OF t(2)] t(3) by fastforce
  have n: "y \<in> set (part v P) \<Longrightarrow> fst y \<noteq> 0" "y \<in> set (part v Q) \<Longrightarrow> fst y \<noteq> 0" for y v
    using part_in [OF t(1)] part_in [OF t(2)] t(3) by fastforce+
  then show "0 \<notin> fst ` set (part (\<not> f) P @ part (\<not> f) Q @ part f P @ (x, s) # part f Q)"
    using t(4) by (auto simp: image_iff)
  have "mset (map fst (part (\<not> f) P @ part (\<not> f) Q @ part f P @ (x, s) # part f Q)) =
      (mset (map fst (part f P)) + mset (map fst (part (\<not> f) P))) + (mset (map fst (part f Q)) + mset (map fst (part (\<not> f) Q))) + {#x#}"
    by (simp add: ac_simps)
  also have "\<dots> = mset (map fst (P @ (x, s, u) # Q))" unfolding part_mset by simp
  finally show "distinct (map fst (part (\<not> f) P @ part (\<not> f) Q @ part f P @ (x, s) # part f Q))"
    using tiles_distinct [OF assms] mset_eq_imp_distinct_iff by blast
qed

text \<open>Moving the block between the lists, in the row.\<close>

lemma move_block_tiled:
  assumes "tiled r (P @ (x, s, f) # Q)" and
    c: "part f cs = part f (P @ Q)" "part (\<not> f) cs = insert_block f (part (\<not> f) P) x s (part (\<not> f) Q)"
  shows "\<exists>r'. move_block r x f = Some r' \<and> (\<forall>u. seg (blocks r') 0 (part u cs) 0 \<and> head r' (\<not> u) = first (part u cs) 0) \<and>
    rsize r' = rsize r \<and> bytes r' = bytes r"
proof -
  have t: "tiles 24 (P @ (x, s, f) # Q) (rsize r)" "rsize r < 2 ^ 64" and
    h: "\<And>u. seg (blocks r) 0 (part u (P @ (x, s, f) # Q)) 0" "\<And>u. head r (\<not> u) = first (part u (P @ (x, s, f) # Q)) 0"
    using assms by (auto simp: tiled_def)
  have x: "x + s < 2 ^ 64" using tiles_in [OF t(1), of x s f] t(2) by simp
  have s: "sorted (map fst (part (\<not> f) P @ part (\<not> f) Q))" using part_sorted [OF t(1), of "\<not> f"] by simp
  note d = part_fresh [OF t(1), of "\<not> f"]
  have d4: "\<forall>y \<in> set (part (\<not> f) Q). x < fst y \<and> x + s \<le> fst y \<and> fst y + snd y < 2 ^ 64" using d(4) t(2) by fastforce
  obtain r' where r': "move_block r x f = Some r'" "seg (blocks r') 0 (part f cs) 0" "head r' (\<not> f) = first (part f cs) 0"
    "seg (blocks r') 0 (part (\<not> f) cs) 0" "head r' f = first (part (\<not> f) cs) 0" "rsize r' = rsize r" "bytes r' = bytes r"
    using move_block_seg [of r "part f P" x s "part f Q" f "part (\<not> f) P" "part (\<not> f) Q"] h(1) [of f] h(2) [of f]
      h(1) [of "\<not> f"] h(2) [of "\<not> f"] s d(1-3) d4 x unfolding c
    by force
  have "seg (blocks r') 0 (part u cs) 0 \<and> head r' (\<not> u) = first (part u cs) 0" for u
    using r'(2-5) by (cases "u = f") auto
  with r' show ?thesis by blast
qed

section \<open>Allocation\<close>

fun take_block :: "nat \<Rightarrow> nat \<Rightarrow> row \<Rightarrow> row" where
  "take_block x n [] = []"
| "take_block x n ((y, s, u) # bs) =
     (if y = x then (if s > n + 24 then [(x, n, True), (x + n, s - n, False)] else [(x, s, True)]) @ bs
      else (y, s, u) # take_block x n bs)"

text \<open>The smallest free block that is large enough, split if the rest can hold a block; 0 if there is none.\<close>

definition rmm_alloc :: "nat \<Rightarrow> row \<Rightarrow> nat \<times> row" where
  "rmm_alloc n bs =
     (case best_fit (request_size n) (part False bs) (0, 0) of
        (x, s) \<Rightarrow> if request_size n < n \<or> x = 0 then (0, bs) else (x + 24, take_block x (request_size n) bs))"

lemma take_block_append: "x \<notin> fst ` set P \<Longrightarrow> take_block x n (P @ bs) = P @ take_block x n bs"
  by (induction P) auto

lemma tiled_used:
  assumes "tiled r (P @ (x, s, False) # Q)"
  shows "\<exists>r'. move_block r x False = Some r' \<and> tiled r' (P @ (x, s, True) # Q) \<and> rsize r' = rsize r \<and> bytes r' = bytes r"
proof -
  have c: "part True (P @ (x, s, True) # Q) = insert_block False (part True P) x s (part True Q)"
    by (simp add: insert_block_def join_prev_def join_next_def split: list.split)
  obtain r' where m: "move_block r x False = Some r'" "rsize r' = rsize r" "bytes r' = bytes r" and
    s: "\<forall>u. seg (blocks r') 0 (part u (P @ (x, s, True) # Q)) 0 \<and> head r' (\<not> u) = first (part u (P @ (x, s, True) # Q)) 0"
    using move_block_tiled [OF assms, of "P @ (x, s, True) # Q"] c by auto
  have "tiled r' (P @ (x, s, True) # Q)"
    using assms m(2,3) s unfolding tiled_def by (simp add: tiles_append)
  with m show ?thesis by blast
qed

lemma tiled_split:
  assumes "tiled r (P @ (x, s, False) # Q)" "24 \<le> n" "n + 24 < s" "n mod 8 = 0"
  shows "\<exists>r'. split_block r x n = Some r' \<and> tiled r' (P @ (x, n, False) # (x + n, s - n, False) # Q) \<and> rsize r' = rsize r \<and>
    bytes r' = bytes r"
proof -
  have t: "tiles 24 (P @ (x, s, False) # Q) (rsize r)" "rsize r < 2 ^ 64" and
    h: "\<And>u. seg (blocks r) 0 (part u (P @ (x, s, False) # Q)) 0" "\<And>u. head r (\<not> u) = first (part u (P @ (x, s, False) # Q)) 0"
    using assms by (auto simp: tiled_def)
  have x: "x + s < 2 ^ 64" using tiles_in [OF t(1), of x s False] t(2) by simp
  note d = part_fresh [OF t(1), of False] and d' = part_fresh [OF t(1), of True]
  have f: "x + n \<notin> fst ` set (part u P @ part u Q)" for u
    using d(3,4) d'(3,4) assms(2,3) by (cases u) fastforce+
  obtain r' where r': "split_block r x n = Some r'" "seg (blocks r') 0 (part False P @ (x, n) # (x + n, s - n) # part False Q) 0"
    "head r' True = head r True" "keeps r r' True ((x, n) # (x + n, s - n) # part False Q)"
    using split_block_seg [of r "part False P" x s "part False Q" n] h(1) [of False] d(1,2) x f assms(2,3) by auto
  have "fst ` set ((x, n) # (x + n, s - n) # part False Q) \<inter> fst ` set (part True P @ part True Q) = {}"
    using d(1) f [of True] by auto
  then have u: "seg (blocks r') 0 (part True (P @ Q)) 0" using keeps_seg [OF r'(4)] h(1) [of True] by simp
  have "seg (blocks r') 0 (part u (P @ (x, n, False) # (x + n, s - n, False) # Q)) 0 \<and>
      head r' (\<not> u) = first (part u (P @ (x, n, False) # (x + n, s - n, False) # Q)) 0" for u
    using u r'(2,3) h(2) [of u] r'(4) by (cases u) (simp_all add: keeps_def first_append)
  then have "tiled r' (P @ (x, n, False) # (x + n, s - n, False) # Q)"
    using assms r'(4) unfolding tiled_def by (auto simp: tiles_append keeps_def)
  with r' show ?thesis by (auto simp: keeps_def)
qed

lemma best_fit_row:
  assumes "tiled r bs" "0 < n" "best_fit n (part False bs) (0, 0) = (x, s)"
  shows "if x = 0 then s = 0 \<and> (\<forall>e \<in> set (part False bs). snd e < n)
    else (x, s, False) \<in> set bs \<and> n \<le> s \<and> (\<forall>e \<in> set (part False bs). n \<le> snd e \<longrightarrow> s \<le> snd e)"
proof -
  have p: "\<forall>e \<in> set (part False bs). fst e \<noteq> 0" using assms(1) part_in [of 24 bs "rsize r"] by (fastforce simp: tiled_def)
  show ?thesis
    using best_fit_spec [OF assms(3) assms(2)] assms(2) p in_part [of x s False bs] by (auto simp: not_le split: if_splits)
qed

lemma find_block_of_size_tiled:
  assumes "tiled r bs" "24 \<le> n" "n mod 8 = 0" "best_fit n (part False bs) (0, 0) = (x, s)"
  shows "if x = 0 then find_block_of_size r n = Some (r, 0)
    else \<exists>P Q r'. bs = P @ (x, s, False) # Q \<and> n \<le> s \<and> find_block_of_size r n = Some (r', x) \<and> rsize r' = rsize r \<and>
      bytes r' = bytes r \<and> tiled r' (P @ (if n + 24 < s then [(x, n, False), (x + n, s - n, False)] else [(x, s, False)]) @ Q)"
proof -
  have t: "tiles 24 bs (rsize r)" "rsize r < 2 ^ 64" "seg (blocks r) 0 (part False bs) 0" "firstfree r = first (part False bs) 0"
    using assms(1) by (auto simp: tiled_def head_def dest: spec [where x = False])
  have z: "\<forall>e \<in> set (part False bs). fst e \<noteq> 0" using part_in [OF t(1)] by fastforce
  have n: "0 < n" using assms(2) by simp
  have loop: "best_loop r (firstfree r) n 0 0 = Some (if s = n then Inl x else Inr (x, s))"
    using best_loop_seg [OF t(3) z n, of "(0, 0)"] n assms(4) by (simp add: t(4))
  note b = best_fit_row [OF assms(1) n assms(4)]
  show ?thesis
  proof (cases "x = 0")
    case True
    then show ?thesis using loop b n by (simp add: find_block_of_size_def)
  next
    case False
    then obtain P Q where P: "bs = P @ (x, s, False) # Q" and s: "n \<le> s" using b by (auto dest: split_list)
    have "x + s \<le> rsize r" "24 \<le> x" using tiles_in [OF t(1), of x s False] P by auto
    then have w: "size_t (24 + n) = n + 24" using s t(2) by simp
    show ?thesis
    proof (cases "n + 24 < s")
      case True
      obtain r' where "split_block r x n = Some r'" "tiled r' (P @ (x, n, False) # (x + n, s - n, False) # Q)"
        "rsize r' = rsize r" "bytes r' = bytes r"
        using tiled_split [of r P x s Q n] assms(1-3) P True by auto
      then show ?thesis using True False s loop w P by (auto simp: find_block_of_size_def)
    next
      case no: False
      then show ?thesis using False s loop w P assms(1) by (auto simp: find_block_of_size_def)
    qed
  qed
qed

text \<open>Finding a block and taking it.\<close>

lemma grab_block:
  assumes "rmm_abs r bs" "24 \<le> n" "n mod 8 = 0" "best_fit n (part False bs) (0, 0) = (x, s)"
  shows "if x = 0 then find_block_of_size r n = Some (r, 0)
    else \<exists>r1 r2. find_block_of_size r n = Some (r1, x) \<and> move_block r1 x False = Some r2 \<and> rmm_abs r2 (take_block x n bs) \<and>
      rsize r2 = rsize r \<and> bytes r2 = bytes r \<and> x + n \<le> rsize r"
proof (cases "x = 0")
  case True
  then show ?thesis using find_block_of_size_tiled [of r bs] assms by (simp add: rmm_abs_def)
next
  case False
  have a: "tiled r bs" "coalesced bs" using assms(1) by (auto simp: rmm_abs_def)
  obtain P Q r1 where P: "bs = P @ (x, s, False) # Q" and s: "n \<le> s" and r1: "find_block_of_size r n = Some (r1, x)"
    "rsize r1 = rsize r" "bytes r1 = bytes r"
    "tiled r1 (P @ (if n + 24 < s then [(x, n, False), (x + n, s - n, False)] else [(x, s, False)]) @ Q)"
    using find_block_of_size_tiled [OF a(1) assms(2-4)] False by auto
  define Q' where "Q' = (if n + 24 < s then (x + n, s - n, False) # Q else Q)"
  define s' where "s' = (if n + 24 < s then n else s)"
  have "tiled r1 (P @ (x, s', False) # Q')" using r1(4) by (auto simp: Q'_def s'_def)
  from tiled_used [OF this] obtain r2 where r2: "move_block r1 x False = Some r2" "tiled r2 (P @ (x, s', True) # Q')"
    "rsize r2 = rsize r" "bytes r2 = bytes r"
    using r1(2,3) by auto
  have t: "tiles 24 bs (rsize r)" using a(1) by (simp add: tiled_def)
  have "x \<notin> fst ` set P" using tiles_distinct [OF t] by (simp add: P)
  then have "take_block x n bs = P @ (x, s', True) # Q'" by (simp add: P take_block_append Q'_def s'_def)
  moreover have "coalesced (P @ (x, s', True) # Q')"
    using a(2) by (cases Q) (auto simp: P Q'_def successively_append_iff split: if_splits)
  moreover have "x + n \<le> rsize r" using tiles_in [OF t, of x s False] s by (simp add: P)
  ultimately show ?thesis using False r1(1) r2 by (auto simp: rmm_abs_def)
qed

lemma malloc_row:
  assumes "rmm_abs r bs" "n < 2 ^ 64"
  shows "\<exists>r'. apr_rmm_malloc r n = Some (r', fst (rmm_alloc n bs)) \<and> rmm_abs r' (snd (rmm_alloc n bs)) \<and>
    rsize r' = rsize r \<and> bytes r' = bytes r \<and> (fst (rmm_alloc n bs) = 0 \<longrightarrow> r' = r)"
proof (cases "request_size n < n")
  case True
  then show ?thesis using assms(1) by (auto simp: apr_rmm_malloc_def rmm_alloc_def split: prod.split)
next
  case False
  obtain x s where b: "best_fit (request_size n) (part False bs) (0, 0) = (x, s)" by fastforce
  have q: "24 \<le> request_size n" "request_size n mod 8 = 0" "rsize r < 2 ^ 64"
    using request_size [OF assms(2) False] assms(1) by (auto simp: rmm_abs_def tiled_def)
  from grab_block [OF assms(1) q(1,2) b] show ?thesis
    using False b assms(1) q by (auto simp: apr_rmm_malloc_def rmm_alloc_def Let_def split: if_splits)
qed

section \<open>Release\<close>

text \<open>The block goes back to the free blocks and joins the neighbours that are free.\<close>

definition rmm_release :: "row \<Rightarrow> nat \<Rightarrow> nat \<Rightarrow> row \<Rightarrow> row" where
  "rmm_release P x s Q =
     (let (P', x', s') = (case rev P of (y, t, False) # P'' \<Rightarrow> (rev P'', y, t + s) | _ \<Rightarrow> (P, x, s));
          (s'', Q') = (case Q of (z, u, False) # Q'' \<Rightarrow> (s' + u, Q'') | _ \<Rightarrow> (s', Q))
      in P' @ (x', s'', False) # Q')"

lemma join_prev_apart: "\<forall>e \<in> set xs. fst e + snd e < x \<Longrightarrow> join_prev f xs x s = (xs, x, s)"
  by (cases xs rule: rev_cases) (auto simp: join_prev_def)

lemma join_next_apart: "\<forall>e \<in> set ys. x + s < fst e \<Longrightarrow> join_next f x s ys = (s, ys)"
  by (cases ys) (auto simp: join_next_def)

lemma release_prev:
  assumes "tiles 24 P x"
  shows "case (case rev P of (y, t, False) # P'' \<Rightarrow> (rev P'', y, t + s) | _ \<Rightarrow> (P, x, s)) of
    (P', x', s') \<Rightarrow> join_prev True (part False P) x s = (part False P', x', s') \<and> part True P' = part True P \<and> tiles 24 P' x' \<and>
      x' + s' = x + s \<and> s \<le> s' \<and> (coalesced P \<longrightarrow> coalesced P' \<and> (P' \<noteq> [] \<longrightarrow> snd (snd (last P')))) \<and>
      (\<forall>e \<in> set P'. e \<in> set P) \<and> (x' = x \<or> x' \<in> fst ` set P)"
proof (cases P rule: rev_cases)
  case Nil
  then show ?thesis using assms by (simp add: join_prev_def)
next
  case (snoc P0 e)
  obtain y t v where e: "e = (y, t, v)" by (cases e) auto
  have t: "tiles 24 P0 y" "y + t = x" "24 \<le> t" using assms by (auto simp: snoc e tiles_append)
  show ?thesis
  proof (cases v)
    case True
    have "\<forall>e \<in> set (part False P). fst e + snd e < x"
      using part_in [OF t(1)] t(2,3) True by (fastforce simp: snoc e)
    then show ?thesis using True assms by (simp add: snoc e join_prev_apart)
  next
    case False
    have "join_prev True (part False P) x s = (part False P0, y, t + s)"
      using False t(2) by (simp add: snoc e join_prev_def)
    moreover have "coalesced P \<Longrightarrow> coalesced P0 \<and> (P0 \<noteq> [] \<longrightarrow> snd (snd (last P0)))"
      using False by (cases P0 rule: rev_cases) (auto simp: snoc e successively_append_iff)
    ultimately show ?thesis using False t by (simp add: snoc e)
  qed
qed

lemma release_next:
  assumes "tiles (x + s) Q e" "24 \<le> s"
  shows "case (case Q of (z, u, False) # Q'' \<Rightarrow> (s + u, Q'') | _ \<Rightarrow> (s, Q)) of
    (s'', Q') \<Rightarrow> join_next True x s (part False Q) = (s'', part False Q') \<and> part True Q' = part True Q \<and> tiles (x + s'') Q' e \<and>
      s \<le> s'' \<and> (coalesced Q \<longrightarrow> coalesced Q' \<and> (Q' \<noteq> [] \<longrightarrow> snd (snd (hd Q')))) \<and> (\<forall>e \<in> set Q'. e \<in> set Q)"
proof (cases Q)
  case Nil
  then show ?thesis using assms by (simp add: join_next_def)
next
  case (Cons f Q0)
  obtain z u v where f: "f = (z, u, v)" by (cases f) auto
  have t: "tiles (z + u) Q0 e" "z = x + s" "24 \<le> u" using assms by (auto simp: Cons f)
  show ?thesis
  proof (cases v)
    case True
    have "\<forall>e \<in> set (part False Q). x + s < fst e"
      using part_in [OF t(1)] t(2,3) True by (fastforce simp: Cons f)
    then show ?thesis using True assms by (simp add: Cons f join_next_apart)
  next
    case False
    then show ?thesis
      using False t by (cases Q0) (auto simp: Cons f join_next_def add.assoc)
  qed
qed

lemma move_block_release:
  assumes "rmm_abs r (P @ (x, s, True) # Q)"
  shows "\<exists>r'. move_block r x True = Some r' \<and> rmm_abs r' (rmm_release P x s Q) \<and> rsize r' = rsize r \<and> bytes r' = bytes r"
proof -
  have a: "tiled r (P @ (x, s, True) # Q)" "coalesced (P @ (x, s, True) # Q)" using assms by (auto simp: rmm_abs_def)
  then have t: "tiles 24 P x" "tiles (x + s) Q (rsize r)" "24 \<le> s" by (auto simp: tiled_def tiles_append)
  have c: "coalesced P" "coalesced Q" using a(2) by (cases Q; auto simp: successively_append_iff)+
  obtain P' x' s' where p: "(case rev P of (y, t, False) # P'' \<Rightarrow> (rev P'', y, t + s) | _ \<Rightarrow> (P, x, s)) = (P', x', s')"
    by (metis prod_cases3)
  note P = release_prev [OF t(1), of s, unfolded p prod.case]
  have t': "tiles (x' + s') Q (rsize r)" "24 \<le> s'" using P t by auto
  obtain s'' Q' where q: "(case Q of (z, u, False) # Q'' \<Rightarrow> (s' + u, Q'') | _ \<Rightarrow> (s', Q)) = (s'', Q')"
    by fastforce
  note Q = release_next [OF t', unfolded q prod.case]
  have R: "rmm_release P x s Q = P' @ (x', s'', False) # Q'" by (simp add: rmm_release_def p q)
  have "part True (rmm_release P x s Q) = part True (P @ Q)"
    "part (\<not> True) (rmm_release P x s Q) = insert_block True (part (\<not> True) P) x s (part (\<not> True) Q)"
    using P Q by (simp_all add: R insert_block_def)
  from move_block_tiled [OF a(1) this] obtain r' where r': "move_block r x True = Some r'" "rsize r' = rsize r"
    "bytes r' = bytes r" "\<And>u. seg (blocks r') 0 (part u (rmm_release P x s Q)) 0 \<and> head r' (\<not> u) = first (part u (rmm_release P x s Q)) 0"
    by blast
  have "tiles 24 (rmm_release P x s Q) (rsize r)" using P Q t'(2) by (auto simp: R tiles_append)
  moreover have "\<forall>e \<in> set (rmm_release P x s Q). fst e mod 8 = 0" using a(1) P Q by (auto simp: R tiled_def)
  moreover have "coalesced (rmm_release P x s Q)"
    using P Q c by (cases Q') (auto simp: R successively_append_iff split: prod.splits)
  ultimately show ?thesis using r' a(1) by (auto simp: rmm_abs_def tiled_def)
qed

lemma linked_block:
  assumes "seg m 0 (xs @ (x, s) # ys) 0" "0 \<notin> fst ` set (xs @ ys)"
  shows "\<exists>b. m x = Some b \<and> bprev b = final 0 xs \<and> bnext b = first ys 0 \<and> (bprev b \<noteq> 0 \<longrightarrow> map_option bnext (m (bprev b)) = Some x) \<and>
    (bprev b = 0 \<longrightarrow> first (xs @ (x, s) # ys) 0 = x) \<and> (bnext b \<noteq> 0 \<longrightarrow> map_option bprev (m (bnext b)) = Some x)"
  using assms by (cases xs rule: rev_cases; cases ys) (auto simp: seg_append first_append)

lemma free_row:
  assumes "rmm_abs r (P @ (x, s, True) # Q)"
  shows "\<exists>r'. apr_rmm_free 0 rv r (x + 24) = Some (r', rv) \<and> rmm_abs r' (rmm_release P x s Q) \<and> rsize r' = rsize r \<and>
    bytes r' = bytes r"
proof -
  have a: "tiled r (P @ (x, s, True) # Q)" using assms by (auto simp: rmm_abs_def)
  then have t: "tiles 24 (P @ (x, s, True) # Q) (rsize r)" and g: "seg (blocks r) 0 (part True P @ (x, s) # part True Q) 0"
    "firstused r = first (part True P @ (x, s) # part True Q) 0"
    by (auto simp: tiled_def head_def dest: spec [where x = True])
  have z: "0 \<notin> fst ` set (part True P @ part True Q)" and x: "24 \<le> x"
    using part_fresh(2) [OF t, of True] tiles_in [OF t, of x s True] by auto
  obtain b where b: "blocks r x = Some b" "bprev b \<noteq> 0 \<longrightarrow> map_option bnext (blocks r (bprev b)) = Some x"
    "bprev b = 0 \<longrightarrow> firstused r = x" "bnext b \<noteq> 0 \<longrightarrow> map_option bprev (blocks r (bnext b)) = Some x"
    using linked_block [OF g(1) z] g(2) by auto
  obtain r' where "move_block r x True = Some r'" "rmm_abs r' (rmm_release P x s Q)" "rsize r' = rsize r" "bytes r' = bytes r"
    using move_block_release [OF assms] by blast
  then show ?thesis using b x by (auto simp: apr_rmm_free_def)
qed

section \<open>What the operations promise\<close>

abbreviation used_blocks :: "row \<Rightarrow> (nat \<times> nat) set" where
  "used_blocks bs \<equiv> set (part True bs)"

lemma take_block_split: "take_block x n (P @ (x, s, False) # Q) = P @ (if n + 24 < s then [(x, n, True), (x + n, s - n, False)] else [(x, s, True)]) @ Q"
  if "x \<notin> fst ` set P"
  using that by (simp add: take_block_append)

lemma rmm_alloc_spec:
  assumes "tiled r bs" "n < 2 ^ 64"
  shows "case rmm_alloc n bs of (off, bs') \<Rightarrow>
    (off = 0 \<longleftrightarrow> request_size n < n \<or> (\<forall>(x, s) \<in> set (part False bs). s < request_size n)) \<and>
    (off = 0 \<longrightarrow> bs' = bs) \<and>
    (off \<noteq> 0 \<longrightarrow> (\<exists>x s s'. off = x + 24 \<and> (x, s) \<in> set (part False bs) \<and> (\<forall>(y, t) \<in> set (part False bs). request_size n \<le> t \<longrightarrow> s \<le> t) \<and>
       request_size n \<le> s' \<and> s' \<le> s \<and> s' \<le> request_size n + 24 \<and> x mod 8 = 0 \<and> x + s \<le> rsize r \<and>
       (x, s') \<notin> used_blocks bs \<and> used_blocks bs' = insert (x, s') (used_blocks bs)))"
proof -
  let ?n = "request_size n"
  have t: "tiles 24 bs (rsize r)" "\<forall>e \<in> set bs. fst e mod 8 = 0" using assms(1) by (auto simp: tiled_def)
  obtain x s where b: "best_fit ?n (part False bs) (0, 0) = (x, s)" by fastforce
  show ?thesis
  proof (cases "request_size n < n \<or> x = 0")
    case True
    have "0 < ?n" if "\<not> ?n < n" using request_size(1) [OF assms(2) that] by simp
    then have "?n < n \<or> (\<forall>e \<in> set (part False bs). snd e < ?n)"
      using best_fit_row [OF assms(1) _ b] True by (cases "?n < n") auto
    then show ?thesis using True by (auto simp: rmm_alloc_def b)
  next
    case False
    then have n: "0 < ?n" using request_size(1) [OF assms(2)] by fastforce
    have w: "(x, s, False) \<in> set bs" "?n \<le> s" "\<forall>e \<in> set (part False bs). ?n \<le> snd e \<longrightarrow> s \<le> snd e"
      using best_fit_row [OF assms(1) n b] False by auto
    then obtain P Q where P: "bs = P @ (x, s, False) # Q" by (auto dest: split_list)
    have x: "x \<notin> fst ` set P" and d: "x \<notin> fst ` set Q" using tiles_distinct [OF t(1)] by (auto simp: P)
    define s' where "s' = (if ?n + 24 < s then ?n else s)"
    have "x \<notin> fst ` used_blocks bs" using x d by (force simp: P in_part image_iff)
    then have "(x, s') \<notin> used_blocks bs" by force
    moreover have "used_blocks (take_block x ?n bs) = insert (x, s') (used_blocks bs)"
      by (auto simp: P take_block_split [OF x] s'_def)
    moreover have "x mod 8 = 0" "x + s \<le> rsize r" using t(2) w(1) tiles_in [OF t(1) w(1)] by auto
    moreover have "?n \<le> s'" "s' \<le> s" "s' \<le> ?n + 24" using w(2) by (auto simp: s'_def)
    moreover have "rmm_alloc n bs = (x + 24, take_block x ?n bs)" using False by (simp add: rmm_alloc_def b)
    moreover have "(x, s) \<in> set (part False bs)" using w(1) by (simp add: in_part)
    moreover have "\<not> (\<forall>(y, t) \<in> set (part False bs). t < ?n)" using w(2) \<open>(x, s) \<in> set (part False bs)\<close> by fastforce
    moreover have "\<forall>(y, t) \<in> set (part False bs). ?n \<le> t \<longrightarrow> s \<le> t" using w(3) by fastforce
    ultimately show ?thesis using False by auto
  qed
qed

text \<open>The block taken is the first of the smallest free blocks that are large enough; the rest of it stays in its place in the free list.\<close>

lemma rmm_alloc_first:
  assumes "tiled r bs" "n < 2 ^ 64" "rmm_alloc n bs = (off, bs')" "off \<noteq> 0"
  defines "k \<equiv> request_size n"
  shows "\<exists>us vs x s s'. off = x + 24 \<and> off mod 8 = 0 \<and> part False bs = us @ (x, s) # vs \<and> k \<le> s \<and>
    (\<forall>(y, t) \<in> set us. k \<le> t \<longrightarrow> s < t) \<and> (\<forall>(y, t) \<in> set vs. k \<le> t \<longrightarrow> s \<le> t) \<and>
    s' = (if k + 24 < s then k else s) \<and>
    part False bs' = us @ (if k + 24 < s then [(x + k, s - k)] else []) @ vs \<and> used_blocks bs' = insert (x, s') (used_blocks bs)"
proof -
  have t: "tiles 24 bs (rsize r)" "\<forall>e \<in> set bs. fst e mod 8 = 0" using assms(1) by (auto simp: tiled_def)
  obtain x s where b: "best_fit k (part False bs) (0, 0) = (x, s)" by fastforce
  have a: "\<not> k < n" "x \<noteq> 0" "off = x + 24" "bs' = take_block x k bs"
    using assms(3,4) b by (auto simp: rmm_alloc_def k_def split: if_splits)
  have k: "0 < k" using request_size(1) [OF assms(2)] a(1) by (fastforce simp: k_def)
  obtain us vs where u: "part False bs = us @ (x, s) # vs" "k \<le> s" "\<forall>e \<in> set us. k \<le> snd e \<longrightarrow> s < snd e" "\<forall>e \<in> set vs. k \<le> snd e \<longrightarrow> s \<le> snd e"
    using best_fit_first [OF b k] a(2) by auto
  have "(x, s, False) \<in> set bs" using u(1) by (simp add: in_part [symmetric])
  then obtain P Q where P: "bs = P @ (x, s, False) # Q" by (auto dest: split_list)
  have x: "x \<notin> fst ` set P" using tiles_distinct [OF t(1)] by (simp add: P)
  have "distinct (map fst (part False P @ (x, s) # part False Q))" using part_fresh(1) [of P x s False Q "rsize r" False] t(1) P by simp
  then have "(x, s) \<notin> set (part False P)" "(x, s) \<notin> set (part False Q)" by force+
  then have "us = part False P \<and> vs = part False Q"
    using u(1) append_Cons_eq_iff [of "(x, s)" "part False P" "part False Q" us vs] by (simp add: P)
  moreover have "off mod 8 = 0"
  proof -
    have "x mod 8 = 0" using t(2) by (simp add: P)
    then show ?thesis using a(3) by presburger
  qed
  moreover have "part False bs' = us @ (if k + 24 < s then [(x + k, s - k)] else []) @ vs"
    using calculation(1) by (simp add: a(4) P take_block_split [OF x])
  moreover have "used_blocks bs' = insert (x, if k + 24 < s then k else s) (used_blocks bs)"
    by (simp add: a(4) P take_block_split [OF x])
  moreover have "\<forall>(y, t) \<in> set us. k \<le> t \<longrightarrow> s < t" "\<forall>(y, t) \<in> set vs. k \<le> t \<longrightarrow> s \<le> t" using u(3,4) by fastforce+
  ultimately show ?thesis using a(3) u(1,2)
    by (intro exI [of _ us] exI [of _ vs] exI [of _ x] exI [of _ s] exI [of _ "if k + 24 < s then k else s"] conjI) (assumption | rule refl)+
qed

lemma rmm_release_used:
  assumes "tiles 24 (P @ (x, s, True) # Q) e"
  shows "used_blocks (rmm_release P x s Q) = used_blocks (P @ (x, s, True) # Q) - {(x, s)}"
proof -
  have "part True (rmm_release P x s Q) = part True (P @ Q)"
    by (auto simp: rmm_release_def split: list.splits bool.splits prod.splits)
  moreover have "(x, s) \<notin> set (part True (P @ Q))" using tiles_distinct [OF assms] by (force simp: in_part)
  ultimately show ?thesis by auto
qed

text \<open>A new region, and a region from which everything was given back.\<close>

lemma init_row:
  assumes "48 \<le> sz" "sz < 2 ^ 64" "length m = sz"
  shows "\<exists>r. apr_rmm_init 0 rv m sz = Some (rv, Some r) \<and> rmm_abs r [(24, sz - 24, False)] \<and> rsize r = sz \<and> bytes r = m"
  using assms by (auto simp: apr_rmm_init_def rmm_abs_def tiled_def size_minus_id head_def)

lemma nothing_used: "tiles a bs e \<Longrightarrow> coalesced bs \<Longrightarrow> part True bs = [] \<Longrightarrow> bs = [] \<and> a = e \<or> bs = [(a, e - a, False)]"
proof (cases bs)
  case (Cons b cs)
  assume a: "tiles a bs e" "coalesced bs" "part True bs = []"
  obtain x s u where b: "b = (x, s, u)" by (cases b) auto
  have "cs = []"
  proof (cases cs)
    case c: (Cons c ds)
    then show ?thesis using a(2,3) by (cases c) (auto simp: Cons b split: if_splits)
  qed simp
  then show ?thesis using a by (auto simp: Cons b split: if_splits)
qed simp

text \<open>The contract of an allocator: the callers' regions lie behind the headers of the blocks in use.\<close>

definition rmm_holds :: "byte mem \<Rightarrow> rmm \<Rightarrow> (nat \<times> nat) set \<Rightarrow> bool" where
  "rmm_holds m r L \<longleftrightarrow> bytes r = m \<and> (\<exists>bs. rmm_abs r bs \<and> L = (\<lambda>(x, s). (x + 24, s - 24)) ` used_blocks bs)"

abbreviation rmm_give :: "rmm \<Rightarrow> nat \<Rightarrow> rmm option" where
  "rmm_give r off \<equiv> map_option fst (apr_rmm_free 0 0 r off)"

lemma used_apart:
  assumes "tiles a bs e" "(x, s) \<in> used_blocks bs" "(y, t) \<in> used_blocks bs" "(x, s) \<noteq> (y, t)"
  shows "x \<noteq> y \<and> (x + s \<le> y \<or> y + t \<le> x)"
  using assms
proof (induction bs arbitrary: a)
  case (Cons b bs)
  obtain z u v where b: "b = (z, u, v)" by (cases b) auto
  have "(x, s) \<in> used_blocks bs \<Longrightarrow> z + u \<le> x \<and> 24 \<le> u" "(y, t) \<in> used_blocks bs \<Longrightarrow> z + u \<le> y \<and> 24 \<le> u"
    using part_in [of "a + u" bs e] Cons.prems(1) by (fastforce simp: b)+
  then show ?case using Cons.IH [of "a + u"] Cons.prems by (auto simp: b split: if_splits)
qed simp

interpretation rmm: allocator "rmm_holds m" rsize "2 ^ 64" 8 apr_rmm_malloc rmm_give for m
proof unfold_locales
  fix r L n assume h: "rmm_holds m r L" and n: "n < (2 :: nat) ^ 64"
  then obtain bs where bs: "bytes r = m" "rmm_abs r bs" "L = (\<lambda>(x, s). (x + 24, s - 24)) ` used_blocks bs"
    by (auto simp: rmm_holds_def)
  obtain off cs where a: "rmm_alloc n bs = (off, cs)" by fastforce
  obtain r' where r': "apr_rmm_malloc r n = Some (r', off)" "rmm_abs r' cs" "rsize r' = rsize r" "bytes r' = m"
    using malloc_row [OF bs(2) n] bs(1) a by auto
  have t: "tiled r bs" using bs(2) by (simp add: rmm_abs_def)
  note s = rmm_alloc_spec [OF t n, unfolded a prod.case]
  show "\<exists>r' p. apr_rmm_malloc r n = Some (r', p) \<and> rsize r' = rsize r \<and>
      (if p = 0 then rmm_holds m r' L else \<exists>k \<ge> n. (p, k) \<notin> L \<and> rmm_holds m r' (insert (p, k) L))"
  proof (cases "off = 0")
    case True
    then show ?thesis using r' s bs by (auto simp: rmm_holds_def)
  next
    case False
    then have "\<not> request_size n < n" using s by blast
    then have q: "n + 24 \<le> request_size n" using request_size(1) [OF n] by blast
    obtain x s' where x: "off = x + 24" "request_size n \<le> s'" "(x, s') \<notin> used_blocks bs" "used_blocks cs = insert (x, s') (used_blocks bs)"
      using s False by auto
    have "24 \<le> k" if "(y, k) \<in> used_blocks bs" for y k
      using part_in [of 24 bs "rsize r" "(y, k)"] that t by (auto simp: tiled_def)
    then have "b = s'" if "(x, b) \<in> used_blocks bs" "s' - 24 = b - 24" for b using that x(2) q by fastforce
    then have "(off, s' - 24) \<notin> L" using x bs(3) by auto
    then have "(off, s' - 24) \<notin> L \<and> rmm_holds m r' (insert (off, s' - 24) L)"
      using r' x bs(3) unfolding rmm_holds_def by (auto intro!: exI [of _ cs])
    then show ?thesis using False r' q x(2) by (intro exI [of _ r'] exI [of _ off]) (auto intro!: exI [of _ "s' - 24"])
  qed
next
  fix r L p k assume h: "rmm_holds m r L" "(p, k) \<in> L"
  then obtain bs x s where bs: "bytes r = m" "rmm_abs r bs" "L = (\<lambda>(x, s). (x + 24, s - 24)) ` used_blocks bs" and
    x: "(x, s, True) \<in> set bs" "p = x + 24" "k = s - 24"
    by (auto simp: rmm_holds_def in_part)
  then obtain P Q where P: "bs = P @ (x, s, True) # Q" by (auto dest: split_list)
  obtain r' where r': "apr_rmm_free 0 0 r p = Some (r', 0)" "rmm_abs r' (rmm_release P x s Q)" "rsize r' = rsize r" "bytes r' = m"
    using free_row [of r P x s Q 0] bs x P by auto
  have t: "tiles 24 bs (rsize r)" using bs(2) by (simp add: rmm_abs_def tiled_def)
  have "inj_on (\<lambda>(x, s). (x + 24, s - 24)) (used_blocks bs)"
  proof (rule inj_onI)
    fix u v assume "u \<in> used_blocks bs" "v \<in> used_blocks bs" "(case u of (x, s) \<Rightarrow> (x + 24, s - 24)) = (case v of (x, s) \<Rightarrow> (x + 24, s - 24))"
    then show "u = v" using part_in [OF t, of u True] part_in [OF t, of v True] by (auto split: prod.splits)
  qed
  then have "L - {(p, k)} = (\<lambda>(x, s). (x + 24, s - 24)) ` (used_blocks bs - {(x, s)})"
    using x by (simp add: bs(3) inj_on_image_set_diff [of _ "used_blocks bs"] in_part)
  then have "rmm_holds m r' (L - {(p, k)})"
    using r' rmm_release_used [of P x s Q "rsize r"] t by (auto simp: rmm_holds_def P intro!: exI [of _ "rmm_release P x s Q"])
  then show "\<exists>r'. rmm_give r p = Some r' \<and> rsize r' = rsize r \<and> rmm_holds m r' (L - {(p, k)})" using r' by auto
next
  fix r L p k q l assume "rmm_holds m r L" "(p, k) \<in> L" "(q, l) \<in> L" "(p, k) \<noteq> (q, l)"
  then obtain bs x s y t where bs: "tiles 24 bs (rsize r)" and "(x, s) \<in> used_blocks bs" "(y, t) \<in> used_blocks bs"
    "p = x + 24" "k = s - 24" "q = y + 24" "l = t - 24"
    by (auto simp: rmm_holds_def rmm_abs_def tiled_def)
  moreover have "(x, s) \<noteq> (y, t)" using calculation \<open>(p, k) \<noteq> (q, l)\<close> by auto
  ultimately show "p \<noteq> q \<and> (p + k \<le> q \<or> q + l \<le> p)" using used_apart [OF bs, of x s y t] part_in [OF bs] by fastforce
next
  fix r L p k assume "rmm_holds m r L" "(p, k) \<in> L"
  then obtain bs x s where "tiles 24 bs (rsize r)" "\<forall>e \<in> set bs. fst e mod 8 = 0" "(x, s, True) \<in> set bs" "p = x + 24" "k = s - 24"
    by (auto simp: rmm_holds_def rmm_abs_def tiled_def in_part)
  then show "0 < p \<and> p + k \<le> rsize r \<and> p mod 8 = 0" using tiles_in [of 24 bs "rsize r" x s True] by auto
qed

lemma head_bytes [simp]: "head (r\<lparr>bytes := m\<rparr>) f = head r f"
  by (simp add: head_def)

lemma rmm_abs_bytes: "rmm_abs r bs \<Longrightarrow> length m = rsize r \<Longrightarrow> rmm_abs (r\<lparr>bytes := m\<rparr>) bs"
  by (simp add: rmm_abs_def tiled_def)

lemma calloc_row:
  assumes "rmm_abs r bs" "n < 2 ^ 64" "rmm_alloc n bs = (off, cs)"
  shows "\<exists>r' r''. apr_rmm_malloc r n = Some (r', off) \<and> apr_rmm_calloc r n = Some (r'', off) \<and> rmm_abs r'' cs \<and>
    (if off = 0 then r' = r \<and> r'' = r
     else n + 24 \<le> request_size n \<and> off + (request_size n - 24) \<le> rsize r \<and>
       r'' = r'\<lparr>bytes := take off (bytes r) @ replicate (request_size n - 24) (Some 0) @ drop (off + (request_size n - 24)) (bytes r)\<rparr>)"
proof (cases "request_size n < n")
  case True
  then show ?thesis using assms by (auto simp: apr_rmm_malloc_def apr_rmm_calloc_def rmm_alloc_def split: prod.splits)
next
  case False
  obtain x s where b: "best_fit (request_size n) (part False bs) (0, 0) = (x, s)" by fastforce
  have q: "n + 24 \<le> request_size n" "24 \<le> request_size n" "request_size n mod 8 = 0" "rsize r < 2 ^ 64" "length (bytes r) = rsize r"
    "request_size n < 2 ^ 64"
    using request_size [OF assms(2) False] assms(1) by (auto simp: rmm_abs_def tiled_def)
  show ?thesis
  proof (cases "x = 0")
    case True
    then show ?thesis
      using grab_block [OF assms(1) q(2,3) b] False assms b
      by (auto simp: apr_rmm_malloc_def apr_rmm_calloc_def rmm_alloc_def Let_def)
  next
    case x: False
    obtain r1 r2 where g: "find_block_of_size r (request_size n) = Some (r1, x)" "move_block r1 x False = Some r2"
      "rmm_abs r2 (take_block x (request_size n) bs)" "rsize r2 = rsize r" "bytes r2 = bytes r" "x + request_size n \<le> rsize r"
      using grab_block [OF assms(1) q(2,3) b] x by auto
    have o: "off = x + 24" "cs = take_block x (request_size n) bs" using assms(3) b x False by (auto simp: rmm_alloc_def)
    have w: "mem_write (bytes r2) off (replicate (request_size n - 24) 0) =
        Some (take off (bytes r) @ replicate (request_size n - 24) (Some 0) @ drop (off + (request_size n - 24)) (bytes r))"
      using g(5,6) q(2,5) o(1) by (simp add: mem_write_def)
    have "length (take off (bytes r) @ replicate (request_size n - 24) (Some 0) @ drop (off + (request_size n - 24)) (bytes r)) = rsize r2"
      using g(4,6) q(2,5) o(1) by simp
    then have "rmm_abs (r2\<lparr>bytes := take off (bytes r) @ replicate (request_size n - 24) (Some 0) @ drop (off + (request_size n - 24)) (bytes r)\<rparr>) cs"
      using rmm_abs_bytes [OF g(3)] o(2) by simp
    then show ?thesis
      using g w x False q o(1) by (simp add: apr_rmm_malloc_def apr_rmm_calloc_def Let_def size_minus_id)
  qed
qed

lemma block_at:
  assumes "tiled r bs" "(x, s) \<in> set (part u bs)"
  shows "\<exists>b. blocks r x = Some b \<and> bsize b = s"
proof -
  obtain P Q where "part u bs = P @ (x, s) # Q" using assms(2) by (auto dest: split_list)
  then show ?thesis using assms(1) by (auto simp: tiled_def seg_append dest: spec [where x = u])
qed

lemma length_mem_copy: "mem_copy m d s n = Some m' \<Longrightarrow> length m' = length m"
  by (auto simp: mem_copy_def split: if_splits)

lemma nth_mem_copy:
  assumes "mem_copy m d s n = Some m'" "j < length m"
  shows "m' ! j = (if d \<le> j \<and> j < d + n then m ! (s + (j - d)) else m ! j)"
proof -
  define u where "u = take n (drop s m)"
  have b: "d + n \<le> length m" "s + n \<le> length m" "m' = take d m @ u @ drop (d + n) m"
    using assms(1) by (auto simp: mem_copy_def u_def split: if_splits)
  have u: "length u = n" "\<And>i. i < n \<Longrightarrow> u ! i = m ! (s + i)" using b(2) by (auto simp: u_def)
  consider "j < d" | "d \<le> j" "j - d < n" "j < d + n" | "d \<le> j" "\<not> j - d < n" "d + n \<le> j" by linarith
  then show ?thesis using b(1) u assms(2) by cases (simp_all add: b(3) nth_append)
qed

lemma realloc_row:
  assumes "rmm_abs r bs" "(x, s) \<in> used_blocks bs" "n < 2 ^ 64" "base + rsize r < 2 ^ 64"
    "\<not> APR_ALIGN_DEFAULT n < n" "apr_rmm_malloc r (APR_ALIGN_DEFAULT n) = Some (r1, off)" "off \<noteq> 0"
  shows "if x + 24 + min s (APR_ALIGN_DEFAULT n) \<le> rsize r
    then \<exists>r' bs' s'. apr_rmm_realloc base 0 rv r (Some (base + (x + 24))) n = Some (r', off) \<and> rmm_abs r' bs' \<and> n + 24 \<le> s' \<and>
      used_blocks bs' = insert (off - 24, s') (used_blocks bs - {(x, s)}) \<and> (off - 24, s') \<notin> used_blocks bs \<and>
      (\<forall>j < rsize r. bytes r' ! j = (if off \<le> j \<and> j < off + min s (APR_ALIGN_DEFAULT n) then bytes r ! (x + 24 + (j - off)) else bytes r ! j))
    else apr_rmm_realloc base 0 rv r (Some (base + (x + 24))) n = None"
proof -
  let ?z = "APR_ALIGN_DEFAULT n"
  let ?k = "min s ?z"
  have t: "tiled r bs" "tiles 24 bs (rsize r)" "length (bytes r) = rsize r" using assms(1) by (auto simp: rmm_abs_def tiled_def)
  have x: "x + s \<le> rsize r" "24 \<le> s" using part_in [OF t(2) assms(2)] by auto
  have z: "?z < 2 ^ 64"
  proof (cases "n + 7 < 2 ^ 64")
    case True
    then show ?thesis by (auto simp: APR_ALIGN_DEFAULT_def)
  next
    case False
    then show ?thesis using assms(3) by (auto simp: APR_ALIGN_DEFAULT_def size_t_def)
  qed
  obtain cs where a: "rmm_alloc ?z bs = (off, cs)" and r1: "rmm_abs r1 cs" "rsize r1 = rsize r" "bytes r1 = bytes r"
    using malloc_row [OF assms(1) z] assms(6) by (cases "rmm_alloc ?z bs") auto
  note sp = rmm_alloc_spec [OF t(1) z, unfolded a prod.case]
  have nz: "\<not> request_size ?z < ?z" using sp assms(7) by blast
  obtain y s' where y: "off = y + 24" "request_size ?z \<le> s'" "(y, s') \<notin> used_blocks bs" "used_blocks cs = insert (y, s') (used_blocks bs)"
    "y + s' \<le> rsize r"
    using sp assms(7) by fastforce
  have k: "?z + 24 \<le> s'" using request_size(1) [OF z nz] y(2) by simp
  have old: "apr_rmm_offset_get base (base + (x + 24)) = x + 24"
    using x assms(4) by (simp add: apr_rmm_offset_get_def size_minus_id)
  have xc: "(x, s) \<in> used_blocks cs" using y(4) assms(2) by simp
  obtain b where b: "blocks r1 x = Some b" "bsize b = s" using block_at [of r1 cs x s True] r1(1) xc by (auto simp: rmm_abs_def)
  have m: "size_minus (x + 24) RMM_BLOCK_SIZE = x" using x assms(4) by (simp add: size_minus_id)
  have min: "(if bsize b < ?z then bsize b else ?z) = ?k" using b(2) by auto
  show ?thesis
  proof (cases "x + 24 + ?k \<le> rsize r")
    case True
    have off: "off + ?k \<le> rsize r" using y(1,5) k by simp
    obtain m' where m': "mem_copy (bytes r1) off (x + 24) ?k = Some m'"
      using True off r1(3) t(3) by (simp add: mem_copy_def)
    have "rmm_abs (r1\<lparr>bytes := m'\<rparr>) cs" using rmm_abs_bytes [OF r1(1)] length_mem_copy [OF m'] r1(2,3) t(3) by simp
    moreover obtain P Q where P: "cs = P @ (x, s, True) # Q" using xc by (auto simp: in_part dest: split_list)
    ultimately obtain r' where r': "apr_rmm_free 0 rv (r1\<lparr>bytes := m'\<rparr>) (x + 24) = Some (r', rv)" "rmm_abs r' (rmm_release P x s Q)"
      "bytes r' = m'"
      using free_row [of "r1\<lparr>bytes := m'\<rparr>" P x s Q rv] by auto
    have tP: "tiles 24 (P @ (x, s, True) # Q) (rsize r)" using r1(1,2) by (simp add: P rmm_abs_def tiled_def)
    have u: "used_blocks (rmm_release P x s Q) = insert (y, s') (used_blocks bs - {(x, s)})"
      unfolding rmm_release_used [OF tP] P [symmetric] y(4) using y(3) assms(2) by auto
    have "apr_rmm_realloc base 0 rv r (Some (base + (x + 24))) n = Some (r', off)"
      using assms(5-7) b(1) m min m' r'(1) old by (simp add: apr_rmm_realloc_def Let_def cong: if_cong)
    moreover have "n + 24 \<le> s'" using k assms(5) by simp
    moreover have "\<forall>j < rsize r. bytes r' ! j = (if off \<le> j \<and> j < off + ?k then bytes r ! (x + 24 + (j - off)) else bytes r ! j)"
      using nth_mem_copy [OF m'] r'(3) r1(3) t(3) by simp
    ultimately show ?thesis using True r'(2) u y(1,3) by auto
  next
    case False
    then have "mem_copy (bytes r1) off (x + 24) ?k = None" using r1(3) t(3) by (simp add: mem_copy_def)
    then show ?thesis using False assms(5-7) b(1) m min old by (simp add: apr_rmm_realloc_def Let_def cong: if_cong)
  qed
qed

text \<open>Destroying clears the links of every block.\<close>

lemma destroy_loop_seg:
  assumes "seg (blocks r) p xs 0" "xs \<noteq> []" "distinct (map fst xs)" "0 \<notin> fst ` set xs"
  shows "\<exists>r'. destroy_loop r (first xs 0) = Some r' \<and> (\<forall>(x, s) \<in> set xs. blocks r' x = Some \<lparr>bsize = s, bprev = 0, bnext = 0\<rparr>) \<and>
    (\<forall>a. a \<notin> fst ` set xs \<longrightarrow> blocks r' a = blocks r a) \<and> firstused r' = firstused r \<and> firstfree r' = firstfree r"
  using assms
proof (induction xs arbitrary: r p)
  case (Cons e xs)
  obtain x s where e: "e = (x, s)" by fastforce
  have b: "blocks r x = Some \<lparr>bsize = s, bprev = p, bnext = first xs 0\<rparr>" "seg (blocks r) x xs 0" "x \<notin> fst ` set xs"
    using Cons.prems by (auto simp: e)
  show ?case
  proof (cases "xs = []")
    case True
    then show ?thesis using b(1) by (simp add: e destroy_loop.simps [of r x] Let_def)
  next
    case False
    let ?r = "put_block r x \<lparr>bsize = s, bprev = 0, bnext = 0\<rparr>"
    have nz: "first xs 0 \<noteq> 0" using False Cons.prems(4) by (cases xs) auto
    have seg: "seg (blocks ?r) x xs 0" using b(2,3) by simp
    obtain r' where r': "destroy_loop ?r (first xs 0) = Some r'" "\<forall>(y, t) \<in> set xs. blocks r' y = Some \<lparr>bsize = t, bprev = 0, bnext = 0\<rparr>"
      "\<forall>a. a \<notin> fst ` set xs \<longrightarrow> blocks r' a = blocks ?r a" "firstused r' = firstused r" "firstfree r' = firstfree r"
      using Cons.IH [OF seg False] Cons.prems(3,4) by auto
    have "destroy_loop r x = Some r'" using b(1) nz r'(1) by (simp add: destroy_loop.simps [of r x] Let_def)
    then show ?thesis using r'(2-5) b(3) by (auto simp: e)
  qed
qed simp

lemma destroy_list:
  assumes "seg (blocks r) 0 xs 0" "distinct (map fst xs)" "0 \<notin> fst ` set xs" "a = first xs 0"
  shows "\<exists>r'. (if a \<noteq> 0 then destroy_loop r a else Some r) = Some r' \<and> (\<forall>(x, s) \<in> set xs. blocks r' x = Some \<lparr>bsize = s, bprev = 0, bnext = 0\<rparr>) \<and>
    (\<forall>a. a \<notin> fst ` set xs \<longrightarrow> blocks r' a = blocks r a) \<and> firstused r' = firstused r \<and> firstfree r' = firstfree r"
proof (cases "xs = []")
  case False
  then have "a \<noteq> 0" using assms(3,4) by (cases xs) auto
  then show ?thesis using destroy_loop_seg [OF assms(1) False assms(2,3)] assms(4) by simp
qed (use assms in simp)

lemma destroy_row:
  assumes "rmm_abs r bs"
  shows "\<exists>r'. apr_rmm_destroy 0 rv r = Some (r', rv) \<and> rsize r' = 0 \<and> abssize r' = 0 \<and> firstused r' = 0 \<and> firstfree r' = 0 \<and>
    (\<forall>(x, s, u) \<in> set bs. blocks r' x = Some \<lparr>bsize = s, bprev = 0, bnext = 0\<rparr>)"
proof -
  have t: "tiles 24 bs (rsize r)" and g: "\<And>u. seg (blocks r) 0 (part u bs) 0" "firstused r = first (part True bs) 0" "firstfree r = first (part False bs) 0"
    using assms by (auto simp: rmm_abs_def tiled_def head_def dest: spec [where x = True] spec [where x = False])
  have "mset (map fst (part True bs @ part False bs)) = mset (map fst bs)" using part_mset [of True bs] by simp
  then have d: "distinct (map fst (part True bs @ part False bs))" using tiles_distinct [OF t] mset_eq_imp_distinct_iff by blast
  have z: "0 \<notin> fst ` set (part u bs)" for u using part_in [OF t] by fastforce
  obtain r1 where r1: "(if firstused r \<noteq> 0 then destroy_loop r (firstused r) else Some r) = Some r1"
    "\<forall>(x, s) \<in> set (part True bs). blocks r1 x = Some \<lparr>bsize = s, bprev = 0, bnext = 0\<rparr>"
    "\<forall>a. a \<notin> fst ` set (part True bs) \<longrightarrow> blocks r1 a = blocks r a" "firstfree r1 = firstfree r" "firstused r1 = firstused r"
    using destroy_list [OF g(1) _ z g(2)] d by auto
  define r2 where "r2 = (if firstused r \<noteq> 0 then r1\<lparr>firstused := 0\<rparr> else r1)"
  have r2: "blocks r2 = blocks r1" "firstused r2 = 0" "firstfree r2 = firstfree r"
    using r1(4,5) by (auto simp: r2_def)
  have "seg (blocks r2) 0 (part False bs) 0"
    unfolding r2(1) using g(1) [of False] r1(3) d by (subst seg_cong [of _ _ "blocks r"]) auto
  then obtain r3 where r3: "(if firstfree r2 \<noteq> 0 then destroy_loop r2 (firstfree r2) else Some r2) = Some r3"
    "\<forall>(x, s) \<in> set (part False bs). blocks r3 x = Some \<lparr>bsize = s, bprev = 0, bnext = 0\<rparr>"
    "\<forall>a. a \<notin> fst ` set (part False bs) \<longrightarrow> blocks r3 a = blocks r2 a" "firstused r3 = 0" "firstfree r3 = firstfree r"
    using destroy_list [OF _ _ z, of r2 False "firstfree r2"] d g(3) r2 by auto
  have s1: "(if firstused r \<noteq> 0 then map_option (\<lambda>r'. r'\<lparr>firstused := 0\<rparr>) (destroy_loop r (firstused r)) else Some r) = Some r2"
    using r1(1) by (auto simp: r2_def split: if_splits)
  have s2: "(if firstfree r2 \<noteq> 0 then map_option (\<lambda>r'. r'\<lparr>firstfree := 0\<rparr>) (destroy_loop r2 (firstfree r2)) else Some r2) =
      Some (r3\<lparr>firstfree := 0\<rparr>)"
    using r3(1,5) r2(3) by (auto split: if_splits)
  have "blocks r3 x = Some \<lparr>bsize = s, bprev = 0, bnext = 0\<rparr>" if "(x, s, u) \<in> set bs" for x s u
  proof (cases u)
    case True
    then have m: "(x, s) \<in> set (part True bs)" using that by (simp add: in_part)
    then have "x \<notin> fst ` set (part False bs)" using d by force
    then show ?thesis using m r1(2) r3(3) r2(1) by auto
  next
    case False
    then show ?thesis using that r3(2) by (auto simp: in_part)
  qed
  then have "\<forall>(x, s, u) \<in> set bs. blocks r3 x = Some \<lparr>bsize = s, bprev = 0, bnext = 0\<rparr>" by auto
  then show ?thesis using s1 s2 r3(4) by (simp add: apr_rmm_destroy_def)
qed

section \<open>Properties\<close>

text \<open>Concrete regions: a new one of 200 bytes, the same after a request of 10 bytes, and one of 160 bytes with a free block before
  the used one.\<close>

definition rmm_new :: rmm where
  "rmm_new = \<lparr>rsize = 200, abssize = 200, firstused = 0, firstfree = 24, blocks = [24 \<mapsto> \<lparr>bsize = 176, bprev = 0, bnext = 0\<rparr>],
     bytes = replicate 200 None\<rparr>"

definition rmm_one :: rmm where
  "rmm_one = \<lparr>rsize = 200, abssize = 200, firstused = 24, firstfree = 64,
     blocks = [24 \<mapsto> \<lparr>bsize = 40, bprev = 0, bnext = 0\<rparr>, 64 \<mapsto> \<lparr>bsize = 136, bprev = 0, bnext = 0\<rparr>], bytes = replicate 200 None\<rparr>"

definition rmm_tight :: rmm where
  "rmm_tight = \<lparr>rsize = 160, abssize = 160, firstused = 104, firstfree = 24,
     blocks = [24 \<mapsto> \<lparr>bsize = 80, bprev = 0, bnext = 0\<rparr>, 104 \<mapsto> \<lparr>bsize = 56, bprev = 0, bnext = 0\<rparr>], bytes = replicate 160 None\<rparr>"

lemma rmm_new_abs: "rmm_abs rmm_new [(24, 176, False)]"
  by (simp add: rmm_new_def rmm_abs_def tiled_def head_def)

lemma rmm_one_abs: "rmm_abs rmm_one [(24, 40, True), (64, 136, False)]"
  by (simp add: rmm_one_def rmm_abs_def tiled_def head_def)

lemma rmm_tight_abs: "rmm_abs rmm_tight [(24, 80, False), (104, 56, True)]"
  by (simp add: rmm_tight_def rmm_abs_def tiled_def head_def)

lemma rmm_new_request: "request_size 10 = 40" "rmm_alloc 10 [(24, 176, False)] = (48, [(24, 40, True), (64, 136, False)])"
  by (simp_all add: request_size_def APR_ALIGN_DEFAULT_def rmm_alloc_def)

text \<open>C8: \<open>apr_rmm_malloc\<close> fails exactly when the request wraps around or no free block is large enough, and then it changes nothing;
  otherwise it takes the first of the smallest free blocks that are large enough: every fitting block before it in the free list is larger and
  none behind it is smaller. Of a block with more than 24 bytes to spare it takes the request, and the rest stands in its place in the free list;
  a smaller one it takes whole. The other blocks, free and in use, stay as they are, its loops end and it does not touch the callers' bytes.\<close>

theorem rmm_malloc_best_fit:
  assumes "rmm_abs r bs" "n < 2 ^ 64"
  defines "k \<equiv> request_size n"
  shows "\<exists>r' off bs'. apr_rmm_malloc r n = Some (r', off) \<and> rmm_abs r' bs' \<and> rsize r' = rsize r \<and> bytes r' = bytes r \<and>
    (off = 0 \<longleftrightarrow> k < n \<or> (\<forall>(x, s) \<in> set (part False bs). s < k)) \<and>
    (off = 0 \<longrightarrow> r' = r \<and> bs' = bs) \<and>
    (off \<noteq> 0 \<longrightarrow> n + 24 \<le> k \<and> k \<le> n + 31 \<and>
      (\<exists>us vs x s s'. off = x + 24 \<and> off mod 8 = 0 \<and> part False bs = us @ (x, s) # vs \<and> k \<le> s \<and>
        (\<forall>(y, t) \<in> set us. k \<le> t \<longrightarrow> s < t) \<and> (\<forall>(y, t) \<in> set vs. k \<le> t \<longrightarrow> s \<le> t) \<and>
        s' = (if k + 24 < s then k else s) \<and> part False bs' = us @ (if k + 24 < s then [(x + k, s - k)] else []) @ vs \<and>
        used_blocks bs' = insert (x, s') (used_blocks bs)))"
proof -
  obtain off cs where a: "rmm_alloc n bs = (off, cs)" by fastforce
  obtain r' where r': "apr_rmm_malloc r n = Some (r', off)" "rmm_abs r' cs" "rsize r' = rsize r" "bytes r' = bytes r" "off = 0 \<longrightarrow> r' = r"
    using malloc_row [OF assms(1,2)] a by auto
  have t: "tiled r bs" using assms(1) by (simp add: rmm_abs_def)
  note s = rmm_alloc_spec [OF t assms(2), unfolded a prod.case]
  have zero: "off = 0 \<longleftrightarrow> k < n \<or> (\<forall>(x, s) \<in> set (part False bs). s < k)" "off = 0 \<longrightarrow> cs = bs"
    unfolding k_def by (rule s [THEN conjunct1], rule s [THEN conjunct2, THEN conjunct1])
  note first = rmm_alloc_first [OF t assms(2) a, folded k_def]
  have "off \<noteq> 0 \<longrightarrow> n + 24 \<le> k \<and> k \<le> n + 31 \<and>
      (\<exists>us vs x s s'. off = x + 24 \<and> off mod 8 = 0 \<and> part False bs = us @ (x, s) # vs \<and> k \<le> s \<and>
        (\<forall>(y, t) \<in> set us. k \<le> t \<longrightarrow> s < t) \<and> (\<forall>(y, t) \<in> set vs. k \<le> t \<longrightarrow> s \<le> t) \<and>
        s' = (if k + 24 < s then k else s) \<and> part False cs = us @ (if k + 24 < s then [(x + k, s - k)] else []) @ vs \<and>
        used_blocks cs = insert (x, s') (used_blocks bs))"
  proof
    assume nz: "off \<noteq> 0"
    then have "n + 24 \<le> k" "k \<le> n + 31" using zero(1) request_size [OF assms(2)] by (auto simp: k_def)
    then show "n + 24 \<le> k \<and> k \<le> n + 31 \<and>
      (\<exists>us vs x s s'. off = x + 24 \<and> off mod 8 = 0 \<and> part False bs = us @ (x, s) # vs \<and> k \<le> s \<and>
        (\<forall>(y, t) \<in> set us. k \<le> t \<longrightarrow> s < t) \<and> (\<forall>(y, t) \<in> set vs. k \<le> t \<longrightarrow> s \<le> t) \<and>
        s' = (if k + 24 < s then k else s) \<and> part False cs = us @ (if k + 24 < s then [(x + k, s - k)] else []) @ vs \<and>
        used_blocks cs = insert (x, s') (used_blocks bs))"
      using first [OF nz] by blast
  qed
  note took = this
  show ?thesis
    by (rule exI [of _ r'], rule exI [of _ off], rule exI [of _ cs]) (intro conjI r' zero took impI; simp add: r'(5) zero(2))
qed

theorem rmm_malloc_best_fit_witness:
  "\<exists>r' bs'. apr_rmm_malloc rmm_new 10 = Some (r', 48) \<and> rmm_abs r' bs' \<and> part False bs' = [(64, 136)] \<and> used_blocks bs' = {(24, 40)}"
proof -
  have "(10 :: nat) < 2 ^ 64" by simp
  from rmm_malloc_best_fit [OF rmm_new_abs this, unfolded rmm_new_request(1)] show ?thesis
    by (auto simp: Cons_eq_append_conv append_eq_Cons_conv)
qed

text \<open>C9: \<open>apr_rmm_free\<close> gives a block in use back, joined with the neighbours that are free, so that no two free blocks are ever side by
  side and a region from which everything was given back is one free block. An offset inside the headers is refused, and a lock that
  cannot be taken leaves the region alone.\<close>

theorem rmm_free_coalesces:
  assumes "rmm_abs r bs" "(x, s) \<in> used_blocks bs"
  shows "(\<exists>r' bs'. apr_rmm_free 0 rv r (x + 24) = Some (r', rv) \<and> rmm_abs r' bs' \<and> rsize r' = rsize r \<and> bytes r' = bytes r \<and>
      used_blocks bs' = used_blocks bs - {(x, s)} \<and> (used_blocks bs = {(x, s)} \<longrightarrow> bs' = [(24, rsize r - 24, False)])) \<and>
    (lock_rv \<noteq> 0 \<longrightarrow> apr_rmm_free lock_rv rv r (x + 24) = Some (r, lock_rv)) \<and>
    (off < 48 \<longrightarrow> apr_rmm_free lock_rv rv r off = Some (r, APR_EINVAL))"
proof -
  obtain P Q where P: "bs = P @ (x, s, True) # Q" using assms(2) by (auto simp: in_part dest: split_list)
  obtain r' where r': "apr_rmm_free 0 rv r (x + 24) = Some (r', rv)" "rmm_abs r' (rmm_release P x s Q)" "rsize r' = rsize r" "bytes r' = bytes r"
    using free_row assms(1) P by blast
  have t: "tiles 24 (P @ (x, s, True) # Q) (rsize r)" using assms(1) by (simp add: P rmm_abs_def tiled_def)
  have u: "used_blocks (rmm_release P x s Q) = used_blocks bs - {(x, s)}" using rmm_release_used [OF t] by (simp add: P)
  have "rmm_release P x s Q = [(24, rsize r - 24, False)]" if "used_blocks bs = {(x, s)}"
  proof -
    have "part True (rmm_release P x s Q) = []" using u that by simp
    moreover have "rmm_release P x s Q \<noteq> []" by (simp add: rmm_release_def split: prod.splits)
    ultimately show ?thesis
      using nothing_used [of 24 "rmm_release P x s Q" "rsize r"] r'(2,3) by (auto simp: rmm_abs_def tiled_def)
  qed
  moreover have "24 \<le> x" using tiles_in [OF t, of x s True] by simp
  ultimately show ?thesis using r' u by (auto simp: apr_rmm_free_def)
qed

theorem rmm_free_coalesces_witness: "\<exists>r'. apr_rmm_free 0 7 rmm_one 48 = Some (r', 7) \<and> rmm_abs r' [(24, 176, False)]"
  using rmm_free_coalesces [OF rmm_one_abs, of 24 40 7 1 0] by (auto simp: rmm_one_def)

text \<open>C10: From a new region any sequence of requests and returns runs without following a wild offset and leaves a well-formed region, whose
  blocks tile it and are threaded by the two lists. Every region the callers have lies behind the header of a block in use of its own, so that
  these regions are inside, aligned to eight bytes and disjoint; the allocator never writes into the bytes.\<close>

theorem rmm_run_safe:
  assumes "48 \<le> sz" "sz < 2 ^ 64" "length m = sz" "\<forall>n. Get n \<in> set rs \<longrightarrow> n < 2 ^ 64"
  shows "\<exists>r r' ps bs. apr_rmm_init 0 rv m sz = Some (rv, Some r) \<and>
    alloc_run apr_rmm_malloc (\<lambda>r off. map_option fst (apr_rmm_free 0 0 r off)) rs r [] = Some (r', ps) \<and> bytes r' = m \<and>
    rmm_abs r' bs \<and> rsize r' = sz \<and> fst ` set ps = (\<lambda>(x, s). x + 24) ` used_blocks bs \<and>
    (\<forall>(p, n) \<in> set ps. \<exists>(x, s) \<in> used_blocks bs. p = x + 24 \<and> n + 24 \<le> s) \<and>
    (\<forall>(p, n) \<in> set ps. 0 < p \<and> p + n \<le> sz \<and> p mod 8 = 0) \<and>
    (\<forall>i < length ps. \<forall>j < length ps. i \<noteq> j \<longrightarrow> fst (ps ! i) \<noteq> fst (ps ! j) \<and>
       (fst (ps ! i) + snd (ps ! i) \<le> fst (ps ! j) \<or> fst (ps ! j) + snd (ps ! j) \<le> fst (ps ! i)))"
proof -
  obtain r where r: "apr_rmm_init 0 rv m sz = Some (rv, Some r)" "rmm_abs r [(24, sz - 24, False)]" "rsize r = sz" "bytes r = m"
    using init_row [OF assms(1-3)] by blast
  have "rmm_holds m r {}" using r(2,4) by (auto simp: rmm_holds_def intro!: exI [of _ "[(24, sz - 24, False)]"])
  from rmm.run_safe [OF this assms(4)] obtain r' ps L where
    run: "alloc_run apr_rmm_malloc rmm_give rs r [] = Some (r', ps)" "rmm_holds m r' L" "owns ps L" "rsize r' = rsize r" and
    apart: "\<forall>(p, n) \<in> set ps. 0 < p \<and> p + n \<le> rsize r \<and> p mod 8 = 0"
      "\<forall>i < length ps. \<forall>j < length ps. i \<noteq> j \<longrightarrow> fst (ps ! i) \<noteq> fst (ps ! j) \<and>
         (fst (ps ! i) + snd (ps ! i) \<le> fst (ps ! j) \<or> fst (ps ! j) + snd (ps ! j) \<le> fst (ps ! i))"
    by blast
  from run(2) obtain bs where bs: "bytes r' = m" "rmm_abs r' bs" "L = (\<lambda>(x, s). (x + 24, s - 24)) ` used_blocks bs"
    by (auto simp: rmm_holds_def)
  have wide: "24 \<le> s" if "(x, s) \<in> used_blocks bs" for x s
    using part_in [of 24 bs "rsize r'" "(x, s)"] that bs(2) by (auto simp: rmm_abs_def tiled_def)
  have "fst ` L = (\<lambda>(x, s). x + 24) ` used_blocks bs" unfolding bs(3) by force
  moreover have "\<exists>(x, s) \<in> used_blocks bs. p = x + 24 \<and> n + 24 \<le> s" if mem: "(p, n) \<in> set ps" for p n
  proof -
    obtain l where l: "(p, l) \<in> L" "n \<le> l" using owns_mem [OF run(3) mem] by auto
    then obtain s where "(p - 24, s) \<in> used_blocks bs" "p = p - 24 + 24" "l = s - 24" by (auto simp: bs(3))
    then show ?thesis using l(2) wide [of "p - 24" s] by (intro bexI [of _ "(p - 24, s)"]) auto
  qed
  ultimately show ?thesis using r run(1,3,4) apart bs(1,2) by (intro exI [of _ r] exI [of _ r'] exI [of _ ps] exI [of _ bs]) (auto simp: owns_def)
qed

theorem rmm_run_safe_witness:
  "\<exists>r r' ps. apr_rmm_init 0 0 (replicate 200 None) 200 = Some (0, Some r) \<and>
    alloc_run apr_rmm_malloc (\<lambda>r off. map_option fst (apr_rmm_free 0 0 r off)) [Get 10, Get 30, Give 1, Get 100] r [] = Some (r', ps)"
  using rmm_run_safe [of 200 "replicate 200 None" "[Get 10, Get 30, Give 1, Get 100]" 0] by auto

text \<open>\<open>apr_rmm_calloc\<close> returns what \<open>apr_rmm_malloc\<close> returns and clears the bytes asked for, and no byte outside its region.\<close>

theorem rmm_calloc_zero:
  assumes "rmm_abs r bs" "n < 2 ^ 64"
  shows "\<exists>r' r'' off bs' k. apr_rmm_malloc r n = Some (r', off) \<and> apr_rmm_calloc r n = Some (r'', off) \<and> rmm_abs r'' bs' \<and>
    (if off = 0 then r'' = r
     else n \<le> k \<and> k \<le> n + 7 \<and> off + k \<le> rsize r \<and> r'' = r'\<lparr>bytes := take off (bytes r) @ replicate k (Some 0) @ drop (off + k) (bytes r)\<rparr>)"
proof -
  obtain off cs where a: "rmm_alloc n bs = (off, cs)" by fastforce
  obtain r' r'' where c: "apr_rmm_malloc r n = Some (r', off)" "apr_rmm_calloc r n = Some (r'', off)" "rmm_abs r'' cs"
    "if off = 0 then r' = r \<and> r'' = r else n + 24 \<le> request_size n \<and> off + (request_size n - 24) \<le> rsize r \<and>
       r'' = r'\<lparr>bytes := take off (bytes r) @ replicate (request_size n - 24) (Some 0) @ drop (off + (request_size n - 24)) (bytes r)\<rparr>"
    using calloc_row [OF assms a] by blast
  have "request_size n \<le> n + 31" if "n + 24 \<le> request_size n" using request_size(2) [OF assms(2)] that by simp
  then have "if off = 0 then r'' = r else n \<le> request_size n - 24 \<and> request_size n - 24 \<le> n + 7 \<and> off + (request_size n - 24) \<le> rsize r \<and>
       r'' = r'\<lparr>bytes := take off (bytes r) @ replicate (request_size n - 24) (Some 0) @ drop (off + (request_size n - 24)) (bytes r)\<rparr>"
    using c(4) by (auto split: if_splits)
  then show ?thesis using c(1-3) by blast
qed

theorem rmm_calloc_zero_witness: "\<exists>r'' off bs'. apr_rmm_calloc rmm_new 10 = Some (r'', off) \<and> rmm_abs r'' bs'"
  using rmm_calloc_zero [OF rmm_new_abs, of 10] by auto

lemma align_wraps: "n < 2 ^ 64 \<Longrightarrow> \<not> n + 7 < 2 ^ 64 \<Longrightarrow> APR_ALIGN_DEFAULT n < n"
proof -
  assume n: "n < 2 ^ 64" "\<not> n + 7 < 2 ^ 64"
  then have "size_t (n + 7) < 8" by (simp add: size_t_def le_mod_geq)
  then have "APR_ALIGN_DEFAULT n = 0" by (simp add: APR_ALIGN_DEFAULT_def)
  then show ?thesis using n by simp
qed

text \<open>C11: \<open>apr_rmm_realloc\<close> either fails and changes nothing, or moves the block: the new one has room for the request, the old one is given
  back, and the bytes that fit are the old ones. The copy takes the smaller of the request and the size of the old block, header included; where
  that reaches beyond the region, the code reads outside it.\<close>

theorem rmm_realloc_moves:
  assumes "rmm_abs r bs" "(x, s) \<in> used_blocks bs" "n < 2 ^ 64" "base + rsize r < 2 ^ 64"
  shows "APR_ALIGN_DEFAULT n < n \<and> apr_rmm_realloc base 0 rv r (Some (base + (x + 24))) n = Some (r, 0) \<or>
    (\<exists>r1 off. n \<le> APR_ALIGN_DEFAULT n \<and> apr_rmm_malloc r (APR_ALIGN_DEFAULT n) = Some (r1, off) \<and>
      (if off = 0 then r1 = r \<and> apr_rmm_realloc base 0 rv r (Some (base + (x + 24))) n = Some (r, 0)
       else if x + 24 + min s (APR_ALIGN_DEFAULT n) \<le> rsize r
       then \<exists>r' bs' s'. apr_rmm_realloc base 0 rv r (Some (base + (x + 24))) n = Some (r', off) \<and> rmm_abs r' bs' \<and> n + 24 \<le> s' \<and>
         used_blocks bs' = insert (off - 24, s') (used_blocks bs - {(x, s)}) \<and> (off - 24, s') \<notin> used_blocks bs \<and>
         (\<forall>j < rsize r. bytes r' ! j = (if off \<le> j \<and> j < off + min s (APR_ALIGN_DEFAULT n) then bytes r ! (x + 24 + (j - off)) else bytes r ! j))
       else apr_rmm_realloc base 0 rv r (Some (base + (x + 24))) n = None))"
proof (cases "APR_ALIGN_DEFAULT n < n")
  case True
  then show ?thesis by (simp add: apr_rmm_realloc_def)
next
  case False
  then have n: "n + 7 < 2 ^ 64" using align_wraps [OF assms(3)] by fastforce
  have z: "APR_ALIGN_DEFAULT n < 2 ^ 64" using n by (auto simp: APR_ALIGN_DEFAULT_def)
  obtain r1 off where m: "apr_rmm_malloc r (APR_ALIGN_DEFAULT n) = Some (r1, off)" "off = 0 \<longrightarrow> r1 = r"
    using malloc_row [OF assms(1) z] by (elim exE conjE) (rule that)
  have "r1 = r \<and> apr_rmm_realloc base 0 rv r (Some (base + (x + 24))) n = Some (r, 0)" if "off = 0"
    using m that False by (simp add: apr_rmm_realloc_def Let_def)
  note fails = this
  show ?thesis
  proof (rule disjI2, intro exI conjI)
    show "n \<le> APR_ALIGN_DEFAULT n" using False by simp
    show "if off = 0 then r1 = r \<and> apr_rmm_realloc base 0 rv r (Some (base + (x + 24))) n = Some (r, 0)
       else if x + 24 + min s (APR_ALIGN_DEFAULT n) \<le> rsize r
       then \<exists>r' bs' s'. apr_rmm_realloc base 0 rv r (Some (base + (x + 24))) n = Some (r', off) \<and> rmm_abs r' bs' \<and> n + 24 \<le> s' \<and>
         used_blocks bs' = insert (off - 24, s') (used_blocks bs - {(x, s)}) \<and> (off - 24, s') \<notin> used_blocks bs \<and>
         (\<forall>j < rsize r. bytes r' ! j = (if off \<le> j \<and> j < off + min s (APR_ALIGN_DEFAULT n) then bytes r ! (x + 24 + (j - off)) else bytes r ! j))
       else apr_rmm_realloc base 0 rv r (Some (base + (x + 24))) n = None"
    proof (cases "off = 0")
      case True
      then show ?thesis using fails by simp
    next
      case nz: False
      show ?thesis unfolding if_not_P [OF nz] by (rule realloc_row [OF assms False m(1) nz])
    qed
  qed (rule m(1))
qed

lemma rmm_tight_malloc: "\<exists>r1. apr_rmm_malloc rmm_tight 56 = Some (r1, 48)"
proof -
  have "fst (rmm_alloc 56 [(24, 80, False), (104, 56, True)]) = 48"
    by (simp add: rmm_alloc_def request_size_def APR_ALIGN_DEFAULT_def)
  then show ?thesis using malloc_row [OF rmm_tight_abs, of 56] by auto
qed

theorem rmm_realloc_moves_witness: "apr_rmm_realloc 1000 0 0 rmm_tight (Some 1128) 56 = None"
proof -
  have "APR_ALIGN_DEFAULT 56 = 56" by (simp add: APR_ALIGN_DEFAULT_def)
  then show ?thesis
    using rmm_realloc_moves [OF rmm_tight_abs, of 104 56 56 1000 0] rmm_tight_malloc by (auto simp: rmm_tight_def)
qed

text \<open>\<open>apr_rmm_destroy\<close> ends: it walks both lists, clears the links of every block and leaves no list and no size.\<close>

theorem rmm_destroy_ends:
  assumes "rmm_abs r bs"
  shows "\<exists>r'. apr_rmm_destroy 0 rv r = Some (r', rv) \<and> rsize r' = 0 \<and> abssize r' = 0 \<and> firstused r' = 0 \<and> firstfree r' = 0 \<and>
    (\<forall>(x, s, u) \<in> set bs. blocks r' x = Some \<lparr>bsize = s, bprev = 0, bnext = 0\<rparr>)"
  using destroy_row [OF assms] .

theorem rmm_destroy_ends_witness: "\<exists>r'. apr_rmm_destroy 0 0 rmm_one = Some (r', 0) \<and> rsize r' = 0"
  using rmm_destroy_ends [OF rmm_one_abs, of 0] by auto

end
