(* ===== verification/AprStrmatch.thy ===== *)
theory AprStrmatch
  imports Prelude
begin

text \<open>
  Searching a text for a pattern: \<open>apr-util-1.3.9/strmatch/apr_strmatch.c\<close>, the algorithm of Horspool, with and without regard to case.

  A text is the list of its bytes, of which the first \<open>slen\<close> are searched; a position is an index. The result is \<open>None\<close> if the search
  reads outside the text or the pattern or does not return, \<open>Some None\<close> is the null pointer. The two search functions differ in the
  conversion of characters, \<open>conv\<close>.
\<close>

section \<open>The code\<close>

datatype comparator = Match_no_op | Match_boyer_moore_horspool | Match_boyer_moore_horspool_nocase

record strmatch_pattern =
  compare :: comparator
  pattern :: cstring
  plength :: nat
  context_shift :: "nat list"

function shift_loop :: "(byte \<Rightarrow> byte) \<Rightarrow> cstring \<Rightarrow> nat \<Rightarrow> nat list \<Rightarrow> nat \<Rightarrow> nat list" where
  "shift_loop conv s len shift i =
     (if i < len - 1 then shift_loop conv s len (shift[unat (conv (s ! i)) := len - i - 1]) (Suc i) else shift)"
  by pat_completeness auto
termination by (relation "measure (\<lambda>(conv, s, len, shift, i). len - i)") auto

definition apr_strmatch_precompile :: "cstring \<Rightarrow> bool \<Rightarrow> strmatch_pattern" where
  "apr_strmatch_precompile s case_sensitive =
     (let len = length s
      in if len = 0 then \<lparr>compare = Match_no_op, pattern = s, plength = len, context_shift = []\<rparr>
         else let shift = replicate 256 len
           in if case_sensitive
              then \<lparr>compare = Match_boyer_moore_horspool, pattern = s, plength = len, context_shift = shift_loop id s len shift 0\<rparr>
              else \<lparr>compare = Match_boyer_moore_horspool_nocase, pattern = s, plength = len, context_shift = shift_loop tolower s len shift 0\<rparr>)"

text \<open>The inner loop: from the text at \<open>s_tmp\<close> and the pattern at \<open>p_tmp\<close> backwards; \<open>Some None\<close> is a mismatch.\<close>

fun match_back :: "(byte \<Rightarrow> byte) \<Rightarrow> byte list \<Rightarrow> cstring \<Rightarrow> nat \<Rightarrow> nat \<Rightarrow> nat option option" where
  "match_back conv s p s_tmp p_tmp =
     (if s_tmp < length s \<and> p_tmp < length p
      then if conv (s ! s_tmp) = conv (p ! p_tmp)
           then case p_tmp of 0 \<Rightarrow> Some (Some s_tmp)
                | Suc p_tmp' \<Rightarrow> (case s_tmp of 0 \<Rightarrow> None | Suc s_tmp' \<Rightarrow> match_back conv s p s_tmp' p_tmp')
           else Some None
      else None)"

partial_function (option) horspool :: "(byte \<Rightarrow> byte) \<Rightarrow> strmatch_pattern \<Rightarrow> byte list \<Rightarrow> nat \<Rightarrow> nat \<Rightarrow> nat option option" where
  "horspool conv pat s slen s_next =
     (if s_next < slen
      then Option.bind (match_back conv s (pattern pat) s_next (plength pat - 1)) (\<lambda>m.
        case m of Some i \<Rightarrow> Some (Some i)
        | None \<Rightarrow> horspool conv pat s slen (s_next + context_shift pat ! unat (conv (s ! s_next))))
      else Some None)"

definition match_boyer_moore_horspool :: "strmatch_pattern \<Rightarrow> byte list \<Rightarrow> nat \<Rightarrow> nat option option" where
  "match_boyer_moore_horspool pat s slen = horspool id pat s slen (plength pat - 1)"

definition match_boyer_moore_horspool_nocase :: "strmatch_pattern \<Rightarrow> byte list \<Rightarrow> nat \<Rightarrow> nat option option" where
  "match_boyer_moore_horspool_nocase pat s slen = horspool tolower pat s slen (plength pat - 1)"

definition match_no_op :: "strmatch_pattern \<Rightarrow> byte list \<Rightarrow> nat \<Rightarrow> nat option option" where
  "match_no_op pat s slen = Some (Some 0)"

definition apr_strmatch :: "strmatch_pattern \<Rightarrow> byte list \<Rightarrow> nat \<Rightarrow> nat option option" where
  "apr_strmatch pat s slen =
     (case compare pat of
        Match_no_op \<Rightarrow> match_no_op pat s slen
      | Match_boyer_moore_horspool \<Rightarrow> match_boyer_moore_horspool pat s slen
      | Match_boyer_moore_horspool_nocase \<Rightarrow> match_boyer_moore_horspool_nocase pat s slen)"

section \<open>The table of shifts\<close>

declare shift_loop.simps [simp del] match_back.simps [simp del]

definition shifts_ok :: "(byte \<Rightarrow> byte) \<Rightarrow> cstring \<Rightarrow> nat list \<Rightarrow> nat \<Rightarrow> bool" where
  "shifts_ok conv p shift n \<longleftrightarrow> length shift = 256 \<and> (\<forall>c < 256. 0 < shift ! c \<and> shift ! c \<le> length p) \<and>
     (\<forall>j < n. shift ! unat (conv (p ! j)) + j + 1 \<le> length p)"

lemma unat_byte: "unat b < 256" for b :: byte
proof -
  have "unat b < 2 ^ LENGTH(8)" by (rule unsigned_less)
  then show ?thesis by simp
qed

lemma shift_loop_ok: "shifts_ok conv p shift i \<Longrightarrow> i \<le> length p - 1 \<Longrightarrow> shifts_ok conv p (shift_loop conv p (length p) shift i) (length p - 1)"
proof (induction "length p - 1 - i" arbitrary: shift i)
  case 0
  then have "i = length p - 1" by simp
  then show ?case unfolding shift_loop.simps [of conv p "length p" shift i] using "0.prems"(1) by simp
next
  case (Suc n)
  let ?c = "unat (conv (p ! i))"
  have i: "i < length p - 1" using Suc.hyps(2) by simp
  have "shifts_ok conv p (shift[?c := length p - i - 1]) (Suc i)"
    using Suc.prems(1) i unat_byte [of "conv (p ! i)"] by (auto simp: shifts_ok_def nth_list_update less_Suc_eq)
  then show ?case using Suc.hyps i by (simp add: shift_loop.simps [of conv p "length p" shift i])
qed

section \<open>The search\<close>

definition occurs :: "(byte \<Rightarrow> byte) \<Rightarrow> cstring \<Rightarrow> byte list \<Rightarrow> nat \<Rightarrow> nat \<Rightarrow> bool" where
  "occurs conv p s slen i \<longleftrightarrow> i + length p \<le> slen \<and> (\<forall>j < length p. conv (s ! (i + j)) = conv (p ! j))"

lemma match_back_eq:
  assumes "k + q < length s" "q < length p"
  shows "match_back conv s p (k + q) q = Some (if \<forall>j \<le> q. conv (s ! (k + j)) = conv (p ! j) then Some k else None)"
  using assms
proof (induction q)
  case 0
  then show ?case by (simp add: match_back.simps)
next
  case (Suc q)
  have "(\<forall>j \<le> Suc q. conv (s ! (k + j)) = conv (p ! j)) \<longleftrightarrow> conv (s ! (k + Suc q)) = conv (p ! Suc q) \<and> (\<forall>j \<le> q. conv (s ! (k + j)) = conv (p ! j))"
    by (auto simp: le_Suc_eq)
  then show ?case using Suc by (simp add: match_back.simps [of conv s p "Suc (k + q)"])
qed

lemma horspool_eq:
  assumes ok: "shifts_ok conv (pattern pat) (context_shift pat) (length (pattern pat) - 1)"
    and p: "pattern pat \<noteq> []" "plength pat = length (pattern pat)" and s: "slen \<le> length s"
    and no: "\<forall>i < k. \<not> occurs conv (pattern pat) s slen i"
  shows "horspool conv pat s slen (k + (plength pat - 1)) = Some (List.find (occurs conv (pattern pat) s slen) [k..<Suc slen])"
  using no
proof (induction "slen - k" arbitrary: k rule: less_induct)
  case less
  let ?p = "pattern pat" let ?m = "length (pattern pat)" let ?n = "k + (?m - 1)"
  have m: "0 < ?m" using p(1) by simp
  show ?case
  proof (cases "?n < slen")
    case False
    then have "\<not> occurs conv ?p s slen i" if "k \<le> i" for i
    proof -
      have "slen < i + ?m" using that False m by linarith
      then show ?thesis by (simp add: occurs_def)
    qed
    then have "List.find (occurs conv ?p s slen) [k..<Suc slen] = None" by (auto simp: find_None_iff)
    then show ?thesis
      unfolding horspool.simps [of conv pat s slen "k + (plength pat - 1)"] using False by (simp add: p(2) del: upt_Suc)
  next
    case True
    have b: "match_back conv s ?p ?n (?m - 1) = Some (if occurs conv ?p s slen k then Some k else None)"
    proof -
      have iff: "(\<forall>j \<le> ?m - 1. conv (s ! (k + j)) = conv (?p ! j)) \<longleftrightarrow> occurs conv ?p s slen k"
      proof -
        have "j \<le> ?m - 1 \<longleftrightarrow> j < ?m" for j using m by linarith
        moreover have "k + ?m \<le> slen" using True m by linarith
        ultimately show ?thesis by (simp add: occurs_def)
      qed
      have "k + (?m - 1) < length s" "?m - 1 < ?m" using True s m by linarith+
      from match_back_eq [OF this, of conv] show ?thesis unfolding iff .
    qed
    show ?thesis
    proof (cases "occurs conv ?p s slen k")
      case True
      then have "[k..<Suc slen] = k # [Suc k..<Suc slen]" using \<open>?n < slen\<close> by (simp add: upt_conv_Cons)
      then show ?thesis
        unfolding horspool.simps [of conv pat s slen "k + (plength pat - 1)"] using \<open>?n < slen\<close> True b by (simp add: p(2) del: upt_Suc)
    next
      case no: False
      define d where "d = context_shift pat ! unat (conv (s ! ?n))"
      have d: "0 < d" "d \<le> ?m" using ok unat_byte by (auto simp: shifts_ok_def d_def)
      have skip: "\<not> occurs conv ?p s slen i" if i: "i < k + d" for i
      proof (cases "k < i")
        case True
        show ?thesis
        proof
          assume o: "occurs conv ?p s slen i"
          let ?j = "?n - i"
          have j: "?j < ?m - 1" "i + ?j = ?n" using True i d(2) m by auto
          have "?j < ?m" using j(1) by linarith
          then have "conv (s ! (i + ?j)) = conv (?p ! ?j)" using o unfolding occurs_def by blast
          then have e: "conv (?p ! ?j) = conv (s ! ?n)" unfolding j(2) by (rule sym)
          have "context_shift pat ! unat (conv (?p ! ?j)) + ?j + 1 \<le> ?m" using ok j(1) unfolding shifts_ok_def by blast
          then have "d + ?j + 1 \<le> ?m" unfolding e d_def .
          then show False using i True j by simp
        qed
      next
        case False
        then show ?thesis using less.prems no by (cases "i = k") auto
      qed
      have "slen - (k + d) < slen - k" using \<open>?n < slen\<close> d(1) by simp
      then have IH: "horspool conv pat s slen (k + d + (plength pat - 1)) = Some (List.find (occurs conv ?p s slen) [k + d..<Suc slen])"
        using less.hyps [of "k + d"] skip by blast
      have "List.find (occurs conv ?p s slen) [k..<Suc slen] = List.find (occurs conv ?p s slen) [k + d..<Suc slen]"
      proof (cases "k + d \<le> Suc slen")
        case True
        then have "[k..<Suc slen] = [k..<k + d] @ [k + d..<Suc slen]" by (intro upt_split) auto
        moreover have "List.find (occurs conv ?p s slen) [k..<k + d] = None" using skip by (auto simp: find_None_iff)
        ultimately show ?thesis by (simp add: find_append)
      next
        case False
        then have "List.find (occurs conv ?p s slen) [k..<Suc slen] = None" using skip by (auto simp: find_None_iff)
        then show ?thesis using False by simp
      qed
      then show ?thesis
        unfolding horspool.simps [of conv pat s slen "k + (plength pat - 1)"] using \<open>?n < slen\<close> no b IH
        by (simp add: p(2) d_def ac_simps del: upt_Suc)
    qed
  qed
qed

section \<open>Property\<close>

text \<open>C26: \<open>apr_strmatch\<close> with a pattern that \<open>apr_strmatch_precompile\<close> made returns, reads inside the text and the pattern only, and yields the
  first position at which the pattern occurs, up to case if it was compiled so, or NULL if there is none.\<close>

theorem strmatch_leftmost:
  assumes "slen \<le> length s"
  shows "apr_strmatch (apr_strmatch_precompile p case_sensitive) s slen =
    Some (List.find (\<lambda>i. i + length p \<le> slen \<and>
      (\<forall>j < length p. if case_sensitive then s ! (i + j) = p ! j else tolower (s ! (i + j)) = tolower (p ! j))) [0..<Suc slen])"
proof -
  let ?conv = "if case_sensitive then id else tolower"
  have f: "(\<lambda>i. i + length p \<le> slen \<and> (\<forall>j < length p. if case_sensitive then s ! (i + j) = p ! j else tolower (s ! (i + j)) = tolower (p ! j))) =
      occurs ?conv p s slen"
    by (auto simp: occurs_def fun_eq_iff)
  show ?thesis
  proof (cases "p = []")
    case True
    have "[0..<Suc slen] = 0 # [Suc 0..<Suc slen]" by (simp add: upt_conv_Cons)
    then show ?thesis using True unfolding f
      by (simp add: apr_strmatch_precompile_def apr_strmatch_def match_no_op_def occurs_def)
  next
    case False
    have r: "shifts_ok ?conv p (replicate 256 (length p)) 0" using False by (simp add: shifts_ok_def)
    note ok = shift_loop_ok [OF r]
    show ?thesis
    proof (cases case_sensitive)
      case True
      define pat where "pat = apr_strmatch_precompile p True"
      have pat: "pattern pat = p" "plength pat = length p" "compare pat = Match_boyer_moore_horspool"
        "context_shift pat = shift_loop id p (length p) (replicate 256 (length p)) 0"
        using False by (simp_all add: pat_def apr_strmatch_precompile_def Let_def)
      show ?thesis
        using horspool_eq [of id pat slen s 0] ok False assms True unfolding f
        by (simp add: pat pat_def [symmetric] apr_strmatch_def match_boyer_moore_horspool_def)
    next
      case nc: False
      define pat where "pat = apr_strmatch_precompile p False"
      have pat: "pattern pat = p" "plength pat = length p" "compare pat = Match_boyer_moore_horspool_nocase"
        "context_shift pat = shift_loop tolower p (length p) (replicate 256 (length p)) 0"
        using False by (simp_all add: pat_def apr_strmatch_precompile_def Let_def)
      show ?thesis
        using horspool_eq [of tolower pat slen s 0] ok False assms nc unfolding f
        by (simp add: pat pat_def [symmetric] apr_strmatch_def match_boyer_moore_horspool_nocase_def)
    qed
  qed
qed

theorem strmatch_leftmost_witness: "apr_strmatch (apr_strmatch_precompile [0x41, 0x62] False) [0x78, 0x61, 0x42] 3 = Some (Some 1)"
proof -
  have u: "[0..<4] = [0, 1, 2, 3]" by (simp add: upt_rec)
  have q: "(\<forall>j < 2. P j) = (P 0 \<and> P 1)" for P :: "nat \<Rightarrow> bool" by (auto simp: less_2_cases_iff)
  have l: "length [0x41 :: byte, 0x62] = 2" by simp
  show ?thesis by (subst strmatch_leftmost) (simp, simp add: tolower_def u q l del: upt_Suc list.size)
qed

end
