(* ===== verification/AprNatcmp.thy ===== *)
theory AprNatcmp
  imports Prelude
begin

text \<open>
  Natural order: \<open>apr-1.3.8/strings/apr_strnatcmp.c\<close>. A pointer into a string is the rest of the string from there on, and \<open>at\<close>
  reads the byte it points to, the NUL at the end included. A \<open>char\<close> is signed: characters compare as \<open>sint\<close>. The code holds the
  two positions in \<open>int\<close> indexes, which never pass the NUL: they are those of the model for strings shorter than \<open>2 ^ 31\<close> bytes.
\<close>

section \<open>The code\<close>

definition at :: "cstring \<Rightarrow> byte" where
  "at s = (case s of [] \<Rightarrow> 0 | c # _ \<Rightarrow> c)"

abbreviation char_less :: "byte \<Rightarrow> byte \<Rightarrow> bool" where
  "char_less x y \<equiv> sint x < sint y"

function compare_right :: "cstring \<Rightarrow> cstring \<Rightarrow> int \<Rightarrow> int" where
  "compare_right a b bias =
     (if \<not> isdigit (at a) \<and> \<not> isdigit (at b) then bias
      else if \<not> isdigit (at a) then - 1
      else if \<not> isdigit (at b) then 1
      else if char_less (at a) (at b) then compare_right (tl a) (tl b) (if bias = 0 then - 1 else bias)
      else if char_less (at b) (at a) then compare_right (tl a) (tl b) (if bias = 0 then 1 else bias)
      else if at a = 0 \<and> at b = 0 then bias
      else compare_right (tl a) (tl b) bias)"
  by pat_completeness auto
termination
  by (relation "measure (\<lambda>(a, b, bias). length a)") (auto simp: at_def isdigit_def split: list.splits)

function compare_left :: "cstring \<Rightarrow> cstring \<Rightarrow> int" where
  "compare_left a b =
     (if \<not> isdigit (at a) \<and> \<not> isdigit (at b) then 0
      else if \<not> isdigit (at a) then - 1
      else if \<not> isdigit (at b) then 1
      else if char_less (at a) (at b) then - 1
      else if char_less (at b) (at a) then 1
      else compare_left (tl a) (tl b))"
  by pat_completeness auto
termination
  by (relation "measure (\<lambda>(a, b). length a)") (auto simp: at_def isdigit_def split: list.splits)

fun skip_spaces :: "cstring \<Rightarrow> cstring" where
  "skip_spaces [] = []"
| "skip_spaces (c # cs) = (if isspace c then skip_spaces cs else c # cs)"

text \<open>One round of the loop: \<open>Inl\<close> is the result, \<open>Inr\<close> are the two positions for the next round.\<close>

definition natcmp_round :: "bool \<Rightarrow> cstring \<Rightarrow> cstring \<Rightarrow> int + (cstring \<times> cstring)" where
  "natcmp_round nocase a b =
     (let a = skip_spaces a; b = skip_spaces b; ca = at a; cb = at b;
          result = (if isdigit ca \<and> isdigit cb
                    then if ca = 0x30 \<or> cb = 0x30 then compare_left a b else compare_right a b 0
                    else 0)
      in if result \<noteq> 0 then Inl result
         else if ca = 0 \<and> cb = 0 then Inl 0
         else let ca = (if nocase then toupper ca else ca); cb = (if nocase then toupper cb else cb)
           in if char_less ca cb then Inl (- 1)
              else if char_less cb ca then Inl 1
              else Inr (tl a, tl b))"

lemma length_skip_spaces: "length (skip_spaces s) \<le> length s"
  by (induction s) auto

lemma toupper_0: "toupper c = 0 \<longleftrightarrow> c = 0"
  by (auto simp: toupper_def)

lemma char_eq: "\<not> char_less x y \<Longrightarrow> \<not> char_less y x \<Longrightarrow> x = y"
  by (simp add: signed_word_eqI)

lemma natcmp_round_Inr:
  assumes "natcmp_round f a b = Inr (a', b')"
  shows "\<exists>x y. skip_spaces a = x # a' \<and> skip_spaces b = y # b'"
proof -
  let ?a = "skip_spaces a" let ?b = "skip_spaces b"
  let ?x = "if f then toupper (at ?a) else at ?a" let ?y = "if f then toupper (at ?b) else at ?b"
  have r: "\<not> (at ?a = 0 \<and> at ?b = 0)" "\<not> char_less ?x ?y" "\<not> char_less ?y ?x" "a' = tl ?a" "b' = tl ?b"
    using assms unfolding natcmp_round_def Let_def by (auto split: if_splits)
  have "?x = ?y" using r(2,3) by (rule char_eq)
  then have "at ?a \<noteq> 0" "at ?b \<noteq> 0" using r(1) by (auto simp: toupper_0 split: if_splits) (metis toupper_0)+
  then show ?thesis using r(4,5) by (auto simp: at_def split: list.splits)
qed

lemma natcmp_round_shorter: "natcmp_round f a b = Inr (a', b') \<Longrightarrow> length a' + length b' < length a + length b"
  using natcmp_round_Inr [of f a b a' b'] length_skip_spaces [of a] length_skip_spaces [of b] by fastforce

function strnatcmp0 :: "bool \<Rightarrow> cstring \<Rightarrow> cstring \<Rightarrow> int" where
  "strnatcmp0 nocase a b =
     (case natcmp_round nocase a b of Inl result \<Rightarrow> result | Inr (a, b) \<Rightarrow> strnatcmp0 nocase a b)"
  by pat_completeness auto
termination
  by (relation "measure (\<lambda>(f, a, b). length a + length b)") (auto dest: natcmp_round_shorter)



section \<open>Symmetry\<close>

declare compare_right.simps [simp del] compare_left.simps [simp del] strnatcmp0.simps [simp del]





section \<open>Numbers\<close>





lemma digit_unat: "isdigit c \<Longrightarrow> 48 \<le> unat c \<and> unat c \<le> 57"
  unfolding isdigit_def word_le_nat_alt by simp










section \<open>Rounds\<close>


lemma toupper_digit: "isdigit c \<Longrightarrow> toupper c = c"
  using digit_unat [of c] by (auto simp: toupper_def word_le_nat_alt)









section \<open>Properties\<close>



end
