(* ===== verification/AprTokenize.thy ===== *)
theory AprTokenize
  imports AprStrings
begin

text \<open>
  Command lines: \<open>apr_tokenize_to_argv\<close> of \<open>apr-1.3.8/strings/apr_cpystrn.c\<close>. A pointer into the argument string is the rest of the
  string; in the second pass it is \<open>None\<close> once it has moved past the NUL, and reading it there ends the model. The result is the block of
  pointers: each slot is \<open>Some\<close> of the argument's block or the final NULL (\<open>Some None\<close>). Every argument is copied into a block of its own
  by \<open>apr_cpystrn\<close> and freed of its escapes in place; reads of bytes not written and writes outside a block give \<open>None\<close>.
  The code counts the arguments in an \<open>int\<close>, the model in a number without bound; by \<open>count_args_bound\<close> they agree for strings
  shorter than \<open>2 ^ 31 - 1\<close> bytes.
\<close>

section \<open>The code\<close>

fun SKIP_WHITESPACE :: "cstring \<Rightarrow> cstring" where
  "SKIP_WHITESPACE [] = []"
| "SKIP_WHITESPACE (c # cs) = (if c = 0x20 \<or> c = 0x09 then SKIP_WHITESPACE cs else c # cs)"

definition CHECK_QUOTATION :: "cstring \<Rightarrow> cstring \<times> nat" where
  "CHECK_QUOTATION cp =
     (if cget cp 0 = 0x22 then (tl cp, 1) else if cget cp 0 = 0x27 then (tl cp, 2) else (cp, 0))"

definition escapable :: "byte \<Rightarrow> bool" where
  "escapable c \<longleftrightarrow> c = 0x20 \<or> c = 0x09 \<or> c = 0x22 \<or> c = 0x27"

definition ends_string :: "nat \<Rightarrow> byte \<Rightarrow> bool" where
  "ends_string isquoted c \<longleftrightarrow>
     (isquoted = 0 \<and> (c = 0x20 \<or> c = 0x09)) \<or> (isquoted = 1 \<and> c = 0x22) \<or> (isquoted = 2 \<and> c = 0x27)"

fun DETERMINE_NEXTSTRING :: "nat \<Rightarrow> cstring \<Rightarrow> cstring" where
  "DETERMINE_NEXTSTRING isquoted [] = []"
| "DETERMINE_NEXTSTRING isquoted (c # cs) =
     (if c = 0x5c \<and> escapable (cget cs 0) then DETERMINE_NEXTSTRING isquoted (tl cs)
      else if ends_string isquoted c then c # cs
      else DETERMINE_NEXTSTRING isquoted cs)"

lemma length_SKIP_WHITESPACE: "length (SKIP_WHITESPACE s) \<le> length s"
  by (induction s) auto

lemma length_DETERMINE_NEXTSTRING: "length (DETERMINE_NEXTSTRING q s) \<le> length s"
  by (induction q s rule: DETERMINE_NEXTSTRING.induct) auto

lemma CHECK_QUOTATION_length: "CHECK_QUOTATION s = (ct, q) \<Longrightarrow> length ct \<le> length s"
  by (auto simp: CHECK_QUOTATION_def split: if_splits)

lemma next_argument_shorter:
  assumes "ct \<noteq> []" "CHECK_QUOTATION ct = (ct', q)"
  shows "length (SKIP_WHITESPACE (tl (DETERMINE_NEXTSTRING q ct'))) < length ct"
proof -
  have "length (DETERMINE_NEXTSTRING q ct') \<le> length ct"
    using length_DETERMINE_NEXTSTRING [of q ct'] CHECK_QUOTATION_length [OF assms(2)] by simp
  then have "length (tl (DETERMINE_NEXTSTRING q ct')) < length ct" using assms(1) by (cases ct) auto
  then show ?thesis using length_SKIP_WHITESPACE [of "tl (DETERMINE_NEXTSTRING q ct')"] by linarith
qed

function count_args :: "cstring \<Rightarrow> nat \<Rightarrow> nat" where
  "count_args ct numargs =
     (if ct = [] then numargs
      else let (ct', isquoted) = CHECK_QUOTATION ct; ct'' = DETERMINE_NEXTSTRING isquoted ct'
        in count_args (SKIP_WHITESPACE (if ct'' \<noteq> [] then tl ct'' else ct'')) (numargs + 1))"
  by pat_completeness auto
termination
proof (relation "measure (\<lambda>(ct, n). length ct)", goal_cases)
  case (2 ct n p ct' q ct'')
  then show ?case using next_argument_shorter [of ct ct' q] by auto
qed simp

declare count_args.simps [simp del]

lemma count_args_bound: "count_args ct numargs \<le> numargs + length ct"
proof (induction "length ct" arbitrary: ct numargs rule: less_induct)
  case less
  show ?case
  proof (cases "ct = []")
    case False
    obtain ct' q where c: "CHECK_QUOTATION ct = (ct', q)" by fastforce
    let ?next = "SKIP_WHITESPACE (tl (DETERMINE_NEXTSTRING q ct'))"
    have "count_args ct numargs = count_args ?next (numargs + 1)"
      using False c by (subst count_args.simps) (auto simp: Let_def)
    moreover have "length ?next < length ct" by (rule next_argument_shorter [OF False c])
    ultimately show ?thesis using less [of ?next "numargs + 1"] by linarith
  qed (simp add: count_args.simps)
qed

function REMOVE_ESCAPE_CHARS :: "byte mem \<Rightarrow> nat \<Rightarrow> nat \<Rightarrow> bool \<Rightarrow> byte mem option" where
  "REMOVE_ESCAPE_CHARS m cleaned dirty escaped =
     (if dirty < length m
      then case m ! dirty of
          None \<Rightarrow> None
        | Some c \<Rightarrow>
            if c \<noteq> 0
            then if \<not> escaped \<and> c = 0x5c then REMOVE_ESCAPE_CHARS m cleaned (dirty + 1) True
              else Option.bind (mem_write m cleaned [c]) (\<lambda>m. REMOVE_ESCAPE_CHARS m (cleaned + 1) (dirty + 1) False)
            else mem_write m cleaned [0]
      else None)"
  by pat_completeness auto
termination
  by (relation "measure (\<lambda>(m, cleaned, dirty, escaped). length m - dirty)") (auto dest: mem_write_length)

declare REMOVE_ESCAPE_CHARS.simps [simp del]

definition past :: "cstring \<Rightarrow> cstring option" where
  "past cp = (case cp of [] \<Rightarrow> None | _ # cs \<Rightarrow> Some cs)"

fun fill_argv :: "nat \<Rightarrow> nat \<Rightarrow> cstring option \<Rightarrow> byte mem option mem \<Rightarrow> byte mem option mem option" where
  "fill_argv 0 argnum cp argv = mem_write argv argnum [None]"
| "fill_argv (Suc k) argnum cp argv =
     Option.bind cp (\<lambda>cp.
       let (ct, isquoted) = CHECK_QUOTATION (SKIP_WHITESPACE cp);
           cp = DETERMINE_NEXTSTRING isquoted ct;
           size = length ct - length cp + 1
       in Option.bind (apr_cpystrn (palloc size) ct size) (\<lambda>(arg, _).
          Option.bind (REMOVE_ESCAPE_CHARS arg 0 0 False) (\<lambda>arg.
          Option.bind (mem_write argv argnum [Some arg]) (fill_argv k (argnum + 1) (past cp)))))"

definition apr_tokenize_to_argv :: "cstring \<Rightarrow> byte mem option mem option" where
  "apr_tokenize_to_argv arg_str =
     (let cp = SKIP_WHITESPACE arg_str; numargs = count_args cp 1
      in fill_argv (numargs - 1) 0 (Some cp) (palloc numargs))"

section \<open>Escapes\<close>

fun unescape :: "bool \<Rightarrow> cstring \<Rightarrow> cstring" where
  "unescape escaped [] = []"
| "unescape escaped (c # cs) = (if \<not> escaped \<and> c = 0x5c then unescape True cs else c # unescape False cs)"

definition holds :: "byte mem \<Rightarrow> cstring \<Rightarrow> bool" where
  "holds m s \<longleftrightarrow> take (length s + 1) m = map Some (s @ [0])"

lemma REMOVE_ESCAPE_CHARS_eq:
  assumes "0 \<notin> set s" "cleaned \<le> dirty" "drop dirty m = map Some (s @ [0])" "take cleaned m = map Some w"
  shows "\<exists>m'. REMOVE_ESCAPE_CHARS m cleaned dirty escaped = Some m' \<and> length m' = length m \<and>
    holds m' (w @ unescape escaped s)"
  using assms
proof (induction s arbitrary: m cleaned dirty escaped w)
  case Nil
  have d: "dirty < length m" "m ! dirty = Some 0" using Nil.prems by (auto simp: nth_via_drop dest: arg_cong [of _ _ length])
  then have l: "dirty < length m" "m ! dirty = Some 0" "length w = cleaned"
    using arg_cong [OF Nil.prems(4), of length] Nil.prems(2) by simp_all
  have "mem_write m cleaned [0] = Some (take cleaned m @ [Some 0] @ drop (cleaned + 1) m)"
    using l Nil.prems(2) by (simp add: mem_write_def)
  then show ?case using l Nil.prems by (simp add: REMOVE_ESCAPE_CHARS.simps [of m] holds_def)
next
  case (Cons c s)
  have "dirty < length m" using Cons.prems by (auto dest: arg_cong [of _ _ length])
  then have l: "dirty < length m" "length w = cleaned" using arg_cong [OF Cons.prems(4), of length] Cons.prems(2) by simp_all
  have c: "m ! dirty = Some c" "c \<noteq> 0" "0 \<notin> set s" using Cons.prems by (auto simp: nth_via_drop)
  have d: "drop (dirty + 1) m = map Some (s @ [0])" using arg_cong [OF Cons.prems(3), of tl] by (simp add: tl_drop [symmetric] drop_Suc)
  show ?case
  proof (cases "\<not> escaped \<and> c = 0x5c")
    case True
    then show ?thesis using Cons.IH [OF c(3) _ d, of cleaned w True] Cons.prems(2,4) l c by (simp add: REMOVE_ESCAPE_CHARS.simps [of m cleaned dirty False])
  next
    case False
    let ?m = "take cleaned m @ [Some c] @ drop (cleaned + 1) m"
    have w: "mem_write m cleaned [c] = Some ?m" using l Cons.prems(2) by (simp add: mem_write_def)
    have m: "drop (dirty + 1) ?m = map Some (s @ [0])" "take (cleaned + 1) ?m = map Some (w @ [c])" "length ?m = length m"
      using d l Cons.prems(2,4) by (simp_all add: min_def Suc_diff_le)
    have "REMOVE_ESCAPE_CHARS m cleaned dirty escaped = REMOVE_ESCAPE_CHARS ?m (cleaned + 1) (dirty + 1) False"
      unfolding REMOVE_ESCAPE_CHARS.simps [of m cleaned dirty escaped] using False c l w by auto
    moreover have "unescape escaped (c # s) = c # unescape False s" using False by auto
    moreover have "\<exists>m'. REMOVE_ESCAPE_CHARS ?m (cleaned + 1) (dirty + 1) False = Some m' \<and> length m' = length ?m \<and>
        holds m' ((w @ [c]) @ unescape False s)"
      using Cons.prems(2) by (intro Cons.IH [OF c(3) _ m(1,2)]) simp
    ultimately show ?thesis unfolding m(3) by (simp only: append_assoc append_Cons append_Nil)
  qed
qed

section \<open>Arguments\<close>

text \<open>The arguments of a string: each is read up to its end and freed of its escapes; the next begins behind that end.\<close>

function arguments :: "cstring \<Rightarrow> cstring list" where
  "arguments s =
     (let s = SKIP_WHITESPACE s in
      if s = [] then []
      else let (ct, isquoted) = CHECK_QUOTATION s; cp = DETERMINE_NEXTSTRING isquoted ct
        in unescape False (take (length ct - length cp) ct) # arguments (tl cp))"
  by pat_completeness auto
termination
proof (relation "measure length", goal_cases)
  case (2 s s' p ct q cp)
  then have "s' \<noteq> []" "CHECK_QUOTATION s' = (ct, q)" by simp_all
  then have "length (DETERMINE_NEXTSTRING q ct) \<le> length s'" "s' \<noteq> []"
    using length_DETERMINE_NEXTSTRING [of q ct] CHECK_QUOTATION_length by (meson order.trans)+
  moreover have "0 < length s'" using \<open>s' \<noteq> []\<close> by simp
  ultimately show ?case using 2 length_SKIP_WHITESPACE [of s] by (simp only: in_measure length_tl, linarith?)
qed simp

declare arguments.simps [simp del]

lemma SKIP_WHITESPACE_idem [simp]: "SKIP_WHITESPACE (SKIP_WHITESPACE s) = SKIP_WHITESPACE s"
  by (induction s) auto

lemma count_args_arguments: "count_args (SKIP_WHITESPACE s) n = n + length (arguments s)"
proof (induction s arbitrary: n rule: arguments.induct)
  case (1 s)
  show ?case
  proof (cases "SKIP_WHITESPACE s = []")
    case True
    then show ?thesis by (simp add: count_args.simps [of "[]"] arguments.simps [of s])
  next
    case False
    obtain ct q where c: "CHECK_QUOTATION (SKIP_WHITESPACE s) = (ct, q)" by fastforce
    let ?cp = "DETERMINE_NEXTSTRING q ct"
    have "(if ?cp \<noteq> [] then tl ?cp else ?cp) = tl ?cp" by simp
    then have "count_args (SKIP_WHITESPACE s) n = count_args (SKIP_WHITESPACE (tl ?cp)) (n + 1)"
      using False c by (simp add: count_args.simps [of "SKIP_WHITESPACE s"])
    also have "\<dots> = n + 1 + length (arguments (tl ?cp))" using 1 [OF refl False c [symmetric] refl refl] by simp
    finally show ?thesis using False c by (simp add: arguments.simps [of s] Let_def)
  qed
qed

lemma DETERMINE_NEXTSTRING_suffix: "\<exists>u. s = u @ DETERMINE_NEXTSTRING q s"
proof (induction q s rule: DETERMINE_NEXTSTRING.induct)
  case (2 q c cs)
  show ?case
  proof (cases "c = 0x5c \<and> escapable (cget cs 0)")
    case True
    then obtain u where "tl cs = u @ DETERMINE_NEXTSTRING q (tl cs)" using 2 by blast
    moreover have "cs \<noteq> []" using True by (auto simp: cget_def escapable_def)
    ultimately have "c # cs = (c # hd cs # u) @ DETERMINE_NEXTSTRING q (c # cs)" using True by simp
    then show ?thesis by blast
  next
    case False
    show ?thesis
    proof (cases "ends_string q c")
      case True
      then have "DETERMINE_NEXTSTRING q (c # cs) = c # cs" unfolding DETERMINE_NEXTSTRING.simps using False by (simp only: if_True if_False)
      then show ?thesis by simp
    next
      case stop: False
      then obtain u where "cs = u @ DETERMINE_NEXTSTRING q cs" using 2 False by blast
      moreover have "DETERMINE_NEXTSTRING q (c # cs) = DETERMINE_NEXTSTRING q cs"
        unfolding DETERMINE_NEXTSTRING.simps using False stop by (simp only: if_False)
      ultimately have "c # cs = (c # u) @ DETERMINE_NEXTSTRING q (c # cs)" by simp
      then show ?thesis by blast
    qed
  qed
qed simp

text \<open>The second pass, one argument: the copy fits its block exactly.\<close>

lemma copy_argument:
  assumes "0 \<notin> set (u @ cp)" "n = length u + 1"
  shows "apr_cpystrn (palloc n) (u @ cp) n = Some (map Some (u @ [0]), length u)"
proof -
  have "min (length (u @ cp)) (n - 1) = length u" "drop (length u + 1) (palloc n) = []" using assms(2) by simp_all
  then show ?thesis
    using cpystrn_loop_eq [of "u @ cp" "[]" "n - 1" "palloc n"] assms by (simp add: apr_cpystrn_def Let_def)
qed

lemma SKIP_WHITESPACE_set: "set (SKIP_WHITESPACE s) \<subseteq> set s"
  by (induction s) auto

lemma CHECK_QUOTATION_set: "CHECK_QUOTATION s = (ct, q) \<Longrightarrow> set ct \<subseteq> set s"
  by (cases s) (auto simp: CHECK_QUOTATION_def split: if_splits)

lemma fill_argv_eq:
  assumes "0 \<notin> set s" "argv = map (\<lambda>b. Some (Some b)) ready @ palloc (k + 1)" "k = length (arguments s)"
    "k = 0 \<or> cp = Some s"
  shows "\<exists>blocks. fill_argv k (length ready) cp argv = Some (map (\<lambda>b. Some (Some b)) (ready @ blocks) @ [Some None]) \<and>
    list_all2 holds blocks (arguments s)"
  using assms
proof (induction k arbitrary: s cp argv "ready")
  case 0
  then show ?case by (simp add: mem_write_def palloc_def)
next
  case (Suc k)
  let ?s = "SKIP_WHITESPACE s"
  obtain ct q where c: "CHECK_QUOTATION ?s = (ct, q)" by fastforce
  define stop where "stop = DETERMINE_NEXTSTRING q ct"
  have ne: "?s \<noteq> []" using Suc.prems(3) by (auto simp: arguments.simps [of s])
  obtain u where u: "ct = u @ stop" unfolding stop_def using DETERMINE_NEXTSTRING_suffix [of ct q] by blast
  have lu: "length ct - length stop = length u" "take (length ct - length stop) ct = u" by (simp_all add: u)
  have a: "arguments s = unescape False u # arguments (tl stop)" using ne c lu(2) by (simp add: arguments.simps [of s] Let_def stop_def)
  have z: "0 \<notin> set ct" using Suc.prems(1) CHECK_QUOTATION_set [OF c] SKIP_WHITESPACE_set [of s] by blast
  then have zu: "0 \<notin> set u" "0 \<notin> set (tl stop)" unfolding u by (cases stop; simp)+
  have copy: "apr_cpystrn (palloc (length u + 1)) ct (length u + 1) = Some (map Some (u @ [0]), length u)"
    using copy_argument [of u stop "length u + 1"] z u by simp
  obtain b where b: "REMOVE_ESCAPE_CHARS (map Some (u @ [0])) 0 0 False = Some b" "holds b (unescape False u)"
    using REMOVE_ESCAPE_CHARS_eq [OF zu(1), of 0 0 "map Some (u @ [0])" "[]" False] by auto
  have w: "mem_write argv (length ready) [Some b] = Some (map (\<lambda>b. Some (Some b)) (ready @ [b]) @ palloc (k + 1))"
    unfolding Suc.prems(2) by (simp add: mem_write_def palloc_def)
  have p: "k = 0 \<or> past stop = Some (tl stop)"
    using Suc.prems(3) a by (cases stop) (auto simp: past_def arguments.simps [of "[]"])
  have "\<exists>blocks. fill_argv k (length (ready @ [b])) (past stop) (map (\<lambda>b. Some (Some b)) (ready @ [b]) @ palloc (k + 1)) =
      Some (map (\<lambda>b. Some (Some b)) ((ready @ [b]) @ blocks) @ [Some None]) \<and> list_all2 holds blocks (arguments (tl stop))"
    using Suc.prems(3) a p zu(2) by (intro Suc.IH) simp_all
  then obtain bs where bs: "fill_argv k (length (ready @ [b])) (past stop) (map (\<lambda>b. Some (Some b)) (ready @ [b]) @ palloc (k + 1)) =
      Some (map (\<lambda>b. Some (Some b)) ((ready @ [b]) @ bs) @ [Some None])" "list_all2 holds bs (arguments (tl stop))" by blast
  have "cp = Some s" using Suc.prems(4) by simp
  then have "fill_argv (Suc k) (length ready) cp argv = Some (map (\<lambda>b. Some (Some b)) (ready @ b # bs) @ [Some None])"
    using c lu copy b w bs(1) by (simp add: Let_def stop_def [symmetric])
  then show ?case using bs(2) b(2) unfolding a by (intro exI [of _ "b # bs"]) simp
qed

lemma passes_agree:
  assumes "0 \<notin> set arg_str"
  defines "cp \<equiv> SKIP_WHITESPACE arg_str"
  shows "\<exists>blocks. fill_argv (count_args cp 1 - 1) 0 (Some cp) (palloc (count_args cp 1)) =
      Some (map (\<lambda>b. Some (Some b)) blocks @ [Some None]) \<and>
    list_all2 holds blocks (arguments arg_str)"
proof -
  have n: "count_args cp 1 = length (arguments arg_str) + 1" by (simp add: count_args_arguments cp_def)
  have z: "0 \<notin> set cp" using assms SKIP_WHITESPACE_set [of arg_str] by blast
  have a: "arguments cp = arguments arg_str" by (simp add: cp_def arguments.simps [of arg_str] arguments.simps [of "SKIP_WHITESPACE arg_str"])
  show ?thesis using fill_argv_eq [OF z, of _ "[]" _ "Some cp"] n by (simp add: a)
qed

section \<open>Properties\<close>

text \<open>C27: Splitting a string into arguments reads and writes inside its blocks only, for every string: the second pass finds exactly the
  arguments the first one counted, never reads behind the NUL, fills all slots of the result, the last with NULL, and each argument's block
  holds the argument, freed of its escapes, and its NUL.\<close>

theorem tokenize_safe:
  assumes "0 \<notin> set arg_str"
  shows "\<exists>blocks. apr_tokenize_to_argv arg_str = Some (map (\<lambda>b. Some (Some b)) blocks @ [Some None]) \<and>
    list_all2 holds blocks (arguments arg_str)"
  unfolding apr_tokenize_to_argv_def Let_def by (rule passes_agree [OF assms])

theorem tokenize_safe_witness:
  "\<exists>blocks. apr_tokenize_to_argv (cstr '' a 'b c'd'') = Some (map (\<lambda>b. Some (Some b)) blocks @ [Some None]) \<and>
    list_all2 holds blocks [cstr ''a'', cstr ''b c'', cstr ''d'']"
  using tokenize_safe [of "cstr '' a 'b c'd''"]
  by (simp add: arguments.simps CHECK_QUOTATION_def cget_def ends_string_def)

text \<open>A command line for a list of arguments: each in quotes of its own kind, backslashes and that quote escaped, a blank between.\<close>

fun escape :: "byte \<Rightarrow> cstring \<Rightarrow> cstring" where
  "escape quote [] = []"
| "escape quote (c # cs) = (if c = 0x5c \<or> c = quote then 0x5c # c # escape quote cs else c # escape quote cs)"

fun command_line :: "(byte \<times> cstring) list \<Rightarrow> cstring" where
  "command_line [] = []"
| "command_line ((quote, arg) # args) = quote # escape quote arg @ quote # 0x20 # command_line args"

definition quotable :: "byte \<times> cstring \<Rightarrow> bool" where
  "quotable = (\<lambda>(quote, arg). (quote = 0x22 \<or> quote = 0x27) \<and> 0 \<notin> set arg \<and> (arg \<noteq> [] \<longrightarrow> last arg \<noteq> 0x5c))"

lemma unescape_escape: "unescape False (escape quote arg) = arg"
  by (induction arg) auto

definition quote_kind :: "byte \<Rightarrow> nat" where
  "quote_kind quote = (if quote = 0x22 then 1 else 2)"

lemma after_backslash:
  assumes "quote = 0x22 \<or> quote = 0x27" "arg \<noteq> []"
  shows "DETERMINE_NEXTSTRING (quote_kind quote) (0x5c # escape quote arg @ quote # rest) =
    DETERMINE_NEXTSTRING (quote_kind quote) (escape quote arg @ quote # rest)"
  using assms by (cases arg) (auto simp: escapable_def ends_string_def quote_kind_def cget_def)

lemma quoted_end:
  assumes "quotable (quote, arg)"
  shows "DETERMINE_NEXTSTRING (quote_kind quote) (escape quote arg @ quote # rest) = quote # rest"
  using assms
proof (induction arg)
  case Nil
  then show ?case by (auto simp: quotable_def escapable_def ends_string_def quote_kind_def)
next
  case (Cons c arg)
  have q: "quote = 0x22 \<or> quote = 0x27" using Cons.prems by (simp add: quotable_def)
  have IH: "DETERMINE_NEXTSTRING (quote_kind quote) (escape quote arg @ quote # rest) = quote # rest"
    using Cons by (auto simp: quotable_def split: if_splits)
  consider "c = 0x5c" | "c = quote" "c \<noteq> 0x5c" | "c \<noteq> 0x5c" "c \<noteq> quote" by blast
  then show ?case
  proof cases
    case 1
    then have "arg \<noteq> []" using Cons.prems by (auto simp: quotable_def)
    then show ?thesis using 1 IH after_backslash [OF q, of arg rest]
      by (simp add: escapable_def ends_string_def cget_def)
  next
    case 2
    then show ?thesis using IH q by (auto simp: escapable_def cget_def)
  next
    case 3
    then show ?thesis using IH q by (auto simp: ends_string_def quote_kind_def)
  qed
qed

lemma arguments_command_line: "\<forall>qa \<in> set args. quotable qa \<Longrightarrow> arguments (command_line args) = map snd args"
proof (induction args)
  case Nil
  then show ?case by (simp add: arguments.simps)
next
  case (Cons qa args)
  obtain quote arg where qa: "qa = (quote, arg)" by fastforce
  have q: "quote = 0x22 \<or> quote = 0x27" using Cons.prems by (simp add: qa quotable_def)
  have skip: "arguments (0x20 # s) = arguments s" for s by (simp add: arguments.simps [of "0x20 # s"] arguments.simps [of s])
  let ?s = "escape quote arg @ quote # 0x20 # command_line args"
  have "CHECK_QUOTATION (quote # ?s) = (?s, quote_kind quote)" "SKIP_WHITESPACE (quote # ?s) = quote # ?s"
    using q by (auto simp: CHECK_QUOTATION_def cget_def quote_kind_def)
  moreover have "DETERMINE_NEXTSTRING (quote_kind quote) ?s = quote # 0x20 # command_line args"
    using Cons.prems by (intro quoted_end) (simp add: qa)
  ultimately have "arguments (quote # ?s) = arg # arguments (0x20 # command_line args)"
    by (simp add: arguments.simps [of "quote # ?s"] Let_def unescape_escape)
  then show ?case using Cons qa skip by simp
qed

lemma command_line_nul: "\<forall>qa \<in> set args. quotable qa \<Longrightarrow> 0 \<notin> set (command_line args)"
proof (induction args)
  case (Cons qa args)
  have "0 \<notin> set arg \<Longrightarrow> quote \<noteq> 0 \<Longrightarrow> 0 \<notin> set (escape quote arg)" for quote arg by (induction arg) auto
  then show ?case using Cons by (cases qa) (auto simp: quotable_def)
qed simp

text \<open>C28: Every list of arguments that hold no NUL and do not end in a backslash can be passed: splitting the command line that quotes
  them, each in single or in double quotes, gives exactly these arguments.\<close>

theorem tokenize_command_line:
  assumes "\<forall>qa \<in> set args. quotable qa"
  shows "\<exists>blocks. apr_tokenize_to_argv (command_line args) = Some (map (\<lambda>b. Some (Some b)) blocks @ [Some None]) \<and>
    list_all2 holds blocks (map snd args)"
  using passes_agree [OF command_line_nul [OF assms]] unfolding apr_tokenize_to_argv_def Let_def arguments_command_line [OF assms] .

theorem tokenize_command_line_witness:
  "\<exists>blocks. apr_tokenize_to_argv (command_line [(0x22, cstr ''a b''), (0x27, [0x78, 0x5c, 0x7a])]) =
      Some (map (\<lambda>b. Some (Some b)) blocks @ [Some None]) \<and>
    list_all2 holds blocks [cstr ''a b'', [0x78, 0x5c, 0x7a]]"
  using tokenize_command_line [of "[(0x22, cstr ''a b''), (0x27, [0x78, 0x5c, 0x7a])]"] by (simp add: quotable_def)

end
