(* ===== verification/ZlibAdler.thy ===== *)
theory ZlibAdler
  imports Interfaces
begin

text \<open>
  The checksum of zlib streams: \<open>zlib-1.2.3/adler32.c\<close>.

  A \<open>uLong\<close> is a natural number below \<open>2 ^ w\<close>, and sums wrap around there; \<open>w\<close> is the width of the type, an argument. The buffer is
  the list of the bytes that can be read, \<open>None\<close> for \<open>Z_NULL\<close>; reading past it is \<open>None\<close>. The macros keep their names; \<open>dv\<close>
  tells whether the processor divides, that is whether \<open>NO_DIVIDE\<close> is not defined.
\<close>

section \<open>The code\<close>

definition BASE :: nat where
  "BASE = 65521"

definition NMAX :: nat where
  "NMAX = 5552"

fun reduce_by :: "nat \<Rightarrow> nat \<Rightarrow> nat" where
  "reduce_by a 0 = (if a \<ge> BASE then a - BASE else a)"
| "reduce_by a (Suc k) = reduce_by (if a \<ge> BASE * 2 ^ Suc k then a - BASE * 2 ^ Suc k else a) k"

definition MOD :: "bool \<Rightarrow> nat \<Rightarrow> nat" where
  "MOD dv a = (if dv then a mod BASE else reduce_by a 16)"

definition MOD4 :: "bool \<Rightarrow> nat \<Rightarrow> nat" where
  "MOD4 dv a = (if dv then a mod BASE else reduce_by a 4)"

definition DO1 :: "nat \<Rightarrow> byte list \<Rightarrow> nat \<Rightarrow> nat \<times> nat \<Rightarrow> nat \<times> nat" where
  "DO1 w buf i = (\<lambda>(adler, sum2).
     let adler' = (adler + unat (buf ! i)) mod 2 ^ w in (adler', (sum2 + adler') mod 2 ^ w))"

definition DO2 :: "nat \<Rightarrow> byte list \<Rightarrow> nat \<Rightarrow> nat \<times> nat \<Rightarrow> nat \<times> nat" where
  "DO2 w buf i st = DO1 w buf (i + 1) (DO1 w buf i st)"

definition DO4 :: "nat \<Rightarrow> byte list \<Rightarrow> nat \<Rightarrow> nat \<times> nat \<Rightarrow> nat \<times> nat" where
  "DO4 w buf i st = DO2 w buf (i + 2) (DO2 w buf i st)"

definition DO8 :: "nat \<Rightarrow> byte list \<Rightarrow> nat \<Rightarrow> nat \<times> nat \<Rightarrow> nat \<times> nat" where
  "DO8 w buf i st = DO4 w buf (i + 4) (DO4 w buf i st)"

definition DO16 :: "nat \<Rightarrow> byte list \<Rightarrow> nat \<times> nat \<Rightarrow> nat \<times> nat" where
  "DO16 w buf st = DO8 w buf 8 (DO8 w buf 0 st)"

text \<open>\<open>while (len--)\<close>, on a buffer that holds \<open>len\<close> bytes.\<close>

fun byte_loop :: "nat \<Rightarrow> byte list \<Rightarrow> nat \<Rightarrow> nat \<times> nat \<Rightarrow> nat \<times> nat" where
  "byte_loop w buf 0 st = st"
| "byte_loop w buf (Suc len) st = byte_loop w (tl buf) len (DO1 w buf 0 st)"

text \<open>\<open>do ... while (--n)\<close>, for a positive \<open>n\<close>: the state and the rest of the buffer.\<close>

fun block_loop :: "nat \<Rightarrow> byte list \<Rightarrow> nat \<Rightarrow> nat \<times> nat \<Rightarrow> nat \<times> nat" where
  "block_loop w buf 0 st = st"
| "block_loop w buf (Suc n) st = block_loop w (drop 16 buf) n (DO16 w buf st)"

function nmax_loop :: "bool \<Rightarrow> nat \<Rightarrow> byte list \<Rightarrow> nat \<Rightarrow> nat \<times> nat \<Rightarrow> byte list \<times> nat \<times> nat \<times> nat" where
  "nmax_loop dv w buf len st =
     (if len \<ge> NMAX
      then case block_loop w buf (NMAX div 16) st of (adler, sum2) \<Rightarrow>
        nmax_loop dv w (drop NMAX buf) (len - NMAX) (MOD dv adler, MOD dv sum2)
      else (buf, len, st))"
  by pat_completeness auto
termination by (relation "measure (\<lambda>(dv, w, buf, len, st). len)") (auto simp: NMAX_def)

fun rest_loop :: "nat \<Rightarrow> byte list \<Rightarrow> nat \<Rightarrow> nat \<times> nat \<Rightarrow> nat \<times> nat" where
  "rest_loop w buf len st = (if len \<ge> 16 then rest_loop w (drop 16 buf) (len - 16) (DO16 w buf st) else byte_loop w buf len st)"

declare nmax_loop.simps [simp del] rest_loop.simps [simp del]

definition recombine :: "nat \<Rightarrow> nat \<Rightarrow> nat" where
  "recombine adler sum2 = adler OR (sum2 * 2 ^ 16)"

definition adler32 :: "bool \<Rightarrow> nat \<Rightarrow> nat \<Rightarrow> byte list option \<Rightarrow> nat \<Rightarrow> nat option" where
  "adler32 dv w adler buf len =
     (let sum2 = drop_bit 16 adler AND 0xffff; adler = adler AND 0xffff
      in case buf of
           None \<Rightarrow> if len = 1 then None else Some 1
         | Some bytes \<Rightarrow>
             if length bytes < len then None
             else if len = 1 then
               (let adler = adler + unat (bytes ! 0);
                    adler = (if adler \<ge> BASE then adler - BASE else adler);
                    sum2 = sum2 + adler;
                    sum2 = (if sum2 \<ge> BASE then sum2 - BASE else sum2)
                in Some (recombine adler sum2))
             else if len < 16 then
               (case byte_loop w bytes len (adler, sum2) of (adler, sum2) \<Rightarrow>
                  Some (recombine (if adler \<ge> BASE then adler - BASE else adler) (MOD4 dv sum2)))
             else
               (case nmax_loop dv w bytes len (adler, sum2) of (bytes, len, adler, sum2) \<Rightarrow>
                  if len \<noteq> 0 then
                    (case rest_loop w bytes len (adler, sum2) of (adler, sum2) \<Rightarrow>
                       Some (recombine (MOD dv adler) (MOD dv sum2)))
                  else Some (recombine adler sum2)))"

definition adler32_combine :: "bool \<Rightarrow> nat \<Rightarrow> nat \<Rightarrow> nat \<Rightarrow> nat \<Rightarrow> nat" where
  "adler32_combine dv w adler1 adler2 len2 =
     (let rem = len2 mod BASE;
          sum1 = adler1 AND 0xffff;
          sum2 = MOD dv (rem * sum1 mod 2 ^ w);
          sum1 = sum1 + (adler2 AND 0xffff) + BASE - 1;
          sum2 = sum2 + ((drop_bit 16 adler1 AND 0xffff) + (drop_bit 16 adler2 AND 0xffff) + BASE - rem);
          sum1 = (if sum1 > BASE then sum1 - BASE else sum1);
          sum1 = (if sum1 > BASE then sum1 - BASE else sum1);
          sum2 = (if sum2 > BASE * 2 then sum2 - BASE * 2 else sum2);
          sum2 = (if sum2 > BASE then sum2 - BASE else sum2)
      in recombine sum1 sum2)"

section \<open>The sums without reduction\<close>

fun byte_sums :: "nat \<times> nat \<Rightarrow> byte list \<Rightarrow> nat \<times> nat" where
  "byte_sums st [] = st"
| "byte_sums (a, b) (c # cs) = byte_sums (a + unat c, b + (a + unat c)) cs"

definition adler_of :: "nat \<times> nat \<Rightarrow> byte list \<Rightarrow> nat \<times> nat" where
  "adler_of st cs = (fst (byte_sums st cs) mod BASE, snd (byte_sums st cs) mod BASE)"

text \<open>The checksum of two sums below \<open>BASE\<close> is \<open>pack\<close>; every such number is split into them again.\<close>

definition pack :: "nat \<times> nat \<Rightarrow> nat" where
  "pack st = fst st + 65536 * snd st"

lemma byte_sums_append: "byte_sums st (xs @ ys) = byte_sums (byte_sums st xs) ys"
  by (induction st xs rule: byte_sums.induct) auto

lemma byte_sums_from: "byte_sums st cs = (fst st + fst (byte_sums (0, 0) cs), snd st + length cs * fst st + snd (byte_sums (0, 0) cs))"
proof (induction cs arbitrary: st)
  case (Cons c cs)
  obtain a b where st: "st = (a, b)" by fastforce
  show ?case using Cons.IH [of "(a + unat c, b + (a + unat c))"] Cons.IH [of "(unat c, unat c)"]
    by (simp add: st algebra_simps)
qed simp

text \<open>A byte adds at most 255: the sums of \<open>n\<close> bytes are bounded.\<close>

lemma byte_sums_bound: "fst (byte_sums st cs) \<le> fst st + 255 * length cs \<and>
  snd (byte_sums st cs) \<le> snd st + length cs * fst st + 255 * (length cs * (length cs + 1) div 2)"
proof (induction cs arbitrary: st)
  case (Cons c cs)
  obtain a b where st: "st = (a, b)" by fastforce
  have "unat c < 2 ^ LENGTH(8)" by (rule unsigned_less)
  then have c: "unat c \<le> 255" by simp
  let ?n = "length cs"
  have "(?n + 1) * (?n + 2) div 2 = ?n * (?n + 1) div 2 + (?n + 1)"
  proof -
    have "(?n + 1) * (?n + 2) = ?n * (?n + 1) + (?n + 1) * 2" by (simp add: algebra_simps)
    then show ?thesis by simp
  qed
  moreover define p where "p = ?n * unat c"
  moreover have "p \<le> 255 * ?n" using c by (simp add: p_def)
  moreover note Cons.IH [of "(a + unat c, b + (a + unat c))"]
  ultimately show ?case using c by (simp add: st algebra_simps p_def [symmetric])
qed simp

section \<open>The loops compute the sums\<close>

lemma reduce_by: "a < BASE * 2 ^ Suc k \<Longrightarrow> reduce_by a k = a mod BASE"
proof (induction k arbitrary: a)
  case 0
  then show ?case by (simp add: BASE_def mod_if)
next
  case (Suc k)
  have "(a - BASE * 2 ^ Suc k) mod BASE = a mod BASE" if "BASE * 2 ^ Suc k \<le> a"
    using that by (metis le_add_diff_inverse2 mod_mult_self1 mult.commute mod_mult_self2)
  then show ?case using Suc.IH [of "a - BASE * 2 ^ Suc k"] Suc.IH [of a] Suc.prems by (simp add: not_le)
qed

lemma MOD_eq: "a < 2 ^ 32 \<Longrightarrow> MOD dv a = a mod BASE"
  using reduce_by [of a 16] by (simp add: MOD_def BASE_def)

lemma MOD4_eq: "a < 32 * BASE \<Longrightarrow> MOD4 dv a = a mod BASE"
  using reduce_by [of a 4] by (simp add: MOD4_def mult.commute)

text \<open>Sums that stay below \<open>2 ^ w\<close> do not wrap around.\<close>

definition small :: "nat \<Rightarrow> nat \<times> nat \<Rightarrow> byte list \<Rightarrow> bool" where
  "small w st cs \<longleftrightarrow> fst (byte_sums st cs) < 2 ^ w \<and> snd (byte_sums st cs) < 2 ^ w"

lemma byte_sums_mono: "fst st \<le> fst (byte_sums st cs) \<and> snd st \<le> snd (byte_sums st cs)"
  by (subst (1 2) byte_sums_from) simp

lemma small_append: "small w st (xs @ ys) \<longleftrightarrow> small w st xs \<and> small w (byte_sums st xs) ys"
  using byte_sums_mono [of "byte_sums st xs" ys] by (auto simp: small_def byte_sums_append)

lemma DO1_sums: "small w st [buf ! i] \<Longrightarrow> DO1 w buf i st = byte_sums st [buf ! i]"
  by (cases st) (auto simp: DO1_def small_def Let_def)

lemma small_upt: "small w st (map ((!) buf) [i..<i + (m + n)]) \<longleftrightarrow>
    small w st (map ((!) buf) [i..<i + m]) \<and> small w (byte_sums st (map ((!) buf) [i..<i + m])) (map ((!) buf) [i + m..<i + m + n])"
  using upt_add_eq_append [of i "i + m" n] by (simp add: small_append add.assoc)

lemma byte_sums_upt: "byte_sums st (map ((!) buf) [i..<i + (m + n)]) = byte_sums (byte_sums st (map ((!) buf) [i..<i + m])) (map ((!) buf) [i + m..<i + m + n])"
  using upt_add_eq_append [of i "i + m" n] by (simp add: byte_sums_append add.assoc)

lemma DO2_sums: "small w st (map ((!) buf) [i..<i + 2]) \<Longrightarrow> DO2 w buf i st = byte_sums st (map ((!) buf) [i..<i + 2])"
  using small_upt [of w st buf i 1 1] byte_sums_upt [of st buf i 1 1] by (simp add: DO2_def DO1_sums)

lemma DO4_sums: "small w st (map ((!) buf) [i..<i + 4]) \<Longrightarrow> DO4 w buf i st = byte_sums st (map ((!) buf) [i..<i + 4])"
  using small_upt [of w st buf i 2 2] byte_sums_upt [of st buf i 2 2] by (simp add: DO4_def DO2_sums)

lemma DO8_sums: "small w st (map ((!) buf) [i..<i + 8]) \<Longrightarrow> DO8 w buf i st = byte_sums st (map ((!) buf) [i..<i + 8])"
  using small_upt [of w st buf i 4 4] byte_sums_upt [of st buf i 4 4] by (simp add: DO8_def DO4_sums)

lemma DO16_sums:
  assumes "small w st (take 16 buf)" "16 \<le> length buf"
  shows "DO16 w buf st = byte_sums st (take 16 buf)"
proof -
  have t: "take 16 buf = map ((!) buf) [0..<0 + (8 + 8)]" using assms(2) by (auto intro: nth_equalityI)
  show ?thesis
    using assms(1) DO8_sums [of w st buf 0] DO8_sums [of w _ buf 8] unfolding t small_upt byte_sums_upt by (simp add: DO16_def)
qed

lemma byte_loop_sums: "len \<le> length buf \<Longrightarrow> small w st (take len buf) \<Longrightarrow> byte_loop w buf len st = byte_sums st (take len buf)"
proof (induction len arbitrary: buf st)
  case (Suc len)
  then obtain c cs where c: "buf = c # cs" by (cases buf) auto
  have "small w st [c]" "small w (byte_sums st [c]) (take len cs)" using Suc.prems small_append [of w st "[c]" "take len cs"] by (auto simp: c)
  then show ?case using Suc.IH [of cs "byte_sums st [c]"] Suc.prems(1) DO1_sums [of w st buf 0] byte_sums_append [of st "[c]" "take len cs"]
    by (simp add: c)
qed simp

lemma block_loop_sums: "16 * n \<le> length buf \<Longrightarrow> small w st (take (16 * n) buf) \<Longrightarrow> block_loop w buf n st = byte_sums st (take (16 * n) buf)"
proof (induction n arbitrary: buf st)
  case (Suc n)
  have t: "take (16 * Suc n) buf = take 16 buf @ take (16 * n) (drop 16 buf)" by (simp add: take_add)
  show ?case using Suc DO16_sums [of w st buf] unfolding t small_append byte_sums_append by simp
qed simp

lemma rest_loop_sums: "len \<le> length buf \<Longrightarrow> small w st (take len buf) \<Longrightarrow> rest_loop w buf len st = byte_sums st (take len buf)"
proof (induction w buf len st rule: rest_loop.induct)
  case (1 w buf len st)
  show ?case
  proof (cases "16 \<le> len")
    case True
    then have t: "take len buf = take 16 buf @ take (len - 16) (drop 16 buf)" using take_add [of 16 "len - 16" buf] by simp
    have sm: "small w st (take 16 buf)" "small w (byte_sums st (take 16 buf)) (take (len - 16) (drop 16 buf))"
      using "1.prems"(2) unfolding t small_append by auto
    have d: "DO16 w buf st = byte_sums st (take 16 buf)" using DO16_sums [OF sm(1)] True "1.prems"(1) by simp
    have l: "len - 16 \<le> length (drop 16 buf)" using "1.prems"(1) by simp
    have "rest_loop w buf len st = rest_loop w (drop 16 buf) (len - 16) (DO16 w buf st)"
      using True by (simp add: rest_loop.simps [of w buf len])
    also have "\<dots> = byte_sums (byte_sums st (take 16 buf)) (take (len - 16) (drop 16 buf))"
      using "1.IH" [OF True l] sm(2) by (simp only: d)
    finally show ?thesis by (simp only: t byte_sums_append)
  next
    case False
    then show ?thesis using byte_loop_sums "1.prems" by (simp add: rest_loop.simps [of w buf len])
  qed
qed

text \<open>Blocks of \<open>NMAX\<close> bytes are small enough, from sums below \<open>BASE\<close>.\<close>

lemma small_block:
  assumes "fst st < BASE" "snd st < BASE" "length cs \<le> NMAX" "32 \<le> w"
  shows "small w st cs" "fst (byte_sums st cs) < 2 ^ 32" "snd (byte_sums st cs) < 2 ^ 32"
proof -
  let ?n = "length cs"
  have "?n * fst st \<le> 5552 * 65520" using assms(1,3) by (intro mult_le_mono) (auto simp: BASE_def NMAX_def)
  moreover have "?n * (?n + 1) div 2 \<le> 5552 * (5552 + 1) div 2"
    using assms(3) by (intro div_le_mono mult_le_mono) (auto simp: NMAX_def)
  ultimately show b: "fst (byte_sums st cs) < 2 ^ 32" "snd (byte_sums st cs) < 2 ^ 32"
    using byte_sums_bound [of st cs] assms(1-3) by (auto simp: BASE_def NMAX_def)
  have "(2 :: nat) ^ 32 \<le> 2 ^ w" using assms(4) by (intro power_increasing) auto
  then show "small w st cs" using b by (simp add: small_def)
qed

text \<open>The sums may be reduced at any time.\<close>

lemma adler_of_mod: "adler_of (a mod BASE, b mod BASE) cs = adler_of (a, b) cs"
proof -
  have "(a mod BASE + x) mod BASE = (a + x) mod BASE" for x by (simp add: mod_add_left_eq)
  moreover have "(b mod BASE + n * (a mod BASE) + x) mod BASE = (b + n * a + x) mod BASE" for n x
    by (intro mod_add_cong mod_mult_cong mod_mod_trivial refl)
  ultimately show ?thesis
    by (simp only: adler_of_def byte_sums_from [of "(a mod BASE, b mod BASE)"] byte_sums_from [of "(a, b)"] fst_conv snd_conv)
qed

lemma adler_of_append: "adler_of st (xs @ ys) = adler_of (adler_of st xs) ys"
  using adler_of_mod [of "fst (byte_sums st xs)" "snd (byte_sums st xs)" ys] by (simp add: adler_of_def byte_sums_append)

lemma adler_of_base: "fst (adler_of st cs) < BASE" "snd (adler_of st cs) < BASE"
  by (simp_all add: adler_of_def BASE_def)

lemma nmax_loop_adler:
  assumes "fst st < BASE" "snd st < BASE" "len \<le> length buf" "32 \<le> w"
  shows "\<exists>k \<le> len. len - k < NMAX \<and> nmax_loop dv w buf len st = (drop k buf, len - k, adler_of st (take k buf))"
  using assms
proof (induction dv w buf len st rule: nmax_loop.induct)
  case (1 dv w buf len st)
  show ?case
  proof (cases "NMAX \<le> len")
    case False
    then show ?thesis using "1.prems" by (intro exI [of _ 0]) (auto simp: adler_of_def nmax_loop.simps [of dv w buf len])
  next
    case True
    let ?b = "take NMAX buf"
    have "16 * (NMAX div 16) = NMAX" by (simp add: NMAX_def)
    then have b: "block_loop w buf (NMAX div 16) st = byte_sums st ?b"
      using block_loop_sums [of "NMAX div 16" buf w st] small_block(1) [of st ?b w] "1.prems" True by simp
    obtain a s where s: "byte_sums st ?b = (a, s)" by fastforce
    have bs: "(a, s) = block_loop w buf (NMAX div 16) st" by (simp add: b s)
    have m: "MOD dv a = a mod BASE" "MOD dv s = s mod BASE"
      using small_block(2,3) [of st ?b w] "1.prems" by (auto simp: s MOD_eq)
    have l: "len - NMAX \<le> length (drop NMAX buf)" using "1.prems"(3) by simp
    have st: "(a mod BASE, s mod BASE) = adler_of st ?b" by (simp add: adler_of_def s)
    obtain k where k: "k \<le> len - NMAX" "len - NMAX - k < NMAX"
      "nmax_loop dv w (drop NMAX buf) (len - NMAX) (adler_of st ?b) =
        (drop k (drop NMAX buf), len - NMAX - k, adler_of (adler_of st ?b) (take k (drop NMAX buf)))"
      using "1.IH" [OF True bs, unfolded m st] adler_of_base [of st ?b] l "1.prems"(4) by blast
    then show ?thesis
      using True by (intro exI [of _ "NMAX + k"])
        (auto simp: nmax_loop.simps [of dv w buf len] b s m st adler_of_append [symmetric] take_add add.commute)
  qed
qed

section \<open>Packing\<close>

lemma and_ffff: "x AND 0xffff = x mod 65536" for x :: nat
  using take_bit_eq_mask [of 16 x] by (simp add: mask_eq_exp_minus_1 take_bit_eq_mod)

lemma recombine_pack: "a < 65536 \<Longrightarrow> recombine a s = pack (a, s)"
proof -
  assume "a < 65536"
  then have "take_bit 16 a = a" by (simp add: take_bit_eq_mod)
  then have "\<not> bit a n \<or> \<not> bit (s * 2 ^ 16) n" for n
    by (metis bit_take_bit_iff bit_push_bit_iff_nat push_bit_eq_mult not_le)
  then have "a + s * 2 ^ 16 = a OR s * 2 ^ 16" by (rule disjunctive_add)
  then show ?thesis by (simp add: recombine_def pack_def)
qed

lemma unpack: "fst st < 65536 \<Longrightarrow> pack st AND 0xffff = fst st"
  "fst st < 65536 \<Longrightarrow> snd st < 65536 \<Longrightarrow> drop_bit 16 (pack st) AND 0xffff = snd st"
  by (simp_all add: and_ffff drop_bit_eq_div pack_def)

section \<open>The checksum\<close>

lemma adler32_eq:
  assumes "fst st < BASE" "snd st < BASE" "len \<le> length buf" "32 \<le> w"
  shows "adler32 dv w (pack st) (Some buf) len = Some (pack (adler_of st (take len buf)))"
proof -
  obtain a s where st: "st = (a, s)" by fastforce
  have b: "a < 65521" "s < 65521" using assms(1,2) by (simp_all add: st BASE_def)
  have u: "pack st AND 0xffff = a" "drop_bit 16 (pack st) AND 0xffff = s"
    using unpack [of st] b by (simp_all add: st)
  have p: "recombine x y = pack (x, y)" if "x < BASE" for x y using that by (intro recombine_pack) (simp add: BASE_def)
  consider "len = 1" | "len \<noteq> 1" "len < 16" | "16 \<le> len" by linarith
  then show ?thesis
  proof cases
    case 1
    then obtain c cs where c: "buf = c # cs" using assms(3) by (cases buf) auto
    have "unat c < 2 ^ LENGTH(8)" by (rule unsigned_less)
    then have m: "(if a + unat c \<ge> BASE then a + unat c - BASE else a + unat c) = (a + unat c) mod BASE"
      using b by (auto simp: BASE_def mod_if)
    define z where "z = (a + unat c) mod BASE"
    have z: "z < BASE" by (simp add: z_def BASE_def)
    have q: "(if s + z \<ge> BASE then s + z - BASE else s + z) = (s + z) mod BASE"
      using z b by (auto simp: BASE_def mod_if)
    have "adler32 dv w (pack st) (Some buf) len = Some (recombine z ((s + z) mod BASE))"
      unfolding q [symmetric] using 1 u c m(1) by (simp add: adler32_def Let_def z_def [symmetric])
    also have "\<dots> = Some (pack (adler_of st (take len buf)))"
      using 1 p [OF z] by (simp add: st c adler_of_def z_def mod_simps)
    finally show ?thesis .
  next
    case 2
    let ?b = "take len buf"
    obtain x y where xy: "byte_sums st ?b = (x, y)" by fastforce
    have l: "length ?b = len" using assms(3) by simp
    have "len * a \<le> 15 * 65520" "len * (len + 1) div 2 \<le> 15 * (15 + 1) div 2"
      using 2 b by (intro mult_le_mono div_le_mono; simp)+
    then have r: "x < 2 * BASE" "y < 32 * BASE"
      using byte_sums_bound [of st ?b] 2 b unfolding l xy by (simp_all add: st BASE_def)
    have "byte_loop w buf len (a, s) = (x, y)"
      using byte_loop_sums [of len buf w "(a, s)"] small_block(1) [of st ?b w] assms 2 xy l by (simp add: st NMAX_def)
    moreover have "(if x \<ge> BASE then x - BASE else x) = x mod BASE" using r(1) by (auto simp: BASE_def mod_if)
    moreover have "adler_of st ?b = (x mod BASE, y mod BASE)" by (simp add: adler_of_def xy)
    moreover have "recombine (x mod BASE) z = pack (x mod BASE, z)" for z by (rule p) (simp add: BASE_def)
    ultimately show ?thesis
      using 2 assms(3) u MOD4_eq [OF r(2)] by (simp add: adler32_def Let_def)
  next
    case 3
    obtain k where k: "k \<le> len" "len - k < NMAX" "nmax_loop dv w buf len (a, s) = (drop k buf, len - k, adler_of st (take k buf))"
      using nmax_loop_adler [OF assms, of dv] by (auto simp: st)
    let ?m = "adler_of st (take k buf)" and ?b = "take (len - k) (drop k buf)"
    have t: "adler_of st (take len buf) = adler_of ?m ?b"
      using k(1) take_add [of k "len - k" buf] by (simp add: adler_of_append)
    have l: "length ?b \<le> NMAX" using k(2) by simp
    note sm = small_block [OF adler_of_base l assms(4), of st "take k buf"]
    obtain x y where xy: "byte_sums ?m ?b = (x, y)" by fastforce
    have "rest_loop w (drop k buf) (len - k) ?m = (x, y)"
      using rest_loop_sums [of "len - k" "drop k buf" w ?m] sm(1) assms(3) k(1) xy by simp
    moreover have "MOD dv x = x mod BASE" "MOD dv y = y mod BASE" using sm(2,3) xy by (simp_all add: MOD_eq)
    moreover have "adler_of ?m ?b = (x mod BASE, y mod BASE)" unfolding adler_of_def [of ?m] xy by simp
    moreover have "recombine (x mod BASE) z = pack (x mod BASE, z)" for z by (rule p) (simp add: BASE_def)
    moreover have "recombine (fst ?m) (snd ?m) = pack ?m" using p [OF adler_of_base(1)] by simp
    moreover have "adler_of ?m ?b = ?m" if "len = k"
      using that adler_of_base [of st "take k buf"] by (simp add: adler_of_def [of ?m "[]"] prod_eq_iff)
    ultimately show ?thesis
      using 3 assms(3) u k t by (cases ?m) (auto simp: adler32_def Let_def)
  qed
qed

text \<open>Pieces: a checksum can be computed piece by piece, with any width and with or without division.\<close>

definition adler_valid :: "nat \<Rightarrow> bool" where
  "adler_valid v \<longleftrightarrow> (\<exists>st. fst st < BASE \<and> snd st < BASE \<and> v = pack st)"

abbreviation adler_update :: "bool \<Rightarrow> nat \<Rightarrow> nat \<Rightarrow> byte list \<Rightarrow> nat" where
  "adler_update dv w v cs \<equiv> the (adler32 dv (32 + w) v (Some cs) (length cs))"

lemma adler_valid_pack: "fst st < BASE \<Longrightarrow> snd st < BASE \<Longrightarrow> adler_valid (pack st)"
  unfolding adler_valid_def by blast

lemma adler_of_nil: "fst st < BASE \<Longrightarrow> snd st < BASE \<Longrightarrow> adler_of st [] = st"
  by (simp add: adler_of_def prod_eq_iff)

interpretation adler: piecewise adler_valid "adler_update dv w" for dv w
proof unfold_locales
  fix v xs ys assume "adler_valid v"
  then obtain st where st: "fst st < BASE" "snd st < BASE" "v = pack st" by (auto simp: adler_valid_def)
  have e: "adler_update dv w (pack (adler_of st us)) vs = pack (adler_of (adler_of st us) vs)" for us vs
    using adler32_eq [OF adler_of_base order_refl] by simp
  have f: "adler_update dv w v vs = pack (adler_of st vs)" for vs
    using adler32_eq [OF st(1,2) order_refl] by (simp add: st(3))
  show "adler_valid (adler_update dv w v xs)" unfolding f using adler_of_base by (rule adler_valid_pack)
  show "adler_update dv w v (xs @ ys) = adler_update dv w (adler_update dv w v xs) ys"
    by (simp only: f e adler_of_append)
  show "adler_update dv w v [] = v" unfolding f adler_of_nil [OF st(1,2)] by (rule st(3) [symmetric])
qed

lemma snd_sums: "snd (byte_sums (0, 0) cs) = (\<Sum>i < length cs. (length cs - i) * unat (cs ! i))"
proof (induction cs)
  case (Cons c cs)
  have "snd (byte_sums (0, 0) (c # cs)) = unat c + length cs * unat c + snd (byte_sums (0, 0) cs)"
    using byte_sums_from [of "(unat c, unat c)" cs] by simp
  also have "\<dots> = (\<Sum>i < length (c # cs). (length (c # cs) - i) * unat ((c # cs) ! i))"
    unfolding Cons.IH by (simp add: lessThan_Suc_eq_insert_0 zero_notin_Suc_image sum.reindex comp_def)
  finally show ?case .
qed simp

lemma adler_of_formula:
  "adler_of (a, b) cs = ((a + (\<Sum>c\<leftarrow>cs. unat c)) mod 65521,
     (b + length cs * a + (\<Sum>i < length cs. (length cs - i) * unat (cs ! i))) mod 65521)"
proof -
  have "fst (byte_sums (0, 0) cs) = (\<Sum>c\<leftarrow>cs. unat c)"
  proof (induction cs)
    case (Cons c cs)
    then show ?case using byte_sums_from [of "(unat c, unat c)" cs] by simp
  qed simp
  then show ?thesis using byte_sums_from [of "(a, b)" cs] by (simp add: adler_of_def snd_sums BASE_def)
qed

text \<open>Combining: the subtractions leave a sum that is a multiple of \<open>BASE\<close> unreduced.\<close>

definition unreduced :: "nat \<Rightarrow> nat" where
  "unreduced x = (if x = 0 then BASE else x)"

lemma combine_fst:
  assumes "0 < x" "x \<le> 3 * BASE"
  shows "(let x = (if x > BASE then x - BASE else x) in if x > BASE then x - BASE else x) = unreduced (x mod BASE)"
proof -
  have "x mod BASE = (if x = BASE \<or> x = 2 * BASE \<or> x = 3 * BASE then 0 else if x < BASE then x else if x < 2 * BASE then x - BASE else x - 2 * BASE)"
    using assms by (auto simp: BASE_def mod_if)
  then show ?thesis using assms by (auto simp: unreduced_def BASE_def Let_def)
qed

lemma combine_snd:
  assumes "0 < x" "x \<le> 4 * BASE"
  shows "(let x = (if x > BASE * 2 then x - BASE * 2 else x) in if x > BASE then x - BASE else x) = unreduced (x mod BASE)"
proof -
  have "x mod BASE = (if x = BASE \<or> x = 2 * BASE \<or> x = 3 * BASE \<or> x = 4 * BASE then 0 else if x < BASE then x
      else if x < 2 * BASE then x - BASE else if x < 3 * BASE then x - 2 * BASE else x - 3 * BASE)"
    using assms by (auto simp: BASE_def mod_if)
  then show ?thesis using assms by (auto simp: unreduced_def BASE_def Let_def)
qed

lemma combine_eq:
  assumes "32 \<le> w"
  shows "adler32_combine dv w (pack (adler_of (1, 0) xs)) (pack (adler_of (1, 0) ys)) (length ys) =
    pack (map_prod unreduced unreduced (adler_of (1, 0) (xs @ ys)))"
proof -
  let ?n = "length ys" and ?A = "adler_of (1, 0) xs" and ?B = "adler_of (1, 0) ys"
  define X where "X = fst (byte_sums (0, 0) ys)"
  define S where "S = snd (byte_sums (0, 0) ys)"
  obtain a1 b1 where A: "?A = (a1, b1)" by fastforce
  have l: "a1 < 65521" "b1 < 65521" "fst ?B < 65521" "snd ?B < 65521"
    using adler_of_base [of "(1, 0)" xs] adler_of_base [of "(1, 0)" ys] unfolding A BASE_def fst_conv snd_conv
    by blast+
  have u: "pack ?A AND 0xffff = a1" "drop_bit 16 (pack ?A) AND 0xffff = b1" "pack ?B AND 0xffff = fst ?B"
    "drop_bit 16 (pack ?B) AND 0xffff = snd ?B"
    using unpack [of ?A] unpack [of ?B] l by (simp_all add: A del: One_nat_def)
  have B: "fst ?B = (1 + X) mod BASE" "snd ?B = (?n + S) mod BASE"
    using byte_sums_from [of "(1, 0)" ys] by (simp_all add: adler_of_def X_def S_def del: One_nat_def)
  have T: "adler_of (1, 0) (xs @ ys) = ((a1 + X) mod BASE, (b1 + ?n * a1 + S) mod BASE)"
    unfolding adler_of_append A using byte_sums_from [of "(a1, b1)" ys] by (simp add: adler_of_def X_def S_def)
  define r where "r = ?n mod BASE"
  have r: "r < BASE" by (simp add: r_def BASE_def)
  have "r * a1 \<le> 65520 * 65520" using r l(1) by (intro mult_le_mono) (auto simp: BASE_def)
  also have "(65520 * 65520 :: nat) < 2 ^ 32" by simp
  finally have ra: "r * a1 < 2 ^ 32" .
  moreover have "(2 :: nat) ^ 32 \<le> 2 ^ w" using assms by (intro power_increasing) auto
  ultimately have "r * a1 mod 2 ^ w = r * a1" by simp
  then have m: "MOD dv (r * a1 mod 2 ^ w) = r * a1 mod BASE" using MOD_eq [OF ra] by simp
  have rm: "r * a1 mod BASE < BASE" by (simp add: BASE_def)
  define p where "p = a1 + fst ?B + BASE - 1"
  have p: "0 < p" "p \<le> 3 * BASE" using l by (auto simp: p_def BASE_def)
  have "p mod BASE = (a1 + (1 + X) mod BASE + (BASE - 1)) mod BASE" unfolding p_def B(1) by (simp add: BASE_def ac_simps)
  also have "\<dots> = (a1 + (1 + X) + (BASE - 1)) mod BASE" by (intro mod_add_cong mod_mod_trivial refl)
  also have "a1 + (1 + X) + (BASE - 1) = a1 + X + BASE" by (simp add: BASE_def)
  also have "\<dots> mod BASE = (a1 + X) mod BASE" by simp
  finally have p': "p mod BASE = (a1 + X) mod BASE" .
  define q where "q = r * a1 mod BASE + (b1 + snd ?B + BASE - r)"
  have q: "0 < q" "q \<le> 4 * BASE" using l r rm by (auto simp: q_def BASE_def)
  have "q mod BASE = (r * a1 mod BASE + (b1 + (?n + S) mod BASE + (BASE - r))) mod BASE" using r unfolding q_def B(2) by simp
  also have "\<dots> = (?n * a1 + (b1 + (?n + S) + (BASE - r))) mod BASE"
    unfolding r_def by (intro mod_add_cong mod_mod_trivial refl) (simp add: mod_simps)
  also have "?n * a1 + (b1 + (?n + S) + (BASE - r)) = (b1 + ?n * a1 + S) + (?n + (BASE - r))" by simp
  also have "?n + (BASE - r) = BASE * (?n div BASE + 1)"
  proof -
    have "BASE * (?n div BASE) + r = ?n" by (simp add: r_def)
    then have "?n + (BASE - r) = BASE * (?n div BASE) + BASE" using r by linarith
    then show ?thesis by simp
  qed
  also have "(b1 + ?n * a1 + S + BASE * (?n div BASE + 1)) mod BASE = (b1 + ?n * a1 + S) mod BASE" by (rule mod_mult_self2)
  finally have q': "q mod BASE = (b1 + ?n * a1 + S) mod BASE" .
  have "adler32_combine dv w (pack ?A) (pack ?B) ?n = recombine (unreduced (p mod BASE)) (unreduced (q mod BASE))"
    unfolding combine_fst [OF p, symmetric] combine_snd [OF q, symmetric]
    by (simp only: adler32_combine_def Let_def u m r_def [symmetric] p_def [symmetric] q_def [symmetric])
  moreover have "unreduced x < 65536" if "x < BASE" for x using that by (simp add: unreduced_def BASE_def)
  then have "unreduced (p mod BASE) < 65536" by (simp add: BASE_def)
  ultimately show ?thesis unfolding T by (simp add: recombine_pack p' q')
qed

section \<open>Properties\<close>

text \<open>C24: \<open>adler32\<close>, with sums of at least 32 bits, with or without division and on each of its paths, computes the two sums of the
  Adler checksum modulo 65521: deferring the reductions over \<open>NMAX\<close> bytes loses nothing. It can be computed piece by piece, and without a
  buffer it is 1.\<close>

theorem adler32_sums:
  assumes "a < 65521" "b < 65521" "len \<le> length buf"
  shows "adler32 dv (32 + w) (a + 65536 * b) (Some buf) len =
      Some ((a + (\<Sum>c\<leftarrow>take len buf. unat c)) mod 65521 +
        65536 * ((b + len * a + (\<Sum>i < len. (len - i) * unat (buf ! i))) mod 65521)) \<and>
    foldl (\<lambda>v cs. the (adler32 dv (32 + w) v (Some cs) (length cs))) (a + 65536 * b) css =
      the (adler32 dv (32 + w) (a + 65536 * b) (Some (concat css)) (length (concat css))) \<and>
    (len \<noteq> 1 \<longrightarrow> adler32 dv (32 + w) v None len = Some 1)"
proof -
  have ab: "fst (a, b) < BASE" "snd (a, b) < BASE" using assms(1,2) by (simp_all add: BASE_def)
  have p: "pack (a, b) = a + 65536 * b" by (simp add: pack_def)
  have "(\<Sum>i < len. (len - i) * unat (take len buf ! i)) = (\<Sum>i < len. (len - i) * unat (buf ! i))"
    by (intro sum.cong) auto
  then have "pack (adler_of (a, b) (take len buf)) = (a + (\<Sum>c\<leftarrow>take len buf. unat c)) mod 65521 +
        65536 * ((b + len * a + (\<Sum>i < len. (len - i) * unat (buf ! i))) mod 65521)"
    using assms(3) unfolding adler_of_formula by (simp add: pack_def)
  note sum = this
  have "adler32 dv (32 + w) (a + 65536 * b) (Some buf) len = Some (pack (adler_of (a, b) (take len buf)))"
    using adler32_eq [OF ab assms(3), of "32 + w" dv] unfolding p by simp
  moreover have "foldl (\<lambda>v cs. the (adler32 dv (32 + w) v (Some cs) (length cs))) (a + 65536 * b) css =
      the (adler32 dv (32 + w) (a + 65536 * b) (Some (concat css)) (length (concat css)))"
    using adler.pieces [OF adler_valid_pack [OF ab], of dv w css] unfolding p by (rule conjunct2)
  moreover have "len \<noteq> 1 \<longrightarrow> adler32 dv (32 + w) v None len = Some 1" for v by (simp add: adler32_def Let_def)
  ultimately show ?thesis unfolding sum by blast
qed

theorem adler32_sums_witness: "adler32 False 32 1 (Some [0x61, 0x62, 0x63]) 3 = Some 0x024d0127"
proof -
  have s: "(\<Sum>i < 3. (3 - i) * unat ([0x61, 0x62, 0x63 :: byte] ! i)) = 586" by (simp add: lessThan_nat_numeral)
  have "adler32 False (32 + 0) (1 + 65536 * 0) (Some [0x61, 0x62, 0x63]) 3 =
      Some ((1 + (\<Sum>c\<leftarrow>take 3 [0x61, 0x62, 0x63 :: byte]. unat c)) mod 65521 + 65536 * ((0 + 3 * 1 + 586) mod 65521))"
    unfolding s [symmetric] by (rule adler32_sums [THEN conjunct1]) simp_all
  then show ?thesis by simp
qed

text \<open>C25: \<open>adler32_combine\<close> on the checksums of two blocks of bytes gives the sums of the checksum of both together, except that a sum that
  is a multiple of 65521 is left at 65521, where \<open>adler32\<close> gives 0: the comparisons miss that case.\<close>

theorem adler32_combine_sums:
  "\<exists>a b. adler32 dv (32 + w) 1 (Some (xs @ ys)) (length (xs @ ys)) = Some (a + 65536 * b) \<and> a < 65521 \<and> b < 65521 \<and>
     adler32_combine dv (32 + w) (the (adler32 dv (32 + w) 1 (Some xs) (length xs))) (the (adler32 dv (32 + w) 1 (Some ys) (length ys))) (length ys) =
       (if a = 0 then 65521 else a) + 65536 * (if b = 0 then 65521 else b)"
proof -
  have one: "pack (1, 0) = 1" "fst (1, 0) < BASE" "snd (1, 0) < BASE" by (simp_all add: pack_def BASE_def)
  have e: "adler32 dv (32 + w) 1 (Some us) (length us) = Some (pack (adler_of (1, 0) us))" for us
    using adler32_eq [OF one(2,3) order_refl, of "32 + w" dv us] by (simp add: one(1) del: One_nat_def)
  obtain a b where ab: "adler_of (1, 0) (xs @ ys) = (a, b)" by fastforce
  have l: "a < 65521" "b < 65521" using adler_of_base [of "(1, 0)" "xs @ ys"] unfolding ab by (simp_all add: BASE_def)
  have "adler32_combine dv (32 + w) (pack (adler_of (1, 0) xs)) (pack (adler_of (1, 0) ys)) (length ys) = pack (map_prod unreduced unreduced (a, b))"
    using combine_eq [of "32 + w" dv xs ys] unfolding ab by simp
  then show ?thesis
    using l unfolding e option.sel ab by (intro exI [of _ a] exI [of _ b]) (simp add: pack_def unreduced_def BASE_def)
qed

end
