(* ===== verification/ZlibCrc.thy ===== *)
theory ZlibCrc
  imports ZlibCrcTables "HOL-Library.Monad_Syntax"
begin

text \<open>
  CRC-32: \<open>zlib-1.2.3/crc32.c\<close>. An \<open>unsigned long\<close> is a 64 bit word and a \<open>u4\<close> a 32 bit word; assignments between them truncate or
  extend. The buffer is the list of the bytes that can be read, \<open>None\<close> for \<open>Z_NULL\<close>; reading past it is \<open>None\<close>. The build decides
  between the loop over bytes and the two loops over words of four bytes; these depend on the byte order of the machine and on the
  alignment of the buffer, an argument.
\<close>

section \<open>The tables\<close>

definition REV :: "'a::len word \<Rightarrow> 'a word" where
  "REV w = drop_bit 24 w + (drop_bit 8 w AND 0xff00) + push_bit 8 (w AND 0xff00) + push_bit 24 (w AND 0xff)"

definition crc_poly :: ulong where
  "crc_poly = foldl (\<lambda>poly p. poly OR push_bit (31 - p) 1) 0 [0, 1, 2, 4, 5, 7, 8, 10, 11, 12, 16, 22, 23, 26]"

fun crc_eight :: "ulong \<Rightarrow> nat \<Rightarrow> ulong \<Rightarrow> ulong" where
  "crc_eight poly 0 c = c"
| "crc_eight poly (Suc k) c = crc_eight poly k (if c AND 1 \<noteq> 0 then poly XOR drop_bit 1 c else drop_bit 1 c)"

definition crc_next :: "ulong list \<Rightarrow> ulong \<Rightarrow> ulong" where
  "crc_next t c = t ! unat (c AND 0xff) XOR drop_bit 8 c"

definition make_crc_table :: "ulong list list" where
  "make_crc_table =
     (let t0 = map (\<lambda>n. crc_eight crc_poly 8 (of_nat n)) [0..<256];
          t1 = map (crc_next t0) t0;
          t2 = map (crc_next t0) t1;
          t3 = map (crc_next t0) t2
      in [t0, t1, t2, t3, map REV t0, map REV t1, map REV t2, map REV t3])"

definition get_crc_table :: "ulong list list" where
  "get_crc_table = crc_table"

section \<open>A byte at a time\<close>

definition crc_do1 :: "ulong \<Rightarrow> byte \<Rightarrow> ulong" where
  "crc_do1 crc b = crc_table ! 0 ! unat ((crc XOR ucast b) AND 0xff) XOR drop_bit 8 crc"

definition crc_do8 :: "ulong \<Rightarrow> byte list \<Rightarrow> ulong" where
  "crc_do8 crc buf = crc_do1 (crc_do1 (crc_do1 (crc_do1 (crc_do1 (crc_do1 (crc_do1 (crc_do1 crc
     (buf ! 0)) (buf ! 1)) (buf ! 2)) (buf ! 3)) (buf ! 4)) (buf ! 5)) (buf ! 6)) (buf ! 7)"

fun bytewise_rest :: "ulong \<Rightarrow> byte list \<Rightarrow> nat \<Rightarrow> ulong" where
  "bytewise_rest crc buf 0 = crc"
| "bytewise_rest crc buf (Suc len) = bytewise_rest (crc_do1 crc (hd buf)) (tl buf) len"

fun bytewise_loop :: "ulong \<Rightarrow> byte list \<Rightarrow> nat \<Rightarrow> ulong" where
  "bytewise_loop crc buf len =
     (if len \<ge> 8 then bytewise_loop (crc_do8 crc buf) (drop 8 buf) (len - 8) else bytewise_rest crc buf len)"

section \<open>Four bytes at a time\<close>

text \<open>A word of the buffer, on a machine that stores the low byte first and on one that stores the high byte first.\<close>

definition le_word :: "byte list \<Rightarrow> u4" where
  "le_word buf = ucast (buf ! 0) + push_bit 8 (ucast (buf ! 1)) + push_bit 16 (ucast (buf ! 2)) + push_bit 24 (ucast (buf ! 3))"

definition be_word :: "byte list \<Rightarrow> u4" where
  "be_word buf = push_bit 24 (ucast (buf ! 0)) + push_bit 16 (ucast (buf ! 1)) + push_bit 8 (ucast (buf ! 2)) + ucast (buf ! 3)"

definition lit_byte :: "u4 \<Rightarrow> byte \<Rightarrow> u4" where
  "lit_byte c b = ucast (crc_table ! 0 ! unat ((c XOR ucast b) AND 0xff) XOR ucast (drop_bit 8 c))"

definition DOLIT4 :: "u4 \<Rightarrow> byte list \<Rightarrow> u4" where
  "DOLIT4 c buf = (let c = c XOR le_word buf in
     ucast (crc_table ! 3 ! unat (c AND 0xff) XOR crc_table ! 2 ! unat (drop_bit 8 c AND 0xff) XOR
       crc_table ! 1 ! unat (drop_bit 16 c AND 0xff) XOR crc_table ! 0 ! unat (drop_bit 24 c)))"

definition big_byte :: "u4 \<Rightarrow> byte \<Rightarrow> u4" where
  "big_byte c b = ucast (crc_table ! 4 ! unat (drop_bit 24 c XOR ucast b) XOR ucast (push_bit 8 c))"

definition DOBIG4 :: "u4 \<Rightarrow> byte list \<Rightarrow> u4" where
  "DOBIG4 c buf = (let c = c XOR be_word buf in
     ucast (crc_table ! 4 ! unat (c AND 0xff) XOR crc_table ! 5 ! unat (drop_bit 8 c AND 0xff) XOR
       crc_table ! 6 ! unat (drop_bit 16 c AND 0xff) XOR crc_table ! 7 ! unat (drop_bit 24 c)))"

text \<open>The loops are the same for both byte orders: \<open>byte\<close> and \<open>word\<close> stand for the steps.\<close>

definition do32 :: "(u4 \<Rightarrow> byte list \<Rightarrow> u4) \<Rightarrow> u4 \<Rightarrow> byte list \<Rightarrow> u4" where
  "do32 word c buf = word (word (word (word (word (word (word (word c buf) (drop 4 buf)) (drop 8 buf)) (drop 12 buf))
     (drop 16 buf)) (drop 20 buf)) (drop 24 buf)) (drop 28 buf)"

fun align_loop :: "(u4 \<Rightarrow> byte \<Rightarrow> u4) \<Rightarrow> nat \<Rightarrow> u4 \<Rightarrow> byte list \<Rightarrow> nat \<Rightarrow> u4 \<times> byte list \<times> nat" where
  "align_loop byte addr c buf 0 = (c, buf, 0)"
| "align_loop byte addr c buf (Suc len) =
     (if addr mod 4 \<noteq> 0 then align_loop byte (Suc addr) (byte c (hd buf)) (tl buf) len else (c, buf, Suc len))"

fun while32 :: "(u4 \<Rightarrow> byte list \<Rightarrow> u4) \<Rightarrow> u4 \<Rightarrow> byte list \<Rightarrow> nat \<Rightarrow> u4 \<times> byte list \<times> nat" where
  "while32 word c buf len = (if len \<ge> 32 then while32 word (do32 word c buf) (drop 32 buf) (len - 32) else (c, buf, len))"

fun while4 :: "(u4 \<Rightarrow> byte list \<Rightarrow> u4) \<Rightarrow> u4 \<Rightarrow> byte list \<Rightarrow> nat \<Rightarrow> u4 \<times> byte list \<times> nat" where
  "while4 word c buf len = (if len \<ge> 4 then while4 word (word c buf) (drop 4 buf) (len - 4) else (c, buf, len))"

fun tail_loop :: "(u4 \<Rightarrow> byte \<Rightarrow> u4) \<Rightarrow> u4 \<Rightarrow> byte list \<Rightarrow> nat \<Rightarrow> u4" where
  "tail_loop byte c buf 0 = c"
| "tail_loop byte c buf (Suc len) = tail_loop byte (byte c (hd buf)) (tl buf) len"

definition crc_words :: "(u4 \<Rightarrow> byte \<Rightarrow> u4) \<Rightarrow> (u4 \<Rightarrow> byte list \<Rightarrow> u4) \<Rightarrow> nat \<Rightarrow> u4 \<Rightarrow> byte list \<Rightarrow> nat \<Rightarrow> u4" where
  "crc_words byte word addr c buf len =
     (case align_loop byte addr c buf len of (c, buf, len) \<Rightarrow>
      case while32 word c buf len of (c, buf, len) \<Rightarrow>
      case while4 word c buf len of (c, buf, len) \<Rightarrow> tail_loop byte c buf len)"

definition crc32_little :: "nat \<Rightarrow> ulong \<Rightarrow> byte list \<Rightarrow> nat \<Rightarrow> ulong" where
  "crc32_little addr crc buf len = ucast (NOT (crc_words lit_byte DOLIT4 addr (NOT (ucast crc)) buf len))"

definition crc32_big :: "nat \<Rightarrow> ulong \<Rightarrow> byte list \<Rightarrow> nat \<Rightarrow> ulong" where
  "crc32_big addr crc buf len = ucast (REV (NOT (crc_words big_byte DOBIG4 addr (NOT (REV (ucast crc))) buf len)))"

datatype build = Bytewise | Little nat | Big nat

definition crc32 :: "build \<Rightarrow> ulong \<Rightarrow> byte list option \<Rightarrow> nat \<Rightarrow> ulong option" where
  "crc32 build crc buf len =
     (case buf of
        None \<Rightarrow> Some 0
      | Some bytes \<Rightarrow>
          if length bytes < len then None
          else case build of
            Little addr \<Rightarrow> Some (crc32_little addr crc bytes len)
          | Big addr \<Rightarrow> Some (crc32_big addr crc bytes len)
          | Bytewise \<Rightarrow> Some (bytewise_loop (crc XOR 0xffffffff) bytes len XOR 0xffffffff))"

section \<open>Combining\<close>

text \<open>A matrix is the list of its rows; reading past them is \<open>None\<close>.\<close>

function gf2_loop :: "ulong \<Rightarrow> ulong list \<Rightarrow> ulong \<Rightarrow> ulong option" where
  "gf2_loop acc mat vec =
     (if vec = 0 then Some acc
      else if vec AND 1 \<noteq> 0
        then (case mat of [] \<Rightarrow> None | m # ms \<Rightarrow> gf2_loop (acc XOR m) ms (drop_bit 1 vec))
        else gf2_loop acc (tl mat) (drop_bit 1 vec))"
  by pat_completeness auto
termination
proof (relation "measure (\<lambda>(acc, mat, vec). unat vec)")
  have d: "unat (drop_bit 1 vec) < unat vec" if "vec \<noteq> 0" for vec :: ulong
    using that by (simp add: drop_bit_eq_div unat_div unat_gt_0)
  show "((acc XOR m, ms, drop_bit 1 vec), acc, mat, vec) \<in> measure (\<lambda>(acc, mat, vec). unat vec)" if "vec \<noteq> 0"
    for acc mat m and vec :: ulong and ms :: "ulong list"
    using d [OF that] by simp
  show "((acc, tl mat, drop_bit 1 vec), acc, mat, vec) \<in> measure (\<lambda>(acc, mat, vec). unat vec)" if "vec \<noteq> 0"
    for acc mat and vec :: ulong
    using d [OF that] by simp
qed simp

definition gf2_matrix_times :: "ulong list \<Rightarrow> ulong \<Rightarrow> ulong option" where
  "gf2_matrix_times mat vec = gf2_loop 0 mat vec"

fun gf2_square_loop :: "ulong list \<Rightarrow> ulong list \<Rightarrow> ulong list option" where
  "gf2_square_loop mat [] = Some []"
| "gf2_square_loop mat (row # rows) = do {
     s \<leftarrow> gf2_matrix_times mat row;
     ss \<leftarrow> gf2_square_loop mat rows;
     Some (s # ss)
   }"

definition gf2_matrix_square :: "ulong list \<Rightarrow> ulong list option" where
  "gf2_matrix_square mat = gf2_square_loop mat (take 32 mat)"

text \<open>The loop over the bits of the length: \<open>odds\<close> is the operator for half the zeros of this bit. The code has the body twice, with the
  roles of the two arrays exchanged; the arrays are overwritten, so the state is the last of them.\<close>

function combine_loop :: "ulong \<Rightarrow> ulong list \<Rightarrow> nat \<Rightarrow> ulong option" where
  "combine_loop crc1 odds len2 = do {
     evens \<leftarrow> gf2_matrix_square odds;
     crc1 \<leftarrow> (if len2 mod 2 \<noteq> 0 then gf2_matrix_times evens crc1 else Some crc1);
     let len2 = len2 div 2;
     if len2 = 0 then Some crc1
     else do {
       odds \<leftarrow> gf2_matrix_square evens;
       crc1 \<leftarrow> (if len2 mod 2 \<noteq> 0 then gf2_matrix_times odds crc1 else Some crc1);
       if len2 div 2 = 0 then Some crc1 else combine_loop crc1 odds (len2 div 2)
     }
   }"
  by pat_completeness auto
termination by (relation "measure (\<lambda>(crc1, odds, len2). len2)") auto

fun odd_rows :: "ulong \<Rightarrow> nat \<Rightarrow> ulong list" where
  "odd_rows row 0 = []"
| "odd_rows row (Suc n) = row # odd_rows (push_bit 1 row) n"

definition crc32_combine :: "ulong \<Rightarrow> ulong \<Rightarrow> nat \<Rightarrow> ulong option" where
  "crc32_combine crc1 crc2 len2 =
     (if len2 = 0 then Some crc1
      else do {
        let odds = 0xedb88320 # odd_rows 1 31;
        evens \<leftarrow> gf2_matrix_square odds;
        odds \<leftarrow> gf2_matrix_square evens;
        crc \<leftarrow> combine_loop crc1 odds len2;
        Some (crc XOR crc2)
      })"

end
