(* ===== verification/ZlibCrcSteps.thy ===== *)
theory ZlibCrcSteps
  imports ZlibCrc
begin

text \<open>
  The shift register of CRC-32, one bit at a time: it is linear, and shifts zero bits out. The tables of \<open>make_crc_table\<close> hold its
  bytes after eight, 16, 24 and 32 steps, and their reversals.
\<close>

section \<open>The shift register\<close>

definition crc_step :: "u4 \<Rightarrow> u4" where
  "crc_step c = (if bit c 0 then 0xedb88320 XOR drop_bit 1 c else drop_bit 1 c)"

abbreviation crc_steps :: "nat \<Rightarrow> u4 \<Rightarrow> u4" where
  "crc_steps n \<equiv> crc_step ^^ n"

definition crc_byte :: "u4 \<Rightarrow> byte \<Rightarrow> u4" where
  "crc_byte c b = crc_steps 8 (c XOR ucast b)"

lemma crc_step_xor: "crc_step (a XOR b) = crc_step a XOR crc_step b"
  by (auto simp: crc_step_def bit_xor_iff ac_simps)

lemma crc_steps_xor: "crc_steps n (a XOR b) = crc_steps n a XOR crc_steps n b"
  by (induction n) (simp_all add: crc_step_xor)

lemma crc_step_0 [simp]: "crc_step 0 = 0"
  by (simp add: crc_step_def)

lemma crc_steps_0 [simp]: "crc_steps n 0 = 0"
  by (induction n) simp_all

lemma crc_steps_add: "crc_steps (m + n) c = crc_steps m (crc_steps n c)"
  by (simp add: funpow_add)

lemma crc_steps_shift: "take_bit n c = 0 \<Longrightarrow> crc_steps n c = drop_bit n c"
proof (induction n arbitrary: c)
  case (Suc n)
  have "\<not> bit c 0" using Suc.prems by (metis bit_0_eq bit_take_bit_iff zero_less_Suc bot_apply bot_bool_def)
  then have s: "crc_step c = drop_bit 1 c" by (simp add: crc_step_def)
  have "take_bit n (drop_bit 1 c) = drop_bit 1 (take_bit (Suc n) c)" by (rule bit_eqI) (auto simp: bit_simps)
  then have "take_bit n (drop_bit 1 c) = 0" using Suc.prems by simp
  then show ?case using Suc.IH [of "drop_bit 1 c"] by (simp add: funpow_Suc_right s del: funpow.simps)
qed simp

lemma crc_steps_push: "crc_steps n (push_bit n y) = take_bit (32 - n) y" if "n \<le> 32" for y :: u4
proof -
  have "take_bit n (push_bit n y) = 0" by (rule bit_eqI) (auto simp: bit_simps)
  moreover have "drop_bit n (push_bit n y) = take_bit (32 - n) y" using that by (intro bit_eqI) (auto simp: bit_simps)
  ultimately show ?thesis by (simp add: crc_steps_shift)
qed

lemma mask_ff: "(0xff :: u4) = mask 8" "(0xff00 :: u4) = push_bit 8 (mask 8)" "(0xff :: ulong) = mask 8"
  "(0xff00 :: ulong) = push_bit 8 (mask 8)"
  by (simp_all add: mask_eq_exp_minus_1)

lemma u4_bit: "bit w n \<Longrightarrow> n < 32" for w :: u4
  using bit_imp_le_length [of w n] by simp

lemma crc_steps_8: "crc_steps 8 c = crc_steps 8 (c AND 0xff) XOR drop_bit 8 c"
proof -
  have c: "c = (c AND 0xff) XOR (c AND NOT (mask 8))" unfolding mask_ff by (rule bit_eqI) (auto simp: bit_simps)
  have "take_bit 8 (c AND NOT (mask 8)) = 0" by (rule bit_eqI) (auto simp: bit_simps)
  then have "crc_steps 8 (c AND NOT (mask 8)) = drop_bit 8 (c AND NOT (mask 8))" by (rule crc_steps_shift)
  also have "\<dots> = drop_bit 8 c" by (rule bit_eqI) (auto simp: bit_simps dest: u4_bit)
  finally show ?thesis using crc_steps_xor [of 8 "c AND 0xff" "c AND NOT (mask 8)"] c by simp
qed

section \<open>Reversal\<close>

lemma plus_xor: "a AND b = 0 \<Longrightarrow> a + b = a XOR b" for a b :: "'a::len word"
  by (simp add: disjunctive_add_eq_or disjunctive_xor_eq_or)

lemma REV_xor: "REV w = ((drop_bit 24 w XOR (drop_bit 8 w AND 0xff00)) XOR push_bit 8 (w AND 0xff00)) XOR push_bit 24 (w AND 0xff)" for w :: u4
proof -
  have 1: "drop_bit 24 w + (drop_bit 8 w AND 0xff00) = drop_bit 24 w XOR (drop_bit 8 w AND 0xff00)"
    unfolding mask_ff by (rule plus_xor, rule bit_eqI) (auto simp: bit_simps dest: u4_bit)
  have 2: "(drop_bit 24 w XOR (drop_bit 8 w AND 0xff00)) + push_bit 8 (w AND 0xff00) =
      (drop_bit 24 w XOR (drop_bit 8 w AND 0xff00)) XOR push_bit 8 (w AND 0xff00)"
    unfolding mask_ff by (rule plus_xor, rule bit_eqI) (auto simp: bit_simps dest: u4_bit)
  have 3: "((drop_bit 24 w XOR (drop_bit 8 w AND 0xff00)) XOR push_bit 8 (w AND 0xff00)) + push_bit 24 (w AND 0xff) =
      ((drop_bit 24 w XOR (drop_bit 8 w AND 0xff00)) XOR push_bit 8 (w AND 0xff00)) XOR push_bit 24 (w AND 0xff)"
    unfolding mask_ff by (rule plus_xor, rule bit_eqI) (auto simp: bit_simps dest: u4_bit)
  show ?thesis by (simp only: REV_def 1 2 3)
qed

lemma bit_REV: "bit (REV w) i \<longleftrightarrow> i < 32 \<and> bit w (if i < 8 then 24 + i else if i < 16 then 8 + i else if i < 24 then i - 8 else i - 24)" for w :: u4
proof -
  consider "i < 8" | "8 \<le> i" "i < 16" | "16 \<le> i" "i < 24" | "24 \<le> i" "i < 32" | "32 \<le> i" by linarith
  then show ?thesis
    unfolding REV_xor mask_ff by cases (auto simp: bit_simps not_le dest: u4_bit)
qed

lemma REV_simps: "REV (a XOR b) = REV a XOR REV b" "REV (NOT a) = NOT (REV a)" "REV (REV a) = a" "REV (drop_bit 8 a) = push_bit 8 (REV a)"
  "drop_bit 24 (REV a) = a AND 0xff" "REV a AND 0xff = drop_bit 24 a" "drop_bit 8 (REV a) AND 0xff = drop_bit 16 a AND 0xff"
  "drop_bit 16 (REV a) AND 0xff = drop_bit 8 a AND 0xff" for a b :: u4
  unfolding mask_ff by (rule bit_eqI; auto simp: bit_REV bit_simps dest: u4_bit split: if_splits)+

text \<open>Reversal in an \<open>unsigned long\<close> that holds 32 bits.\<close>

lemma REV_ucast: "REV (ucast c :: ulong) = ucast (REV c)" for c :: u4
proof -
  have d: "drop_bit n (ucast c :: ulong) = ucast (drop_bit n c)" for n by (rule bit_eqI) (auto simp: bit_simps dest: u4_bit)
  have a: "ucast c AND (push_bit 8 (mask 8) :: ulong) = ucast (c AND push_bit 8 (mask 8))" "ucast c AND (mask 8 :: ulong) = ucast (c AND mask 8)" for c :: u4
    by (rule bit_eqI; auto simp: bit_simps dest: u4_bit)+
  have p: "push_bit 8 (ucast (c AND push_bit 8 (mask 8)) :: ulong) = ucast (push_bit 8 (c AND push_bit 8 (mask 8)))"
    "push_bit 24 (ucast (c AND mask 8) :: ulong) = ucast (push_bit 24 (c AND mask 8))"
    by (rule bit_eqI; auto simp: bit_simps dest: u4_bit)+
  have u: "ucast a + (ucast b :: ulong) = ucast (a XOR b)" if "a AND b = 0" for a b :: u4
  proof -
    have "ucast a AND (ucast b :: ulong) = ucast (a AND b)" by (rule bit_eqI) (auto simp: bit_simps)
    then have "ucast a + (ucast b :: ulong) = ucast a XOR ucast b" using that by (simp add: plus_xor)
    also have "\<dots> = ucast (a XOR b)" by (rule bit_eqI) (auto simp: bit_simps)
    finally show ?thesis .
  qed
  have z: "drop_bit 24 c AND (drop_bit 8 c AND push_bit 8 (mask 8)) = 0"
    "(drop_bit 24 c XOR (drop_bit 8 c AND push_bit 8 (mask 8))) AND push_bit 8 (c AND push_bit 8 (mask 8)) = 0"
    "((drop_bit 24 c XOR (drop_bit 8 c AND push_bit 8 (mask 8))) XOR push_bit 8 (c AND push_bit 8 (mask 8))) AND push_bit 24 (c AND mask 8) = 0"
    by (rule bit_eqI; auto simp: bit_simps dest: u4_bit)+
  show ?thesis unfolding REV_xor REV_def [of "ucast c :: ulong"] mask_ff d a p u [OF z(1)] u [OF z(2)] u [OF z(3)] by (rule refl)
qed

section \<open>The tables the generator makes\<close>

lemma crc_poly_eq: "crc_poly = 0xedb88320"
  by (simp add: crc_poly_def)

lemma xor_ucast: "ucast a XOR (ucast b :: ulong) = ucast (a XOR b)" for a b :: u4
  by (rule bit_eqI) (auto simp: bit_simps)

lemma crc_eight_eq: "crc_eight 0xedb88320 k (ucast c) = ucast (crc_steps k c)"
proof (induction k arbitrary: c)
  case (Suc k)
  have b: "ucast c AND (1 :: ulong) \<noteq> 0 \<longleftrightarrow> bit c 0"
  proof -
    have "odd (ucast c :: ulong) \<longleftrightarrow> bit c 0" unfolding bit_0 [symmetric] by (simp add: bit_simps del: bit_0)
    then show ?thesis by (simp add: and_one_eq flip: odd_iff_mod_2_eq_one)
  qed
  have d: "drop_bit 1 (ucast c :: ulong) = ucast (drop_bit 1 c)" by (rule bit_eqI) (auto simp: bit_simps dest: u4_bit)
  have "0xedb88320 XOR (ucast x :: ulong) = ucast (0xedb88320 XOR x)" for x :: u4 using xor_ucast [of "0xedb88320" x] by simp
  then have "(if ucast c AND (1 :: ulong) \<noteq> 0 then 0xedb88320 XOR drop_bit 1 (ucast c) else drop_bit 1 (ucast c)) = (ucast (crc_step c) :: ulong)"
    unfolding b d crc_step_def by simp
  then show ?case using Suc.IH [of "crc_step c"] by (simp add: funpow_Suc_right del: funpow.simps)
qed simp

text \<open>Row \<open>k\<close> of the first four holds the bytes after \<open>8 * (k + 1)\<close> steps.\<close>

definition crc_row :: "nat \<Rightarrow> nat \<Rightarrow> ulong" where
  "crc_row k n = ucast (crc_steps (8 * Suc k) (of_nat n))"

lemma low_byte: "unat (c AND 0xff) < 256" "of_nat (unat (c AND 0xff)) = c AND 0xff" for c :: u4
proof -
  have "unat (take_bit 8 c) < 2 ^ 8" using take_bit_nat_less_exp [of 8 "unat c"] by (simp add: unsigned_take_bit_eq)
  then show "unat (c AND 0xff) < 256" unfolding mask_ff by (simp add: take_bit_eq_mask)
  show "of_nat (unat (c AND 0xff)) = c AND 0xff" by simp
qed

lemma make_crc_table_rows:
  "make_crc_table = map (\<lambda>k. map (crc_row k) [0..<256]) [0, 1, 2, 3] @ map (\<lambda>k. map (\<lambda>n. REV (crc_row k n)) [0..<256]) [0, 1, 2, 3]"
proof -
  define t0 where "t0 = map (\<lambda>n. crc_eight crc_poly 8 (of_nat n)) [0..<256]"
  have t0: "t0 = map (crc_row 0) [0..<256]"
  proof -
    have "crc_eight crc_poly 8 (of_nat n) = crc_row 0 n" if "n < 256" for n
    proof -
      have "(of_nat n :: ulong) = ucast (of_nat n :: u4)" using that by (simp add: unsigned_of_nat take_bit_nat_eq_self)
      then show ?thesis by (simp add: crc_poly_eq crc_eight_eq crc_row_def)
    qed
    then show ?thesis by (simp add: t0_def)
  qed
  have nx: "crc_next t0 (ucast c) = ucast (crc_steps 8 c)" for c :: u4
  proof -
    have "ucast c AND (0xff :: ulong) = ucast (c AND 0xff)" unfolding mask_ff by (rule bit_eqI) (auto simp: bit_simps dest: u4_bit)
    moreover have "unat (ucast (c AND 0xff) :: ulong) = unat (c AND 0xff)"
      using low_byte(1) [of c] by (simp add: unsigned_ucast_eq take_bit_nat_eq_self)
    moreover have "drop_bit 8 (ucast c :: ulong) = ucast (drop_bit 8 c)" by (rule bit_eqI) (auto simp: bit_simps dest: u4_bit)
    ultimately show ?thesis
      using low_byte(1) [of c] crc_steps_8 [of c] by (simp add: crc_next_def crc_row_def t0 low_byte(2) xor_ucast)
  qed
  have "crc_next t0 (crc_row k n) = crc_row (Suc k) n" for k n
    by (simp only: crc_row_def nx) (simp only: crc_steps_add [symmetric], simp)
  then have r: "map (crc_next t0) (map (crc_row k) [0..<256]) = map (crc_row (Suc k)) [0..<256]" for k by simp
  have t: "map (crc_next t0) t0 = map (crc_row 1) [0..<256]" "map (crc_next t0) (map (crc_row 1) [0..<256]) = map (crc_row 2) [0..<256]"
    "map (crc_next t0) (map (crc_row 2) [0..<256]) = map (crc_row 3) [0..<256]"
    using r [of 0] r [of 1] r [of 2] by (simp_all only: t0 numeral_2_eq_2 numeral_3_eq_3 One_nat_def)
  show ?thesis
    unfolding make_crc_table_def t0_def [symmetric] Let_def t by (simp add: t0 comp_def)
qed

end
