(* ===== verification/ZlibCrcHeader.thy ===== *)
theory ZlibCrcHeader
  imports ZlibCrcSteps
begin

text \<open>
  The tables of the header are those that the generator makes. Every row is linear: an entry is the exclusive-or of the entries for the
  bits of its index, so eight entries of a row decide the others.
\<close>

fun spread :: "ulong list \<Rightarrow> ulong list" where
  "spread [] = [0]"
| "spread (b # bs) = spread bs @ map (\<lambda>x. b XOR x) (spread bs)"

lemma spread_linear:
  assumes "f 0 = 0" "\<And>i m. i < k \<Longrightarrow> m < 2 ^ i \<Longrightarrow> f (2 ^ i + m) = f (2 ^ i) XOR f m"
  shows "map f [0..<2 ^ k] = spread (map (\<lambda>i. f (2 ^ i)) (rev [0..<k]))"
  using assms
proof (induction k)
  case (Suc k)
  have "[0..<2 ^ Suc k] = [0..<2 ^ k] @ map (\<lambda>m. 2 ^ k + m) [0..<2 ^ k]"
    using upt_add_eq_append [of 0 "2 ^ k" "2 ^ k :: nat"] map_add_upt [of "2 ^ k" "2 ^ k"] by (simp add: add.commute mult_2)
  then have "map f [0..<2 ^ Suc k] = map f [0..<2 ^ k] @ map (\<lambda>x. f (2 ^ k) XOR x) (map f [0..<2 ^ k])"
    using Suc.prems(2) [of k] by simp
  then show ?case using Suc by simp
qed simp

declare spread.simps [simp del]

lemma crc_row_linear: "crc_row k 0 = 0" "i < 8 \<Longrightarrow> m < 2 ^ i \<Longrightarrow> crc_row k (2 ^ i + m) = crc_row k (2 ^ i) XOR crc_row k m"
proof -
  show "crc_row k 0 = 0" by (simp add: crc_row_def)
  assume i: "i < 8" "m < 2 ^ i"
  have "\<not> bit m n" if "i \<le> n" for n using i(2) that by (metis bit_take_bit_iff not_le take_bit_nat_eq_self)
  then have "(of_nat (2 ^ i) :: u4) AND of_nat m = 0" by (intro bit_eqI) (auto simp: bit_simps)
  then have "(of_nat (2 ^ i + m) :: u4) = of_nat (2 ^ i) XOR of_nat m" by (simp only: of_nat_add plus_xor)
  then show "crc_row k (2 ^ i + m) = crc_row k (2 ^ i) XOR crc_row k m" by (simp only: crc_row_def crc_steps_xor xor_ucast)
qed

lemma rows_spread:
  "map (crc_row k) [0..<256] = spread (map (crc_row k) [0x80, 0x40, 0x20, 0x10, 8, 4, 2, 1])"
  "map (\<lambda>n. REV (crc_row k n)) [0..<256] = spread (map (\<lambda>n. REV (crc_row k n)) [0x80, 0x40, 0x20, 0x10, 8, 4, 2, 1])"
proof -
  have p: "map (\<lambda>i. f (2 ^ i)) (rev [0..<8]) = map f [0x80, 0x40, 0x20, 0x10, 8, 4, 2, 1]" for f :: "nat \<Rightarrow> ulong"
    by (simp add: upt_rec)
  have "REV (crc_row k (2 ^ i + m)) = REV (crc_row k (2 ^ i)) XOR REV (crc_row k m)" if "i < 8" "m < 2 ^ i" for i m
    unfolding crc_row_linear(2) [OF that] by (simp only: crc_row_def xor_ucast REV_ucast REV_simps)
  moreover have "REV (crc_row k 0) = 0" by (simp add: crc_row_linear(1) REV_def)
  ultimately show "map (\<lambda>n. REV (crc_row k n)) [0..<256] = spread (map (\<lambda>n. REV (crc_row k n)) [0x80, 0x40, 0x20, 0x10, 8, 4, 2, 1])"
    using spread_linear [of "\<lambda>n. REV (crc_row k n)" 8] unfolding p [of "\<lambda>n. REV (crc_row k n)"] by simp
  show "map (crc_row k) [0..<256] = spread (map (crc_row k) [0x80, 0x40, 0x20, 0x10, 8, 4, 2, 1])"
    using spread_linear [of "crc_row k" 8] crc_row_linear unfolding p by simp
qed

lemma crc_steps_8_unfold: "crc_steps 8 c = crc_step (crc_step (crc_step (crc_step (crc_step (crc_step (crc_step (crc_step c)))))))"
  by (simp add: eval_nat_numeral)

lemma bases_0: "map (crc_steps 8) [0x80, 0x40, 0x20, 0x10, 8, 4, 2, 1] = [0xedb88320, 0x76dc4190, 0x3b6e20c8, 0x1db71064, 0x0edb8832, 0x076dc419, 0xee0e612c, 0x77073096]"
  by (simp add: crc_steps_8_unfold crc_step_def)

lemma bases_1: "map (crc_steps 8) [0xedb88320, 0x76dc4190, 0x3b6e20c8, 0x1db71064, 0x0edb8832, 0x076dc419, 0xee0e612c, 0x77073096] = [0x3b83984b, 0xf0794f05, 0x958424a2, 0x4ac21251, 0xc8d98a08, 0x646cc504, 0x32366282, 0x191b3141]"
  by (simp add: crc_steps_8_unfold crc_step_def)

lemma bases_2: "map (crc_steps 8) [0x3b83984b, 0xf0794f05, 0x958424a2, 0x4ac21251, 0xc8d98a08, 0x646cc504, 0x32366282, 0x191b3141] = [0xe1351b80, 0x709a8dc0, 0x384d46e0, 0x1c26a370, 0x0e1351b8, 0x0709a8dc, 0x0384d46e, 0x01c26a37]"
  by (simp add: crc_steps_8_unfold crc_step_def)

lemma bases_3: "map (crc_steps 8) [0xe1351b80, 0x709a8dc0, 0x384d46e0, 0x1c26a370, 0x0e1351b8, 0x0709a8dc, 0x0384d46e, 0x01c26a37] = [0xed59b63b, 0x9b14583d, 0xa032af3e, 0x5019579f, 0xc5b428ef, 0x8f629757, 0xaa09c88b, 0xb8bc6765]"
  by (simp add: crc_steps_8_unfold crc_step_def)

text \<open>The bases of the rows and of the reversed rows.\<close>

lemma crc_row_step: "crc_row 0 n = ucast (crc_steps 8 (of_nat n))" "crc_row (Suc k) n = ucast (crc_steps 8 (crc_steps (8 * Suc k) (of_nat n)))"
  by (simp_all only: crc_row_def crc_steps_add [symmetric]) simp_all

lemma row_bases:
  "map (crc_row 0) [0x80, 0x40, 0x20, 0x10, 8, 4, 2, 1] = [0xedb88320, 0x76dc4190, 0x3b6e20c8, 0x1db71064, 0x0edb8832, 0x076dc419, 0xee0e612c, 0x77073096]"
  "map (crc_row 1) [0x80, 0x40, 0x20, 0x10, 8, 4, 2, 1] = [0x3b83984b, 0xf0794f05, 0x958424a2, 0x4ac21251, 0xc8d98a08, 0x646cc504, 0x32366282, 0x191b3141]"
  "map (crc_row 2) [0x80, 0x40, 0x20, 0x10, 8, 4, 2, 1] = [0xe1351b80, 0x709a8dc0, 0x384d46e0, 0x1c26a370, 0x0e1351b8, 0x0709a8dc, 0x0384d46e, 0x01c26a37]"
  "map (crc_row 3) [0x80, 0x40, 0x20, 0x10, 8, 4, 2, 1] = [0xed59b63b, 0x9b14583d, 0xa032af3e, 0x5019579f, 0xc5b428ef, 0x8f629757, 0xaa09c88b, 0xb8bc6765]"
proof -
  let ?p = "[0x80, 0x40, 0x20, 0x10, 8, 4, 2, 1 :: u4]"
  have m: "map (crc_row k) [0x80, 0x40, 0x20, 0x10, 8, 4, 2, 1] = map (\<lambda>x. ucast (crc_steps (8 * Suc k) x)) ?p" for k
    by (simp add: crc_row_def)
  have c: "crc_steps 8 = crc_steps (8 * Suc 0)" "crc_steps 16 x = crc_steps 8 (crc_steps 8 x)" "crc_steps 24 x = crc_steps 8 (crc_steps 16 x)"
    "crc_steps 32 x = crc_steps 8 (crc_steps 24 x)" for x
    by (simp_all only: crc_steps_add [symmetric]) simp_all
  show "map (crc_row 0) [0x80, 0x40, 0x20, 0x10, 8, 4, 2, 1] = [0xedb88320, 0x76dc4190, 0x3b6e20c8, 0x1db71064, 0x0edb8832, 0x076dc419, 0xee0e612c, 0x77073096]"
    using bases_0 unfolding m by (simp add: c(2-4))
  show "map (crc_row 1) [0x80, 0x40, 0x20, 0x10, 8, 4, 2, 1] = [0x3b83984b, 0xf0794f05, 0x958424a2, 0x4ac21251, 0xc8d98a08, 0x646cc504, 0x32366282, 0x191b3141]"
    using bases_0 bases_1 unfolding m by (simp add: c(2-4))
  show "map (crc_row 2) [0x80, 0x40, 0x20, 0x10, 8, 4, 2, 1] = [0xe1351b80, 0x709a8dc0, 0x384d46e0, 0x1c26a370, 0x0e1351b8, 0x0709a8dc, 0x0384d46e, 0x01c26a37]"
    using bases_0 bases_1 bases_2 unfolding m by (simp add: c(2-4))
  show "map (crc_row 3) [0x80, 0x40, 0x20, 0x10, 8, 4, 2, 1] = [0xed59b63b, 0x9b14583d, 0xa032af3e, 0x5019579f, 0xc5b428ef, 0x8f629757, 0xaa09c88b, 0xb8bc6765]"
    using bases_0 bases_1 bases_2 bases_3 unfolding m by (simp add: c(2-4))
qed

lemma header_tables:
  "map (crc_row 0) [0..<256] = crc_table_0"
  "map (crc_row 1) [0..<256] = crc_table_1"
  "map (crc_row 2) [0..<256] = crc_table_2"
  "map (crc_row 3) [0..<256] = crc_table_3"
  "map (\<lambda>n. REV (crc_row 0 n)) [0..<256] = crc_table_4"
  "map (\<lambda>n. REV (crc_row 1 n)) [0..<256] = crc_table_5"
  "map (\<lambda>n. REV (crc_row 2 n)) [0..<256] = crc_table_6"
  "map (\<lambda>n. REV (crc_row 3 n)) [0..<256] = crc_table_7"
proof -
  have r: "map (\<lambda>n. REV (crc_row k n)) [0x80, 0x40, 0x20, 0x10, 8, 4, 2, 1] = map REV (map (crc_row k) [0x80, 0x40, 0x20, 0x10, 8, 4, 2, 1])" for k
    by simp
  show "map (crc_row 0) [0..<256] = crc_table_0"
    unfolding rows_spread row_bases crc_table_0_def by (simp add: spread.simps)
  show "map (crc_row 1) [0..<256] = crc_table_1"
    unfolding rows_spread row_bases crc_table_1_def by (simp add: spread.simps)
  show "map (crc_row 2) [0..<256] = crc_table_2"
    unfolding rows_spread row_bases crc_table_2_def by (simp add: spread.simps)
  show "map (crc_row 3) [0..<256] = crc_table_3"
    unfolding rows_spread row_bases crc_table_3_def by (simp add: spread.simps)
  show "map (\<lambda>n. REV (crc_row 0 n)) [0..<256] = crc_table_4"
    unfolding rows_spread r row_bases crc_table_4_def by (simp add: spread.simps REV_def)
  show "map (\<lambda>n. REV (crc_row 1 n)) [0..<256] = crc_table_5"
    unfolding rows_spread r row_bases crc_table_5_def by (simp add: spread.simps REV_def)
  show "map (\<lambda>n. REV (crc_row 2 n)) [0..<256] = crc_table_6"
    unfolding rows_spread r row_bases crc_table_6_def by (simp add: spread.simps REV_def)
  show "map (\<lambda>n. REV (crc_row 3 n)) [0..<256] = crc_table_7"
    unfolding rows_spread r row_bases crc_table_7_def by (simp add: spread.simps REV_def)
qed


text \<open>What the code reads.\<close>

lemma crc_table_generated: "crc_table = make_crc_table"
  by (simp only: make_crc_table_rows header_tables list.map append.simps crc_table_def)

lemma crc_table_rows:
  assumes "n < 256"
  shows "crc_table ! 0 ! n = crc_row 0 n" "crc_table ! 1 ! n = crc_row 1 n" "crc_table ! 2 ! n = crc_row 2 n" "crc_table ! 3 ! n = crc_row 3 n"
    "crc_table ! 4 ! n = REV (crc_row 0 n)" "crc_table ! 5 ! n = REV (crc_row 1 n)" "crc_table ! 6 ! n = REV (crc_row 2 n)"
    "crc_table ! 7 ! n = REV (crc_row 3 n)"
  using assms by (simp_all add: crc_table_generated make_crc_table_rows)

end
