(* ===== verification/ZlibCrcCorrect.thy ===== *)
theory ZlibCrcCorrect
  imports ZlibCrcHeader Interfaces
begin

text \<open>
  All the ways of computing a CRC-32 agree with the shift register that takes one bit at a time, and checksums of parts combine.
\<close>

section \<open>Bytes and words\<close>

lemma ucast_ulong: "ucast (ucast c :: ulong) = c" for c :: u4
  by (rule bit_eqI) (auto simp: bit_simps dest: u4_bit)

lemma row_at: "crc_row k (unat (c AND 0xff)) = ucast (crc_steps (8 * Suc k) (c AND 0xff))" for c :: u4
  by (simp only: crc_row_def low_byte(2))

lemma high_byte: "drop_bit 24 c = drop_bit 24 c AND 0xff" "drop_bit 8 (ucast b :: u4) = 0" for c :: u4 and b :: byte
  unfolding mask_ff by (rule bit_eqI; auto simp: bit_simps dest: u4_bit bit_imp_le_length)+

lemma crc_steps_low: "crc_steps 8 ((c XOR ucast b) AND 0xff) XOR drop_bit 8 c = crc_byte c b"
proof -
  have "drop_bit 8 (c XOR ucast b) = drop_bit 8 c" by (simp add: drop_bit_xor high_byte(2))
  then show ?thesis using crc_steps_8 [of "c XOR ucast b"] by (simp add: crc_byte_def)
qed

lemma lit_byte_eq: "lit_byte c b = crc_byte c b"
  using low_byte(1) [of "c XOR ucast b"]
  by (simp add: lit_byte_def crc_table_rows row_at xor_ucast ucast_ulong crc_steps_low)

lemma big_byte_eq: "big_byte (REV c) b = REV (crc_byte c b)"
proof -
  have x: "drop_bit 24 (REV c) XOR ucast b = (c XOR ucast b) AND 0xff"
    unfolding REV_simps mask_ff by (rule bit_eqI) (auto simp: bit_simps dest: bit_imp_le_length)
  have "big_byte (REV c) b = REV (crc_steps 8 ((c XOR ucast b) AND 0xff)) XOR push_bit 8 (REV c)"
    using low_byte(1) [of "c XOR ucast b"]
    by (simp add: big_byte_def x crc_table_rows row_at REV_ucast xor_ucast ucast_ulong)
  then show ?thesis by (simp only: REV_simps(4) [symmetric] REV_simps(1) [symmetric] crc_steps_low)
qed

lemma do1_eq: "crc_do1 (ucast c) b = ucast (crc_byte c b)"
proof -
  have x: "(ucast c XOR ucast b) AND (0xff :: ulong) = ucast ((c XOR ucast b) AND 0xff)"
    unfolding mask_ff by (rule bit_eqI) (auto simp: bit_simps dest: u4_bit)
  have u: "unat (ucast ((c XOR ucast b) AND 0xff) :: ulong) = unat ((c XOR ucast b) AND 0xff)"
    using low_byte(1) [of "c XOR ucast b"] by (simp add: unsigned_ucast_eq take_bit_nat_eq_self)
  have d: "drop_bit 8 (ucast c :: ulong) = ucast (drop_bit 8 c)" by (rule bit_eqI) (auto simp: bit_simps dest: u4_bit)
  show ?thesis
    using low_byte(1) [of "c XOR ucast b"]
    by (simp add: crc_do1_def x u d crc_table_rows row_at xor_ucast crc_steps_low)
qed

text \<open>The words as exclusive-ors.\<close>

lemma le_word_xor: "le_word buf = ((ucast (buf ! 0) XOR push_bit 8 (ucast (buf ! 1))) XOR push_bit 16 (ucast (buf ! 2))) XOR push_bit 24 (ucast (buf ! 3))"
proof -
  have z: "(ucast a AND push_bit 8 (ucast b) :: u4) = 0" "((ucast a XOR push_bit 8 (ucast b)) AND push_bit 16 (ucast c) :: u4) = 0"
    "(((ucast a XOR push_bit 8 (ucast b)) XOR push_bit 16 (ucast c)) AND push_bit 24 (ucast d) :: u4) = 0" for a b c d :: byte
    by (rule bit_eqI; auto simp: bit_simps dest: bit_imp_le_length)+
  show ?thesis by (simp only: le_word_def plus_xor [OF z(1)] plus_xor [OF z(2)] plus_xor [OF z(3)])
qed

lemma be_word_xor: "be_word buf = ((push_bit 24 (ucast (buf ! 0)) XOR push_bit 16 (ucast (buf ! 1))) XOR push_bit 8 (ucast (buf ! 2))) XOR ucast (buf ! 3)"
proof -
  have z: "(push_bit 24 (ucast a) AND push_bit 16 (ucast b) :: u4) = 0" "((push_bit 24 (ucast a) XOR push_bit 16 (ucast b)) AND push_bit 8 (ucast c) :: u4) = 0"
    "(((push_bit 24 (ucast a) XOR push_bit 16 (ucast b)) XOR push_bit 8 (ucast c)) AND ucast d :: u4) = 0" for a b c d :: byte
    by (rule bit_eqI; auto simp: bit_simps dest: bit_imp_le_length)+
  show ?thesis by (simp only: be_word_def plus_xor [OF z(1)] plus_xor [OF z(2)] plus_xor [OF z(3)])
qed

lemma be_word_REV: "be_word buf = REV (le_word buf)"
proof -
  have "REV (ucast a) = push_bit 24 (ucast a :: u4)" "REV (push_bit 8 (ucast a)) = push_bit 16 (ucast a :: u4)"
    "REV (push_bit 16 (ucast a)) = push_bit 8 (ucast a :: u4)" "REV (push_bit 24 (ucast a)) = (ucast a :: u4)" for a :: byte
    by (rule bit_eqI; auto simp: bit_REV bit_simps dest: bit_imp_le_length)+
  then show ?thesis by (simp only: be_word_xor le_word_xor REV_simps(1))
qed

text \<open>Thirty-two steps on a word, byte by byte.\<close>

lemma word_bytes: "x = (((x AND 0xff) XOR push_bit 8 (drop_bit 8 x AND 0xff)) XOR push_bit 16 (drop_bit 16 x AND 0xff)) XOR push_bit 24 (drop_bit 24 x)"
  for x :: u4
proof (rule bit_eqI)
  fix i :: nat
  consider "i < 8" | "8 \<le> i" "i < 16" | "16 \<le> i" "i < 24" | "24 \<le> i" "i < 32" | "32 \<le> i" by linarith
  then show "bit x i = bit ((((x AND 0xff) XOR push_bit 8 (drop_bit 8 x AND 0xff)) XOR push_bit 16 (drop_bit 16 x AND 0xff)) XOR push_bit 24 (drop_bit 24 x)) i"
    unfolding mask_ff by cases (auto simp: bit_simps dest: u4_bit)
qed

lemma steps_32: "crc_steps 32 x = ((crc_steps 32 (x AND 0xff) XOR crc_steps 24 (drop_bit 8 x AND 0xff)) XOR crc_steps 16 (drop_bit 16 x AND 0xff)) XOR
    crc_steps 8 (drop_bit 24 x)"
proof -
  have p: "crc_steps 32 (push_bit 8 z) = crc_steps 24 z" "crc_steps 32 (push_bit 16 z) = crc_steps 16 z"
    "crc_steps 32 (push_bit 24 z) = crc_steps 8 z" if z: "take_bit 8 z = z" for z
  proof -
    have "take_bit 24 (take_bit 8 z) = take_bit 8 z" "take_bit 16 (take_bit 8 z) = take_bit 8 z" by simp_all
    then have t: "take_bit 24 z = z" "take_bit 16 z = z" unfolding z .
    show "crc_steps 32 (push_bit 8 z) = crc_steps 24 z" "crc_steps 32 (push_bit 16 z) = crc_steps 16 z"
      "crc_steps 32 (push_bit 24 z) = crc_steps 8 z"
      using crc_steps_add [of 24 8 "push_bit 8 z"] crc_steps_add [of 16 16 "push_bit 16 z"] crc_steps_add [of 8 24 "push_bit 24 z"]
        crc_steps_push [of 8 z] crc_steps_push [of 16 z] crc_steps_push [of 24 z] t z
      by simp_all
  qed
  have b: "take_bit 8 (y AND mask 8) = y AND mask 8" for y :: u4 by (simp add: take_bit_eq_mask and.assoc)
  have h: "drop_bit 24 x AND mask 8 = drop_bit 24 x" using high_byte(1) [of x] unfolding mask_ff by (rule sym)
  have w: "x = (((x AND mask 8) XOR push_bit 8 (drop_bit 8 x AND mask 8)) XOR push_bit 16 (drop_bit 16 x AND mask 8)) XOR push_bit 24 (drop_bit 24 x AND mask 8)"
    using word_bytes [of x] unfolding h mask_ff .
  have "crc_steps 32 x = ((crc_steps 32 (x AND mask 8) XOR crc_steps 24 (drop_bit 8 x AND mask 8)) XOR crc_steps 16 (drop_bit 16 x AND mask 8)) XOR
      crc_steps 8 (drop_bit 24 x AND mask 8)"
    unfolding p [OF b, symmetric] crc_steps_xor [symmetric] using w by (rule arg_cong)
  then show ?thesis unfolding h mask_ff .
qed

lemma bytes_32: "crc_byte (crc_byte (crc_byte (crc_byte c b0) b1) b2) b3 =
  crc_steps 32 (c XOR (((ucast b0 XOR push_bit 8 (ucast b1)) XOR push_bit 16 (ucast b2)) XOR push_bit 24 (ucast b3)))"
proof -
  have p: "crc_steps n (push_bit n (ucast b)) = ucast b" if "n \<le> 24" for n and b :: byte
  proof -
    have "take_bit (32 - n) (ucast b :: u4) = ucast b" using that by (intro bit_eqI) (auto simp: bit_simps dest: bit_imp_le_length)
    then show ?thesis using crc_steps_push [of n "ucast b"] that by simp
  qed
  have a: "crc_steps n (crc_steps m y) = crc_steps (n + m) y" for n m y by (simp add: crc_steps_add)
  have "crc_byte (crc_byte (crc_byte (crc_byte c b0) b1) b2) b3 =
      crc_steps 8 (crc_steps 8 (crc_steps 8 (crc_steps 8 (c XOR ucast b0) XOR crc_steps 8 (push_bit 8 (ucast b1))) XOR crc_steps 16 (push_bit 16 (ucast b2)))
        XOR crc_steps 24 (push_bit 24 (ucast b3)))"
    by (simp add: crc_byte_def p)
  also have "\<dots> = crc_steps 32 (((c XOR ucast b0) XOR push_bit 8 (ucast b1)) XOR push_bit 16 (ucast b2) XOR push_bit 24 (ucast b3))"
    by (simp add: a crc_steps_xor ac_simps)
  finally show ?thesis by (simp add: ac_simps)
qed

lemma DOLIT4_eq: "DOLIT4 c buf = crc_byte (crc_byte (crc_byte (crc_byte c (buf ! 0)) (buf ! 1)) (buf ! 2)) (buf ! 3)"
proof -
  define x where "x = c XOR le_word buf"
  have h: "drop_bit 24 x = drop_bit 24 x AND 0xff" by (rule high_byte(1))
  have "DOLIT4 c buf = ucast (((crc_row 3 (unat (x AND 0xff)) XOR crc_row 2 (unat (drop_bit 8 x AND 0xff))) XOR crc_row 1 (unat (drop_bit 16 x AND 0xff))) XOR
      crc_row 0 (unat (drop_bit 24 x AND 0xff)))"
    using low_byte(1) [of x] low_byte(1) [of "drop_bit 8 x"] low_byte(1) [of "drop_bit 16 x"] low_byte(1) [of "drop_bit 24 x"]
    unfolding DOLIT4_def x_def [symmetric] Let_def by (subst h) (simp only: crc_table_rows ac_simps)
  also have "\<dots> = ((crc_steps 32 (x AND 0xff) XOR crc_steps 24 (drop_bit 8 x AND 0xff)) XOR crc_steps 16 (drop_bit 16 x AND 0xff)) XOR
      crc_steps 8 (drop_bit 24 x AND 0xff)"
    by (simp only: row_at xor_ucast ucast_ulong) simp
  also have "\<dots> = crc_steps 32 x" using steps_32 [of x] h by simp
  finally show ?thesis by (simp only: bytes_32 x_def le_word_xor)
qed

lemma DOBIG4_eq: "DOBIG4 (REV c) buf = REV (DOLIT4 c buf)"
proof -
  define x where "x = c XOR le_word buf"
  have x: "REV c XOR be_word buf = REV x" by (simp only: be_word_REV x_def REV_simps(1))
  have h: "drop_bit 24 x = drop_bit 24 x AND 0xff" by (rule high_byte(1))
  have "DOBIG4 (REV c) buf = ucast (((REV (crc_row 0 (unat (drop_bit 24 x AND 0xff))) XOR REV (crc_row 1 (unat (drop_bit 16 x AND 0xff)))) XOR
      REV (crc_row 2 (unat (drop_bit 8 x AND 0xff)))) XOR REV (crc_row 3 (unat (x AND 0xff))))"
    using low_byte(1) [of x] low_byte(1) [of "drop_bit 8 x"] low_byte(1) [of "drop_bit 16 x"] low_byte(1) [of "drop_bit 24 x"]
    unfolding DOBIG4_def x Let_def REV_simps h [symmetric] by (simp only: crc_table_rows ac_simps)
  also have "\<dots> = REV (((crc_steps 8 (drop_bit 24 x AND 0xff) XOR crc_steps 16 (drop_bit 16 x AND 0xff)) XOR crc_steps 24 (drop_bit 8 x AND 0xff)) XOR
      crc_steps 32 (x AND 0xff))"
    by (simp only: row_at REV_ucast xor_ucast ucast_ulong REV_simps(1)) simp
  also have "\<dots> = REV (crc_steps 32 x)" using steps_32 [of x] h by (simp add: ac_simps)
  finally show ?thesis by (simp only: DOLIT4_eq bytes_32 x_def le_word_xor)
qed

section \<open>The loops\<close>

definition ahead :: "('c \<Rightarrow> byte \<Rightarrow> 'c) \<Rightarrow> 'c \<Rightarrow> byte list \<Rightarrow> nat \<Rightarrow> 'c \<times> byte list \<times> nat \<Rightarrow> bool" where
  "ahead f c buf len st \<longleftrightarrow> (\<exists>k \<le> len. st = (foldl f c (take k buf), drop k buf, len - k))"

lemma foldl_take: "foldl f c (take (m + n) buf) = foldl f (foldl f c (take m buf)) (take n (drop m buf))"
  by (simp add: take_add)

lemma ahead_refl: "ahead f c buf len (c, buf, len)"
  by (auto simp: ahead_def)

lemma ahead_trans: "ahead f c buf len (c', buf', len') \<Longrightarrow> ahead f c' buf' len' st \<Longrightarrow> ahead f c buf len st"
proof -
  assume "ahead f c buf len (c', buf', len')" "ahead f c' buf' len' st"
  then obtain k l where k: "k \<le> len" "c' = foldl f c (take k buf)" "buf' = drop k buf" "len' = len - k"
    and l: "l \<le> len'" "st = (foldl f c' (take l buf'), drop l buf', len' - l)"
    by (auto simp: ahead_def)
  then show ?thesis unfolding ahead_def by (intro exI [of _ "k + l"]) (simp add: foldl_take add.commute)
qed

lemma align_loop_ahead: "len \<le> length buf \<Longrightarrow> ahead f c buf len (align_loop f addr c buf len)"
proof (induction len arbitrary: addr c buf)
  case (Suc len)
  then obtain b bs where b: "buf = b # bs" by (cases buf) auto
  have "ahead f c buf (Suc len) (f c b, bs, len)" unfolding ahead_def by (intro exI [of _ 1]) (simp add: b)
  then show ?case using Suc.IH [of bs "f c b" "Suc addr"] Suc.prems by (auto simp: b ahead_refl intro: ahead_trans)
qed (simp add: ahead_refl)

lemma tail_loop_foldl: "len \<le> length buf \<Longrightarrow> tail_loop f c buf len = foldl f c (take len buf)"
proof (induction len arbitrary: c buf)
  case (Suc len)
  then obtain b bs where "buf = b # bs" by (cases buf) auto
  then show ?case using Suc by simp
qed simp

declare while32.simps [simp del] while4.simps [simp del] bytewise_loop.simps [simp del]

text \<open>A step on four bytes that is four steps on one byte.\<close>

locale word_steps =
  fixes byte :: "u4 \<Rightarrow> byte \<Rightarrow> u4"
    and word :: "u4 \<Rightarrow> byte list \<Rightarrow> u4"
  assumes word_bytes: "word c buf = byte (byte (byte (byte c (buf ! 0)) (buf ! 1)) (buf ! 2)) (buf ! 3)"
begin

lemma word_foldl: "4 \<le> length buf \<Longrightarrow> word c buf = foldl byte c (take 4 buf)"
proof -
  assume "4 \<le> length buf"
  then obtain b0 b1 b2 b3 bs where "buf = b0 # b1 # b2 # b3 # bs" by (auto simp: Suc_le_length_iff numeral_eq_Suc)
  then show ?thesis by (simp add: word_bytes)
qed

lemma word_next: "n + 4 \<le> length buf \<Longrightarrow> word (foldl byte c (take n buf)) (drop n buf) = foldl byte c (take (n + 4) buf)"
  using word_foldl [of "drop n buf"] by (simp add: foldl_take)

lemma do32_foldl: "32 \<le> length buf \<Longrightarrow> do32 word c buf = foldl byte c (take 32 buf)"
  using word_foldl [of buf c] word_next [of 4 buf c] word_next [of 8 buf c] word_next [of 12 buf c] word_next [of 16 buf c] word_next [of 20 buf c]
    word_next [of 24 buf c] word_next [of 28 buf c]
  by (simp add: do32_def)

lemma while32_ahead: "len \<le> length buf \<Longrightarrow> ahead byte c buf len (while32 word c buf len)"
proof (induction len arbitrary: c buf rule: less_induct)
  case (less len)
  show ?case
  proof (cases "32 \<le> len")
    case True
    have "ahead byte c buf len (do32 word c buf, drop 32 buf, len - 32)"
      unfolding ahead_def using True less.prems by (intro exI [of _ 32]) (simp add: do32_foldl)
    then show ?thesis
      using less.IH [of "len - 32" "drop 32 buf" "do32 word c buf"] True less.prems
      by (auto simp: while32.simps [of word c buf len] intro: ahead_trans)
  next
    case False
    then show ?thesis by (simp add: while32.simps [of word c buf len] ahead_refl)
  qed
qed

lemma while4_ahead: "len \<le> length buf \<Longrightarrow> ahead byte c buf len (while4 word c buf len)"
proof (induction len arbitrary: c buf rule: less_induct)
  case (less len)
  show ?case
  proof (cases "4 \<le> len")
    case True
    have "ahead byte c buf len (word c buf, drop 4 buf, len - 4)"
      unfolding ahead_def using True less.prems by (intro exI [of _ 4]) (simp add: word_foldl)
    then show ?thesis
      using less.IH [of "len - 4" "drop 4 buf" "word c buf"] True less.prems
      by (auto simp: while4.simps [of word c buf len] intro: ahead_trans)
  next
    case False
    then show ?thesis by (simp add: while4.simps [of word c buf len] ahead_refl)
  qed
qed

text \<open>Whatever the alignment, the loops take the bytes one after the other.\<close>

lemma crc_words_foldl:
  assumes "len \<le> length buf"
  shows "crc_words byte word addr c buf len = foldl byte c (take len buf)"
proof -
  have le: "len' \<le> length buf'" if "ahead byte c buf len (c', buf', len')" for c' buf' len'
    using that assms by (auto simp: ahead_def)
  obtain c1 b1 l1 where 1: "align_loop byte addr c buf len = (c1, b1, l1)" by (metis prod_cases3)
  obtain c2 b2 l2 where 2: "while32 word c1 b1 l1 = (c2, b2, l2)" by (metis prod_cases3)
  obtain c3 b3 l3 where 3: "while4 word c2 b2 l2 = (c3, b3, l3)" by (metis prod_cases3)
  have a1: "ahead byte c buf len (c1, b1, l1)" using align_loop_ahead [OF assms] 1 by metis
  have a2: "ahead byte c buf len (c2, b2, l2)" using ahead_trans [OF a1] while32_ahead [OF le [OF a1]] 2 by metis
  have a3: "ahead byte c buf len (c3, b3, l3)" using ahead_trans [OF a2] while4_ahead [OF le [OF a2]] 3 by metis
  have "crc_words byte word addr c buf len = foldl byte c3 (take l3 b3)"
    using tail_loop_foldl [OF le [OF a3]] by (simp add: crc_words_def 1 2 3)
  also obtain k where k: "k \<le> len" "c3 = foldl byte c (take k buf)" "b3 = drop k buf" "l3 = len - k" using a3 by (auto simp: ahead_def)
  then have "foldl byte c3 (take l3 b3) = foldl byte c (take len buf)" using foldl_take [of byte c k "len - k" buf] by simp
  finally show ?thesis .
qed

end

interpretation little: word_steps lit_byte DOLIT4
  by unfold_locales (simp only: lit_byte_eq DOLIT4_eq)

interpretation big: word_steps big_byte DOBIG4
proof
  fix c buf
  have b: "big_byte c b = REV (crc_byte (REV c) b)" for c b using big_byte_eq [of "REV c" b] by (simp only: REV_simps(3))
  have "DOBIG4 c buf = REV (DOLIT4 (REV c) buf)" using DOBIG4_eq [of "REV c" buf] by (simp only: REV_simps(3))
  then show "DOBIG4 c buf = big_byte (big_byte (big_byte (big_byte c (buf ! 0)) (buf ! 1)) (buf ! 2)) (buf ! 3)"
    by (simp only: b DOLIT4_eq REV_simps(3))
qed

section \<open>The checksum\<close>

abbreviation crc_of :: "u4 \<Rightarrow> byte list \<Rightarrow> u4" where
  "crc_of c bs \<equiv> NOT (foldl crc_byte (NOT c) bs)"

lemma foldl_big: "foldl big_byte (REV c) bs = REV (foldl crc_byte c bs)"
  by (induction bs arbitrary: c) (simp_all add: big_byte_eq)

lemma bytewise_rest_eq: "len \<le> length buf \<Longrightarrow> bytewise_rest (ucast c) buf len = ucast (foldl crc_byte c (take len buf))"
proof (induction len arbitrary: c buf)
  case (Suc len)
  then obtain b bs where "buf = b # bs" by (cases buf) auto
  then show ?case using Suc by (simp add: do1_eq)
qed simp

lemma do8_eq: "8 \<le> length buf \<Longrightarrow> crc_do8 (ucast c) buf = ucast (foldl crc_byte c (take 8 buf))"
proof -
  assume "8 \<le> length buf"
  then have "take 8 buf = map ((!) buf) [0..<8]" by (auto intro: nth_equalityI)
  also have "\<dots> = [buf ! 0, buf ! 1, buf ! 2, buf ! 3, buf ! 4, buf ! 5, buf ! 6, buf ! 7]" by (simp add: upt_rec numeral_eq_Suc)
  finally show ?thesis by (simp add: crc_do8_def do1_eq)
qed

lemma bytewise_loop_eq: "len \<le> length buf \<Longrightarrow> bytewise_loop (ucast c) buf len = ucast (foldl crc_byte c (take len buf))"
proof (induction len arbitrary: c buf rule: less_induct)
  case (less len)
  show ?case
  proof (cases "8 \<le> len")
    case True
    then show ?thesis
      using less.IH [of "len - 8" "drop 8 buf" "foldl crc_byte c (take 8 buf)"] less.prems foldl_take [of crc_byte c 8 "len - 8" buf]
      by (simp add: bytewise_loop.simps [of "ucast c" buf len] do8_eq)
  next
    case False
    then show ?thesis using bytewise_rest_eq less.prems by (simp add: bytewise_loop.simps [of "ucast c" buf len])
  qed
qed

lemma crc32_eq:
  assumes "len \<le> length buf"
  shows "crc32 build (ucast c) (Some buf) len = Some (ucast (crc_of c (take len buf)))"
proof (cases build)
  case Bytewise
  have n: "ucast c XOR (0xffffffff :: ulong) = ucast (NOT c)" for c :: u4
  proof -
    have "(0xffffffff :: ulong) = mask 32" by (simp add: mask_eq_exp_minus_1)
    show ?thesis unfolding \<open>0xffffffff = mask 32\<close> by (rule bit_eqI) (auto simp: bit_simps dest: u4_bit)
  qed
  show ?thesis using assms bytewise_loop_eq [OF assms, of "NOT c"] by (simp add: crc32_def Bytewise n)
next
  case (Little addr)
  have "foldl lit_byte x bs = foldl crc_byte x bs" for x bs by (induction bs arbitrary: x) (simp_all add: lit_byte_eq)
  then show ?thesis
    using assms little.crc_words_foldl [OF assms] by (simp add: crc32_def Little crc32_little_def ucast_ulong)
next
  case (Big addr)
  have "REV (NOT (foldl big_byte (NOT (REV c)) bs)) = crc_of c bs" for bs
    by (simp only: REV_simps(2) [symmetric] foldl_big REV_simps(3))
  then show ?thesis
    using assms big.crc_words_foldl [OF assms] by (simp add: crc32_def Big crc32_big_def ucast_ulong)
qed

section \<open>Combining\<close>

lemma foldl_crc_split: "foldl crc_byte c bs = crc_steps (8 * length bs) c XOR foldl crc_byte 0 bs"
proof (induction bs arbitrary: c)
  case (Cons b bs)
  have "crc_byte c b = crc_steps 8 c XOR crc_byte 0 b" by (simp add: crc_byte_def crc_steps_xor)
  then show ?case
    using Cons.IH [of "crc_byte c b"] Cons.IH [of "crc_byte 0 b"]
    by (simp add: crc_steps_xor crc_steps_add [symmetric] ac_simps)
qed simp

text \<open>A matrix stands for the linear function whose values on the powers of two are its rows.\<close>

definition matrix :: "(u4 \<Rightarrow> u4) \<Rightarrow> nat \<Rightarrow> ulong list" where
  "matrix h j = map (\<lambda>i. ucast (h (push_bit i 1))) [j..<32]"

declare gf2_loop.simps [simp del]

lemma gf2_loop_matrix:
  assumes lin: "\<And>a b. h (a XOR b) = h a XOR h b" and j: "j \<le> 32"
  shows "gf2_loop acc (matrix h j) (ucast (drop_bit j v)) = Some (acc XOR ucast (h (push_bit j (drop_bit j v))))"
  using j
proof (induction "32 - j" arbitrary: j acc)
  case 0
  then have "drop_bit j v = 0" by (intro bit_eqI) (auto simp: bit_simps dest: u4_bit)
  moreover have "h 0 = 0" using lin [of 0 0] by simp
  ultimately show ?case by (simp add: gf2_loop.simps [of acc])
next
  case (Suc n)
  have z: "h 0 = 0" using lin [of 0 0] by simp
  show ?case
  proof (cases "drop_bit j v = 0")
    case True
    then show ?thesis by (simp add: z gf2_loop.simps [of acc])
  next
    case False
    then have nz: "(ucast (drop_bit j v) :: ulong) \<noteq> 0" using ucast_ulong [of "drop_bit j v"] by force
    have m: "matrix h j = ucast (h (push_bit j 1)) # matrix h (Suc j)" using Suc.hyps(2) by (simp add: matrix_def upt_conv_Cons)
    have o: "ucast (drop_bit j v) AND (1 :: ulong) \<noteq> 0 \<longleftrightarrow> bit v j"
    proof -
      have "odd (ucast (drop_bit j v) :: ulong) \<longleftrightarrow> bit v j" unfolding bit_0 [symmetric] by (simp add: bit_simps del: bit_0)
      then show ?thesis by (simp add: and_one_eq flip: odd_iff_mod_2_eq_one)
    qed
    have d: "drop_bit 1 (ucast (drop_bit j v) :: ulong) = ucast (drop_bit (Suc j) v)"
      by (rule bit_eqI) (auto simp: bit_simps dest: u4_bit)
    have "push_bit j (drop_bit j v) = (if bit v j then push_bit j 1 else 0) XOR push_bit (Suc j) (drop_bit (Suc j) v)"
    proof (rule bit_eqI)
      fix i :: nat
      consider "i < j" | "i = j" | "j < i" by linarith
      then show "bit (push_bit j (drop_bit j v)) i = bit ((if bit v j then push_bit j 1 else 0) XOR push_bit (Suc j) (drop_bit (Suc j) v)) i"
        by cases (auto simp: bit_simps dest: u4_bit simp del: push_bit_Suc)
    qed
    then have s: "h (push_bit j (drop_bit j v)) = (if bit v j then h (push_bit j 1) else 0) XOR h (push_bit (Suc j) (drop_bit (Suc j) v))"
      by (simp add: lin z)
    have IH: "gf2_loop acc' (matrix h (Suc j)) (ucast (drop_bit (Suc j) v)) = Some (acc' XOR ucast (h (push_bit (Suc j) (drop_bit (Suc j) v))))" for acc'
      using Suc.hyps(1) [of "Suc j" acc'] Suc.hyps(2) by simp
    show ?thesis
    proof (cases "bit v j")
      case True
      then have "gf2_loop acc (matrix h j) (ucast (drop_bit j v)) = gf2_loop (acc XOR ucast (h (push_bit j 1))) (matrix h (Suc j)) (ucast (drop_bit (Suc j) v))"
        using nz o d by (subst gf2_loop.simps) (simp add: m)
      then show ?thesis unfolding IH s using True by (simp only: if_True xor.assoc xor_ucast)
    next
      case False
      then have "gf2_loop acc (matrix h j) (ucast (drop_bit j v)) = gf2_loop acc (matrix h (Suc j)) (ucast (drop_bit (Suc j) v))"
        using nz o d by (subst gf2_loop.simps) (simp add: m)
      then show ?thesis unfolding IH s using False by simp
    qed
  qed
qed

lemma gf2_matrix_times_eq:
  assumes "\<And>a b. h (a XOR b) = h a XOR h b"
  shows "gf2_matrix_times (matrix h 0) (ucast v) = Some (ucast (h v))"
  using gf2_loop_matrix [OF assms, of 0 0 v] by (simp add: gf2_matrix_times_def)

lemma gf2_matrix_square_eq:
  assumes lin: "\<And>a b. h (a XOR b) = h a XOR h b"
  shows "gf2_matrix_square (matrix h 0) = Some (matrix (\<lambda>x. h (h x)) 0)"
proof -
  have "gf2_square_loop (matrix h 0) (map (\<lambda>i. ucast (h (push_bit i 1))) is) = Some (map (\<lambda>i. ucast (h (h (push_bit i 1)))) is)" for "is"
    by (induction "is") (simp_all add: gf2_matrix_times_eq [of h, OF lin])
  then show ?thesis by (simp add: gf2_matrix_square_def) (simp add: matrix_def)
qed

abbreviation zeros :: "nat \<Rightarrow> ulong list" where
  "zeros n \<equiv> matrix (crc_steps n) 0"

lemma zeros_simps: "gf2_matrix_times (zeros n) (ucast v) = Some (ucast (crc_steps n v))" "gf2_matrix_square (zeros n) = Some (zeros (2 * n))"
proof -
  show "gf2_matrix_times (zeros n) (ucast v) = Some (ucast (crc_steps n v))" by (rule gf2_matrix_times_eq) (rule crc_steps_xor)
  have "(\<lambda>x. crc_steps n (crc_steps n x)) = crc_steps (2 * n)" by (simp add: fun_eq_iff crc_steps_add [symmetric] mult_2)
  then show "gf2_matrix_square (zeros n) = Some (zeros (2 * n))" using gf2_matrix_square_eq [of "crc_steps n"] crc_steps_xor by simp
qed

lemma odd_rows_eq: "odd_rows (push_bit j 1) n = map (\<lambda>i. push_bit i 1) [j..<j + n]"
proof (induction n arbitrary: j)
  case (Suc n)
  have "push_bit 1 (push_bit j 1) = (push_bit (Suc j) 1 :: ulong)" unfolding push_bit_push_bit by simp
  moreover have "[j..<j + Suc n] = j # [Suc j..<Suc j + n]" by (simp add: upt_conv_Cons)
  ultimately show ?case by (simp only: odd_rows.simps Suc list.map)
qed simp

lemma odd_rows_zeros: "0xedb88320 # odd_rows 1 31 = zeros 1"
proof -
  have s: "crc_step (push_bit (Suc i) 1) = push_bit i 1" if "i < 31" for i
  proof -
    have "\<not> bit (push_bit (Suc i) 1 :: u4) 0" by (simp add: bit_simps del: bit_0)
    moreover have "drop_bit 1 (push_bit (Suc i) 1 :: u4) = push_bit i 1" using that by (intro bit_eqI) (auto simp: bit_simps)
    ultimately show ?thesis by (simp add: crc_step_def)
  qed
  have u: "(ucast (push_bit i 1 :: u4) :: ulong) = push_bit i 1" if "i < 32" for i
    using that by (intro bit_eqI) (auto simp: bit_simps)
  have "[0..<32] = 0 # map Suc [0..<31]" using map_Suc_upt [of 0 31] upt_conv_Cons [of 0 32] by simp
  then have "zeros 1 = ucast (crc_step 1) # map (\<lambda>i. ucast (crc_step (push_bit (Suc i) 1))) [0..<31]"
    by (simp add: matrix_def comp_def del: push_bit_Suc)
  also have "\<dots> = 0xedb88320 # map (\<lambda>i. push_bit i 1) [0..<31]"
    using s u by (simp add: crc_step_def del: push_bit_Suc)
  also have "\<dots> = 0xedb88320 # odd_rows 1 31" using odd_rows_eq [of 0 31] by simp
  finally show ?thesis by (rule sym)
qed

declare combine_loop.simps [simp del]

lemma combine_loop_eq: "combine_loop (ucast c) (zeros n) len = Some (ucast (crc_steps (2 * n * len) c))"
proof (induction len arbitrary: c n rule: less_induct)
  case (less len)
  define c1 where "c1 = (if len mod 2 \<noteq> 0 then crc_steps (2 * n) c else c)"
  define c2 where "c2 = (if len div 2 mod 2 \<noteq> 0 then crc_steps (4 * n) c1 else c1)"
  have c1: "c1 = crc_steps (2 * n * (len mod 2)) c" by (cases "len mod 2 = 0") (auto simp: c1_def)
  have c2: "c2 = crc_steps (4 * n * (len div 2 mod 2)) c1" by (cases "len div 2 mod 2 = 0") (auto simp: c2_def)
  have t1: "(if len mod 2 \<noteq> 0 then gf2_matrix_times (zeros (2 * n)) (ucast c) else Some (ucast c)) = Some (ucast c1)"
    by (simp add: c1_def zeros_simps)
  have t2: "(if len div 2 mod 2 \<noteq> 0 then gf2_matrix_times (zeros (4 * n)) (ucast c1) else Some (ucast c1)) = Some (ucast c2)"
    by (simp add: c2_def zeros_simps)
  have sq: "gf2_matrix_square (zeros n) = Some (zeros (2 * n))" "gf2_matrix_square (zeros (2 * n)) = Some (zeros (4 * n))"
    by (simp_all add: zeros_simps)
  have u: "combine_loop (ucast c) (zeros n) len =
      (if len div 2 = 0 then Some (ucast c1) else if len div 2 div 2 = 0 then Some (ucast c2) else combine_loop (ucast c2) (zeros (4 * n)) (len div 2 div 2))"
    unfolding combine_loop.simps [of "ucast c" "zeros n"] sq(1) bind.bind_lunit t1 Let_def sq(2) t2 by simp
  show ?case
  proof (cases "len div 2 = 0")
    case True
    then have "len mod 2 = len" by simp
    then show ?thesis unfolding u using True c1 by simp
  next
    case False
    have l: "len = len mod 2 + 2 * (len div 2 mod 2) + 4 * (len div 2 div 2)" by presburger
    have e: "crc_steps (8 * n * (len div 2 div 2)) c2 = crc_steps (2 * n * len) c"
    proof -
      have "2 * n * len = 2 * n * (len mod 2 + 2 * (len div 2 mod 2) + 4 * (len div 2 div 2))" using l by (rule arg_cong)
      then have "8 * n * (len div 2 div 2) + (4 * n * (len div 2 mod 2) + 2 * n * (len mod 2)) = 2 * n * len"
        by (simp add: algebra_simps)
      then show ?thesis unfolding c2 c1 crc_steps_add [symmetric] by (rule arg_cong)
    qed
    show ?thesis
    proof (cases "len div 2 div 2 = 0")
      case True
      then show ?thesis unfolding u using False e by simp
    next
      case nz: False
      have "len div 2 div 2 < len" using False by simp
      from less.IH [OF this, of c2 "4 * n"] show ?thesis unfolding u if_not_P [OF False] if_not_P [OF nz] using e by simp
    qed
  qed
qed

lemma crc32_combine_eq: "crc32_combine (ucast c1) (ucast c2) len = Some (ucast (crc_steps (8 * len) c1 XOR (if len = 0 then 0 else c2)))"
proof (cases "len = 0")
  case False
  have "crc32_combine (ucast c1) (ucast c2) len = Option.bind (combine_loop (ucast c1) (zeros 4) len) (\<lambda>c. Some (c XOR ucast c2))"
    using False unfolding crc32_combine_def odd_rows_zeros Let_def zeros_simps bind.bind_lunit by simp
  then show ?thesis using False combine_loop_eq [of c1 4 len] by (simp add: xor_ucast)
qed (simp add: crc32_combine_def)

lemma crc_of_append: "crc_of c (xs @ ys) = crc_steps (8 * length ys) (crc_of c xs) XOR crc_of 0 ys"
proof -
  define x where "x = foldl crc_byte (NOT c) xs"
  have "crc_of c (xs @ ys) = NOT (crc_steps (8 * length ys) x XOR foldl crc_byte 0 ys)"
    using foldl_crc_split [of x ys] by (simp add: x_def)
  also have "\<dots> = crc_steps (8 * length ys) (NOT x) XOR crc_of 0 ys"
  proof -
    have "NOT x = x XOR NOT 0" by simp
    then have "crc_steps (8 * length ys) (NOT x) = crc_steps (8 * length ys) x XOR crc_steps (8 * length ys) (NOT 0)"
      by (simp only: crc_steps_xor)
    moreover have "crc_of 0 ys = NOT (crc_steps (8 * length ys) (NOT 0) XOR foldl crc_byte 0 ys)" using foldl_crc_split [of "NOT 0" ys] by simp
    ultimately show ?thesis by (auto intro!: bit_eqI simp: bit_simps)
  qed
  finally show ?thesis by (simp add: x_def)
qed

section \<open>Bursts\<close>

lemma crc_step_inj: "crc_step c = 0 \<Longrightarrow> c = 0"
proof -
  assume c: "crc_step c = 0"
  show "c = 0"
  proof (cases "bit c 0")
    case True
    then have "drop_bit 1 c = 0xedb88320 XOR crc_step c" by (simp add: crc_step_def flip: xor.assoc)
    then have "drop_bit 1 c = 0xedb88320" using c by simp
    then have "bit (drop_bit 1 c) 31 = bit (0xedb88320 :: u4) 31" by (rule arg_cong)
    then show ?thesis using u4_bit [of c 32] by (simp add: bit_drop_bit_eq)
  next
    case False
    then have d: "drop_bit 1 c = 0" using c by (simp add: crc_step_def)
    have "\<not> bit c i" for i
    proof (cases i)
      case (Suc j)
      then show ?thesis using arg_cong [OF d, of "\<lambda>x. bit x j"] by (simp add: bit_drop_bit_eq)
    qed (use False in simp)
    then show ?thesis by (intro bit_eqI) simp
  qed
qed

lemma xor_cancel: "a XOR c = b XOR c \<longleftrightarrow> a = b" "c XOR a = c XOR b \<longleftrightarrow> a = b" for a b c :: "'a::len word"
  by (metis xor.assoc xor.commute xor_self_eq xor.right_neutral)+

lemma crc_steps_inj: "crc_steps n a = crc_steps n b \<Longrightarrow> a = b"
proof -
  have z: "crc_steps n c = 0 \<Longrightarrow> c = 0" for c by (induction n) (auto dest: crc_step_inj)
  assume "crc_steps n a = crc_steps n b"
  then have "crc_steps n (a XOR b) = 0" by (simp add: crc_steps_xor)
  then have "a XOR b = b XOR b" using z by simp
  then show "a = b" by (simp only: xor_cancel)
qed

lemma foldl_crc_inj: "foldl crc_byte a bs = foldl crc_byte b bs \<Longrightarrow> a = b"
  using foldl_crc_split [of a bs] foldl_crc_split [of b bs] crc_steps_inj by (auto simp: xor_cancel)

fun window :: "byte list \<Rightarrow> u4" where
  "window [] = 0"
| "window (b # bs) = ucast b XOR push_bit 8 (window bs)"

lemma window_bit: "bit (window bs) i \<Longrightarrow> i < 8 * length bs"
proof (induction bs arbitrary: i)
  case (Cons b bs)
  show ?case
  proof (cases "i < 8")
    case False
    then have "bit (window bs) (i - 8)" using Cons.prems bit_imp_le_length [of b i] by (auto simp: bit_simps)
    then show ?thesis using Cons.IH [of "i - 8"] by simp
  qed simp
qed simp

lemma window_inj: "length as = length bs \<Longrightarrow> length as \<le> 4 \<Longrightarrow> window as = window bs \<Longrightarrow> as = bs"
proof (induction as bs rule: list_induct2)
  case (Cons a as b bs)
  have e: "bit (window (a # as)) i = bit (window (b # bs)) i" for i using Cons.prems(2) by simp
  have "bit a i = bit b i" for i
    using e [of i] bit_imp_le_length [of a i] bit_imp_le_length [of b i] by (cases "i < 8") (auto simp: bit_simps)
  then have "a = b" by (intro bit_eqI)
  moreover have "bit (window as) i = bit (window bs) i" for i
  proof (cases "i < 24")
    case True
    then show ?thesis using e [of "i + 8"] bit_imp_le_length [of a "i + 8"] bit_imp_le_length [of b "i + 8"] by (auto simp: bit_simps)
  next
    case False
    then show ?thesis using window_bit [of as i] window_bit [of bs i] Cons.hyps Cons.prems(1) by auto
  qed
  then have "window as = window bs" by (intro bit_eqI)
  ultimately show ?case using Cons by simp
qed simp

lemma foldl_window: "length bs \<le> 4 \<Longrightarrow> foldl crc_byte c bs = crc_steps (8 * length bs) (c XOR window bs)"
proof (induction bs arbitrary: c)
  case (Cons b bs)
  have "take_bit 24 (window bs) = window bs"
    using window_bit [of bs] Cons.prems by (intro bit_eqI) (fastforce simp: bit_simps)
  then have w: "crc_steps 8 (push_bit 8 (window bs)) = window bs" using crc_steps_push [of 8 "window bs"] by simp
  have "foldl crc_byte c (b # bs) = crc_steps (8 * length bs) (crc_byte c b XOR crc_steps 8 (push_bit 8 (window bs)))"
    using Cons.IH [of "crc_byte c b"] Cons.prems by (simp add: w)
  also have "crc_byte c b XOR crc_steps 8 (push_bit 8 (window bs)) = crc_steps 8 (c XOR window (b # bs))"
    by (simp add: crc_byte_def crc_steps_xor xor.assoc)
  moreover have "8 * length (b # bs) = 8 * length bs + 8" by simp
  ultimately show ?case by (simp only: crc_steps_add)
qed simp

section \<open>Properties\<close>

definition crc_valid :: "ulong \<Rightarrow> bool" where
  "crc_valid c \<longleftrightarrow> (\<exists>x :: u4. c = ucast x)"

interpretation crc: piecewise crc_valid "\<lambda>c bs. the (crc32 build c (Some bs) (length bs))" for build
proof
  fix c xs ys assume "crc_valid c"
  then obtain x :: u4 where x: "c = ucast x" by (auto simp: crc_valid_def)
  show "crc_valid (the (crc32 build c (Some xs) (length xs)))"
    "the (crc32 build c (Some (xs @ ys)) (length (xs @ ys))) = the (crc32 build (the (crc32 build c (Some xs) (length xs))) (Some ys) (length ys))"
    "the (crc32 build c (Some []) (length [])) = c"
    by (auto simp: x crc32_eq crc_valid_def)
qed

text \<open>C21: Every build of \<open>crc32\<close>, over bytes or over words of either byte order and with any alignment of the buffer, computes what the
  shift register computes bit by bit; it can be computed piece by piece, and without a buffer it is 0.\<close>

theorem crc32_bitwise:
  assumes "len \<le> length buf"
  shows "crc32 build (ucast (c :: u4)) (Some buf) len = Some (ucast (NOT (foldl (\<lambda>c b. (crc_step ^^ 8) (c XOR ucast b)) (NOT c) (take len buf)))) \<and>
    foldl (\<lambda>c bs. the (crc32 build c (Some bs) (length bs))) (ucast c) bss = the (crc32 build' (ucast c) (Some (concat bss)) (length (concat bss))) \<and>
    crc32 build v None len = Some 0"
proof -
  have b: "(\<lambda>c b. (crc_step ^^ 8) (c XOR ucast b)) = crc_byte" by (simp add: fun_eq_iff crc_byte_def)
  have "foldl (\<lambda>c bs. the (crc32 build c (Some bs) (length bs))) (ucast c) bss = the (crc32 build (ucast c) (Some (concat bss)) (length (concat bss)))"
    using crc.pieces [of "ucast c" build bss] by (auto simp: crc_valid_def)
  also have "\<dots> = the (crc32 build' (ucast c) (Some (concat bss)) (length (concat bss)))" by (simp only: crc32_eq [OF order_refl])
  finally show ?thesis using crc32_eq [OF assms, of build c] unfolding b by (simp add: crc32_def)
qed

theorem crc32_bitwise_witness: "crc32 (Little 3) 0 (Some [0x61]) 1 = crc32 (Big 2) 0 (Some [0x61]) 1"
  using crc32_bitwise [of 1 "[0x61]" "Little 3" 0 "[]" Bytewise 0] crc32_bitwise [of 1 "[0x61]" "Big 2" 0 "[]" Bytewise 0] by simp

text \<open>C22: \<open>crc32_combine\<close> of the checksums of two blocks of bytes is the checksum of both together.\<close>

theorem crc32_combine_appends:
  "\<exists>c. crc32 build (ucast (c0 :: u4)) (Some (xs @ ys)) (length (xs @ ys)) = Some c \<and>
    crc32_combine (the (crc32 build (ucast c0) (Some xs) (length xs))) (the (crc32 build' 0 (Some ys) (length ys))) (length ys) = Some c"
proof -
  have z: "(0 :: ulong) = ucast (0 :: u4)" by simp
  have "crc32_combine (ucast (crc_of c0 xs)) (ucast (crc_of 0 ys)) (length ys) = Some (ucast (crc_of c0 (xs @ ys)))"
    unfolding crc32_combine_eq crc_of_append by simp
  then show ?thesis unfolding z crc32_eq [OF order_refl] by (simp del: foldl_append)
qed

text \<open>C23: The tables of \<open>crc32.h\<close> are those of \<open>make_crc_table\<close>: row \<open>k\<close> has the bytes after \<open>8 * (k + 1)\<close> steps of the shift register, and
  the last four rows have them reversed.\<close>

theorem crc32_tables:
  "get_crc_table = make_crc_table \<and>
   make_crc_table = map (\<lambda>k. map (\<lambda>n. ucast ((crc_step ^^ (8 * (k + 1))) (of_nat n))) [0..<256]) [0, 1, 2, 3] @
     map (\<lambda>k. map (\<lambda>n. ucast (REV ((crc_step ^^ (8 * (k + 1))) (of_nat n)))) [0..<256]) [0, 1, 2, 3]"
proof -
  have "crc_row k = (\<lambda>n. ucast ((crc_step ^^ (8 * (k + 1))) (of_nat n)))" for k
    by (rule ext) (simp only: crc_row_def Suc_eq_plus1)
  then show ?thesis by (simp only: get_crc_table_def crc_table_generated make_crc_table_rows REV_ucast)
qed

text \<open>Two buffers that differ within four bytes have different checksums.\<close>

theorem crc32_detects_burst:
  assumes "length as = length bs" "length as \<le> 4" "as \<noteq> bs"
  shows "crc32 build (ucast (c :: u4)) (Some (xs @ as @ ys)) (length (xs @ as @ ys)) \<noteq> crc32 build (ucast c) (Some (xs @ bs @ ys)) (length (xs @ bs @ ys))"
proof
  assume "crc32 build (ucast c) (Some (xs @ as @ ys)) (length (xs @ as @ ys)) = crc32 build (ucast c) (Some (xs @ bs @ ys)) (length (xs @ bs @ ys))"
  then have "ucast (crc_of c (xs @ as @ ys)) = (ucast (crc_of c (xs @ bs @ ys)) :: ulong)" unfolding crc32_eq [OF order_refl] by simp
  then have "crc_of c (xs @ as @ ys) = crc_of c (xs @ bs @ ys)" using ucast_ulong by metis
  then have "foldl crc_byte (foldl crc_byte (NOT c) xs) as = foldl crc_byte (foldl crc_byte (NOT c) xs) bs"
    using foldl_crc_inj by (auto simp: bit.compl_eq_compl_iff)
  then have "window as = window bs"
    using assms(1,2) crc_steps_inj by (auto simp: foldl_window dest: xor_cancel(2) [THEN iffD1])
  then show False using window_inj assms by blast
qed

theorem crc32_detects_burst_witness: "crc32 Bytewise 0 (Some [1, 2]) 2 \<noteq> crc32 Bytewise 0 (Some [1, 3]) 2"
  using crc32_detects_burst [of "[2]" "[3]" Bytewise 0 "[1]" "[]"] by (simp add: numeral_2_eq_2)

end
