(* ===== verification/Spec2Isabelle.thy ===== *)
theory Spec2Isabelle
  imports AprTableOverlap AprHashCorrect AprPalloc AprPoolTree AprNumbers AprFnmatch AprBase64 AprQueueCorrect ExpatGrammar
    AprRmmCorrect AprStrmatch AprNatcmp AprTokenize ZlibAdler ZlibCrcCorrect
begin

text \<open>
  \<^bold>\<open>Verification of the native sources of the BPEL engine.\<close>

  The C code of this repository is under \<open>src/bpel/native/srclib\<close>: the Apache Portable Runtime (APR 1.3.8), its companion
  APR-util 1.3.9 with the expat XML parser, Tomcat's native connector and the libraries they link against. The development
  models the pools, data structures and text functions of APR, the threaded queue, the relocatable memory, the string search and the
  base 64 code of APR-util, the state machine with which expat reads the prolog of a document, and the checksums of zlib.

  \<^bold>\<open>Parts and theories.\<close>

  \<^item> \<open>Prelude\<close>: the C types as HOL types. A \<open>char\<close> is a byte (\<open>8 word\<close>), \<open>unsigned int\<close> is \<open>32 word\<close>; a NUL-terminated string
    is the list of the bytes before the NUL, and \<open>cget s i\<close> reads the byte at \<open>i\<close>, the NUL included. Memory is a list of
    slots that are \<open>None\<close> until they are written; \<open>mem_write\<close> outside a block is an error, so that a theorem that a function
    returns \<open>Some\<close> says that it stays inside its blocks. \<open>swrap\<close> is the wrap-around of signed integers.
  \<^item> \<open>Interfaces\<close>: the contracts as locales. \<open>seq_store\<close> (arrays), \<open>bounded_store\<close> and \<open>keyed_store\<close> (tables and hash tables),
    \<open>bounded_fifo\<close> (the queue), \<open>allocator\<close> (relocatable memory), \<open>node_source\<close> (the allocator of
    the pools), \<open>piecewise\<close> (the checksums). Each is interpreted on the
    model's own operations in the theory of the component.
  \<^item> \<open>AprArray\<close>: \<open>apr_array_header_t\<close> of \<open>tables/apr_tables.c\<close>: a block of \<open>nalloc\<close> slots of which \<open>nelts\<close> are in use. Growth,
    push, pop, concatenation, copies (also the lazy ones) and \<open>apr_array_pstrcat\<close>.
  \<^item> \<open>AprStrings\<close>: \<open>strings/apr_strings.c\<close>, \<open>apr_cpystrn.c\<close>, \<open>apr_strtok.c\<close>: duplication, concatenation in two passes with the array of
    saved lengths, bounded copy, tokens, removal of white space.
  \<^item> \<open>AprTable\<close>: \<open>apr_table_t\<close> of \<open>tables/apr_tables.c\<close>: an array of entries, an index of first and last positions by the first
    character of the key, a checksum per entry; all its operations. \<open>AprTableCorrect\<close>: the invariant of index and checksums, and the
    refinement of a plain list of entries. \<open>AprTableOverlap\<close>: the merge sort, \<open>apr_table_compress\<close> and \<open>apr_table_overlap\<close>
    against the loop of calls that the header file documents, and \<open>apr_table_vdo\<close>.
  \<^item> \<open>AprHash\<close>, \<open>AprHashCorrect\<close>: \<open>tables/apr_hash.c\<close>: chains by the masked hash, growth, deletion during iteration, merge.
    The hash function of a custom table is an argument.
  \<^item> \<open>AprNumbers\<close>: numbers and text in \<open>apr_strings.c\<close>: \<open>apr_strtoi64\<close>, \<open>apr_atoi64\<close>, \<open>apr_itoa\<close>, \<open>apr_ltoa\<close>, \<open>apr_off_t_toa\<close>, \<open>apr_strfsize\<close>.
  \<^item> \<open>AprFnmatch\<close>: \<open>strings/apr_fnmatch.c\<close>: patterns for file names and the names of a directory that match one. The directory is an
    argument.
  \<^item> \<open>AprBase64\<close>: \<open>encoding/apr_base64.c\<close> of APR-util.
  \<^item> \<open>AprQueue\<close>, \<open>AprQueueCorrect\<close>: \<open>misc/apr_queue.c\<close> of APR-util, used by any number of threads. A step of the transition
    system is a critical section of the mutex, or a read of \<open>terminated\<close> outside it, or a spurious wake-up.
  \<^item> \<open>AprTokenize\<close>: \<open>apr_tokenize_to_argv\<close> of \<open>strings/apr_cpystrn.c\<close>: a command line is split in two passes, one that counts the
    arguments and one that copies them. \<open>AprNatcmp\<close>: the natural order of \<open>strings/apr_strnatcmp.c\<close>. \<open>AprStrmatch\<close>: the search of
    \<open>strmatch/apr_strmatch.c\<close> of APR-util, with its table of shifts.
  \<^item> \<open>AprRmm\<close>, \<open>AprRmmLists\<close>, \<open>AprRmmCorrect\<close>: \<open>misc/apr_rmm.c\<close> of APR-util, an allocator that keeps the lists of its free and its used
    blocks inside the region it manages: the operations, the lists as segments between offsets, and what the operations do to the
    row of blocks that fills the region.
  \<^item> \<open>AprAllocator\<close>, \<open>AprAllocatorCorrect\<close>: the allocator of \<open>memory/unix/apr_pools.c\<close>: nodes of memory on lists by their size, a limit
    on what is kept. \<open>malloc\<close> is an argument, and the nodes given back to the system are part of the result. \<open>AprPools\<close>: the pools of
    that file: allocation from a ring of nodes, creation, clearing, destruction, cleanups, properties. \<open>AprPalloc\<close>: what allocations
    from one pool give. \<open>AprPoolTree\<close>: creating, clearing and destroying pools in the tree of pools.
  \<^item> \<open>ZlibAdler\<close>: \<open>adler32.c\<close> of zlib. \<open>ZlibCrcTables\<close>, \<open>ZlibCrc\<close>, \<open>ZlibCrcSteps\<close>, \<open>ZlibCrcHeader\<close>, \<open>ZlibCrcCorrect\<close>: \<open>crc32.c\<close> and the
    tables of \<open>crc32.h\<close>: the tables, the loops over bytes and over words of either byte order, the steps of the shift register,
    the comparison of the tables with the code that makes them, and the correctness of the loops and of combining.
  \<^item> \<open>ExpatRole\<close>, \<open>ExpatRoleCorrect\<close>, \<open>ExpatGrammar\<close>: \<open>xml/expat/lib/xmlrole.c\<close>: every handler, the dispatch, and the comparison of
    names with keywords in the three kinds of encodings (\<open>xmltok.c\<close>, \<open>xmltok_impl.c\<close>).

  The components interact as in the code: tables and \<open>apr_array_pstrcat\<close> stand on the arrays, tables and strings on the
  concatenation of \<open>AprStrings\<close>, the arguments of a command line are copied by \<open>apr_cpystrn\<close>, and all of them stand on the
  memory of \<open>Prelude\<close>. Pools take their nodes from the allocator and return them to it.

  \<^bold>\<open>What is shown.\<close>

  \<^item> Tables: any sequence of operations keeps index and checksums exact and does what the operations on the plain list do
    (refinement), as long as the sizes stay within \<open>int\<close>, which holds up to a stated number of operations; keys are equal up to case and
    obey the laws of a keyed store; \<open>apr_table_overlap\<close> is the documented loop, for the documented flags, when the
    first table has no duplicate keys, and is not when it has (a finding); the sort is stable.
  \<^item> Hash tables: invariant, laws of a store (also across growth), complete iteration, clearing while iterating, merge.
  \<^item> Arrays and strings: exact contents and no write outside a block.
  \<^item> Numbers: round trip of printing and reading over the 64 bit range, decimal representation, and two faults at the limits: the numbers
    for which \<open>apr_strtoi64\<close> misses an overflow are given exactly, up to \<open>2 ^ 64 + 2 ^ 63\<close>.
  \<^item> Patterns: matching is membership in what the header file says a pattern stands for, for every string and every pattern
    without the classes \<open>[!]\<close> and \<open>[^]\<close>, on which header and code differ (a finding), without \<open>APR_FNM_PERIOD\<close>;
    what that flag excludes, and where it does not (a finding).
  \<^item> Base 64: round trip for all lengths whose \<open>int\<close> computations do not overflow, and safety of decoding for every text.
  \<^item> Queue: first in first out and within capacity under any interleaving and any failure of the thread library; each section
    refines the operation of a bounded list; no lost wake-up and no thread left asleep after termination, as long as the
    thread library does not fail and there are fewer than \<open>2 ^ 32\<close> threads (the width of the counters).
  \<^item> Prolog state machine: at the level of tokens, the entity, notation and attribute list declarations it accepts are those of the
    XML grammar; so are the element declarations, but that the machine leaves the mixing of \<open>,\<close> and \<open>|\<close> in a group unchecked, as the
    code says: it accepts the declarations of the grammar and such as become one when every connector is read as a
    comma. Groups nest properly and the level counter does not wrap; errors are final; white space is insignificant.

  \<^item> Command lines: the two passes agree on every string and stay inside the blocks; quoting arguments and splitting the line
    gives them back. Natural order: numbers without leading zeros compare by value, others digit by digit (a finding). Search: the leftmost occurrence, for every pattern and text.
  \<^item> Relocatable memory: any sequence of requests and returns from a new region keeps both lists sorted and complete, the blocks
    side by side and the regions of the callers apart; the first of the best fitting blocks is taken, joining of free neighbours, and where reallocation reads too far
    (a finding).
  \<^item> Allocator and pools: the first of the smallest free nodes that fit is taken, and of the large ones the first that fits, when no
    other does; in any run of requests and returns no node overlaps another or is lost;
    the limit on free memory, which can be exceeded twofold, and goes wrong when it is lowered (findings). Allocations from a
    pool use the active node, else the one with the most room behind it, else the allocator, never meet an index that has not been set, and the blocks are aligned and apart. Creating a pool puts it in front of its
    siblings; clearing and destroying end, remove exactly the pools below, run all cleanups in order, and keep or free each node once.
  \<^item> Checksums: every build and every path computes the sums, or the shift register, of the definition, without overflow; the
    tables are those the code makes; combining, and where it leaves a sum unreduced (a finding).

  \<^bold>\<open>Bounds and loops.\<close> Loops are recursive functions with a measure, or partial functions (the lists of the relocatable memory
  and the tree of pools, where a wild link may lead into a cycle, and the search, which a shift of zero would stop), of which it is proved that they
  return; none needs fuel. Bounds in hypotheses are the widths of the C types: \<open>2 ^ 31\<close> for \<open>int\<close> lengths, \<open>2 ^ 32\<close> for unsigned
  counters, \<open>2 ^ 64\<close> for the sizes and offsets of a region. The code computes the sizes of arrays and tables, the number of arguments of a
  command line and the indexes of the natural order in \<open>int\<close>; these are numbers without bound here, and the same while they stay below
  \<open>2 ^ 31\<close> (\<open>sizes_fit\<close> of \<open>AprArray\<close>, \<open>count_args_bound\<close> of \<open>AprTokenize\<close>). What the code does beyond is not modelled.

  \<^bold>\<open>Not modelled.\<close> For the components that allocate from a pool, its memory is always there, and strings are values, so that
  sharing of blocks between a table and its overlay is not represented. A cleanup of a pool is an entry in a history and does not
  call pools itself; starting and ending the library, the debugging of pools, formatting into a pool, user data and subprocesses are
  left out. The EBCDIC branches of the base 64 code are left out. The unlock of a mutex that the thread
  holds is taken to succeed. The relocatable memory keeps the structures of the lists apart from the bytes its callers use, on a
  machine with words of eight bytes; the lengths of the combining functions are not negative, and writing the tables of the CRC to
  a file is left out. The other parts of APR and APR-util (files, sockets, processes, databases, character conversion), the
  tokenizer and the entity handling of expat, the compression of zlib, OpenSSL, APR-iconv and Tomcat's connector are not modelled:
  they are calls of the operating system, third-party code or generated tables. Candidates for extension are the formatted output
  of \<open>apr_snprintf.c\<close>, the URIs of APR-util, the character encodings of APR-iconv and the Huffman tables of zlib.
\<close>

end
